(* ===== verification/Prelude.thy ===== *)
theory Prelude
  imports Main "HOL-Library.Word"
begin

text \<open>
  Shared vocabulary of the development: the machine types of the 64-bit iOS target, the fact
  collections that the component theories fill, and the generic facts about bits of words, byte
  lists and list updates that several components use.

  Types. \<^verbatim>\<open>size_t\<close>, \<^verbatim>\<open>uint64_t\<close> and pointers are 64 bits wide on the target, \<^verbatim>\<open>uint32_t\<close> and
  \<^verbatim>\<open>unsigned\<close> are 32 bits, a byte is 8 bits. Every arithmetic operation on them is the wrapping
  operation of the library's word type, exactly as in C for unsigned operands.
\<close>

unbundle bit_operations_syntax

type_synonym byte = "8 word"
type_synonym u16 = "16 word"
type_synonym u32 = "32 word"
type_synonym u64 = "64 word"
type_synonym size_t = "64 word"
type_synonym addr = "64 word"

text \<open>The largest \<^verbatim>\<open>int\<close>, as a \<^verbatim>\<open>size_t\<close>.\<close>

definition INT_MAX :: size_t where
  "INT_MAX = 0x7fffffff"

named_theorems run_simps \<open>how an operation rewrites to its effect\<close>
named_theorems frame_simps \<open>what an operation leaves unchanged\<close>

section \<open>Bits of words\<close>

text \<open>
  Bitwise goals are proved with \<^verbatim>\<open>bit_word_eqI\<close> and the rules below. The library's \<^verbatim>\<open>bit_simps\<close> turn a
  bit of a word numeral into a bit of an integer numeral; the masks of the sources are resolved
  at that level, once for every width.
\<close>

lemmas word_bits =
  bit_and_iff bit_or_iff bit_xor_iff bit_unsigned_iff bit_push_bit_iff bit_drop_bit_eq
  bit_take_bit_iff bit_mask_iff

lemma bit_int_128 [simp]: "bit (128 :: int) n \<longleftrightarrow> n = 7"
  using bit_exp_iff [of 7 n, where 'a = int] by simp

lemma bit_int_127 [simp]: "bit (127 :: int) n \<longleftrightarrow> n < 7"
proof -
  have "(127 :: int) = mask 7"
    by (simp add: mask_eq_exp_minus_1)
  then show ?thesis
    by (simp only: bit_mask_iff) simp
qed

lemma bit_int_255 [simp]: "bit (255 :: int) n \<longleftrightarrow> n < 8"
proof -
  have "(255 :: int) = mask 8"
    by (simp add: mask_eq_exp_minus_1)
  then show ?thesis
    by (simp only: bit_mask_iff) simp
qed

lemma and_0x80_eq_0_iff: "b AND 0x80 = 0 \<longleftrightarrow> \<not> bit b 7" for b :: byte
  using and_exp_eq_0_iff_not_bit [of b 7] by simp

lemma drop_bit_eq_0_iff: "drop_bit k v = 0 \<longleftrightarrow> (\<forall>n. bit v n \<longrightarrow> n < k)" for v :: "'a::len word"
proof
  assume "drop_bit k v = 0"
  then have "\<not> bit v (k + m)" for m
    by (metis bit_0_eq bit_drop_bit_eq bot_apply comp_apply bot_bool_def)
  then show "\<forall>n. bit v n \<longrightarrow> n < k"
    by (metis le_Suc_ex not_less)
next
  assume "\<forall>n. bit v n \<longrightarrow> n < k"
  then show "drop_bit k v = 0"
    by (auto intro!: bit_word_eqI simp: word_bits)
qed

lemma drop_bit_eq_0_iff_unat: "drop_bit k v = 0 \<longleftrightarrow> unat v < 2 ^ k" for v :: "'a::len word"
proof -
  have "drop_bit k v = 0 \<longleftrightarrow> unat v div 2 ^ k = 0"
    by (metis drop_bit_eq_div unat_drop_bit_eq unsigned_eq_0_iff)
  then show ?thesis
    by (simp add: div_eq_0_iff)
qed

lemma unat_less_imp_bit_less: "unat v < 2 ^ k \<Longrightarrow> bit v n \<Longrightarrow> n < k" for v :: "'a::len word"
  by (simp flip: drop_bit_eq_0_iff_unat add: drop_bit_eq_0_iff)

lemma unat_drop_bit_less: "v \<noteq> 0 \<Longrightarrow> 0 < n \<Longrightarrow> unat (drop_bit n v) < unat v" for v :: "'a::len word"
proof -
  assume v: "v \<noteq> 0" and n: "0 < n"
  have "0 < unat v"
    using v by (simp add: unat_gt_0)
  moreover have "1 < (2::nat) ^ n"
    by (rule one_less_power) (use n in auto)
  ultimately have "unat v div 2 ^ n < unat v"
    by simp
  then show ?thesis
    by (metis drop_bit_eq_div unat_drop_bit_eq)
qed

lemma le_0x7F_iff_drop_bit: "v \<le> 0x7F \<longleftrightarrow> drop_bit 7 v = 0" for v :: u64
proof -
  have "v \<le> 0x7F \<longleftrightarrow> unat v < 2 ^ 7"
    by (simp add: word_le_nat_alt) linarith
  then show ?thesis
    by (simp only: drop_bit_eq_0_iff_unat)
qed

lemma unat_u64_less: "unat (w :: u64) < 2 ^ 64"
  using unsigned_less [of w, where 'a = nat] by simp

lemma unat_u32_less: "unat (w :: u32) < 2 ^ 32"
  using unsigned_less [of w, where 'a = nat] by simp

lemma unat_of_nat_u64: "n < 2 ^ 64 \<Longrightarrow> unat (of_nat n :: u64) = n"
  by (simp add: unat_of_nat)

lemma of_nat_u64_eq_0_iff: "n < 2 ^ 64 \<Longrightarrow> (of_nat n :: u64) = 0 \<longleftrightarrow> n = 0"
  using unat_of_nat_u64 [of n] by auto

lemma unat_drop_bit_div: "unat (drop_bit n v) = unat v div 2 ^ n" for v :: "'a::len word"
  by (metis drop_bit_eq_div unat_drop_bit_eq)

lemma word_eq_iff_upto:
  "(\<And>n. bit w n \<Longrightarrow> n < k) \<Longrightarrow> (\<And>n. bit x n \<Longrightarrow> n < k) \<Longrightarrow> w = x \<longleftrightarrow> (\<forall>n<k. bit w n = bit x n)"
  for w x :: "'a::len word"
  by (metis bit_eq_iff)

lemma byte_low_0_iff: "b AND 0x7F = 0 \<longleftrightarrow> (\<forall>n<7. \<not> bit b n)" for b :: byte
  by (subst word_eq_iff_upto [where k = 7]) (auto simp: word_bits)

lemma byte_FF_iff: "b = 0xFF \<longleftrightarrow> bit b 7 \<and> (\<forall>n<7. bit b n)" for b :: byte
proof -
  have "b = 0xFF \<longleftrightarrow> (\<forall>n<Suc 7. bit b n)"
    by (subst word_eq_iff_upto [where k = "Suc 7"]) (auto simp: word_bits dest: bit_imp_le_length)
  then show ?thesis
    by (simp only: All_less_Suc)
qed

lemma byte_0x70_iff: "b AND 0x70 = 0 \<longleftrightarrow> (\<forall>n. 4 \<le> n \<longrightarrow> n < 7 \<longrightarrow> \<not> bit b n)" for b :: byte
proof -
  have bits: "bit (0x70 :: byte) n \<longleftrightarrow> 4 \<le> n \<and> n < 7" for n
  proof -
    have "(0x70 :: byte) = push_bit 4 (mask 3)"
      by (simp add: mask_eq_exp_minus_1)
    then show ?thesis
      by (simp only: bit_push_bit_iff bit_mask_iff) auto
  qed
  show ?thesis
    by (subst word_eq_iff_upto [where k = 7]) (auto simp only: bits bit_and_iff bit_0_eq bot_fun_def bot_bool_def)
qed

lemma unat_ucast_wide:
  "LENGTH('a) \<le> LENGTH('b) \<Longrightarrow> unat (ucast w :: 'b::len word) = unat w" for w :: "'a::len word"
  by (rule bit_eqI) (auto simp: bit_unsigned_iff dest: bit_imp_le_length)

lemma unat_ucast_widths [simp]:
  "unat (ucast (w :: u32) :: u64) = unat w" "unat (ucast (x :: u16) :: u64) = unat x"
  "unat (ucast (b :: byte) :: u64) = unat b" "unat (ucast (x :: u16) :: u32) = unat x"
  "unat (ucast (b :: byte) :: u32) = unat b" "unat (ucast (b :: byte) :: u16) = unat b"
  by (simp_all add: unat_ucast_wide)

lemma ex_bool_simps [simp]: "\<exists>b. b" "\<exists>b. \<not> b"
  by auto

section \<open>Lists\<close>

lemma list_update_last: "xs \<noteq> [] \<Longrightarrow> xs[length xs - 1 := x] = butlast xs @ [x]"
  by (induction xs) (auto split: nat.splits simp: list_update_beyond)

lemma take_unat_of_nat_length [simp]:
  "length bs < 2 ^ 64 \<Longrightarrow> take (unat (of_nat (length bs) :: u64)) bs = bs"
  by (simp add: unat_of_nat)

end
