(* ===== verification/CMemory.thy ===== *)
theory CMemory
  imports Prelude
begin

text \<open>
  The C memory the codecs run on. Memory is addressed by 64-bit addresses and holds bytes; a
  multi-byte object is stored little-endian, as on the target. The state keeps two address
  spaces: \<^verbatim>\<open>mem\<close> holds message structures, extension structures, default values, the heap and the
  locals whose address is taken, and \<^verbatim>\<open>io\<close> holds the buffers that streams read from and write to. That a
  stream buffer does not overlap the message being encoded or decoded is therefore built into the
  state; everything else about aliasing (two fields, two blocks, a count inside its own array) is
  visible.

  The heap is the C library's: \<^verbatim>\<open>c_realloc\<close> and \<^verbatim>\<open>c_free\<close> keep the set of live blocks with their
  sizes; handing them a pointer that is not a live block is undefined behaviour, the value \<^verbatim>\<open>None\<close>.
  Which address the next allocation returns, or that it fails, is not determined by the
  C standard: it is read from the list \<^verbatim>\<open>allocs\<close> (\<^verbatim>\<open>None\<close> and the empty list are a failure), so that
  a theorem about every state covers every allocator.
\<close>

section \<open>Loads and stores\<close>

type_synonym memory = "addr \<Rightarrow> byte"

primrec load_bytes :: "memory \<Rightarrow> addr \<Rightarrow> nat \<Rightarrow> byte list" where
  "load_bytes m a 0 = []"
| "load_bytes m a (Suc n) = m a # load_bytes m (a + 1) n"

primrec store_bytes :: "memory \<Rightarrow> addr \<Rightarrow> byte list \<Rightarrow> memory" where
  "store_bytes m a [] = m"
| "store_bytes m a (b # bs) = store_bytes (m(a := b)) (a + 1) bs"

primrec word_of_bytes :: "byte list \<Rightarrow> 'a::len word" where
  "word_of_bytes [] = 0"
| "word_of_bytes (b # bs) = ucast b OR push_bit 8 (word_of_bytes bs)"

primrec bytes_of_word :: "nat \<Rightarrow> 'a::len word \<Rightarrow> byte list" where
  "bytes_of_word 0 w = []"
| "bytes_of_word (Suc n) w = ucast w # bytes_of_word n (drop_bit 8 w)"

definition load8 :: "memory \<Rightarrow> addr \<Rightarrow> byte" where
  "load8 m a = m a"

definition load16 :: "memory \<Rightarrow> addr \<Rightarrow> u16" where
  "load16 m a = word_of_bytes (load_bytes m a 2)"

definition load32 :: "memory \<Rightarrow> addr \<Rightarrow> u32" where
  "load32 m a = word_of_bytes (load_bytes m a 4)"

definition load64 :: "memory \<Rightarrow> addr \<Rightarrow> u64" where
  "load64 m a = word_of_bytes (load_bytes m a 8)"

definition store8 :: "memory \<Rightarrow> addr \<Rightarrow> byte \<Rightarrow> memory" where
  "store8 m a v = m(a := v)"

definition store16 :: "memory \<Rightarrow> addr \<Rightarrow> u16 \<Rightarrow> memory" where
  "store16 m a v = store_bytes m a (bytes_of_word 2 v)"

definition store32 :: "memory \<Rightarrow> addr \<Rightarrow> u32 \<Rightarrow> memory" where
  "store32 m a v = store_bytes m a (bytes_of_word 4 v)"

definition store64 :: "memory \<Rightarrow> addr \<Rightarrow> u64 \<Rightarrow> memory" where
  "store64 m a v = store_bytes m a (bytes_of_word 8 v)"

section \<open>The state\<close>

record 'u cstate =
  mem :: memory
  io :: memory
  blocks :: "addr \<Rightarrow> nat option"
  allocs :: "addr option list"
  sp :: addr
  usr :: 'u

definition upd_mem :: "(memory \<Rightarrow> memory) \<Rightarrow> 'u cstate \<Rightarrow> 'u cstate" where
  "upd_mem f st = st\<lparr>mem := f (mem st)\<rparr>"

definition upd_io :: "(memory \<Rightarrow> memory) \<Rightarrow> 'u cstate \<Rightarrow> 'u cstate" where
  "upd_io f st = st\<lparr>io := f (io st)\<rparr>"

definition c_realloc :: "addr \<Rightarrow> size_t \<Rightarrow> 'u cstate \<Rightarrow> (addr \<times> 'u cstate) option" where
  "c_realloc p n st =
     (if p \<noteq> 0 \<and> blocks st p = None then None
      else (case allocs st of
          [] \<Rightarrow> Some (0, st)
        | None # os \<Rightarrow> Some (0, st\<lparr>allocs := os\<rparr>)
        | Some a # os \<Rightarrow>
            (let old = (case blocks st p of None \<Rightarrow> [] | Some k \<Rightarrow> load_bytes (mem st) p k)
             in Some (a, st\<lparr>mem := store_bytes (mem st) a (take (unat n) old),
                            blocks := (blocks st)(p := None, a := Some (unat n)),
                            allocs := os\<rparr>))))"

definition c_free :: "addr \<Rightarrow> 'u cstate \<Rightarrow> 'u cstate option" where
  "c_free p st = (if p = 0 then Some st
     else if blocks st p = None then None
     else Some (st\<lparr>blocks := (blocks st)(p := None)\<rparr>))"

definition c_memset_zero :: "addr \<Rightarrow> u32 \<Rightarrow> memory \<Rightarrow> memory" where
  "c_memset_zero p n m = store_bytes m p (replicate (unat n) 0)"

definition c_memcpy :: "addr \<Rightarrow> addr \<Rightarrow> u32 \<Rightarrow> memory \<Rightarrow> memory" where
  "c_memcpy dst src n m = store_bytes m dst (load_bytes m src (unat n))"

section \<open>Facts about loads and stores\<close>

lemma length_load_bytes [simp]: "length (load_bytes m a n) = n"
  by (induction n arbitrary: a) auto

lemma length_bytes_of_word [simp]: "length (bytes_of_word n w) = n"
  by (induction n arbitrary: w) auto

lemma load_bytes_nth: "i < n \<Longrightarrow> load_bytes m a n ! i = m (a + of_nat i)"
  by (induction n arbitrary: a i) (auto simp: nth_Cons algebra_simps split: nat.splits)

lemma load_bytes_append: "load_bytes m a (n + k) = load_bytes m a n @ load_bytes m (a + of_nat n) k"
  by (induction n arbitrary: a) (auto simp: algebra_simps)

lemma load_bytes_cong:
  "(\<And>i. i < n \<Longrightarrow> m (a + of_nat i) = m' (a + of_nat i)) \<Longrightarrow> load_bytes m a n = load_bytes m' a n"
  by (rule nth_equalityI) (simp_all add: load_bytes_nth)

lemma store_bytes_append:
  "store_bytes m a (bs @ cs) = store_bytes (store_bytes m a bs) (a + of_nat (length bs)) cs"
  by (induction bs arbitrary: m a) (auto simp: algebra_simps)

text \<open>
  The characterisation of a store: the bytes at distance less than the length from its address are
  the stored ones, all others are unchanged. The distance is the wrapping difference of addresses.
\<close>

lemma store_bytes_outside:
  "length bs \<le> 2 ^ 64 \<Longrightarrow> length bs \<le> unat (x - a) \<Longrightarrow> store_bytes m a bs x = m x"
proof (induction bs arbitrary: m a)
  case Nil
  then show ?case by simp
next
  case (Cons b bs)
  have ne: "x \<noteq> a"
    using Cons.prems(2) by auto
  have "unat (x - (a + 1)) = unat (x - a) - 1"
    using ne unat_minus_one [of "x - a"] by (simp add: algebra_simps)
  then show ?case
    using Cons.prems ne by (simp add: Cons.IH)
qed

lemma store_bytes_inside:
  "length bs \<le> 2 ^ 64 \<Longrightarrow> unat (x - a) < length bs \<Longrightarrow> store_bytes m a bs x = bs ! unat (x - a)"
proof (induction bs arbitrary: m a)
  case Nil
  then show ?case by simp
next
  case (Cons b bs)
  show ?case
  proof (cases "x = a")
    case True
    have "unat (a - (a + 1)) = 2 ^ 64 - 1"
      by (simp add: unsigned_minus_1_eq_mask mask_eq_exp_minus_1)
    then show ?thesis
      using True Cons.prems by (simp add: store_bytes_outside)
  next
    case False
    then have *: "unat (x - (a + 1)) = unat (x - a) - 1" "0 < unat (x - a)"
      using unat_minus_one [of "x - a"] by (auto simp: algebra_simps unat_gt_0)
    then show ?thesis
      using Cons.prems by (simp add: Cons.IH nth_Cons split: nat.splits)
  qed
qed

lemma store_bytes_apply:
  "length bs \<le> 2 ^ 64 \<Longrightarrow>
   store_bytes m a bs x = (if unat (x - a) < length bs then bs ! unat (x - a) else m x)"
  by (simp add: store_bytes_inside store_bytes_outside)

lemma load_store_bytes_same [simp]:
  "length bs < 2 ^ 64 \<Longrightarrow> load_bytes (store_bytes m a bs) a (length bs) = bs"
  by (rule nth_equalityI) (auto simp: load_bytes_nth store_bytes_apply unat_of_nat)

text \<open>Two address ranges that do not meet.\<close>

definition disjoint_ranges :: "addr \<Rightarrow> nat \<Rightarrow> addr \<Rightarrow> nat \<Rightarrow> bool" where
  "disjoint_ranges a n b k \<longleftrightarrow> (\<forall>i<n. \<forall>j<k. a + of_nat i \<noteq> b + of_nat j)"

lemma load_store_bytes_disjoint:
  assumes "length bs \<le> 2 ^ 64" and "disjoint_ranges a n b (length bs)"
  shows "load_bytes (store_bytes m b bs) a n = load_bytes m a n"
proof (rule load_bytes_cong)
  fix i
  assume i: "i < n"
  have "\<not> unat (a + of_nat i - b) < length bs"
  proof
    assume l: "unat (a + of_nat i - b) < length bs"
    have "a + of_nat i = b + of_nat (unat (a + of_nat i - b))"
      by simp
    with l i assms(2) show False
      unfolding disjoint_ranges_def by blast
  qed
  then show "store_bytes m b bs (a + of_nat i) = m (a + of_nat i)"
    using assms(1) by (simp add: store_bytes_apply)
qed

text \<open>Little-endian encoding of words is faithful in both directions.\<close>

lemma bit_word_of_bytes_bytes_of_word:
  "bit (word_of_bytes (bytes_of_word n (w :: 'a::len word)) :: 'a word) i \<longleftrightarrow> i < 8 * n \<and> bit w i"
proof (induction n arbitrary: w i)
  case 0
  then show ?case by simp
next
  case (Suc n)
  then show ?case
    by (auto simp: word_bits dest: bit_imp_le_length)
qed

lemma word_of_bytes_of_word:
  "LENGTH('a) \<le> 8 * n \<Longrightarrow> word_of_bytes (bytes_of_word n (w :: 'a::len word)) = w"
  by (rule bit_word_eqI) (simp add: bit_word_of_bytes_bytes_of_word)

lemma bit_word_of_bytes:
  "bit (word_of_bytes bs :: 'a::len word) i \<longleftrightarrow>
     i < LENGTH('a) \<and> i < 8 * length bs \<and> bit (bs ! (i div 8)) (i mod 8)"
proof (induction bs arbitrary: i)
  case Nil
  then show ?case by simp
next
  case (Cons b bs)
  show ?case
  proof (cases "i < 8")
    case True
    then show ?thesis by (auto simp: word_bits)
  next
    case False
    then obtain j where j: "i = 8 + j"
      using le_Suc_ex [of 8 i] by auto
    have "\<not> bit b (8 + j)"
      using bit_imp_le_length by fastforce
    then show ?thesis
      using Cons [of j] div_add_self1 [of 8 j] by (auto simp: j word_bits)
  qed
qed

lemma bytes_of_word_of_bytes:
  "8 * length bs \<le> LENGTH('a) \<Longrightarrow> bytes_of_word (length bs) (word_of_bytes bs :: 'a::len word) = bs"
proof (induction bs)
  case Nil
  then show ?case by simp
next
  case (Cons b bs)
  have "ucast (ucast b OR push_bit 8 (word_of_bytes bs) :: 'a word) = b"
    by (rule bit_word_eqI) (use Cons.prems in \<open>auto simp: word_bits\<close>)
  moreover have "drop_bit 8 (ucast b OR push_bit 8 (word_of_bytes bs) :: 'a word) = word_of_bytes bs"
  proof (rule bit_word_eqI)
    fix n
    assume n: "n < LENGTH('a)"
    have "\<not> bit b (8 + n)"
      using bit_imp_le_length by fastforce
    then show "bit (drop_bit 8 (ucast b OR push_bit 8 (word_of_bytes bs) :: 'a word)) n
        = bit (word_of_bytes bs :: 'a word) n"
      using Cons.prems n by (auto simp: word_bits bit_word_of_bytes)
  qed
  ultimately show ?case
    using Cons by simp
qed

lemma store32_word_of_bytes: "length bs = 4 \<Longrightarrow> store32 m a (word_of_bytes bs) = store_bytes m a bs"
  using bytes_of_word_of_bytes [of bs, where 'a = 32] by (simp add: store32_def)

lemma store64_word_of_bytes: "length bs = 8 \<Longrightarrow> store64 m a (word_of_bytes bs) = store_bytes m a bs"
  using bytes_of_word_of_bytes [of bs, where 'a = 64] by (simp add: store64_def)

lemma load16_store16 [simp]: "load16 (store16 m a v) a = v"
  using load_store_bytes_same [of "bytes_of_word 2 v" m a]
  by (simp add: load16_def store16_def word_of_bytes_of_word)

lemma load32_store32 [simp]: "load32 (store32 m a v) a = v"
  using load_store_bytes_same [of "bytes_of_word 4 v" m a]
  by (simp add: load32_def store32_def word_of_bytes_of_word)

lemma load64_store64 [simp]: "load64 (store64 m a v) a = v"
  using load_store_bytes_same [of "bytes_of_word 8 v" m a]
  by (simp add: load64_def store64_def word_of_bytes_of_word)

lemma upd_mem_simps [simp]:
  "mem (upd_mem f st) = f (mem st)" "io (upd_mem f st) = io st" "blocks (upd_mem f st) = blocks st"
  "allocs (upd_mem f st) = allocs st" "sp (upd_mem f st) = sp st" "usr (upd_mem f st) = usr st"
  by (simp_all add: upd_mem_def)

lemma upd_io_simps [simp]:
  "mem (upd_io f st) = mem st" "io (upd_io f st) = f (io st)" "blocks (upd_io f st) = blocks st"
  "allocs (upd_io f st) = allocs st" "sp (upd_io f st) = sp st" "usr (upd_io f st) = usr st"
  by (simp_all add: upd_io_def)

end
