(* ===== verification/PbTypes.thy ===== *)
theory PbTypes
  imports CMemory
begin

text \<open>
  The data of the nanopb codec (\<^verbatim>\<open>ios/Pods/nanopb/pb.h\<close>, \<^verbatim>\<open>pb_encode.h\<close>, \<^verbatim>\<open>pb_decode.h\<close>), in the
  configuration the Xcode project builds it with: \<^verbatim>\<open>PB_FIELD_32BIT\<close>, \<^verbatim>\<open>PB_NO_PACKED_STRUCTS\<close> and
  \<^verbatim>\<open>PB_ENABLE_MALLOC\<close>. Field descriptors, output streams and input streams are records with the
  source's fields. A descriptor array \<^verbatim>\<open>const pb_field_t fields[]\<close> is named by its address; \<^verbatim>\<open>descs\<close>
  of the environment gives the entries up to the terminator.

  Function pointers: a stream callback is the library's own \<^verbatim>\<open>buf_write\<close> or \<^verbatim>\<open>buf_read\<close>, or a function
  of the application, which the environment maps from its code address to its behaviour. The same
  holds for field and extension callbacks.
\<close>

section \<open>Field types\<close>

definition PB_LTYPE_BOOL :: byte where "PB_LTYPE_BOOL = 0x00"
definition PB_LTYPE_VARINT :: byte where "PB_LTYPE_VARINT = 0x01"
definition PB_LTYPE_UVARINT :: byte where "PB_LTYPE_UVARINT = 0x02"
definition PB_LTYPE_SVARINT :: byte where "PB_LTYPE_SVARINT = 0x03"
definition PB_LTYPE_FIXED32 :: byte where "PB_LTYPE_FIXED32 = 0x04"
definition PB_LTYPE_FIXED64 :: byte where "PB_LTYPE_FIXED64 = 0x05"
definition PB_LTYPE_LAST_PACKABLE :: byte where "PB_LTYPE_LAST_PACKABLE = 0x05"
definition PB_LTYPE_BYTES :: byte where "PB_LTYPE_BYTES = 0x06"
definition PB_LTYPE_STRING :: byte where "PB_LTYPE_STRING = 0x07"
definition PB_LTYPE_SUBMESSAGE :: byte where "PB_LTYPE_SUBMESSAGE = 0x08"
definition PB_LTYPE_EXTENSION :: byte where "PB_LTYPE_EXTENSION = 0x09"
definition PB_LTYPE_FIXED_LENGTH_BYTES :: byte where "PB_LTYPE_FIXED_LENGTH_BYTES = 0x0A"

definition PB_HTYPE_REQUIRED :: byte where "PB_HTYPE_REQUIRED = 0x00"
definition PB_HTYPE_OPTIONAL :: byte where "PB_HTYPE_OPTIONAL = 0x10"
definition PB_HTYPE_REPEATED :: byte where "PB_HTYPE_REPEATED = 0x20"
definition PB_HTYPE_ONEOF :: byte where "PB_HTYPE_ONEOF = 0x30"

definition PB_ATYPE_STATIC :: byte where "PB_ATYPE_STATIC = 0x00"
definition PB_ATYPE_POINTER :: byte where "PB_ATYPE_POINTER = 0x80"
definition PB_ATYPE_CALLBACK :: byte where "PB_ATYPE_CALLBACK = 0x40"

definition PB_ATYPE :: "byte \<Rightarrow> byte" where "PB_ATYPE x = x AND 0xC0"
definition PB_HTYPE :: "byte \<Rightarrow> byte" where "PB_HTYPE x = x AND 0x30"
definition PB_LTYPE :: "byte \<Rightarrow> byte" where "PB_LTYPE x = x AND 0x0F"

lemmas ltype_defs =
  PB_LTYPE_BOOL_def PB_LTYPE_VARINT_def PB_LTYPE_UVARINT_def PB_LTYPE_SVARINT_def
  PB_LTYPE_FIXED32_def PB_LTYPE_FIXED64_def PB_LTYPE_LAST_PACKABLE_def PB_LTYPE_BYTES_def
  PB_LTYPE_STRING_def PB_LTYPE_SUBMESSAGE_def PB_LTYPE_EXTENSION_def
  PB_LTYPE_FIXED_LENGTH_BYTES_def

lemmas htype_defs =
  PB_HTYPE_REQUIRED_def PB_HTYPE_OPTIONAL_def PB_HTYPE_REPEATED_def PB_HTYPE_ONEOF_def

lemmas atype_defs = PB_ATYPE_STATIC_def PB_ATYPE_POINTER_def PB_ATYPE_CALLBACK_def

definition PB_SIZE_MAX :: u32 where "PB_SIZE_MAX = - 1"

record pb_field =
  tag :: u32
  ftype :: byte
  data_offset :: u32
  size_offset :: u32
  data_size :: u32
  array_size :: u32
  ptr :: addr

definition PB_LAST_FIELD :: pb_field where
  "PB_LAST_FIELD = \<lparr>tag = 0, ftype = 0, data_offset = 0, size_offset = 0, data_size = 0,
     array_size = 0, ptr = 0\<rparr>"

section \<open>Wire types\<close>

text \<open>
  The enumeration \<^verbatim>\<open>pb_wire_type_t\<close> is read from the wire by a cast, so that it can hold any value of
  three bits; it is kept as its integer.
\<close>

type_synonym wire_type = u32

definition PB_WT_VARINT :: wire_type where "PB_WT_VARINT = 0"
definition PB_WT_64BIT :: wire_type where "PB_WT_64BIT = 1"
definition PB_WT_STRING :: wire_type where "PB_WT_STRING = 2"
definition PB_WT_32BIT :: wire_type where "PB_WT_32BIT = 5"

lemmas wt_defs = PB_WT_VARINT_def PB_WT_64BIT_def PB_WT_STRING_def PB_WT_32BIT_def

section \<open>Streams\<close>

datatype wr_callback = WR_NULL | WR_buf_write | WR_user addr
datatype rd_callback = RD_buf_read | RD_user addr

record pb_ostream =
  o_callback :: wr_callback
  o_state :: addr
  max_size :: size_t
  bytes_written :: size_t
  o_errmsg :: "string option"

record pb_istream =
  i_callback :: rd_callback
  i_state :: addr
  bytes_left :: size_t
  i_errmsg :: "string option"

definition set_oerr :: "string \<Rightarrow> pb_ostream \<Rightarrow> pb_ostream" where
  "set_oerr msg s = s\<lparr>o_errmsg := (case o_errmsg s of None \<Rightarrow> Some msg | Some m \<Rightarrow> Some m)\<rparr>"

definition set_ierr :: "string \<Rightarrow> pb_istream \<Rightarrow> pb_istream" where
  "set_ierr msg s = s\<lparr>i_errmsg := (case i_errmsg s of None \<Rightarrow> Some msg | Some m \<Rightarrow> Some m)\<rparr>"

definition PB_OSTREAM_SIZING :: pb_ostream where
  "PB_OSTREAM_SIZING = \<lparr>o_callback = WR_NULL, o_state = 0, max_size = 0, bytes_written = 0,
     o_errmsg = None\<rparr>"

section \<open>The environment\<close>

text \<open>
  An action on an output stream returns the C function's boolean, the updated stream and the
  updated state. The functions of the application get the same view: the stream they are given by
  pointer, and the whole state.
\<close>

type_synonym 'u wr = "pb_ostream \<Rightarrow> 'u cstate \<Rightarrow> bool \<times> pb_ostream \<times> 'u cstate"
type_synonym 'u rd = "pb_istream \<Rightarrow> 'u cstate \<Rightarrow> bool \<times> pb_istream \<times> 'u cstate"

record 'u pb_env =
  descs :: "addr \<Rightarrow> pb_field list"
  user_write :: "addr \<Rightarrow> byte list \<Rightarrow> 'u wr"
  user_read :: "addr \<Rightarrow> size_t \<Rightarrow> pb_istream \<Rightarrow> 'u cstate \<Rightarrow> bool \<times> pb_istream \<times> byte list \<times> 'u cstate"
  field_encode :: "addr \<Rightarrow> pb_field \<Rightarrow> addr \<Rightarrow> 'u wr"
  field_decode :: "addr \<Rightarrow> pb_field \<Rightarrow> addr \<Rightarrow> 'u rd"
  ext_encode :: "addr \<Rightarrow> addr \<Rightarrow> 'u wr"
  ext_decode :: "addr \<Rightarrow> addr \<Rightarrow> u32 \<Rightarrow> wire_type \<Rightarrow> 'u rd"

definition field_at :: "pb_field list \<Rightarrow> nat \<Rightarrow> pb_field" where
  "field_at fs i = (if i < length fs then fs ! i else PB_LAST_FIELD)"

end
