(* ===== verification/PbStreams.thy ===== *)
theory PbStreams
  imports PbTypes
begin

text \<open>
  The stream layer of nanopb: \<^verbatim>\<open>buf_write\<close>, \<^verbatim>\<open>pb_write\<close> and \<^verbatim>\<open>pb_ostream_from_buffer\<close> of
  \<^verbatim>\<open>pb_encode.c\<close>, and \<^verbatim>\<open>buf_read\<close>, \<^verbatim>\<open>pb_read\<close>, \<^verbatim>\<open>pb_readbyte\<close> and \<^verbatim>\<open>pb_istream_from_buffer\<close> of
  \<^verbatim>\<open>pb_decode.c\<close>. The bytes an output operation is given by pointer are passed as the list they hold
  (\<^verbatim>\<open>NULL\<close> is the empty list), those an input operation stores through its pointer are returned as
  the list it stored.

  The locales \<^verbatim>\<open>pb_sink\<close> and \<^verbatim>\<open>pb_source\<close> are the contracts the codec relies on: a sink accepts bytes
  as long as there is room and forgets nothing, a source hands out its content in order. They
  are interpreted by the memory buffer in both directions and by the sizing stream.
\<close>

section \<open>Output\<close>

definition wr_seq :: "'u wr \<Rightarrow> 'u wr \<Rightarrow> 'u wr" where
  "wr_seq f g s st = (case f s st of (ok, s', st') \<Rightarrow> if ok then g s' st' else (False, s', st'))"

definition wr_fail :: "string \<Rightarrow> 'u wr" where
  "wr_fail msg s st = (False, set_oerr msg s, st)"

definition buf_write :: "byte list \<Rightarrow> size_t \<Rightarrow> 'u wr" where
  "buf_write buf count s st =
     (True, s\<lparr>o_state := o_state s + count\<rparr>,
      upd_io (\<lambda>m. store_bytes m (o_state s) (take (unat count) buf)) st)"

definition pb_ostream_from_buffer :: "addr \<Rightarrow> size_t \<Rightarrow> pb_ostream" where
  "pb_ostream_from_buffer buf bufsize = \<lparr>o_callback = WR_buf_write, o_state = buf,
     max_size = bufsize, bytes_written = 0, o_errmsg = None\<rparr>"

definition call_write :: "'u pb_env \<Rightarrow> byte list \<Rightarrow> size_t \<Rightarrow> 'u wr" where
  "call_write env buf count s st = (case o_callback s of
     WR_NULL \<Rightarrow> (True, s, st)
   | WR_buf_write \<Rightarrow> buf_write buf count s st
   | WR_user f \<Rightarrow> user_write env f (take (unat count) buf) s st)"

definition pb_write :: "'u pb_env \<Rightarrow> byte list \<Rightarrow> size_t \<Rightarrow> 'u wr" where
  "pb_write env buf count s st =
     (if 0 < count \<and> o_callback s \<noteq> WR_NULL then
        if bytes_written s + count < bytes_written s \<or> max_size s < bytes_written s + count
        then (False, set_oerr ''stream full'' s, st)
        else (case call_write env buf count s st of (ok, s', st') \<Rightarrow>
          if \<not> ok then (False, set_oerr ''io error'' s', st')
          else (True, s'\<lparr>bytes_written := bytes_written s' + count\<rparr>, st'))
      else (True, s\<lparr>bytes_written := bytes_written s + count\<rparr>, st))"

section \<open>Input\<close>

definition rd_seq :: "'u rd \<Rightarrow> 'u rd \<Rightarrow> 'u rd" where
  "rd_seq f g s st = (case f s st of (ok, s', st') \<Rightarrow> if ok then g s' st' else (False, s', st'))"

type_synonym 'u rd_bytes = "pb_istream \<Rightarrow> 'u cstate \<Rightarrow> bool \<times> pb_istream \<times> byte list \<times> 'u cstate"

definition buf_read :: "bool \<Rightarrow> size_t \<Rightarrow> 'u rd_bytes" where
  "buf_read has_buf count s st =
     (True, s\<lparr>i_state := i_state s + count\<rparr>,
      if has_buf then load_bytes (io st) (i_state s) (unat count) else [], st)"

definition pb_istream_from_buffer :: "addr \<Rightarrow> size_t \<Rightarrow> pb_istream" where
  "pb_istream_from_buffer buf bufsize = \<lparr>i_callback = RD_buf_read, i_state = buf,
     bytes_left = bufsize, i_errmsg = None\<rparr>"

definition call_read :: "'u pb_env \<Rightarrow> bool \<Rightarrow> size_t \<Rightarrow> 'u rd_bytes" where
  "call_read env has_buf count s st = (case i_callback s of
     RD_buf_read \<Rightarrow> buf_read has_buf count s st
   | RD_user f \<Rightarrow> user_read env f count s st)"

text \<open>The part of \<^verbatim>\<open>pb_read\<close> after its special case for skipping.\<close>

definition pb_read_direct :: "'u pb_env \<Rightarrow> bool \<Rightarrow> size_t \<Rightarrow> 'u rd_bytes" where
  "pb_read_direct env has_buf count s st =
     (if bytes_left s < count then (False, set_ierr ''end-of-stream'' s, [], st)
      else (case call_read env has_buf count s st of (ok, s', bs, st') \<Rightarrow>
        if \<not> ok then (False, set_ierr ''io error'' s', bs, st')
        else (True, s'\<lparr>bytes_left := bytes_left s' - count\<rparr>, bs, st')))"

text \<open>
  The skipping loop reads into a 16-byte temporary that is then discarded; \<^verbatim>\<open>count\<close> is positive
  throughout, so that the recursive calls of the source never take their early return.
\<close>

function pb_read_skip :: "'u pb_env \<Rightarrow> size_t \<Rightarrow> 'u rd_bytes" where
  "pb_read_skip env count s st =
     (if 16 < count then
        (case pb_read_direct env True 16 s st of (ok, s', bs, st') \<Rightarrow>
           if \<not> ok then (False, s', [], st') else pb_read_skip env (count - 16) s' st')
      else (case pb_read_direct env True count s st of (ok, s', bs, st') \<Rightarrow> (ok, s', [], st')))"
  by pat_completeness auto
termination
  by (relation "measure (\<lambda>(env, count, s, st). unat count)")
    (auto simp: unat_sub word_less_nat_alt order_less_imp_le)

declare pb_read_skip.simps [simp del]

definition pb_read :: "'u pb_env \<Rightarrow> bool \<Rightarrow> size_t \<Rightarrow> 'u rd_bytes" where
  "pb_read env has_buf count s st =
     (if count = 0 then (True, s, [], st)
      else if \<not> has_buf \<and> i_callback s \<noteq> RD_buf_read then pb_read_skip env count s st
      else pb_read_direct env has_buf count s st)"

definition pb_readbyte :: "'u pb_env \<Rightarrow> pb_istream \<Rightarrow> 'u cstate \<Rightarrow> bool \<times> pb_istream \<times> byte \<times> 'u cstate" where
  "pb_readbyte env s st =
     (if bytes_left s = 0 then (False, set_ierr ''end-of-stream'' s, 0, st)
      else (case call_read env True 1 s st of (ok, s', bs, st') \<Rightarrow>
        if \<not> ok then (False, set_ierr ''io error'' s', 0, st')
        else (True, s'\<lparr>bytes_left := bytes_left s' - 1\<rparr>, (case bs of [] \<Rightarrow> 0 | b # _ \<Rightarrow> b), st')))"

text \<open>Reading into a memory object, and discarding.\<close>

definition pb_read_mem :: "'u pb_env \<Rightarrow> addr \<Rightarrow> size_t \<Rightarrow> 'u rd" where
  "pb_read_mem env dst count s st = (case pb_read env True count s st of (ok, s', bs, st') \<Rightarrow>
     (ok, s', upd_mem (\<lambda>m. store_bytes m dst bs) st'))"

definition pb_read_null :: "'u pb_env \<Rightarrow> size_t \<Rightarrow> 'u rd" where
  "pb_read_null env count s st = (case pb_read env False count s st of (ok, s', bs, st') \<Rightarrow>
     (ok, s', st'))"

lemma unat_sub_of_nat: "n \<le> unat w \<Longrightarrow> unat (w - of_nat n) = unat w - n" for w :: u64
  using unat_u64_less [of w] by (simp add: unat_sub word_le_nat_alt unat_of_nat)

section \<open>The contract of an output stream\<close>

text \<open>
  \<^verbatim>\<open>emits cb nxt put frm m f bs\<close>: on every error-free stream with callback \<^verbatim>\<open>cb\<close> that is within its
  limit, and in every state whose message memory is \<^verbatim>\<open>m\<close>, the action \<^verbatim>\<open>f\<close> does one of two things. When
  the stream has room for \<^verbatim>\<open>bs\<close> it succeeds, accounts for exactly the bytes \<^verbatim>\<open>bs\<close>, moves the callback's
  state by \<^verbatim>\<open>nxt\<close> and has the effect \<^verbatim>\<open>put\<close> of writing \<^verbatim>\<open>bs\<close>. Otherwise it fails, and what it has done to
  the world until then is bounded by \<^verbatim>\<open>frm\<close>. A stream whose number of bytes would exceed \<^verbatim>\<open>size_t\<close> is
  outside the contract.
\<close>

definition has_room :: "pb_ostream \<Rightarrow> nat \<Rightarrow> bool" where
  "has_room s n \<longleftrightarrow> o_callback s = WR_NULL \<or> unat (bytes_written s) + n \<le> unat (max_size s)"

definition ready :: "wr_callback \<Rightarrow> memory \<Rightarrow> nat \<Rightarrow> pb_ostream \<Rightarrow> 'u cstate \<Rightarrow> bool" where
  "ready cb m n s st \<longleftrightarrow> o_callback s = cb \<and> o_errmsg s = None \<and> mem st = m \<and> has_room s 0 \<and>
     unat (bytes_written s) + n < 2 ^ 64"

definition advanced :: "(addr \<Rightarrow> byte list \<Rightarrow> addr) \<Rightarrow> byte list \<Rightarrow> pb_ostream \<Rightarrow> pb_ostream" where
  "advanced nxt bs s = s\<lparr>o_state := nxt (o_state s) bs,
     bytes_written := bytes_written s + of_nat (length bs)\<rparr>"

definition outcome ::
  "(addr \<Rightarrow> byte list \<Rightarrow> addr) \<Rightarrow> (addr \<Rightarrow> byte list \<Rightarrow> 'u cstate \<Rightarrow> 'u cstate) \<Rightarrow>
   (pb_ostream \<Rightarrow> 'u cstate \<Rightarrow> 'u cstate \<Rightarrow> bool) \<Rightarrow> byte list \<Rightarrow> pb_ostream \<Rightarrow> 'u cstate \<Rightarrow>
   bool \<times> pb_ostream \<times> 'u cstate \<Rightarrow> bool" where
  "outcome nxt put frm bs s st r \<longleftrightarrow>
     (if has_room s (length bs) then r = (True, advanced nxt bs s, put (o_state s) bs st)
      else (\<exists>s' st'. r = (False, s', st') \<and> mem st' = mem st \<and> frm s st st'))"

definition emits ::
  "wr_callback \<Rightarrow> (addr \<Rightarrow> byte list \<Rightarrow> addr) \<Rightarrow> (addr \<Rightarrow> byte list \<Rightarrow> 'u cstate \<Rightarrow> 'u cstate) \<Rightarrow>
   (pb_ostream \<Rightarrow> 'u cstate \<Rightarrow> 'u cstate \<Rightarrow> bool) \<Rightarrow> memory \<Rightarrow> 'u wr \<Rightarrow> byte list \<Rightarrow> bool" where
  "emits cb nxt put frm m f bs \<longleftrightarrow>
     (\<forall>s st. ready cb m (length bs) s st \<longrightarrow> outcome nxt put frm bs s st (f s st))"

lemma emitsD:
  "emits cb nxt put frm m f bs \<Longrightarrow> ready cb m (length bs) s st \<Longrightarrow> outcome nxt put frm bs s st (f s st)"
  by (simp add: emits_def)

lemma advanced_simps [simp]:
  "o_callback (advanced nxt bs s) = o_callback s" "max_size (advanced nxt bs s) = max_size s"
  "o_errmsg (advanced nxt bs s) = o_errmsg s" "o_state (advanced nxt bs s) = nxt (o_state s) bs"
  "bytes_written (advanced nxt bs s) = bytes_written s + of_nat (length bs)"
  by (simp_all add: advanced_def)

lemma ready_bytes_written:
  "ready cb m (length bs) s st \<Longrightarrow>
   unat (bytes_written s + of_nat (length bs)) = unat (bytes_written s) + length bs"
  by (simp add: ready_def unat_word_ariths unat_of_nat)

lemma ready_append:
  assumes "ready cb m (length (bs @ cs)) s st"
  shows "ready cb m (length bs) s st"
    and "has_room s (length bs) \<Longrightarrow> mem st' = m \<Longrightarrow> ready cb m (length cs) (advanced nxt bs s) st'"
    and "has_room s (length (bs @ cs)) \<longleftrightarrow> has_room s (length bs) \<and> has_room (advanced nxt bs s) (length cs)"
proof -
  show bs: "ready cb m (length bs) s st"
    using assms by (simp add: ready_def)
  show "has_room s (length bs) \<Longrightarrow> mem st' = m \<Longrightarrow> ready cb m (length cs) (advanced nxt bs s) st'"
    using assms ready_bytes_written [OF bs] by (auto simp: ready_def has_room_def)
  show "has_room s (length (bs @ cs)) \<longleftrightarrow> has_room s (length bs) \<and> has_room (advanced nxt bs s) (length cs)"
    using ready_bytes_written [OF bs] by (auto simp: has_room_def)
qed

locale pb_sink =
  fixes env :: "'u pb_env"
    and cb :: wr_callback
    and nxt :: "addr \<Rightarrow> byte list \<Rightarrow> addr"
    and put :: "addr \<Rightarrow> byte list \<Rightarrow> 'u cstate \<Rightarrow> 'u cstate"
    and frm :: "pb_ostream \<Rightarrow> 'u cstate \<Rightarrow> 'u cstate \<Rightarrow> bool"
  assumes write_emits: "emits cb nxt put frm m (pb_write env bs (of_nat (length bs))) bs"
    and nxt_Nil: "nxt a [] = a"
    and nxt_append: "nxt a (bs @ cs) = nxt (nxt a bs) cs"
    and put_Nil: "put a [] st = st"
    and put_append: "put a (bs @ cs) st = put (nxt a bs) cs (put a bs st)"
    and put_mem: "mem (put a bs st) = mem st"
    and frm_refl: "frm s st st"
    and frm_put: "ready cb m (length bs) s st \<Longrightarrow> has_room s (length bs) \<Longrightarrow>
      frm (advanced nxt bs s) (put (o_state s) bs st) st' \<Longrightarrow> frm s st st'"
    and frm_limit: "o_callback s \<noteq> WR_NULL \<Longrightarrow> unat (bytes_written s) + unat n \<le> unat (max_size s) \<Longrightarrow>
      frm (s\<lparr>max_size := n, bytes_written := 0\<rparr>) st st' \<Longrightarrow> frm s st st'"
begin

lemma advanced_Nil: "advanced nxt [] s = s"
  by (simp add: advanced_def nxt_Nil)

lemma advanced_append: "advanced nxt (bs @ cs) s = advanced nxt cs (advanced nxt bs s)"
  by (simp add: advanced_def nxt_append algebra_simps)

lemma outcome_Nil: "ready cb m n s st \<Longrightarrow> outcome nxt put frm [] s st (True, s, st)"
  by (simp add: outcome_def ready_def advanced_Nil put_Nil)

text \<open>The outcome of two actions in sequence.\<close>

lemma outcome_append:
  assumes ready: "ready cb m (length (bs @ cs)) s st" and f: "outcome nxt put frm bs s st (ok, s1, st1)"
    and g: "ok \<Longrightarrow> ready cb m (length cs) s1 st1 \<Longrightarrow> outcome nxt put frm cs s1 st1 r"
    and fail: "\<not> ok \<Longrightarrow> r = (False, s1, st1)"
  shows "outcome nxt put frm (bs @ cs) s st r"
proof (cases ok)
  case True
  then have bs: "has_room s (length bs)" and s1: "s1 = advanced nxt bs s" "st1 = put (o_state s) bs st"
    using f by (auto simp: outcome_def split: if_splits)
  have "mem st = m"
    using ready by (simp add: ready_def)
  then have "ready cb m (length cs) s1 st1"
    using ready_append(2) [OF ready bs, of "put (o_state s) bs st" nxt] s1 by (simp add: put_mem)
  from g [OF True this] have "outcome nxt put frm cs s1 st1 r" .
  then show ?thesis
    using ready_append(3) [OF ready, of nxt] bs s1 frm_put [OF ready_append(1) [OF ready] bs]
    by (auto simp: outcome_def advanced_append put_append put_mem)
next
  case False
  then have "\<not> has_room s (length bs)" "mem st1 = mem st" "frm s st st1"
    using f by (auto simp: outcome_def split: if_splits)
  then show ?thesis
    using ready_append(3) [OF ready, of nxt] fail [OF False] by (auto simp: outcome_def)
qed

lemma emits_nothing: "emits cb nxt put frm m (\<lambda>s st. (True, s, st)) []"
  by (simp add: emits_def outcome_Nil)

lemma emits_seq:
  assumes "emits cb nxt put frm m f bs" and "emits cb nxt put frm m g cs"
  shows "emits cb nxt put frm m (wr_seq f g) (bs @ cs)"
  unfolding emits_def
proof (intro allI impI)
  fix s :: pb_ostream and st :: "'u cstate"
  assume ready: "ready cb m (length (bs @ cs)) s st"
  obtain ok s1 st1 where f: "f s st = (ok, s1, st1)"
    by (cases "f s st")
  have "outcome nxt put frm bs s st (ok, s1, st1)"
    using emitsD [OF assms(1) ready_append(1) [OF ready]] f by simp
  then show "outcome nxt put frm (bs @ cs) s st (wr_seq f g s st)"
    by (rule outcome_append [OF ready]) (simp_all add: wr_seq_def f emitsD [OF assms(2)])
qed

lemma emits_write: "n = of_nat (length bs) \<Longrightarrow> emits cb nxt put frm m (pb_write env bs n) bs"
  by (simp add: write_emits)

end

text \<open>The sizing stream counts and stores nothing; it never fails.\<close>

definition no_effect :: "pb_ostream \<Rightarrow> 'u cstate \<Rightarrow> 'u cstate \<Rightarrow> bool" where
  "no_effect s st st' \<longleftrightarrow> st' = st"

interpretation sizing: pb_sink env WR_NULL "\<lambda>a bs. a" "\<lambda>a bs st. st" no_effect
  by unfold_locales
    (auto simp: emits_def ready_def outcome_def advanced_def has_room_def pb_write_def no_effect_def)

text \<open>
  The memory buffer stores the bytes and moves its write position behind them. Whatever happens, it
  changes no byte outside the room that is left.
\<close>

definition buf_next :: "addr \<Rightarrow> byte list \<Rightarrow> addr" where
  "buf_next a bs = a + of_nat (length bs)"

definition buf_put :: "addr \<Rightarrow> byte list \<Rightarrow> 'u cstate \<Rightarrow> 'u cstate" where
  "buf_put a bs = upd_io (\<lambda>m. store_bytes m a bs)"

definition in_buffer :: "pb_ostream \<Rightarrow> 'u cstate \<Rightarrow> 'u cstate \<Rightarrow> bool" where
  "in_buffer s st st' \<longleftrightarrow>
     (\<forall>a. unat (max_size s) - unat (bytes_written s) \<le> unat (a - o_state s) \<longrightarrow> io st' a = io st a)"

lemma pb_write_buffer_emits:
  fixes env :: "'u pb_env"
  shows "emits WR_buf_write buf_next buf_put in_buffer m (pb_write env bs (of_nat (length bs))) bs"
  unfolding emits_def
proof (intro allI impI)
  fix s :: pb_ostream and st :: "'u cstate"
  let ?n = "of_nat (length bs) :: u64"
  assume ready: "ready WR_buf_write m (length bs) s st"
  then have cb: "o_callback s = WR_buf_write" and len: "length bs < 2 ^ 64"
    and within: "unat (bytes_written s) \<le> unat (max_size s)"
    by (auto simp: ready_def has_room_def)
  note sum = ready_bytes_written [OF ready]
  have wrap: "\<not> bytes_written s + ?n < bytes_written s"
    using sum by (simp add: word_less_nat_alt)
  show "outcome buf_next buf_put in_buffer bs s st (pb_write env bs ?n s st)"
  proof (cases "has_room s (length bs)")
    case True
    then have "\<not> max_size s < bytes_written s + ?n"
      using cb sum by (simp add: word_less_nat_alt has_room_def)
    then show ?thesis
      using True cb len wrap of_nat_u64_eq_0_iff [OF len] by (cases "bs = []")
        (auto simp: outcome_def advanced_def pb_write_def call_write_def buf_write_def buf_next_def
          buf_put_def upd_io_def word_gt_0)
  next
    case False
    then have "max_size s < bytes_written s + ?n"
      using cb sum by (simp add: word_less_nat_alt has_room_def)
    moreover have "0 < ?n"
      using False within of_nat_u64_eq_0_iff [OF len] by (auto simp: has_room_def word_gt_0)
    ultimately show ?thesis
      using False cb by (simp add: outcome_def pb_write_def in_buffer_def)
  qed
qed

lemma in_buffer_put:
  assumes ready: "ready WR_buf_write m (length bs) s st" and room: "has_room s (length bs)"
    and frm: "in_buffer (advanced buf_next bs s) (buf_put (o_state s) bs st) st'"
  shows "in_buffer s st st'"
  unfolding in_buffer_def
proof (intro allI impI)
  fix a
  assume a: "unat (max_size s) - unat (bytes_written s) \<le> unat (a - o_state s)"
  have fits: "unat (bytes_written s) + length bs \<le> unat (max_size s)" and len: "length bs < 2 ^ 64"
    using ready room by (auto simp: ready_def has_room_def)
  then have out: "length bs \<le> unat (a - o_state s)"
    using a by linarith
  have "a - buf_next (o_state s) bs = (a - o_state s) - of_nat (length bs)"
    by (simp add: buf_next_def algebra_simps)
  then have "unat (a - buf_next (o_state s) bs) = unat (a - o_state s) - length bs"
    by (simp only: unat_sub_of_nat [OF out])
  then have "io st' a = io (buf_put (o_state s) bs st) a"
    using frm a fits ready_bytes_written [OF ready] by (simp add: in_buffer_def)
  also have "\<dots> = io st a"
    using out len by (simp add: buf_put_def store_bytes_outside)
  finally show "io st' a = io st a" .
qed

interpretation buffer: pb_sink env WR_buf_write buf_next buf_put in_buffer
proof unfold_locales
  fix s :: pb_ostream and st st' :: "'a cstate" and n
  assume "unat (bytes_written s) + unat n \<le> unat (max_size s)"
    and "in_buffer (s\<lparr>max_size := n, bytes_written := 0\<rparr>) st st'"
  then show "in_buffer s st st'"
    by (auto simp: in_buffer_def)
next
  fix s :: pb_ostream and st st' :: "'a cstate" and m bs
  show "ready WR_buf_write m (length bs) s st \<Longrightarrow> has_room s (length bs) \<Longrightarrow>
      in_buffer (advanced buf_next bs s) (buf_put (o_state s) bs st) st' \<Longrightarrow> in_buffer s st st'"
    by (rule in_buffer_put)
next
  fix s :: pb_ostream and st :: "'a cstate"
  show "in_buffer s st st"
    by (simp add: in_buffer_def)
qed (auto simp: pb_write_buffer_emits buf_next_def buf_put_def store_bytes_append upd_io_def algebra_simps)

section \<open>The contract of an input stream\<close>

text \<open>
  \<^verbatim>\<open>content\<close> is what the source still holds, \<^verbatim>\<open>nxt\<close> and \<^verbatim>\<open>eff\<close> are how taking \<^verbatim>\<open>n\<close> bytes moves the
  callback's state and the world. Reading returns a prefix of the content and leaves the rest.
\<close>

definition rd_adv ::
  "(nat \<Rightarrow> pb_istream \<Rightarrow> 'u cstate \<Rightarrow> addr) \<Rightarrow> (nat \<Rightarrow> pb_istream \<Rightarrow> 'u cstate \<Rightarrow> 'u cstate) \<Rightarrow>
   nat \<Rightarrow> pb_istream \<times> 'u cstate \<Rightarrow> pb_istream \<times> 'u cstate" where
  "rd_adv nxt eff n p = (case p of (s, st) \<Rightarrow>
     (s\<lparr>i_state := nxt n s st, bytes_left := bytes_left s - of_nat n\<rparr>, eff n s st))"

locale pb_source =
  fixes env :: "'u pb_env"
    and cb :: rd_callback
    and content :: "pb_istream \<Rightarrow> 'u cstate \<Rightarrow> byte list"
    and nxt :: "nat \<Rightarrow> pb_istream \<Rightarrow> 'u cstate \<Rightarrow> addr"
    and eff :: "nat \<Rightarrow> pb_istream \<Rightarrow> 'u cstate \<Rightarrow> 'u cstate"
  assumes length_content: "i_callback s = cb \<Longrightarrow> length (content s st) = unat (bytes_left s)"
    and call: "i_callback s = cb \<Longrightarrow> 0 < n \<Longrightarrow> n \<le> length (content s st) \<Longrightarrow>
       call_read env True (of_nat n) s st =
         (True, s\<lparr>i_state := nxt n s st\<rparr>, take n (content s st), eff n s st)"
    and call_null: "i_callback s = cb \<Longrightarrow> cb = RD_buf_read \<Longrightarrow> 0 < n \<Longrightarrow> n \<le> length (content s st) \<Longrightarrow>
       call_read env False (of_nat n) s st = (True, s\<lparr>i_state := nxt n s st\<rparr>, [], eff n s st)"
    and content_adv: "i_callback s = cb \<Longrightarrow> n \<le> length (content s st) \<Longrightarrow>
       rd_adv nxt eff n (s, st) = (s', st') \<Longrightarrow> content s' st' = drop n (content s st)"
    and content_limit: "i_callback s = cb \<Longrightarrow> k \<le> bytes_left s \<Longrightarrow>
       content (s\<lparr>bytes_left := k\<rparr>) st = take (unat k) (content s st)"
    and adv_0: "rd_adv nxt eff 0 (s, st) = (s, st)"
    and adv_add: "rd_adv nxt eff (n + j) p = rd_adv nxt eff j (rd_adv nxt eff n p)"
    and nxt_limit: "nxt n (s\<lparr>bytes_left := k\<rparr>) st = nxt n s st"
    and eff_limit: "eff n (s\<lparr>bytes_left := k\<rparr>) st = eff n s st"
    and eff_mem: "mem (eff n s st) = mem st"
begin

lemma adv_callback: "rd_adv nxt eff n (s, st) = (s', st') \<Longrightarrow> i_callback s' = i_callback s"
  by (auto simp: rd_adv_def)

lemma adv_errmsg: "rd_adv nxt eff n (s, st) = (s', st') \<Longrightarrow> i_errmsg s' = i_errmsg s"
  by (auto simp: rd_adv_def)

lemma adv_mem: "rd_adv nxt eff n (s, st) = (s', st') \<Longrightarrow> mem st' = mem st"
  by (auto simp: rd_adv_def eff_mem)

lemma readbyte_Cons:
  assumes "i_callback s = cb" and "content s st = b # bs"
    and "rd_adv nxt eff 1 (s, st) = (s', st')"
  shows "pb_readbyte env s st = (True, s', b, st')" and "content s' st' = bs"
proof -
  have "bytes_left s \<noteq> 0"
    using length_content [OF assms(1), of st] assms(2) by auto
  moreover have "call_read env True 1 s st = (True, s\<lparr>i_state := nxt 1 s st\<rparr>, [b], eff 1 s st)"
    using call [OF assms(1), of 1 st] assms(2) by simp
  ultimately show "pb_readbyte env s st = (True, s', b, st')"
    using assms(3) by (simp add: pb_readbyte_def rd_adv_def)
  show "content s' st' = bs"
    using content_adv [OF assms(1) _ assms(3)] assms(2) by simp
qed

lemma readbyte_Nil:
  assumes "i_callback s = cb" and "content s st = []"
  shows "pb_readbyte env s st = (False, set_ierr ''end-of-stream'' s, 0, st)"
  using length_content [OF assms(1), of st] assms(2) by (simp add: pb_readbyte_def unsigned_eq_0_iff)

text \<open>A read within the content returns it, whatever the length.\<close>

lemma read_prefix:
  assumes "i_callback s = cb" and "unat count \<le> length (content s st)"
    and "rd_adv nxt eff (unat count) (s, st) = (s', st')"
  shows "pb_read env True count s st = (True, s', take (unat count) (content s st), st')"
proof (cases "count = 0")
  case True
  then show ?thesis
    using assms(3) by (simp add: pb_read_def adv_0)
next
  case False
  have "\<not> bytes_left s < count"
    using assms(2) length_content [OF assms(1), of st] by (simp add: word_less_nat_alt)
  moreover have "call_read env True count s st =
      (True, s\<lparr>i_state := nxt (unat count) s st\<rparr>, take (unat count) (content s st), eff (unat count) s st)"
    using call [OF assms(1) _ assms(2)] False by (simp add: unat_gt_0)
  ultimately show ?thesis
    using False assms(3) by (simp add: pb_read_def pb_read_direct_def rd_adv_def)
qed

text \<open>Skipping is advancing, also when it reads into a temporary sixteen bytes at a time.\<close>

lemma read_direct_prefix:
  assumes "i_callback s = cb" and "0 < n" and "n \<le> length (content s st)"
    and "rd_adv nxt eff n (s, st) = (s', st')"
  shows "pb_read_direct env True (of_nat n) s st = (True, s', take n (content s st), st')"
proof -
  have "unat (of_nat n :: u64) = n"
    using assms(3) length_content [OF assms(1), of st] unat_u64_less [of "bytes_left s"]
    by (intro unat_of_nat_u64) simp
  moreover from this have "(of_nat n :: u64) \<noteq> 0"
    using assms(2) by auto
  ultimately show ?thesis
    using read_prefix [of s "of_nat n" st s' st'] assms by (simp add: pb_read_def)
qed

lemma read_skip:
  "i_callback s = cb \<Longrightarrow> 0 < unat count \<Longrightarrow> unat count \<le> length (content s st) \<Longrightarrow>
   rd_adv nxt eff (unat count) (s, st) = (s', st') \<Longrightarrow> pb_read_skip env count s st = (True, s', [], st')"
proof (induction "unat count" arbitrary: count s st rule: less_induct)
  case 1: less
  show ?case
  proof (cases "16 < count")
    case True
    have u: "unat (count - 16) = unat count - 16" "16 < unat count"
      using True by (simp_all add: unat_sub word_less_nat_alt order_less_imp_le)
    obtain s1 st1 where adv1: "rd_adv nxt eff 16 (s, st) = (s1, st1)"
      by (cases "rd_adv nxt eff 16 (s, st)")
    have rd: "pb_read_direct env True 16 s st = (True, s1, take 16 (content s st), st1)"
      using read_direct_prefix [OF 1(2) _ _ adv1] 1(4) u by simp
    have "rd_adv nxt eff (unat (count - 16)) (s1, st1) = (s', st')"
      using 1(5) adv_add [of 16 "unat count - 16" "(s, st)"] adv1 u by simp
    then have "pb_read_skip env (count - 16) s1 st1 = (True, s', [], st')"
      using 1(1) [of "count - 16" s1 st1] 1(2,4) u adv_callback [OF adv1] content_adv [OF 1(2) _ adv1]
      by simp
    then show ?thesis
      using True rd by (subst pb_read_skip.simps) simp
  next
    case False
    then show ?thesis
      using read_direct_prefix [OF 1(2,3,4,5)] by (subst pb_read_skip.simps) simp
  qed
qed

lemma read_null:
  assumes "i_callback s = cb" and "unat count \<le> length (content s st)"
    and "rd_adv nxt eff (unat count) (s, st) = (s', st')"
  shows "pb_read_null env count s st = (True, s', st')"
proof (cases "count = 0")
  case True
  then show ?thesis
    using assms(3) by (simp add: pb_read_null_def pb_read_def adv_0)
next
  case False
  then have n: "0 < unat count"
    by (simp add: unat_gt_0)
  have "\<not> bytes_left s < count"
    using assms(2) length_content [OF assms(1), of st] by (simp add: word_less_nat_alt)
  then show ?thesis
    using False assms call_null [OF assms(1) _ n assms(2)] read_skip [OF assms(1) n assms(2,3)]
    by (cases "cb = RD_buf_read") (auto simp: pb_read_null_def pb_read_def pb_read_direct_def rd_adv_def)
qed

text \<open>A read past the content fails, and consumes nothing.\<close>

lemma read_too_much:
  assumes "i_callback s = cb" and "length (content s st) < unat count"
  shows "pb_read env True count s st = (False, set_ierr ''end-of-stream'' s, [], st)"
proof -
  have "bytes_left s < count" "count \<noteq> 0"
    using assms(2) length_content [OF assms(1), of st] by (auto simp: word_less_nat_alt)
  then show ?thesis
    by (simp add: pb_read_def pb_read_direct_def)
qed

end

text \<open>The memory buffer as a source: its content is the memory behind its read position.\<close>

definition buf_content :: "pb_istream \<Rightarrow> 'u cstate \<Rightarrow> byte list" where
  "buf_content s st = load_bytes (io st) (i_state s) (unat (bytes_left s))"

definition buf_nxt :: "nat \<Rightarrow> pb_istream \<Rightarrow> 'u cstate \<Rightarrow> addr" where
  "buf_nxt n s st = i_state s + of_nat n"

lemma take_load_bytes: "k \<le> n \<Longrightarrow> take k (load_bytes m a n) = load_bytes m a k"
  by (metis append_eq_conv_conj le_Suc_ex length_load_bytes load_bytes_append)

lemma drop_load_bytes: "k \<le> n \<Longrightarrow> drop k (load_bytes m a n) = load_bytes m (a + of_nat k) (n - k)"
  by (metis append_eq_conv_conj le_add_diff_inverse length_load_bytes load_bytes_append)

interpretation buffer_source: pb_source env RD_buf_read buf_content buf_nxt "\<lambda>n s st. st"
proof unfold_locales
  fix s :: pb_istream and st :: "'a cstate" and n
  assume "i_callback s = RD_buf_read" "n \<le> length (buf_content s st)"
  then show "call_read env True (of_nat n) s st =
      (True, s\<lparr>i_state := buf_nxt n s st\<rparr>, take n (buf_content s st), st)"
    using unat_u64_less [of "bytes_left s"]
    by (simp add: call_read_def buf_read_def buf_content_def buf_nxt_def take_load_bytes unat_of_nat)
next
  fix s :: pb_istream and st :: "'a cstate" and n
  assume "i_callback s = RD_buf_read"
  then show "call_read env False (of_nat n) s st = (True, s\<lparr>i_state := buf_nxt n s st\<rparr>, [], st)"
    by (simp add: call_read_def buf_read_def buf_nxt_def)
next
  fix s s' :: pb_istream and st st' :: "'a cstate" and n
  assume "n \<le> length (buf_content s st)" "rd_adv buf_nxt (\<lambda>n s st. st) n (s, st) = (s', st')"
  then show "buf_content s' st' = drop n (buf_content s st)"
    by (auto simp: buf_content_def buf_nxt_def rd_adv_def drop_load_bytes unat_sub_of_nat)
next
  fix s :: pb_istream and st :: "'a cstate" and k
  assume "k \<le> bytes_left s"
  then show "buf_content (s\<lparr>bytes_left := k\<rparr>) st = take (unat k) (buf_content s st)"
    by (simp add: buf_content_def take_load_bytes word_le_nat_alt)
qed (auto simp: buf_content_def buf_nxt_def rd_adv_def)

text \<open>A memory buffer with \<^verbatim>\<open>n\<close> bytes taken.\<close>

definition behind :: "nat \<Rightarrow> pb_istream \<Rightarrow> pb_istream" where
  "behind n s = s\<lparr>i_state := i_state s + of_nat n, bytes_left := bytes_left s - of_nat n\<rparr>"

lemma rd_adv_behind: "rd_adv buf_nxt (\<lambda>n s st. st) n (s, st) = (behind n s, st)"
  by (simp add: rd_adv_def buf_nxt_def behind_def)

end
