(* ===== verification/PbWire.thy ===== *)
theory PbWire
  imports PbStreams
begin

text \<open>
  The wire primitives of nanopb: variable-length integers, zigzag and fixed-width integers, tags,
  length-delimited strings and substreams, from the helper sections of \<^verbatim>\<open>pb_encode.c\<close> and
  \<^verbatim>\<open>pb_decode.c\<close>. The specification of a variable-length integer is the function \<^verbatim>\<open>varint\<close>. The
  encoder is proved to emit it on every sink, the decoders to invert it on every source; for the
  32-bit decoder the exact set of 64-bit values it accepts is determined.

  A decoding loop whose length depends on the stream runs on fuel. The fuel is the number of bytes
  the stream has left, and \<^verbatim>\<open>None\<close> means that it was not enough, which happens only when a callback
  of the application increases \<^verbatim>\<open>bytes_left\<close>.
\<close>

section \<open>Encoding\<close>

function varint_loop :: "u64 \<Rightarrow> byte list" where
  "varint_loop value =
     (if value = 0 then [] else (ucast (value AND 0x7F) OR 0x80) # varint_loop (drop_bit 7 value))"
  by pat_completeness auto
termination
  by (relation "measure unat") (auto intro: unat_drop_bit_less)

declare varint_loop.simps [simp del]

definition pb_encode_varint :: "'u pb_env \<Rightarrow> u64 \<Rightarrow> 'u wr" where
  "pb_encode_varint env value =
     (if value \<le> 0x7F then pb_write env [ucast value] 1
      else
        (let buffer = varint_loop value; i = length buffer
         in pb_write env (buffer[i - 1 := buffer ! (i - 1) AND 0x7F]) (of_nat i)))"

definition pb_encode_svarint :: "'u pb_env \<Rightarrow> u64 \<Rightarrow> 'u wr" where
  "pb_encode_svarint env value =
     (let zigzagged = (if sint value < 0 then NOT (push_bit 1 value) else push_bit 1 value)
      in pb_encode_varint env zigzagged)"

definition pb_encode_fixed32 :: "'u pb_env \<Rightarrow> addr \<Rightarrow> 'u wr" where
  "pb_encode_fixed32 env value s st =
     (let val = load32 (mem st) value;
          bytes = [ucast (val AND 0xFF), ucast (drop_bit 8 val AND 0xFF),
                   ucast (drop_bit 16 val AND 0xFF), ucast (drop_bit 24 val AND 0xFF)]
      in pb_write env bytes 4 s st)"

definition pb_encode_fixed64 :: "'u pb_env \<Rightarrow> addr \<Rightarrow> 'u wr" where
  "pb_encode_fixed64 env value s st =
     (let val = load64 (mem st) value;
          bytes = [ucast (val AND 0xFF), ucast (drop_bit 8 val AND 0xFF),
                   ucast (drop_bit 16 val AND 0xFF), ucast (drop_bit 24 val AND 0xFF),
                   ucast (drop_bit 32 val AND 0xFF), ucast (drop_bit 40 val AND 0xFF),
                   ucast (drop_bit 48 val AND 0xFF), ucast (drop_bit 56 val AND 0xFF)]
      in pb_write env bytes 8 s st)"

definition pb_encode_tag :: "'u pb_env \<Rightarrow> wire_type \<Rightarrow> u32 \<Rightarrow> 'u wr" where
  "pb_encode_tag env wiretype field_number =
     pb_encode_varint env (push_bit 3 (ucast field_number) OR ucast wiretype)"

definition pb_encode_tag_for_field :: "'u pb_env \<Rightarrow> pb_field \<Rightarrow> 'u wr" where
  "pb_encode_tag_for_field env field =
     (let lt = PB_LTYPE (ftype field) in
      if lt \<in> {PB_LTYPE_BOOL, PB_LTYPE_VARINT, PB_LTYPE_UVARINT, PB_LTYPE_SVARINT}
      then pb_encode_tag env PB_WT_VARINT (tag field)
      else if lt = PB_LTYPE_FIXED32 then pb_encode_tag env PB_WT_32BIT (tag field)
      else if lt = PB_LTYPE_FIXED64 then pb_encode_tag env PB_WT_64BIT (tag field)
      else if lt \<in> {PB_LTYPE_BYTES, PB_LTYPE_STRING, PB_LTYPE_SUBMESSAGE, PB_LTYPE_FIXED_LENGTH_BYTES}
      then pb_encode_tag env PB_WT_STRING (tag field)
      else wr_fail ''invalid field type'')"

definition pb_encode_string :: "'u pb_env \<Rightarrow> byte list \<Rightarrow> size_t \<Rightarrow> 'u wr" where
  "pb_encode_string env buffer count =
     wr_seq (pb_encode_varint env count) (pb_write env buffer count)"

section \<open>Decoding\<close>

text \<open>
  \<^verbatim>\<open>bitpos\<close> of the 32-bit decoder is a \<^verbatim>\<open>uint_fast8_t\<close>, an 8-bit integer on the target, and wraps.
  That of the 64-bit decoder is checked before every byte and stays below 71.
\<close>

fun varint32_loop ::
  "nat \<Rightarrow> 'u pb_env \<Rightarrow> 8 word \<Rightarrow> u32 \<Rightarrow> pb_istream \<Rightarrow> 'u cstate \<Rightarrow> (bool \<times> pb_istream \<times> u32 \<times> 'u cstate) option" where
  "varint32_loop 0 env bitpos result s st = None"
| "varint32_loop (Suc fuel) env bitpos result s st =
     (case pb_readbyte env s st of (ok, s', byte, st') \<Rightarrow>
        if \<not> ok then Some (False, s', result, st')
        else if 32 \<le> bitpos \<and> byte AND 0x7F \<noteq> 0 \<and>
                (drop_bit 31 result = 0 \<or> byte \<noteq> (if bitpos < 63 then 0xFF else 0x01))
        then Some (False, set_ierr ''varint overflow'' s', result, st')
        else
          (let result' = (if 32 \<le> bitpos then result
                          else result OR push_bit (unat bitpos) (ucast (byte AND 0x7F)));
               bitpos' = bitpos + 7
           in if byte AND 0x80 \<noteq> 0 then varint32_loop fuel env bitpos' result' s' st'
              else if bitpos' = 35 \<and> byte AND 0x70 \<noteq> 0
              then Some (False, set_ierr ''varint overflow'' s', result', st')
              else Some (True, s', result', st')))"

text \<open>The result is the success flag, the stream, \<^verbatim>\<open>*dest\<close>, whether \<^verbatim>\<open>*eof\<close> is set, and the state.\<close>

definition pb_decode_varint32_eof ::
  "'u pb_env \<Rightarrow> pb_istream \<Rightarrow> 'u cstate \<Rightarrow> (bool \<times> pb_istream \<times> u32 \<times> bool \<times> 'u cstate) option" where
  "pb_decode_varint32_eof env s st =
     (case pb_readbyte env s st of (ok, s', byte, st') \<Rightarrow>
        if \<not> ok then Some (False, s', 0, bytes_left s' = 0, st')
        else if byte AND 0x80 = 0 then Some (True, s', ucast byte, False, st')
        else (case varint32_loop (Suc (unat (bytes_left s'))) env 7 (ucast (byte AND 0x7F)) s' st' of
                None \<Rightarrow> None
              | Some (ok', s'', result, st'') \<Rightarrow> Some (ok', s'', result, False, st'')))"

definition pb_decode_varint32 ::
  "'u pb_env \<Rightarrow> pb_istream \<Rightarrow> 'u cstate \<Rightarrow> (bool \<times> pb_istream \<times> u32 \<times> 'u cstate) option" where
  "pb_decode_varint32 env s st = (case pb_decode_varint32_eof env s st of
     None \<Rightarrow> None | Some (ok, s', v, eof, st') \<Rightarrow> Some (ok, s', v, st'))"

function varint_dec_loop ::
  "'u pb_env \<Rightarrow> nat \<Rightarrow> u64 \<Rightarrow> pb_istream \<Rightarrow> 'u cstate \<Rightarrow> bool \<times> pb_istream \<times> u64 \<times> 'u cstate" where
  "varint_dec_loop env bitpos result s st =
     (if 64 \<le> bitpos then (False, set_ierr ''varint overflow'' s, result, st)
      else (case pb_readbyte env s st of (ok, s', byte, st') \<Rightarrow>
        if \<not> ok then (False, s', result, st')
        else
          (let result' = result OR push_bit bitpos (ucast (byte AND 0x7F))
           in if byte AND 0x80 \<noteq> 0 then varint_dec_loop env (bitpos + 7) result' s' st'
              else (True, s', result', st'))))"
  by pat_completeness auto
termination
  by (relation "measure (\<lambda>(env, bitpos, result, s, st). 64 - bitpos)") auto

declare varint_dec_loop.simps [simp del]

definition pb_decode_varint ::
  "'u pb_env \<Rightarrow> pb_istream \<Rightarrow> 'u cstate \<Rightarrow> bool \<times> pb_istream \<times> u64 \<times> 'u cstate" where
  "pb_decode_varint env s st = varint_dec_loop env 0 0 s st"

definition pb_decode_svarint ::
  "'u pb_env \<Rightarrow> pb_istream \<Rightarrow> 'u cstate \<Rightarrow> bool \<times> pb_istream \<times> u64 \<times> 'u cstate" where
  "pb_decode_svarint env s st = (case pb_decode_varint env s st of (ok, s', value, st') \<Rightarrow>
     if \<not> ok then (False, s', 0, st')
     else (True, s', if value AND 1 \<noteq> 0 then NOT (drop_bit 1 value) else drop_bit 1 value, st'))"

text \<open>A single byte of what \<^verbatim>\<open>pb_read (stream, &byte, 1)\<close> stored.\<close>

definition the_byte :: "byte list \<Rightarrow> byte" where
  "the_byte bs = (case bs of [] \<Rightarrow> 0 | b # _ \<Rightarrow> b)"

fun skip_varint_loop :: "nat \<Rightarrow> 'u pb_env \<Rightarrow> pb_istream \<Rightarrow> 'u cstate \<Rightarrow> (bool \<times> pb_istream \<times> 'u cstate) option" where
  "skip_varint_loop 0 env s st = None"
| "skip_varint_loop (Suc fuel) env s st =
     (case pb_read env True 1 s st of (ok, s', bs, st') \<Rightarrow>
        if \<not> ok then Some (False, s', st')
        else if the_byte bs AND 0x80 \<noteq> 0 then skip_varint_loop fuel env s' st'
        else Some (True, s', st'))"

definition pb_skip_varint :: "'u pb_env \<Rightarrow> pb_istream \<Rightarrow> 'u cstate \<Rightarrow> (bool \<times> pb_istream \<times> 'u cstate) option" where
  "pb_skip_varint env s st = skip_varint_loop (Suc (unat (bytes_left s))) env s st"

definition pb_skip_string :: "'u pb_env \<Rightarrow> pb_istream \<Rightarrow> 'u cstate \<Rightarrow> (bool \<times> pb_istream \<times> 'u cstate) option" where
  "pb_skip_string env s st = (case pb_decode_varint32 env s st of
     None \<Rightarrow> None
   | Some (ok, s', length', st') \<Rightarrow>
       if \<not> ok then Some (False, s', st') else Some (pb_read_null env (ucast length') s' st'))"

text \<open>The result is the success flag, the stream, \<^verbatim>\<open>*wire_type\<close>, \<^verbatim>\<open>*tag\<close>, \<^verbatim>\<open>*eof\<close> and the state.\<close>

definition pb_decode_tag ::
  "'u pb_env \<Rightarrow> pb_istream \<Rightarrow> 'u cstate \<Rightarrow> (bool \<times> pb_istream \<times> wire_type \<times> u32 \<times> bool \<times> 'u cstate) option" where
  "pb_decode_tag env s st = (case pb_decode_varint32_eof env s st of
     None \<Rightarrow> None
   | Some (ok, s', temp, eof, st') \<Rightarrow>
       if \<not> ok then Some (False, s', 0, 0, eof, st')
       else if temp = 0 then Some (False, s', 0, 0, True, st')
       else Some (True, s', temp AND 7, drop_bit 3 temp, False, st'))"

definition pb_skip_field ::
  "'u pb_env \<Rightarrow> wire_type \<Rightarrow> pb_istream \<Rightarrow> 'u cstate \<Rightarrow> (bool \<times> pb_istream \<times> 'u cstate) option" where
  "pb_skip_field env wire_type s st =
     (if wire_type = PB_WT_VARINT then pb_skip_varint env s st
      else if wire_type = PB_WT_64BIT then Some (pb_read_null env 8 s st)
      else if wire_type = PB_WT_STRING then pb_skip_string env s st
      else if wire_type = PB_WT_32BIT then Some (pb_read_null env 4 s st)
      else Some (False, set_ierr ''invalid wire_type'' s, st))"

text \<open>\<^verbatim>\<open>read_raw_value\<close> returns the bytes it stored in the caller's buffer; their number is \<^verbatim>\<open>*size\<close>.\<close>

fun raw_varint_loop ::
  "nat \<Rightarrow> 'u pb_env \<Rightarrow> byte list \<Rightarrow> pb_istream \<Rightarrow> 'u cstate \<Rightarrow> bool \<times> pb_istream \<times> byte list \<times> 'u cstate" where
  "raw_varint_loop 0 env buf s st = (False, s, buf, st)"
| "raw_varint_loop (Suc room) env buf s st =
     (case pb_read env True 1 s st of (ok, s', bs, st') \<Rightarrow>
        if \<not> ok then (False, s', buf, st')
        else if the_byte bs AND 0x80 \<noteq> 0 then raw_varint_loop room env (buf @ [the_byte bs]) s' st'
        else (True, s', buf @ [the_byte bs], st'))"

definition read_raw_value ::
  "'u pb_env \<Rightarrow> wire_type \<Rightarrow> nat \<Rightarrow> pb_istream \<Rightarrow> 'u cstate \<Rightarrow> bool \<times> pb_istream \<times> byte list \<times> 'u cstate" where
  "read_raw_value env wire_type limit s st =
     (if wire_type = PB_WT_VARINT then raw_varint_loop limit env [] s st
      else if wire_type = PB_WT_64BIT then pb_read env True 8 s st
      else if wire_type = PB_WT_32BIT then pb_read env True 4 s st
      else (False, set_ierr ''invalid wire_type'' s, [], st))"

text \<open>The result is the success flag, the parent stream, the substream and the state.\<close>

definition pb_make_string_substream ::
  "'u pb_env \<Rightarrow> pb_istream \<Rightarrow> 'u cstate \<Rightarrow> (bool \<times> pb_istream \<times> pb_istream \<times> 'u cstate) option" where
  "pb_make_string_substream env s st = (case pb_decode_varint32 env s st of
     None \<Rightarrow> None
   | Some (ok, s', count, st') \<Rightarrow>
       if \<not> ok then Some (False, s', s', st')
       else if bytes_left s' < ucast count
       then Some (False, set_ierr ''parent stream too short'' s', s', st')
       else Some (True, s'\<lparr>bytes_left := bytes_left s' - ucast count\<rparr>, s'\<lparr>bytes_left := ucast count\<rparr>, st'))"

definition pb_close_string_substream ::
  "'u pb_env \<Rightarrow> pb_istream \<Rightarrow> pb_istream \<Rightarrow> 'u cstate \<Rightarrow> bool \<times> pb_istream \<times> 'u cstate" where
  "pb_close_string_substream env s sub st =
     (case (if bytes_left sub \<noteq> 0 then pb_read_null env (bytes_left sub) sub st else (True, sub, st)) of
        (ok, sub', st') \<Rightarrow>
          if \<not> ok then (False, s, st')
          else (True, s\<lparr>i_state := i_state sub', i_errmsg := i_errmsg sub'\<rparr>, st'))"

definition pb_decode_fixed32 :: "'u pb_env \<Rightarrow> addr \<Rightarrow> 'u rd" where
  "pb_decode_fixed32 env dest s st = (case pb_read env True 4 s st of (ok, s', bytes, st') \<Rightarrow>
     if \<not> ok then (False, s', st')
     else (True, s', upd_mem (\<lambda>m. store32 m dest
            (push_bit 0 (ucast (bytes ! 0)) OR push_bit 8 (ucast (bytes ! 1)) OR
             push_bit 16 (ucast (bytes ! 2)) OR push_bit 24 (ucast (bytes ! 3)))) st'))"

definition pb_decode_fixed64 :: "'u pb_env \<Rightarrow> addr \<Rightarrow> 'u rd" where
  "pb_decode_fixed64 env dest s st = (case pb_read env True 8 s st of (ok, s', bytes, st') \<Rightarrow>
     if \<not> ok then (False, s', st')
     else (True, s', upd_mem (\<lambda>m. store64 m dest
            (push_bit 0 (ucast (bytes ! 0)) OR push_bit 8 (ucast (bytes ! 1)) OR
             push_bit 16 (ucast (bytes ! 2)) OR push_bit 24 (ucast (bytes ! 3)) OR
             push_bit 32 (ucast (bytes ! 4)) OR push_bit 40 (ucast (bytes ! 5)) OR
             push_bit 48 (ucast (bytes ! 6)) OR push_bit 56 (ucast (bytes ! 7)))) st'))"

section \<open>The specification of a variable-length integer\<close>

function varint :: "u64 \<Rightarrow> byte list" where
  "varint v =
     (if v \<le> 0x7F then [ucast v] else (ucast (v AND 0x7F) OR 0x80) # varint (drop_bit 7 v))"
  by pat_completeness auto
termination
  by (relation "measure unat") (auto intro!: unat_drop_bit_less)

declare varint.simps [simp del]

lemma varint_small: "v \<le> 0x7F \<Longrightarrow> varint v = [ucast v]"
  by (subst varint.simps) simp

lemma varint_large:
  "\<not> v \<le> 0x7F \<Longrightarrow> varint v = (ucast (v AND 0x7F) OR 0x80) # varint (drop_bit 7 v)"
  by (subst varint.simps) simp

lemma varint_not_Nil [simp]: "varint v \<noteq> []"
  by (cases "v \<le> 0x7F") (simp_all add: varint_small varint_large)

lemma length_varint_le_iff: "0 < k \<Longrightarrow> length (varint v) \<le> k \<longleftrightarrow> unat v < 2 ^ (7 * k)"
proof (induction v arbitrary: k rule: varint.induct)
  case (1 v)
  have small: "v \<le> 0x7F \<longleftrightarrow> unat v < 2 ^ 7"
    by (simp only: le_0x7F_iff_drop_bit drop_bit_eq_0_iff_unat)
  show ?case
  proof (cases "v \<le> 0x7F")
    case True
    have "(2::nat) ^ 7 \<le> 2 ^ (7 * k)"
      by (rule power_increasing) (use 1(2) in auto)
    then have "unat v < 2 ^ (7 * k)"
      using True small by linarith
    then show ?thesis
      using True 1(2) by (simp add: varint_small Suc_le_eq)
  next
    case False
    show ?thesis
    proof (cases "k = 1")
      case True
      then show ?thesis
        using False small by (simp add: varint_large)
    next
      case k: False
      then obtain j where j: "k = Suc j" "0 < j"
        using 1(2) by (cases k) auto
      have "unat (drop_bit 7 v) < 2 ^ (7 * j) \<longleftrightarrow> unat v < 2 ^ (7 * k)"
      proof -
        have "unat v div 2 ^ 7 < 2 ^ (7 * j) \<longleftrightarrow> unat v < 2 ^ (7 * j) * 2 ^ 7"
          by (rule div_less_iff_less_mult) simp
        then show ?thesis
          by (simp only: j unat_drop_bit_div mult_Suc_right power_add) (simp only: mult.commute)
      qed
      then show ?thesis
        using False 1(1) [OF False j(2)] by (simp add: varint_large j)
    qed
  qed
qed
lemma varint_loop_fixed:
  "value \<noteq> 0 \<Longrightarrow>
   (varint_loop value)[length (varint_loop value) - 1 := varint_loop value ! (length (varint_loop value) - 1) AND 0x7F]
   = varint value"
proof (induction "value" rule: varint_loop.induct)
  case (1 v)
  let ?b = "ucast (v AND 0x7F) OR 0x80 :: byte"
  have loop: "varint_loop v = ?b # varint_loop (drop_bit 7 v)"
    using 1(2) by (subst varint_loop.simps) simp
  show ?case
  proof (cases "v \<le> 0x7F")
    case True
    then have d: "drop_bit 7 v = 0"
      by (simp only: le_0x7F_iff_drop_bit)
    then have low: "bit v n \<Longrightarrow> n < 7" for n
      by (simp add: drop_bit_eq_0_iff)
    have "?b AND 0x7F = ucast v"
      by (rule bit_word_eqI) (auto simp: word_bits dest: low)
    moreover have "varint_loop v = [?b]"
      unfolding loop d by (simp add: varint_loop.simps)
    ultimately show ?thesis
      using True by (simp add: varint_small)
  next
    case False
    then have ne: "drop_bit 7 v \<noteq> 0"
      using le_0x7F_iff_drop_bit by blast
    then have "varint_loop (drop_bit 7 v) \<noteq> []"
      by (subst varint_loop.simps) simp
    then obtain c cs where c: "varint_loop (drop_bit 7 v) = c # cs"
      by (cases "varint_loop (drop_bit 7 v)") auto
    show ?thesis
      using 1(1) [OF 1(2) ne] False by (simp add: loop varint_large c)
  qed
qed

text \<open>The code's buffer is the specified encoding, and fits the ten bytes the code reserves.\<close>

lemma pb_encode_varint_eq:
  "pb_encode_varint env value = pb_write env (varint value) (of_nat (length (varint value)))"
proof (cases "value \<le> 0x7F")
  case True
  then show ?thesis
    by (simp add: pb_encode_varint_def varint_small)
next
  case False
  then have "value \<noteq> 0"
    by (metis word_zero_le)
  from varint_loop_fixed [OF this] have
    "pb_write env ((varint_loop value)[length (varint_loop value) - 1 :=
       varint_loop value ! (length (varint_loop value) - 1) AND 0x7F]) (of_nat (length (varint_loop value)))
     = pb_write env (varint value) (of_nat (length (varint value)))"
    by (metis length_list_update)
  then show ?thesis
    using False by (simp add: pb_encode_varint_def Let_def)
qed

lemma length_varint_loop_le: "length (varint_loop value) \<le> 10"
proof (cases "value = 0")
  case True
  then show ?thesis by (simp add: varint_loop.simps)
next
  case False
  from varint_loop_fixed [OF this] have "length (varint_loop value) = length (varint value)"
    by (metis length_list_update)
  moreover have "unat value < 2 ^ (7 * 10)"
    using unat_u64_less [of "value"] by simp
  ultimately show ?thesis
    using length_varint_le_iff [of 10 "value"] by simp
qed

lemma length_varint_le_10: "length (varint v) \<le> 10"
  using length_varint_le_iff [of 10 v] unat_u64_less [of v] by simp

context pb_sink
begin

lemma emits_varint: "emits cb nxt put frm m (pb_encode_varint env v) (varint v)"
  unfolding pb_encode_varint_eq by (rule write_emits)

lemma emits_tag:
  "emits cb nxt put frm m (pb_encode_tag env wt n) (varint (push_bit 3 (ucast n) OR ucast wt))"
  unfolding pb_encode_tag_def by (rule emits_varint)

lemma emits_string:
  "n = of_nat (length bs) \<Longrightarrow> emits cb nxt put frm m (pb_encode_string env bs n) (varint n @ bs)"
  unfolding pb_encode_string_def by (intro emits_seq emits_varint emits_write)

end

context pb_source
begin

lemma varint_dec_loop_content:
  assumes "i_callback s = cb" and "content s st = varint v @ rest" and "p \<le> 63"
    and "\<And>n. bit v n \<Longrightarrow> n < 64 - p" and "rd_adv nxt eff (length (varint v)) (s, st) = (s', st')"
  shows "varint_dec_loop env p r s st = (True, s', r OR push_bit p v, st') \<and> content s' st' = rest"
  using assms
proof (induction v arbitrary: p r s st rule: varint.induct)
  case (1 v)
  obtain s1 st1 where adv1: "rd_adv nxt eff 1 (s, st) = (s1, st1)"
    by (cases "rd_adv nxt eff 1 (s, st)")
  show ?case
  proof (cases "v \<le> 0x7F")
    case True
    then have "drop_bit 7 v = 0"
      by (simp only: le_0x7F_iff_drop_bit)
    then have low: "\<And>n. bit v n \<Longrightarrow> n < 7"
      by (simp add: drop_bit_eq_0_iff)
    have "push_bit p (ucast ((ucast v :: byte) AND 0x7F)) = push_bit p v"
      by (rule bit_word_eqI) (auto simp: word_bits dest: low)
    moreover have "(ucast v :: byte) AND 0x80 = 0"
      using low [of 7] by (auto simp: and_0x80_eq_0_iff word_bits)
    moreover have "pb_readbyte env s st = (True, s1, ucast v, st1)" "content s1 st1 = rest"
      using readbyte_Cons [OF 1(2) _ adv1] 1(3) True by (simp_all add: varint_small)
    ultimately show ?thesis
      using 1(4,6) adv1 True by (subst varint_dec_loop.simps) (simp add: varint_small)
  next
    case False
    let ?b = "ucast (v AND 0x7F) OR 0x80 :: byte"
    have p: "p + 7 \<le> 63"
    proof (rule ccontr)
      assume "\<not> ?thesis"
      then have "\<And>n. bit v n \<Longrightarrow> n < 7"
        using 1(5) by fastforce
      then have "drop_bit 7 v = 0"
        by (simp add: drop_bit_eq_0_iff)
      then show False
        using False le_0x7F_iff_drop_bit by blast
    qed
    have low: "\<And>n. bit (drop_bit 7 v) n \<Longrightarrow> n < 64 - (p + 7)"
      using 1(5) by (fastforce simp: word_bits)
    have "content s st = ?b # varint (drop_bit 7 v) @ rest"
      using 1(3) False by (simp add: varint_large)
    from readbyte_Cons [OF 1(2) this adv1]
    have rb: "pb_readbyte env s st = (True, s1, ?b, st1)" "content s1 st1 = varint (drop_bit 7 v) @ rest"
      by simp_all
    have adv2: "rd_adv nxt eff (length (varint (drop_bit 7 v))) (s1, st1) = (s', st')"
      using 1(6) adv1 adv_add [of 1 "length (varint (drop_bit 7 v))" "(s, st)"] False
      by (simp add: varint_large)
    have "?b AND 0x80 \<noteq> 0"
      by (simp add: and_0x80_eq_0_iff word_bits)
    moreover have "r OR push_bit p (ucast (?b AND 0x7F)) OR push_bit (p + 7) (drop_bit 7 v) = r OR push_bit p v"
    proof (rule bit_word_eqI)
      fix n
      assume "n < LENGTH(64)"
      moreover have "p + 7 \<le> n \<Longrightarrow> 7 + (n - (p + 7)) = n - p"
        by simp
      ultimately show "bit (r OR push_bit p (ucast (?b AND 0x7F)) OR push_bit (p + 7) (drop_bit 7 v)) n
          = bit (r OR push_bit p v) n"
        using p by (cases "p + 7 \<le> n") (auto simp: word_bits)
    qed
    ultimately show ?thesis
      using 1(1) [OF False _ rb(2) p low adv2, of "r OR push_bit p (ucast (?b AND 0x7F))"]
        rb(1) 1(4) adv_callback [OF adv1] 1(2)
      by (subst varint_dec_loop.simps) (simp add: Let_def or.assoc)
  qed
qed

lemma decode_varint:
  assumes "i_callback s = cb" and "content s st = varint v @ rest"
    and "rd_adv nxt eff (length (varint v)) (s, st) = (s', st')"
  shows "pb_decode_varint env s st = (True, s', v, st')" and "content s' st' = rest"
proof -
  have "\<And>n. bit v n \<Longrightarrow> n < 64 - 0"
    using bit_imp_le_length [of v] by simp
  from varint_dec_loop_content [OF assms(1,2) _ this assms(3), of 0]
  show "pb_decode_varint env s st = (True, s', v, st')" and "content s' st' = rest"
    by (simp_all add: pb_decode_varint_def)
qed

end

section \<open>What the 32-bit decoder accepts\<close>

text \<open>
  The decoder reads seven bits at a time. The group at bit 28 is cut to four bits without a check
  when more bytes follow, and each group above bit 32 is compared with the sign extension on its
  own, so that a zero group passes inside a negative number.
\<close>

definition group7 :: "u64 \<Rightarrow> nat \<Rightarrow> u64" where
  "group7 v p = drop_bit p v AND 0x7F"

lemma group7_0_iff: "group7 v p = 0 \<longleftrightarrow> (\<forall>n<7. \<not> bit v (p + n))"
  by (subst word_eq_iff_upto [where k = 7]) (auto simp: group7_def word_bits)

lemma group7_127_iff: "group7 v p = 0x7F \<longleftrightarrow> (\<forall>n<7. bit v (p + n))"
  by (subst word_eq_iff_upto [where k = 7]) (auto simp: group7_def word_bits)

definition ext_groups_ok :: "u64 \<Rightarrow> nat list \<Rightarrow> bool" where
  "ext_groups_ok v ps \<longleftrightarrow> bit v 63 \<and> (\<forall>p \<in> set ps. group7 v p = 0 \<or> group7 v p = 0x7F)"

definition varint32_accepts :: "u64 \<Rightarrow> bool" where
  "varint32_accepts v \<longleftrightarrow> unat v < 2 ^ 32 \<or> (bit v 31 \<and> ext_groups_ok v [35, 42, 49, 56])"

lemma drop_bit_63: "drop_bit 63 v \<noteq> 0 \<Longrightarrow> drop_bit 63 v = (1 :: u64) \<and> bit v 63"
proof -
  assume nz: "drop_bit 63 v \<noteq> 0"
  have imp: "bit v n \<Longrightarrow> n < 64" for n
    using bit_imp_le_length [of v n] by simp
  from nz obtain n where "bit v n" "63 \<le> n"
    by (auto simp: drop_bit_eq_0_iff not_less)
  with imp [of n] have b: "bit v 63"
    by (cases "n = 63") auto
  have "drop_bit 63 v = 1"
    by (rule bit_word_eqI) (use b imp in \<open>auto simp: word_bits bit_1_iff dest: imp\<close>)
  with b show ?thesis by simp
qed

text \<open>The rounds below bit 32 collect the low bits of the value.\<close>

definition low_part :: "nat \<Rightarrow> u64 \<Rightarrow> u32" where
  "low_part p v = ucast (take_bit p v)"

lemma low_part_step:
  fixes b :: byte
  assumes "p \<le> 28" and "\<And>n. n < 7 \<Longrightarrow> bit b n \<longleftrightarrow> bit v (p + n)"
  shows "low_part p v OR push_bit p (ucast (b AND 0x7F)) = low_part (p + 7) v"
proof (rule bit_word_eqI)
  fix n
  assume "n < LENGTH(32)"
  moreover have "p \<le> n \<Longrightarrow> n < p + 7 \<Longrightarrow> bit b (n - p) = bit v n"
    using assms(2) [of "n - p"] by auto
  ultimately show "bit (low_part p v OR push_bit p (ucast (b AND 0x7F))) n = bit (low_part (p + 7) v) n"
    using assms(1) by (auto simp: low_part_def word_bits)
qed

lemma low_part_all: "drop_bit p v = 0 \<Longrightarrow> low_part p v = ucast v"
  by (rule bit_word_eqI) (auto simp: low_part_def word_bits drop_bit_eq_0_iff)

context pb_source
begin

text \<open>What one round of the loop meets: the last byte of the encoding, or one that more bytes follow.\<close>

lemma varint32_round:
  assumes "i_callback s = cb" and "content s st = varint (drop_bit p v) @ rest"
    and "rd_adv nxt eff 1 (s, st) = (s1, st1)"
    and "rd_adv nxt eff (length (varint (drop_bit p v))) (s, st) = (s', st')"
  obtains (last) b where "drop_bit (p + 7) v = 0" "pb_readbyte env s st = (True, s', b, st')"
      "b = ucast (drop_bit p v)" "\<not> bit b 7"
  | (more) b where "drop_bit (p + 7) v \<noteq> 0" "pb_readbyte env s st = (True, s1, b, st1)"
      "b = ucast (drop_bit p v AND 0x7F) OR 0x80" "bit b 7"
      "content s1 st1 = varint (drop_bit (p + 7) v) @ rest" "i_callback s1 = cb"
      "rd_adv nxt eff (length (varint (drop_bit (p + 7) v))) (s1, st1) = (s', st')"
      "length (varint (drop_bit p v)) = Suc (length (varint (drop_bit (p + 7) v)))"
proof (cases "drop_bit p v \<le> 0x7F")
  case True
  then have z: "drop_bit (p + 7) v = 0"
    by (simp add: le_0x7F_iff_drop_bit add.commute)
  have c: "content s st = ucast (drop_bit p v) # rest"
    using assms(2) True by (simp add: varint_small)
  have "s1 = s' \<and> st1 = st'"
    using assms(3,4) True by (simp add: varint_small)
  moreover have "\<not> bit (ucast (drop_bit p v) :: byte) 7"
    using z drop_bit_eq_0_iff [of "p + 7" v] by (auto simp: word_bits)
  ultimately show ?thesis
    using readbyte_Cons [OF assms(1) c assms(3)] z by (intro last) simp_all
next
  case False
  then have z: "drop_bit (p + 7) v \<noteq> 0"
    using le_0x7F_iff_drop_bit [of "drop_bit p v"] by (simp add: add.commute)
  let ?b = "ucast (drop_bit p v AND 0x7F) OR 0x80 :: byte"
  have c: "content s st = ?b # varint (drop_bit (p + 7) v) @ rest"
    using assms(2) False by (simp add: varint_large add.commute)
  have "length (varint (drop_bit p v)) = Suc (length (varint (drop_bit (p + 7) v)))"
    using False by (simp add: varint_large add.commute)
  moreover from this have "rd_adv nxt eff (length (varint (drop_bit (p + 7) v))) (s1, st1) = (s', st')"
    using assms(3,4) adv_add [of 1 "length (varint (drop_bit (p + 7) v))" "(s, st)"] by simp
  moreover have "bit ?b 7"
    by (simp add: bit_or_iff)
  ultimately show ?thesis
    using readbyte_Cons [OF assms(1) c assms(3)] z adv_callback [OF assms(3)] assms(1)
    by (intro more) simp_all
qed

text \<open>
  The result of the loop as a predicate: it returns, succeeds as stated, and then has consumed the
  encoding.
\<close>

lemma varint32_loop_63:
  assumes "i_callback s = cb" and "content s st = varint (drop_bit 63 v) @ rest" and "drop_bit 63 v \<noteq> 0"
    and "rd_adv nxt eff (length (varint (drop_bit 63 v))) (s, st) = (s', st')"
  shows "\<exists>ok t x u. varint32_loop (Suc n) env 63 r s st = Some (ok, t, x, u) \<and>
    ok = (drop_bit 31 r \<noteq> 0 \<and> ext_groups_ok v []) \<and> (ok \<longrightarrow> x = r \<and> t = s' \<and> u = st')"
proof -
  have one: "drop_bit 63 v = 1" and b: "bit v 63"
    using drop_bit_63 [OF assms(3)] by simp_all
  have v1: "varint (drop_bit 63 v) = [1]"
    unfolding one by (simp add: varint_small)
  have rb: "pb_readbyte env s st = (True, s', 1, st')"
    using readbyte_Cons [OF assms(1), of st 1 rest s' st'] assms(2,4) v1 by simp
  show ?thesis
    using b by (simp add: rb ext_groups_ok_def and_0x80_eq_0_iff)
qed

lemma varint32_loop_ext:
  assumes IH: "\<And>s st r fuel. i_callback s = cb \<Longrightarrow> content s st = varint (drop_bit (p + 7) v) @ rest \<Longrightarrow>
      drop_bit (p + 7) v \<noteq> 0 \<Longrightarrow> length (varint (drop_bit (p + 7) v)) \<le> fuel \<Longrightarrow>
      rd_adv nxt eff (length (varint (drop_bit (p + 7) v))) (s, st) = (s', st') \<Longrightarrow>
      \<exists>ok t x u. varint32_loop fuel env (of_nat (p + 7)) r s st = Some (ok, t, x, u) \<and>
        ok = (drop_bit 31 r \<noteq> 0 \<and> ext_groups_ok v ps) \<and> (ok \<longrightarrow> x = r \<and> t = s' \<and> u = st')"
    and p: "35 \<le> p" "p \<le> 56"
    and s: "i_callback s = cb" "content s st = varint (drop_bit p v) @ rest" "drop_bit p v \<noteq> 0"
    and fuel: "length (varint (drop_bit p v)) \<le> fuel"
    and adv: "rd_adv nxt eff (length (varint (drop_bit p v))) (s, st) = (s', st')"
  shows "\<exists>ok t x u. varint32_loop fuel env (of_nat p) r s st = Some (ok, t, x, u) \<and>
    ok = (drop_bit 31 r \<noteq> 0 \<and> ext_groups_ok v (p # ps)) \<and> (ok \<longrightarrow> x = r \<and> t = s' \<and> u = st')"
proof -
  have pw: "32 \<le> (of_nat p :: 8 word)" "(of_nat p :: 8 word) < 63" "(of_nat p :: 8 word) + 7 \<noteq> 35"
    using p by (simp_all add: word_le_nat_alt word_less_nat_alt unat_of_nat word_unat_eq_iff unat_word_ariths)
  obtain fuel' where f: "fuel = Suc fuel'"
    using fuel by (cases fuel) auto
  obtain s1 st1 where adv1: "rd_adv nxt eff 1 (s, st) = (s1, st1)"
    by (cases "rd_adv nxt eff 1 (s, st)")
  from s(1,2) adv1 adv show ?thesis
  proof (cases rule: varint32_round)
    case (last b)
    then have low: "\<And>n. bit v n \<Longrightarrow> n < p + 7"
      by (simp only: drop_bit_eq_0_iff)
    have "b AND 0x7F \<noteq> 0"
    proof
      assume "b AND 0x7F = 0"
      then have no: "\<And>n. n < 7 \<Longrightarrow> \<not> bit v (p + n)"
        by (simp add: byte_low_0_iff last word_bits)
      have "drop_bit p v = 0"
        using low no by (auto simp: drop_bit_eq_0_iff) (metis add_less_cancel_left le_Suc_ex not_less)
      then show False
        using s(3) by simp
    qed
    moreover have "b \<noteq> 0xFF"
      using last by (simp add: byte_FF_iff)
    moreover have "\<not> ext_groups_ok v (p # ps)"
      using low [of 63] p by (auto simp: ext_groups_ok_def)
    ultimately show ?thesis
      using pw last by (simp add: f) blast
  next
    case (more b)
    then obtain ok t x u where loop: "varint32_loop fuel' env (of_nat (p + 7)) r s1 st1 = Some (ok, t, x, u)"
      and ok: "ok = (drop_bit 31 r \<noteq> 0 \<and> ext_groups_ok v ps)" "ok \<longrightarrow> x = r \<and> t = s' \<and> u = st'"
      using IH [of s1 st1 fuel' r] fuel f by auto
    have cont: "b AND 0x80 \<noteq> 0"
      using more by (simp add: and_0x80_eq_0_iff)
    have z: "b AND 0x7F = 0 \<longleftrightarrow> group7 v p = 0"
      unfolding more by (auto simp: byte_low_0_iff group7_0_iff word_bits)
    have f7: "b = 0xFF \<longleftrightarrow> group7 v p = 0x7F"
      unfolding more by (auto simp: byte_FF_iff group7_127_iff word_bits)
    show ?thesis
      using pw loop ok cont more(2)
      by (cases "group7 v p = 0"; cases "group7 v p = 0x7F"; cases "drop_bit 31 r = 0")
        (auto simp: f z f7 ext_groups_ok_def Let_def)
  qed
qed

lemma varint32_loop_above:
  assumes s: "i_callback s = cb" "content s st = varint (drop_bit p v) @ rest" "drop_bit p v \<noteq> 0"
    and fuel: "length (varint (drop_bit p v)) \<le> fuel"
    and adv: "rd_adv nxt eff (length (varint (drop_bit p v))) (s, st) = (s', st')"
    and p: "p = 35 \<and> ps = [35, 42, 49, 56] \<or> p = 42 \<and> ps = [42, 49, 56] \<or> p = 49 \<and> ps = [49, 56] \<or>
      p = 56 \<and> ps = [56]"
  shows "\<exists>ok t x u. varint32_loop fuel env (of_nat p) r s st = Some (ok, t, x, u) \<and>
    ok = (drop_bit 31 r \<noteq> 0 \<and> ext_groups_ok v ps) \<and> (ok \<longrightarrow> x = r \<and> t = s' \<and> u = st')"
proof -
  let ?P = "\<lambda>p ps. \<forall>s st r fuel. i_callback s = cb \<longrightarrow> content s st = varint (drop_bit p v) @ rest \<longrightarrow>
      drop_bit p v \<noteq> 0 \<longrightarrow> length (varint (drop_bit p v)) \<le> fuel \<longrightarrow>
      rd_adv nxt eff (length (varint (drop_bit p v))) (s, st) = (s', st') \<longrightarrow>
      (\<exists>ok t x u. varint32_loop fuel env (of_nat p) r s st = Some (ok, t, x, u) \<and>
        ok = (drop_bit 31 r \<noteq> 0 \<and> ext_groups_ok v ps) \<and> (ok \<longrightarrow> x = r \<and> t = s' \<and> u = st'))"
  have step: "?P (p + 7) ps \<Longrightarrow> 35 \<le> p \<Longrightarrow> p \<le> 56 \<Longrightarrow> ?P p (p # ps)" for p ps
    by (intro allI impI, rule varint32_loop_ext) blast+
  have "?P 63 []"
  proof (intro allI impI)
    fix s st r fuel
    assume *: "i_callback s = cb" "content s st = varint (drop_bit 63 v) @ rest" "drop_bit 63 v \<noteq> 0"
      "length (varint (drop_bit 63 v)) \<le> fuel"
      "rd_adv nxt eff (length (varint (drop_bit 63 v))) (s, st) = (s', st')"
    moreover obtain n where "fuel = Suc n"
      using * varint_not_Nil [of "drop_bit 63 v"] by (cases fuel) auto
    ultimately show "\<exists>ok t x u. varint32_loop fuel env (of_nat 63) r s st = Some (ok, t, x, u) \<and>
        ok = (drop_bit 31 r \<noteq> 0 \<and> ext_groups_ok v []) \<and> (ok \<longrightarrow> x = r \<and> t = s' \<and> u = st')"
      using varint32_loop_63 [OF *(1,2,3,5), of n r] by simp
  qed
  then have "?P 56 [56]"
    using step [of 56 "[]"] by simp
  moreover from this have "?P 49 [49, 56]"
    using step [of 49 "[56]"] by simp
  moreover from this have "?P 42 [42, 49, 56]"
    using step [of 42 "[49, 56]"] by simp
  moreover from this have "?P 35 [35, 42, 49, 56]"
    using step [of 35 "[42, 49, 56]"] by simp
  ultimately have "?P p ps"
    using p by (elim disjE conjE) simp_all
  then show ?thesis
    using s fuel adv by blast
qed

lemma varint32_loop_low:
  assumes IH: "\<And>s st fuel. i_callback s = cb \<Longrightarrow> content s st = varint (drop_bit (p + 7) v) @ rest \<Longrightarrow>
      drop_bit (p + 7) v \<noteq> 0 \<Longrightarrow> length (varint (drop_bit (p + 7) v)) \<le> fuel \<Longrightarrow>
      rd_adv nxt eff (length (varint (drop_bit (p + 7) v))) (s, st) = (s', st') \<Longrightarrow>
      \<exists>ok t x u. varint32_loop fuel env (of_nat (p + 7)) (low_part (p + 7) v) s st = Some (ok, t, x, u) \<and>
        ok = varint32_accepts v \<and> (ok \<longrightarrow> x = ucast v \<and> t = s' \<and> u = st')"
    and p: "p \<le> 28" "p \<noteq> 28 \<longrightarrow> p \<le> 25"
    and s: "i_callback s = cb" "content s st = varint (drop_bit p v) @ rest"
    and fuel: "length (varint (drop_bit p v)) \<le> fuel"
    and adv: "rd_adv nxt eff (length (varint (drop_bit p v))) (s, st) = (s', st')"
  shows "\<exists>ok t x u. varint32_loop fuel env (of_nat p) (low_part p v) s st = Some (ok, t, x, u) \<and>
    ok = varint32_accepts v \<and> (ok \<longrightarrow> x = ucast v \<and> t = s' \<and> u = st')"
proof -
  have pw: "\<not> 32 \<le> (of_nat p :: 8 word)" "unat (of_nat p :: 8 word) = p"
    "(of_nat p :: 8 word) = 28 \<longleftrightarrow> p = 28"
    using p by (simp_all add: word_le_nat_alt unat_of_nat word_unat_eq_iff)
  obtain fuel' where f: "fuel = Suc fuel'"
    using fuel varint_not_Nil [of "drop_bit p v"] by (cases fuel) auto
  obtain s1 st1 where adv1: "rd_adv nxt eff 1 (s, st) = (s1, st1)"
    by (cases "rd_adv nxt eff 1 (s, st)")
  from s adv1 adv show ?thesis
  proof (cases rule: varint32_round)
    case (last b)
    have r: "low_part p v OR push_bit p (ucast (b AND 0x7F)) = ucast v"
      using low_part_step [OF p(1), of b v] low_part_all [OF last(1)] last(3) by (simp add: word_bits)
    have low: "unat v < 2 ^ (p + 7)"
      using last(1) by (simp only: drop_bit_eq_0_iff_unat)
    have acc: "varint32_accepts v \<longleftrightarrow> unat v < 2 ^ 32"
      using unat_less_imp_bit_less [OF low, of 63] p by (auto simp: varint32_accepts_def ext_groups_ok_def)
    have "b AND 0x70 \<noteq> 0 \<longleftrightarrow> \<not> unat v < 2 ^ 32" if p28: "p = 28"
    proof -
      have "unat v < 2 ^ 32 \<longleftrightarrow> (\<forall>n. bit v n \<longrightarrow> n < 32)"
        by (simp only: drop_bit_eq_0_iff_unat [symmetric] drop_bit_eq_0_iff)
      also have "\<dots> \<longleftrightarrow> (\<forall>n. 4 \<le> n \<longrightarrow> n < 7 \<longrightarrow> \<not> bit v (28 + n))"
      proof (intro iffI allI impI)
        fix n
        assume *: "\<forall>n. 4 \<le> n \<longrightarrow> n < 7 \<longrightarrow> \<not> bit v (28 + n)" "bit v n"
        show "n < 32"
        proof (rule ccontr)
          assume "\<not> n < 32"
          then obtain k where k: "n = 28 + (4 + k)"
            using le_Suc_ex [of 32 n] by auto
          then have "k < 3"
            using unat_less_imp_bit_less [OF low *(2)] p28 by simp
          then show False
            using *(1) [rule_format, of "4 + k"] *(2) k by simp
        qed
      qed fastforce
      also have "\<dots> \<longleftrightarrow> b AND 0x70 = 0"
        unfolding last(3) p28 by (auto simp: byte_0x70_iff word_bits)
      finally show ?thesis by blast
    qed
    moreover have "unat v < 2 ^ 32" if "p < 28 \<and> p + 7 \<le> 32"
    proof -
      have "(2 :: nat) ^ (p + 7) \<le> 2 ^ 32"
        by (rule power_increasing) (use that in auto)
      then show ?thesis using low by linarith
    qed
    ultimately show ?thesis
      using pw r p last(2,4) by (cases "p = 28") (auto simp: f acc and_0x80_eq_0_iff Let_def)
  next
    case (more b)
    have r: "low_part p v OR push_bit p (ucast (b AND 0x7F)) = low_part (p + 7) v"
      by (rule low_part_step [OF p(1)]) (simp add: more(3) word_bits)
    then obtain ok t x u where
      "varint32_loop fuel' env (of_nat (p + 7)) (low_part (p + 7) v) s1 st1 = Some (ok, t, x, u)"
      "ok = varint32_accepts v" "ok \<longrightarrow> x = ucast v \<and> t = s' \<and> u = st'"
      using IH [of s1 st1 fuel'] fuel f more by auto
    moreover have "b AND 0x80 \<noteq> 0"
      using more by (simp add: and_0x80_eq_0_iff)
    ultimately show ?thesis
      using pw more(2) by (simp add: f r Let_def)
  qed
qed

lemma decode_varint32:
  assumes s: "i_callback s = cb" "content s st = varint v @ rest"
    and adv: "rd_adv nxt eff (length (varint v)) (s, st) = (s', st')"
  shows "\<exists>ok t x u. pb_decode_varint32_eof env s st = Some (ok, t, x, False, u) \<and>
    ok = varint32_accepts v \<and> (ok \<longrightarrow> x = ucast v \<and> t = s' \<and> u = st')"
proof -
  let ?P = "\<lambda>p. \<forall>s st fuel. i_callback s = cb \<longrightarrow> content s st = varint (drop_bit p v) @ rest \<longrightarrow>
      drop_bit p v \<noteq> 0 \<longrightarrow> length (varint (drop_bit p v)) \<le> fuel \<longrightarrow>
      rd_adv nxt eff (length (varint (drop_bit p v))) (s, st) = (s', st') \<longrightarrow>
      (\<exists>ok t x u. varint32_loop fuel env (of_nat p) (low_part p v) s st = Some (ok, t, x, u) \<and>
        ok = varint32_accepts v \<and> (ok \<longrightarrow> x = ucast v \<and> t = s' \<and> u = st'))"
  have "?P 35"
  proof (intro allI impI)
    fix s st fuel
    assume *: "i_callback s = cb" "content s st = varint (drop_bit 35 v) @ rest" "drop_bit 35 v \<noteq> 0"
      "length (varint (drop_bit 35 v)) \<le> fuel"
      "rd_adv nxt eff (length (varint (drop_bit 35 v))) (s, st) = (s', st')"
    have "drop_bit 31 (low_part 35 v) \<noteq> 0 \<longleftrightarrow> bit v 31"
    proof
      assume "drop_bit 31 (low_part 35 v) \<noteq> 0"
      then obtain n where "bit (low_part 35 v) n" "31 \<le> n"
        by (auto simp: drop_bit_eq_0_iff not_less)
      moreover from this have "n < 32"
        using bit_imp_le_length by fastforce
      ultimately have "n = 31"
        by simp
      with \<open>bit (low_part 35 v) n\<close> show "bit v 31"
        by (simp add: low_part_def word_bits)
    qed (auto simp: drop_bit_eq_0_iff low_part_def word_bits intro!: exI [of _ 31])
    moreover have "\<not> unat v < 2 ^ 32"
    proof
      assume "unat v < 2 ^ 32"
      then have "drop_bit 35 v = 0"
        using unat_less_imp_bit_less [of v 32] by (force simp: drop_bit_eq_0_iff)
      then show False using *(3) by simp
    qed
    moreover have "drop_bit 31 (low_part 35 v) \<noteq> 0 \<and> ext_groups_ok v [35, 42, 49, 56] \<Longrightarrow>
        low_part 35 v = ucast v"
      by (rule bit_word_eqI) (auto simp: low_part_def word_bits)
    ultimately show "\<exists>ok t x u. varint32_loop fuel env (of_nat 35) (low_part 35 v) s st = Some (ok, t, x, u) \<and>
        ok = varint32_accepts v \<and> (ok \<longrightarrow> x = ucast v \<and> t = s' \<and> u = st')"
      using varint32_loop_above [OF *, of "[35, 42, 49, 56]" "low_part 35 v"]
      by (auto simp: varint32_accepts_def)
  qed
  moreover have step: "?P (p + 7) \<Longrightarrow> p \<le> 28 \<Longrightarrow> p \<noteq> 28 \<longrightarrow> p \<le> 25 \<Longrightarrow> ?P p" for p
    by (intro allI impI, rule varint32_loop_low) blast+
  ultimately have P28: "?P 28"
    using step [of 28] by simp
  then have "?P 21"
    using step [of 21] by simp
  then have "?P 14"
    using step [of 14] by simp
  then have P7: "?P 7"
    using step [of 7] by simp
  obtain s1 st1 where adv1: "rd_adv nxt eff 1 (s, st) = (s1, st1)"
    by (cases "rd_adv nxt eff 1 (s, st)")
  have s0: "content s st = varint (drop_bit 0 v) @ rest"
    and adv0: "rd_adv nxt eff (length (varint (drop_bit 0 v))) (s, st) = (s', st')"
    using s(2) adv by simp_all
  from s(1) s0 adv1 adv0 show ?thesis
  proof (cases rule: varint32_round)
    case (last b)
    then have low: "unat v < 2 ^ 7"
      by (simp only: drop_bit_eq_0_iff_unat add_0)
    then have "varint32_accepts v"
      by (simp add: varint32_accepts_def)
    moreover have "ucast b = (ucast v :: u32)"
      by (rule bit_word_eqI) (use unat_less_imp_bit_less [OF low] in \<open>force simp: last(3) word_bits\<close>)
    ultimately show ?thesis
      using last by (simp add: pb_decode_varint32_eof_def and_0x80_eq_0_iff)
  next
    case (more b)
    have "low_part 0 v OR push_bit 0 (ucast (b AND 0x7F)) = low_part (0 + 7) v"
      by (rule low_part_step) (simp_all add: more(3) word_bits)
    then have r: "ucast (b AND 0x7F) = low_part 7 v"
      by (simp add: low_part_def)
    have len: "length (varint (drop_bit 7 v)) \<le> Suc (unat (bytes_left s1))"
      using more(5) length_content [OF more(6), of st1] by simp
    obtain ok t x u where
      "varint32_loop (Suc (unat (bytes_left s1))) env 7 (low_part 7 v) s1 st1 = Some (ok, t, x, u)"
      "ok = varint32_accepts v" "ok \<longrightarrow> x = ucast v \<and> t = s' \<and> u = st'"
      using P7 [rule_format, of s1 st1 "Suc (unat (bytes_left s1))"] more len
      by (simp del: varint32_loop.simps) blast
    moreover have "b AND 0x80 \<noteq> 0"
      using more by (simp add: and_0x80_eq_0_iff)
    ultimately show ?thesis
      using more(2) by (simp add: pb_decode_varint32_eof_def r del: varint32_loop.simps)
  qed
qed

end

section \<open>Zigzag integers\<close>

definition zigzag :: "u64 \<Rightarrow> u64" where
  "zigzag v = (if sint v < 0 then NOT (push_bit 1 v) else push_bit 1 v)"

definition unzigzag :: "u64 \<Rightarrow> u64" where
  "unzigzag w = (if w AND 1 \<noteq> 0 then NOT (drop_bit 1 w) else drop_bit 1 w)"

lemma and_1_iff: "w AND 1 \<noteq> 0 \<longleftrightarrow> bit w 0" for w :: "'a::len word"
  by (simp add: and_one_eq bit_0 odd_iff_mod_2_eq_one)

lemma sint_less_0_iff_bit: "sint v < 0 \<longleftrightarrow> bit v 63" for v :: u64
  using bit_last_iff [of v] by simp

lemma bit_zigzag: "bit (zigzag v) n \<longleftrightarrow> n < 64 \<and> (if n = 0 then bit v 63 else bit v (n - 1) \<noteq> bit v 63)"
  by (auto simp: zigzag_def sint_less_0_iff_bit bit_not_iff word_bits simp del: push_bit_Suc One_nat_def)

lemma bit_unzigzag: "bit (unzigzag w) n \<longleftrightarrow> n < 64 \<and> bit w (Suc n) \<noteq> bit w 0"
  using bit_imp_le_length [of w "Suc n"]
  by (auto simp: unzigzag_def and_1_iff bit_not_iff word_bits)

lemma unzigzag_zigzag: "unzigzag (zigzag v) = v"
proof (rule bit_word_eqI)
  fix n
  assume "n < LENGTH(64)"
  then show "bit (unzigzag (zigzag v)) n = bit v n"
    by (cases "n = 63") (auto simp: bit_unzigzag bit_zigzag)
qed

lemma zigzag_unzigzag: "zigzag (unzigzag w) = w"
  using bit_imp_le_length [of w 64]
  by (intro bit_word_eqI) (auto simp: bit_unzigzag bit_zigzag)

lemma pb_encode_svarint_eq: "pb_encode_svarint env v = pb_encode_varint env (zigzag v)"
  by (simp add: pb_encode_svarint_def zigzag_def)

lemma pb_decode_svarint_eq:
  "pb_decode_svarint env s st = (case pb_decode_varint env s st of (ok, s', w, st') \<Rightarrow>
     if \<not> ok then (False, s', 0, st') else (True, s', unzigzag w, st'))"
  by (auto simp: pb_decode_svarint_def unzigzag_def split: prod.splits)

section \<open>Fixed-width integers\<close>

lemma ucast_and_0xFF_byte: "(ucast (w AND 0xFF) :: byte) = ucast w" for w :: "'a::len word"
  by (rule bit_word_eqI) (auto simp: word_bits bit_imp_le_length)

lemma bytes_of_word_u32:
  "bytes_of_word 4 (v :: u32) = [ucast v, ucast (drop_bit 8 v), ucast (drop_bit 16 v), ucast (drop_bit 24 v)]"
  by (simp add: numeral_eq_Suc)

lemma bytes_of_word_u64:
  "bytes_of_word 8 (v :: u64) = [ucast v, ucast (drop_bit 8 v), ucast (drop_bit 16 v), ucast (drop_bit 24 v),
     ucast (drop_bit 32 v), ucast (drop_bit 40 v), ucast (drop_bit 48 v), ucast (drop_bit 56 v)]"
  by (simp add: numeral_eq_Suc)

lemma bytes_of_load32: "bytes_of_word 4 (load32 m a) = load_bytes m a 4"
  using bytes_of_word_of_bytes [of "load_bytes m a 4", where 'a = 32] by (simp add: load32_def)

lemma bytes_of_load64: "bytes_of_word 8 (load64 m a) = load_bytes m a 8"
  using bytes_of_word_of_bytes [of "load_bytes m a 8", where 'a = 64] by (simp add: load64_def)

lemma pb_encode_fixed32_eq: "pb_encode_fixed32 env a s st = pb_write env (load_bytes (mem st) a 4) 4 s st"
  unfolding pb_encode_fixed32_def bytes_of_load32 [symmetric] bytes_of_word_u32
  by (simp add: ucast_and_0xFF_byte Let_def)

lemma pb_encode_fixed64_eq: "pb_encode_fixed64 env a s st = pb_write env (load_bytes (mem st) a 8) 8 s st"
  unfolding pb_encode_fixed64_def bytes_of_load64 [symmetric] bytes_of_word_u64
  by (simp add: ucast_and_0xFF_byte Let_def)

lemma word_of_4_bytes:
  "length bs = 4 \<Longrightarrow>
   push_bit 0 (ucast (bs ! 0)) OR push_bit 8 (ucast (bs ! 1)) OR push_bit 16 (ucast (bs ! 2)) OR
   push_bit 24 (ucast (bs ! 3)) = (word_of_bytes bs :: u32)"
  by (auto simp: length_Suc_conv numeral_eq_Suc push_bit_or ac_simps)

lemma word_of_8_bytes:
  "length bs = 8 \<Longrightarrow>
   push_bit 0 (ucast (bs ! 0)) OR push_bit 8 (ucast (bs ! 1)) OR push_bit 16 (ucast (bs ! 2)) OR
   push_bit 24 (ucast (bs ! 3)) OR push_bit 32 (ucast (bs ! 4)) OR push_bit 40 (ucast (bs ! 5)) OR
   push_bit 48 (ucast (bs ! 6)) OR push_bit 56 (ucast (bs ! 7)) = (word_of_bytes bs :: u64)"
  by (auto simp: length_Suc_conv numeral_eq_Suc push_bit_or ac_simps)

context pb_sink
begin

lemma emits_svarint: "emits cb nxt put frm m (pb_encode_svarint env v) (varint (zigzag v))"
  unfolding pb_encode_svarint_eq by (rule emits_varint)

lemma emits_cong:
  "(\<And>s st. mem st = m \<Longrightarrow> f s st = g s st) \<Longrightarrow> emits cb nxt put frm m f bs \<longleftrightarrow> emits cb nxt put frm m g bs"
  by (simp add: emits_def ready_def)

lemma emits_fixed32: "emits cb nxt put frm m (pb_encode_fixed32 env a) (load_bytes m a 4)"
  using emits_write [of 4 "load_bytes m a 4" m]
  by (subst emits_cong [where g = "pb_write env (load_bytes m a 4) 4"]) (simp_all add: pb_encode_fixed32_eq)

lemma emits_fixed64: "emits cb nxt put frm m (pb_encode_fixed64 env a) (load_bytes m a 8)"
  using emits_write [of 8 "load_bytes m a 8" m]
  by (subst emits_cong [where g = "pb_write env (load_bytes m a 8) 8"]) (simp_all add: pb_encode_fixed64_eq)

end

context pb_source
begin

lemma decode_svarint:
  assumes "i_callback s = cb" and "content s st = varint (zigzag v) @ rest"
    and "rd_adv nxt eff (length (varint (zigzag v))) (s, st) = (s', st')"
  shows "pb_decode_svarint env s st = (True, s', v, st')"
  using decode_varint [OF assms] by (simp add: pb_decode_svarint_eq unzigzag_zigzag)

lemma decode_fixed32:
  assumes "i_callback s = cb" and "content s st = bs @ rest" and "length bs = 4"
    and "rd_adv nxt eff 4 (s, st) = (s', st')"
  shows "pb_decode_fixed32 env dest s st = (True, s', upd_mem (\<lambda>m. store_bytes m dest bs) st')"
  using read_prefix [OF assms(1), of 4 st s' st'] assms
  by (simp add: pb_decode_fixed32_def word_of_4_bytes [simplified] store32_word_of_bytes)

lemma decode_fixed64:
  assumes "i_callback s = cb" and "content s st = bs @ rest" and "length bs = 8"
    and "rd_adv nxt eff 8 (s, st) = (s', st')"
  shows "pb_decode_fixed64 env dest s st = (True, s', upd_mem (\<lambda>m. store_bytes m dest bs) st')"
  using read_prefix [OF assms(1), of 8 st s' st'] assms
  by (simp add: pb_decode_fixed64_def word_of_8_bytes [simplified] store64_word_of_bytes)

end

section \<open>Skipping, tags and substreams\<close>

text \<open>The complete encodings of a value of each wire type.\<close>

definition raw_varint :: "byte list \<Rightarrow> bool" where
  "raw_varint bs \<longleftrightarrow> bs \<noteq> [] \<and> \<not> bit (last bs) 7 \<and> (\<forall>b \<in> set (butlast bs). bit b 7)"

definition wire_value :: "wire_type \<Rightarrow> byte list \<Rightarrow> bool" where
  "wire_value wt bs \<longleftrightarrow>
     wt = PB_WT_VARINT \<and> raw_varint bs \<or> wt = PB_WT_64BIT \<and> length bs = 8 \<or>
     wt = PB_WT_32BIT \<and> length bs = 4 \<or>
     wt = PB_WT_STRING \<and> (\<exists>v payload. bs = varint v @ payload \<and> varint32_accepts v \<and>
       length payload = unat (ucast v :: u32))"

lemma raw_varint_varint: "raw_varint (varint v)"
proof (induction v rule: varint.induct)
  case (1 v)
  show ?case
  proof (cases "v \<le> 0x7F")
    case True
    then have "drop_bit 7 v = 0"
      by (simp only: le_0x7F_iff_drop_bit)
    then show ?thesis
      using True by (auto simp: raw_varint_def varint_small drop_bit_eq_0_iff word_bits)
  next
    case False
    then show ?thesis
      using 1 by (auto simp: raw_varint_def varint_large varint_not_Nil bit_or_iff)
  qed
qed

lemma raw_varint_Cons: "raw_varint (b # bs) \<longleftrightarrow> (if bs = [] then \<not> bit b 7 else bit b 7 \<and> raw_varint bs)"
  by (auto simp: raw_varint_def)

context pb_source
begin

lemma skip_varint_loop_content:
  "i_callback s = cb \<Longrightarrow> content s st = bs @ rest \<Longrightarrow> raw_varint bs \<Longrightarrow> length bs \<le> fuel \<Longrightarrow>
   rd_adv nxt eff (length bs) (s, st) = (s', st') \<Longrightarrow> skip_varint_loop fuel env s st = Some (True, s', st')"
proof (induction bs arbitrary: fuel s st)
  case Nil
  then show ?case by (simp add: raw_varint_def)
next
  case (Cons b bs)
  obtain f where f: "fuel = Suc f"
    using Cons.prems(4) by (cases fuel) auto
  obtain s1 st1 where adv1: "rd_adv nxt eff 1 (s, st) = (s1, st1)"
    by (cases "rd_adv nxt eff 1 (s, st)")
  have rd: "pb_read env True 1 s st = (True, s1, [b], st1)"
    using read_prefix [of s 1 st s1 st1] Cons.prems(1,2) adv1 by simp
  have c: "content s1 st1 = bs @ rest" and cb1: "i_callback s1 = cb"
    using content_adv [OF Cons.prems(1) _ adv1] adv_callback [OF adv1] Cons.prems(1,2) by simp_all
  have adv2: "rd_adv nxt eff (length bs) (s1, st1) = (s', st')"
    using Cons.prems(5) adv_add [of 1 "length bs" "(s, st)"] adv1 by simp
  show ?case
    using Cons.prems(3,4) Cons.IH [OF cb1 c _ _ adv2, of f] adv2
    by (auto simp: f rd the_byte_def raw_varint_Cons and_0x80_eq_0_iff adv_0 split: if_splits)
qed

lemma decode_varint32_accepts:
  assumes "i_callback s = cb" and "content s st = varint v @ rest" and "varint32_accepts v"
    and "rd_adv nxt eff (length (varint v)) (s, st) = (s', st')"
  shows "pb_decode_varint32 env s st = Some (True, s', ucast v, st')"
  using decode_varint32 [OF assms(1,2,4)] assms(3) by (auto simp: pb_decode_varint32_def)

lemma skip_field:
  assumes s: "i_callback s = cb" "content s st = bs @ rest" and wv: "wire_value wt bs"
    and adv: "rd_adv nxt eff (length bs) (s, st) = (s', st')"
  shows "pb_skip_field env wt s st = Some (True, s', st')"
proof -
  consider (varint) "wt = PB_WT_VARINT" "raw_varint bs" | (b64) "wt = PB_WT_64BIT" "length bs = 8"
    | (b32) "wt = PB_WT_32BIT" "length bs = 4"
    | (str) v payload where "wt = PB_WT_STRING" "bs = varint v @ payload" "varint32_accepts v"
        "length payload = unat (ucast v :: u32)"
    using wv by (auto simp: wire_value_def)
  then show ?thesis
  proof cases
    case varint
    have "length bs \<le> Suc (unat (bytes_left s))"
      using s length_content [OF s(1), of st] by simp
    then show ?thesis
      using skip_varint_loop_content [OF s varint(2) _ adv] varint
      by (simp add: pb_skip_field_def pb_skip_varint_def del: skip_varint_loop.simps)
  next
    case b64
    then show ?thesis
      using read_null [OF s(1), of 8 st s' st'] s adv by (simp add: pb_skip_field_def wt_defs)
  next
    case b32
    then show ?thesis
      using read_null [OF s(1), of 4 st s' st'] s adv by (simp add: pb_skip_field_def wt_defs)
  next
    case str
    obtain s1 st1 where adv1: "rd_adv nxt eff (length (varint v)) (s, st) = (s1, st1)"
      by (cases "rd_adv nxt eff (length (varint v)) (s, st)")
    have c: "content s st = varint v @ payload @ rest"
      using s str by simp
    have u: "unat (ucast (ucast v :: u32) :: u64) = length payload"
      using str(4) by simp
    have "rd_adv nxt eff (length payload) (s1, st1) = (s', st')"
      using adv adv_add [of "length (varint v)" "length payload" "(s, st)"] adv1 str by simp
    then have "pb_read_null env (ucast (ucast v :: u32)) s1 st1 = (True, s', st')"
      using read_null [of s1 "ucast (ucast v :: u32)" st1 s' st'] content_adv [OF s(1) _ adv1] c u
        adv_callback [OF adv1] s(1) by simp
    then show ?thesis
      using decode_varint32_accepts [OF s(1) c str(3) adv1] str(1)
      by (simp add: pb_skip_field_def pb_skip_string_def wt_defs)
  qed
qed

lemma decode_tag:
  assumes "i_callback s = cb" and "content s st = varint v @ rest" and "varint32_accepts v"
    and "(ucast v :: u32) \<noteq> 0" and "rd_adv nxt eff (length (varint v)) (s, st) = (s', st')"
  shows "pb_decode_tag env s st = Some (True, s', ucast v AND 7, drop_bit 3 (ucast v), False, st')"
  using decode_varint32 [OF assms(1,2,5)] assms(3,4) by (auto simp: pb_decode_tag_def)

lemma decode_tag_end:
  assumes "i_callback s = cb" and "content s st = []"
  shows "pb_decode_tag env s st = Some (False, set_ierr ''end-of-stream'' s, 0, 0, True, st)"
  using readbyte_Nil [OF assms] length_content [OF assms(1), of st] assms(2)
  by (simp add: pb_decode_tag_def pb_decode_varint32_eof_def set_ierr_def unsigned_eq_0_iff split: option.splits)

text \<open>
  A substream over the payload, read to any point and closed, leaves the parent stream exactly
  behind the payload.
\<close>

lemma make_substream:
  assumes s: "i_callback s = cb" "content s st = varint v @ payload @ rest"
    and v: "varint32_accepts v" "length payload = unat (ucast v :: u32)"
    and adv1: "rd_adv nxt eff (length (varint v)) (s, st) = (s1, st1)"
  shows "pb_make_string_substream env s st =
      Some (True, s1\<lparr>bytes_left := bytes_left s1 - of_nat (length payload)\<rparr>,
            s1\<lparr>bytes_left := of_nat (length payload)\<rparr>, st1)"
    and "content (s1\<lparr>bytes_left := of_nat (length payload)\<rparr>) st1 = payload"
    and "unat (of_nat (length payload) :: u64) = length payload"
proof -
  have cb1: "i_callback s1 = cb"
    using adv_callback [OF adv1] s(1) by simp
  show un: "unat (of_nat (length payload) :: u64) = length payload"
    using v(2) unat_u32_less [of "ucast v"] by (intro unat_of_nat_u64) simp
  have "unat (ucast (ucast v :: u32) :: u64) = unat (of_nat (length payload) :: u64)"
    unfolding un v(2) by simp
  then have u: "(ucast (ucast v :: u32) :: u64) = of_nat (length payload)"
    by (simp only: word_unat_eq_iff)
  have c1: "content s1 st1 = payload @ rest"
    using content_adv [OF s(1) _ adv1] s by simp
  then have le: "of_nat (length payload) \<le> bytes_left s1"
    using length_content [OF cb1, of st1] un by (simp add: word_le_nat_alt)
  then show "pb_make_string_substream env s st =
      Some (True, s1\<lparr>bytes_left := bytes_left s1 - of_nat (length payload)\<rparr>,
            s1\<lparr>bytes_left := of_nat (length payload)\<rparr>, st1)"
    using decode_varint32_accepts [OF s v(1) adv1] u by (simp add: pb_make_string_substream_def)
  show "content (s1\<lparr>bytes_left := of_nat (length payload)\<rparr>) st1 = payload"
    using content_limit [OF cb1 le] c1 un by simp
qed

lemma close_substream:
  assumes cb: "i_callback s1 = cb" and le: "n \<le> length (content s1 st1)"
    and k: "k \<le> n" and sub: "rd_adv nxt eff k (s1\<lparr>bytes_left := of_nat n\<rparr>, st1) = (sub, st2)"
    and adv: "rd_adv nxt eff n (s1, st1) = (s', st')"
  shows "pb_close_string_substream env (s1\<lparr>bytes_left := bytes_left s1 - of_nat n\<rparr>) sub st2 = (True, s', st')"
proof -
  have n64: "unat (of_nat n :: u64) = n"
    using le length_content [OF cb, of st1] unat_u64_less [of "bytes_left s1"] by (intro unat_of_nat_u64) simp
  then have nle: "of_nat n \<le> bytes_left s1"
    using le length_content [OF cb, of st1] by (simp add: word_le_nat_alt)
  let ?s = "s1\<lparr>bytes_left := of_nat n\<rparr>"
  have scb: "i_callback ?s = cb" "i_callback sub = cb"
    using cb adv_callback [OF sub] by simp_all
  have len: "length (content ?s st1) = n"
    using length_content [OF scb(1), of st1] n64 by simp
  have csub: "length (content sub st2) = n - k"
    using content_adv [OF scb(1) _ sub] k len by simp
  then have left: "unat (bytes_left sub) = n - k"
    using length_content [OF scb(2), of st2] by simp
  obtain sub' st'' where adv2: "rd_adv nxt eff (n - k) (sub, st2) = (sub', st'')"
    by (cases "rd_adv nxt eff (n - k) (sub, st2)")
  have "rd_adv nxt eff n (?s, st1) = (sub', st'')"
    using adv_add [of k "n - k" "(?s, st1)"] k sub adv2 by simp
  then have *: "i_state sub' = i_state s'" "st'' = st'" "i_errmsg sub' = i_errmsg s'"
    using adv by (auto simp: rd_adv_def nxt_limit eff_limit)
  have s': "s1\<lparr>bytes_left := bytes_left s1 - of_nat n, i_state := i_state s', i_errmsg := i_errmsg s'\<rparr> = s'"
    using adv by (auto simp: rd_adv_def)
  have "(if bytes_left sub \<noteq> 0 then pb_read_null env (bytes_left sub) sub st2 else (True, sub, st2)) =
      (True, sub', st'')"
  proof (cases "bytes_left sub = 0")
    case True
    then show ?thesis
      using left adv2 by (simp add: adv_0)
  next
    case False
    then show ?thesis
      using read_null [OF scb(2), of "bytes_left sub" st2 sub' st''] csub left adv2 by simp
  qed
  then show ?thesis
    using * s' by (simp add: pb_close_string_substream_def)
qed

end

end
