(* ===== verification/PbFields.thy ===== *)
theory PbFields
  imports PbWire
begin

text \<open>
  The field iterator of nanopb (\<^verbatim>\<open>pb_common.c\<close>). A message descriptor lists the fields with offsets
  relative to the previous field; the iterator walks them, keeping the address of the field's data
  and of its size or has-flag in the message. The specification gives both addresses of the
  \<^verbatim>\<open>i\<close>-th field directly (\<^verbatim>\<open>field_addr\<close>, \<^verbatim>\<open>field_size_addr\<close>); the iterator is proved to visit exactly
  the states \<^verbatim>\<open>iter_at\<close> of that specification, in order and cyclically.
\<close>

section \<open>The iterator\<close>

record pb_iter =
  it_start :: addr
  it_pos :: nat
  required_field_index :: u32
  dest_struct :: addr
  pData :: addr
  pSize :: addr

definition cur_field :: "'u pb_env \<Rightarrow> pb_iter \<Rightarrow> pb_field" where
  "cur_field env it = field_at (descs env (it_start it)) (it_pos it)"

text \<open>\<^verbatim>\<open>(char* )p + size_offset\<close>, where \<^verbatim>\<open>size_offset\<close> is a signed 32-bit integer.\<close>

definition size_ptr :: "pb_field \<Rightarrow> addr \<Rightarrow> addr" where
  "size_ptr f p = p + scast (size_offset f)"

definition pb_field_iter_begin :: "'u pb_env \<Rightarrow> addr \<Rightarrow> addr \<Rightarrow> bool \<times> pb_iter" where
  "pb_field_iter_begin env desc dest =
     (let f = field_at (descs env desc) 0;
          data = (if dest = 0 then 0 else dest + ucast (data_offset f));
          sz = (if dest = 0 then 0 else size_ptr f data)
      in (tag f \<noteq> 0,
          \<lparr>it_start = desc, it_pos = 0, required_field_index = 0, dest_struct = dest,
            pData = data, pSize = sz\<rparr>))"

definition pb_field_iter_next :: "'u pb_env \<Rightarrow> pb_iter \<Rightarrow> bool \<times> pb_iter" where
  "pb_field_iter_next env it =
     (let prev = cur_field env it in
      if tag prev = 0 then (False, it)
      else
        (let it1 = it\<lparr>it_pos := it_pos it + 1\<rparr>; f = cur_field env it1 in
         if tag f = 0 then (False, snd (pb_field_iter_begin env (it_start it1) (dest_struct it1)))
         else if PB_HTYPE (ftype prev) = PB_HTYPE_ONEOF \<and> PB_HTYPE (ftype f) = PB_HTYPE_ONEOF \<and>
                 data_offset f = PB_SIZE_MAX
         then (True, it1)
         else
           (let prev_size =
                  (if PB_ATYPE (ftype prev) = PB_ATYPE_STATIC \<and> PB_HTYPE (ftype prev) = PB_HTYPE_REPEATED
                   then ucast (data_size prev) * ucast (array_size prev)
                   else if PB_ATYPE (ftype prev) = PB_ATYPE_POINTER then 8
                   else ucast (data_size prev));
                req = (if PB_HTYPE (ftype prev) = PB_HTYPE_REQUIRED then required_field_index it1 + 1
                       else required_field_index it1);
                data = pData it1 + prev_size + ucast (data_offset f)
            in (True, it1\<lparr>required_field_index := req, pData := data, pSize := size_ptr f data\<rparr>))))"

text \<open>
  The search loop runs at most once around the descriptor, so that its length plus one is enough
  fuel for every search.
\<close>

fun iter_find_loop :: "nat \<Rightarrow> 'u pb_env \<Rightarrow> nat \<Rightarrow> u32 \<Rightarrow> pb_iter \<Rightarrow> bool \<times> pb_iter" where
  "iter_find_loop 0 env start t it = (False, it)"
| "iter_find_loop (Suc fuel) env start t it =
     (if tag (cur_field env it) = t \<and> PB_LTYPE (ftype (cur_field env it)) \<noteq> PB_LTYPE_EXTENSION
      then (True, it)
      else
        (let it' = snd (pb_field_iter_next env it)
         in if it_pos it' \<noteq> start then iter_find_loop fuel env start t it' else (False, it')))"

definition pb_field_iter_find :: "'u pb_env \<Rightarrow> u32 \<Rightarrow> pb_iter \<Rightarrow> bool \<times> pb_iter" where
  "pb_field_iter_find env t it =
     iter_find_loop (Suc (length (descs env (it_start it)))) env (it_pos it) t it"

text \<open>
  The loop \<^verbatim>\<open>do ... while (pb_field_iter_next (&iter))\<close> that encoder, decoder and release share:
  the body leaves the function with \<^verbatim>\<open>Inl\<close> or goes on with \<^verbatim>\<open>Inr\<close>.
\<close>

lemma iter_next_measure:
  "pb_field_iter_next env it = (True, it') \<Longrightarrow>
   length (descs env (it_start it')) - it_pos it' < length (descs env (it_start it)) - it_pos it"
  by (auto simp: pb_field_iter_next_def Let_def cur_field_def field_at_def PB_LAST_FIELD_def
      split: if_splits)

function iter_fields :: "'u pb_env \<Rightarrow> (pb_iter \<Rightarrow> 'c \<Rightarrow> 'r + 'c) \<Rightarrow> pb_iter \<Rightarrow> 'c \<Rightarrow> 'r + 'c" where
  "iter_fields env body it x = (case body it x of
     Inl r \<Rightarrow> Inl r
   | Inr x' \<Rightarrow> (case pb_field_iter_next env it of (again, it') \<Rightarrow>
       if again then iter_fields env body it' x' else Inr x'))"
  by pat_completeness auto
termination
  by (relation "measure (\<lambda>(env, body, it, x). length (descs env (it_start it)) - it_pos it)")
    (auto dest: iter_next_measure [OF sym])

declare iter_fields.simps [simp del]

section \<open>Where a field is\<close>

definition wf_desc :: "pb_field list \<Rightarrow> bool" where
  "wf_desc fs \<longleftrightarrow> (\<forall>f \<in> set fs. tag f \<noteq> 0)"

definition in_union :: "pb_field \<Rightarrow> pb_field \<Rightarrow> bool" where
  "in_union f g \<longleftrightarrow> PB_HTYPE (ftype f) = PB_HTYPE_ONEOF \<and> PB_HTYPE (ftype g) = PB_HTYPE_ONEOF \<and>
     data_offset g = PB_SIZE_MAX"

definition field_extent :: "pb_field \<Rightarrow> u64" where
  "field_extent f =
     (if PB_ATYPE (ftype f) = PB_ATYPE_STATIC \<and> PB_HTYPE (ftype f) = PB_HTYPE_REPEATED
      then ucast (data_size f) * ucast (array_size f)
      else if PB_ATYPE (ftype f) = PB_ATYPE_POINTER then 8
      else ucast (data_size f))"

primrec field_addr :: "pb_field list \<Rightarrow> addr \<Rightarrow> nat \<Rightarrow> addr" where
  "field_addr fs dest 0 = dest + ucast (data_offset (fs ! 0))"
| "field_addr fs dest (Suc i) =
     (if in_union (fs ! i) (fs ! Suc i) then field_addr fs dest i
      else field_addr fs dest i + field_extent (fs ! i) + ucast (data_offset (fs ! Suc i)))"

primrec field_size_addr :: "pb_field list \<Rightarrow> addr \<Rightarrow> nat \<Rightarrow> addr" where
  "field_size_addr fs dest 0 = size_ptr (fs ! 0) (field_addr fs dest 0)"
| "field_size_addr fs dest (Suc i) =
     (if in_union (fs ! i) (fs ! Suc i) then field_size_addr fs dest i
      else size_ptr (fs ! Suc i) (field_addr fs dest (Suc i)))"

definition is_required :: "pb_field \<Rightarrow> bool" where
  "is_required f \<longleftrightarrow> PB_HTYPE (ftype f) = PB_HTYPE_REQUIRED"

definition iter_at :: "'u pb_env \<Rightarrow> addr \<Rightarrow> addr \<Rightarrow> nat \<Rightarrow> pb_iter" where
  "iter_at env desc dest i = (let fs = descs env desc in
     \<lparr>it_start = desc, it_pos = i,
      required_field_index = of_nat (length (filter is_required (take i fs))),
      dest_struct = dest, pData = field_addr fs dest i, pSize = field_size_addr fs dest i\<rparr>)"

section \<open>The iterator visits the fields\<close>

lemma iter_at_simps [simp]:
  "it_start (iter_at env desc dest i) = desc" "it_pos (iter_at env desc dest i) = i"
  "dest_struct (iter_at env desc dest i) = dest"
  "pData (iter_at env desc dest i) = field_addr (descs env desc) dest i"
  "pSize (iter_at env desc dest i) = field_size_addr (descs env desc) dest i"
  by (simp_all add: iter_at_def Let_def)

lemma cur_field_iter_at [simp]:
  "i < length (descs env desc) \<Longrightarrow> cur_field env (iter_at env desc dest i) = descs env desc ! i"
  by (simp add: cur_field_def field_at_def)

lemma tag_field_at: "wf_desc fs \<Longrightarrow> tag (field_at fs i) \<noteq> 0 \<longleftrightarrow> i < length fs"
  by (auto simp: wf_desc_def field_at_def PB_LAST_FIELD_def)

lemma iter_begin:
  "wf_desc (descs env desc) \<Longrightarrow> dest \<noteq> 0 \<Longrightarrow> descs env desc \<noteq> [] \<Longrightarrow>
   pb_field_iter_begin env desc dest = (True, iter_at env desc dest 0)"
  using tag_field_at [of "descs env desc" 0]
  by (simp add: pb_field_iter_begin_def iter_at_def Let_def field_at_def)

lemma iter_begin_empty: "descs env desc = [] \<Longrightarrow> \<not> fst (pb_field_iter_begin env desc dest)"
  by (simp add: pb_field_iter_begin_def Let_def field_at_def PB_LAST_FIELD_def)

lemma in_union_not_required: "in_union f g \<Longrightarrow> \<not> is_required f"
  by (simp add: in_union_def is_required_def htype_defs)

lemma iter_next:
  assumes wf: "wf_desc (descs env desc)" and dest: "dest \<noteq> 0" and i: "i < length (descs env desc)"
  shows "pb_field_iter_next env (iter_at env desc dest i) =
    (if Suc i < length (descs env desc) then (True, iter_at env desc dest (Suc i))
     else (False, iter_at env desc dest 0))"
proof -
  let ?fs = "descs env desc"
  have ne: "?fs \<noteq> []"
    using i by auto
  have t: "tag (?fs ! i) \<noteq> 0"
    using wf i by (simp add: wf_desc_def)
  show ?thesis
  proof (cases "Suc i < length ?fs")
    case False
    then have "tag (field_at ?fs (Suc i)) = 0"
      using tag_field_at [OF wf] by blast
    then show ?thesis
      using False t i iter_begin [OF wf dest ne]
      by (simp add: pb_field_iter_next_def cur_field_def field_at_def)
  next
    case True
    then have "tag (?fs ! Suc i) \<noteq> 0"
      using wf by (simp add: wf_desc_def)
    then show ?thesis
      using True t i in_union_not_required [of "?fs ! i" "?fs ! Suc i"]
      by (auto simp: pb_field_iter_next_def cur_field_def field_at_def Let_def iter_at_def
          take_Suc_conv_app_nth field_extent_def is_required_def in_union_def)
  qed
qed

text \<open>The field loop is a fold over the descriptor.\<close>

primrec fold_fields :: "(nat \<Rightarrow> 'c \<Rightarrow> 'r + 'c) \<Rightarrow> nat \<Rightarrow> nat \<Rightarrow> 'c \<Rightarrow> 'r + 'c" where
  "fold_fields f i 0 x = Inr x"
| "fold_fields f i (Suc n) x = (case f i x of Inl r \<Rightarrow> Inl r | Inr x' \<Rightarrow> fold_fields f (Suc i) n x')"

lemma iter_fields_fold:
  assumes "wf_desc (descs env desc)" and "dest \<noteq> 0" and "i < length (descs env desc)"
  shows "iter_fields env body (iter_at env desc dest i) x =
    fold_fields (\<lambda>j. body (iter_at env desc dest j)) i (length (descs env desc) - i) x"
  using assms(3)
proof (induction "length (descs env desc) - i" arbitrary: i x)
  case 0
  then show ?case by simp
next
  case (Suc n)
  have n: "length (descs env desc) - i = Suc n"
    using Suc by simp
  show ?case
  proof (cases "Suc i < length (descs env desc)")
    case True
    then have "iter_fields env body (iter_at env desc dest (Suc i)) y =
        fold_fields (\<lambda>j. body (iter_at env desc dest j)) (Suc i) n y" for y
      using Suc(1) [of "Suc i"] n Suc_diff_Suc [OF Suc(3)] by simp
    then show ?thesis
      using True iter_next [OF assms(1,2) Suc(3)] unfolding n
      by (subst iter_fields.simps) (auto split: sum.splits)
  next
    case False
    then have "n = 0"
      using n by simp
    then show ?thesis
      using False iter_next [OF assms(1,2) Suc(3)] unfolding n
      by (subst iter_fields.simps) (auto split: sum.splits)
  qed
qed

text \<open>Searching: the first match in cyclic order from the current position.\<close>

definition matches :: "u32 \<Rightarrow> pb_field \<Rightarrow> bool" where
  "matches t f \<longleftrightarrow> tag f = t \<and> PB_LTYPE (ftype f) \<noteq> PB_LTYPE_EXTENSION"

definition cyclic :: "nat \<Rightarrow> nat \<Rightarrow> nat \<Rightarrow> nat list" where
  "cyclic n start i = (if start \<le> i then [i..<n] @ [0..<start] else [i..<start])"

lemma cyclic_step:
  assumes "i < n" and "start < n" 
  shows "cyclic n start i = i # (if Suc i < n then if Suc i = start then [] else cyclic n start (Suc i)
    else if start = 0 then [] else cyclic n start 0)"
proof (cases "start \<le> i")
  case True
  then show ?thesis
    using assms by (cases "Suc i < n") (auto simp: cyclic_def upt_conv_Cons not_less_eq le_Suc_eq)
next
  case False
  then show ?thesis
    using assms by (auto simp: cyclic_def upt_conv_Cons)
qed

lemma iter_find_loop_cyclic:
  assumes wf: "wf_desc (descs env desc)" and dest: "dest \<noteq> 0" and start: "start < length (descs env desc)"
  shows "i < length (descs env desc) \<Longrightarrow> length (cyclic (length (descs env desc)) start i) \<le> fuel \<Longrightarrow>
    iter_find_loop fuel env start t (iter_at env desc dest i) =
    (case find (\<lambda>j. matches t (descs env desc ! j)) (cyclic (length (descs env desc)) start i) of
       Some j \<Rightarrow> (True, iter_at env desc dest j) | None \<Rightarrow> (False, iter_at env desc dest start))"
proof (induction fuel arbitrary: i)
  case 0
  then show ?case
    using cyclic_step [OF 0(1) start] by simp
next
  case (Suc fuel)
  let ?n = "length (descs env desc)"
  have "0 < ?n"
    using start by linarith
  then show ?case
    using Suc.prems Suc.IH [of "Suc i"] Suc.IH [of 0] cyclic_step [OF Suc.prems(1) start]
      iter_next [OF wf dest Suc.prems(1)]
    by (auto simp: matches_def)
qed

lemma iter_find:
  assumes "wf_desc (descs env desc)" and "dest \<noteq> 0" and "i < length (descs env desc)"
  shows "pb_field_iter_find env t (iter_at env desc dest i) =
    (case find (\<lambda>j. matches t (descs env desc ! j)) ([i..<length (descs env desc)] @ [0..<i]) of
       Some j \<Rightarrow> (True, iter_at env desc dest j) | None \<Rightarrow> (False, iter_at env desc dest i))"
proof -
  have c: "cyclic (length (descs env desc)) i i = [i..<length (descs env desc)] @ [0..<i]"
    by (simp add: cyclic_def)
  have "length (cyclic (length (descs env desc)) i i) \<le> Suc (length (descs env desc))"
    using assms(3) by (simp add: c)
  from iter_find_loop_cyclic [OF assms(1,2,3,3) this, of t] show ?thesis
    by (simp add: pb_field_iter_find_def c del: iter_find_loop.simps)
qed

end
