(* ===== verification/PbEncode.thy ===== *)
theory PbEncode
  imports PbFields
begin

text \<open>
  The message encoder of nanopb (\<^verbatim>\<open>pb_encode.c\<close>). Every C function is one definition. The recursion of
  the source, \<^verbatim>\<open>pb_encode\<close> calling itself for submessages, is open: the functions below it take the
  encoder for submessages as the argument \<^verbatim>\<open>enc\<close>, and \<^verbatim>\<open>pb_encode\<close> ties the knot on fuel, which bounds the
  nesting depth of messages and the length of extension lists. \<^verbatim>\<open>None\<close> is a run out of fuel, a call through
  a null function pointer or a read outside an object, so that a theorem about \<^verbatim>\<open>Some\<close> says that none
  of them happens.

  The specification \<^verbatim>\<open>msg_bytes\<close> gives the encoding of a message as a function of memory, without streams,
  size passes or iterators. The theorems show that \<^verbatim>\<open>pb_encode\<close> writes exactly these bytes on every
  sink, that \<^verbatim>\<open>pb_get_encoded_size\<close> returns their number, and that the size pass of a submessage and its
  writing pass agree.
\<close>

type_synonym 'u wro = "pb_ostream \<Rightarrow> 'u cstate \<Rightarrow> (bool \<times> pb_ostream \<times> 'u cstate) option"
type_synonym 'u encoder = "pb_field \<Rightarrow> addr \<Rightarrow> 'u wro"

definition wro :: "'u wr \<Rightarrow> 'u wro" where
  "wro f s st = Some (f s st)"

definition wro_seq :: "'u wro \<Rightarrow> 'u wro \<Rightarrow> 'u wro" where
  "wro_seq f g s st = (case f s st of
     None \<Rightarrow> None
   | Some (ok, s', st') \<Rightarrow> if ok then g s' st' else Some (False, s', st'))"

definition wro_ok :: "'u wro" where
  "wro_ok s st = Some (True, s, st)"

definition call_encoder :: "'u encoder option \<Rightarrow> 'u encoder" where
  "call_encoder func field src s st = (case func of None \<Rightarrow> None | Some f \<Rightarrow> f field src s st)"

section \<open>Presence of a field\<close>

definition safe_read_bool :: "memory \<Rightarrow> addr \<Rightarrow> bool" where
  "safe_read_bool m p \<longleftrightarrow> (\<exists>b \<in> set (load_bytes m p 1). b \<noteq> 0)"

definition is_zero_memory :: "memory \<Rightarrow> addr \<Rightarrow> nat \<Rightarrow> bool" where
  "is_zero_memory m p n \<longleftrightarrow> list_all (\<lambda>b. b = 0) (load_bytes m p n)"

definition proto3_scalar_default :: "memory \<Rightarrow> pb_field \<Rightarrow> addr \<Rightarrow> bool" where
  "proto3_scalar_default m field data =
     (if PB_ATYPE (ftype field) = PB_ATYPE_POINTER \<and> PB_LTYPE_LAST_PACKABLE < PB_LTYPE (ftype field)
      then load64 m data = 0
      else is_zero_memory m data (unat (data_size field)))"

primrec pb_check_proto3_default_value ::
  "nat \<Rightarrow> 'u pb_env \<Rightarrow> memory \<Rightarrow> pb_field \<Rightarrow> addr \<Rightarrow> bool option" where
  "pb_check_proto3_default_value 0 env m field data = None"
| "pb_check_proto3_default_value (Suc n) env m field data =
     (let t = ftype field; sz = size_ptr field data in
      if PB_HTYPE t = PB_HTYPE_REQUIRED then Some False
      else if PB_HTYPE t = PB_HTYPE_REPEATED \<and> size_offset field \<noteq> 0 then Some (load32 m sz = 0)
      else if PB_HTYPE t = PB_HTYPE_REPEATED \<and> PB_ATYPE t = PB_ATYPE_STATIC then Some False
      else if PB_HTYPE t = PB_HTYPE_ONEOF then Some (load32 m sz = 0)
      else if PB_HTYPE t = PB_HTYPE_OPTIONAL \<and> size_offset field \<noteq> 0
      then Some (\<not> safe_read_bool m sz)
      else if PB_ATYPE t = PB_ATYPE_STATIC \<and> PB_LTYPE t = PB_LTYPE_BYTES then Some (load32 m data = 0)
      else if PB_ATYPE t = PB_ATYPE_STATIC \<and> PB_LTYPE t = PB_LTYPE_STRING then Some (load8 m data = 0)
      else if PB_ATYPE t = PB_ATYPE_STATIC \<and> PB_LTYPE t = PB_LTYPE_FIXED_LENGTH_BYTES
      then Some (data_size field = 0)
      else if PB_ATYPE t = PB_ATYPE_STATIC \<and> PB_LTYPE t = PB_LTYPE_SUBMESSAGE then
        (case pb_field_iter_begin env (ptr field) data of (nonempty, it) \<Rightarrow>
           if \<not> nonempty then Some True
           else
             (case iter_fields env (\<lambda>it _. case pb_check_proto3_default_value n env m (cur_field env it) (pData it) of
                      None \<Rightarrow> Inl None
                    | Some dflt \<Rightarrow> if \<not> dflt then Inl (Some False) else Inr ()) it () of
                Inl r \<Rightarrow> r
              | Inr _ \<Rightarrow> Some True))
      else Some (proto3_scalar_default m field data))"

section \<open>Encoding of field values\<close>

definition load_signed :: "memory \<Rightarrow> addr \<Rightarrow> u32 \<Rightarrow> u64 option" where
  "load_signed m a n =
     (if n = 1 then Some (scast (load8 m a))
      else if n = 2 then Some (scast (load16 m a))
      else if n = 4 then Some (scast (load32 m a))
      else if n = 8 then Some (load64 m a)
      else None)"

definition load_unsigned :: "memory \<Rightarrow> addr \<Rightarrow> u32 \<Rightarrow> u64 option" where
  "load_unsigned m a n =
     (if n = 1 then Some (ucast (load8 m a))
      else if n = 2 then Some (ucast (load16 m a))
      else if n = 4 then Some (ucast (load32 m a))
      else if n = 8 then Some (load64 m a)
      else None)"

definition pb_enc_bool :: "'u pb_env \<Rightarrow> 'u encoder" where
  "pb_enc_bool env field src s st =
     (let v = (if safe_read_bool (mem st) src then 1 else 0) in wro (pb_encode_varint env v) s st)"

definition pb_enc_varint :: "'u pb_env \<Rightarrow> 'u encoder" where
  "pb_enc_varint env field src s st = (case load_signed (mem st) src (data_size field) of
     Some v \<Rightarrow> wro (pb_encode_varint env v) s st
   | None \<Rightarrow> wro (wr_fail ''invalid data_size'') s st)"

definition pb_enc_uvarint :: "'u pb_env \<Rightarrow> 'u encoder" where
  "pb_enc_uvarint env field src s st = (case load_unsigned (mem st) src (data_size field) of
     Some v \<Rightarrow> wro (pb_encode_varint env v) s st
   | None \<Rightarrow> wro (wr_fail ''invalid data_size'') s st)"

definition pb_enc_svarint :: "'u pb_env \<Rightarrow> 'u encoder" where
  "pb_enc_svarint env field src s st = (case load_signed (mem st) src (data_size field) of
     Some v \<Rightarrow> wro (pb_encode_svarint env v) s st
   | None \<Rightarrow> wro (wr_fail ''invalid data_size'') s st)"

definition pb_enc_fixed64 :: "'u pb_env \<Rightarrow> 'u encoder" where
  "pb_enc_fixed64 env field src = wro (pb_encode_fixed64 env src)"

definition pb_enc_fixed32 :: "'u pb_env \<Rightarrow> 'u encoder" where
  "pb_enc_fixed32 env field src = wro (pb_encode_fixed32 env src)"

text \<open>
  A \<^verbatim>\<open>pb_bytes_array_t\<close> is its 32-bit size followed by the bytes. The room left by a static field is
  computed in \<^verbatim>\<open>size_t\<close>, where it wraps when the field is smaller than the size.
\<close>

definition pb_enc_bytes :: "'u pb_env \<Rightarrow> 'u encoder" where
  "pb_enc_bytes env field src s st =
     (let count = (ucast (load32 (mem st) src) :: u64) in
      if src = 0 then wro (pb_encode_string env [] 0) s st
      else if PB_ATYPE (ftype field) = PB_ATYPE_STATIC \<and> ucast (data_size field) - 4 < count
      then wro (wr_fail ''bytes size exceeded'') s st
      else wro (pb_encode_string env (load_bytes (mem st) (src + 4) (unat count)) count) s st)"

function strlen_loop :: "memory \<Rightarrow> addr \<Rightarrow> size_t \<Rightarrow> size_t \<Rightarrow> size_t" where
  "strlen_loop m p count limit =
     (if count < limit \<and> load8 m p \<noteq> 0 then strlen_loop m (p + 1) (count + 1) limit else count)"
  by pat_completeness auto
termination
proof (relation "measure (\<lambda>(m, p, count, limit). unat (limit - count))")
  fix m p and count limit :: size_t
  assume "count < limit \<and> load8 m p \<noteq> 0"
  then have "limit - count \<noteq> 0"
    by auto
  then show "((m, p + 1, count + 1, limit), m, p, count, limit) \<in> measure (\<lambda>(m, p, count, limit). unat (limit - count))"
    using unat_minus_one [of "limit - count"] by (simp add: diff_diff_eq [symmetric] unat_gt_0)
qed simp

declare strlen_loop.simps [simp del]

definition pb_enc_string :: "'u pb_env \<Rightarrow> 'u encoder" where
  "pb_enc_string env field src s st =
     (let limit = (if PB_ATYPE (ftype field) = PB_ATYPE_POINTER then - 1 else ucast (data_size field));
          count = (if src = 0 then 0 else strlen_loop (mem st) src 0 limit)
      in wro (pb_encode_string env (load_bytes (mem st) src (unat count)) count) s st)"

definition pb_enc_fixed_length_bytes :: "'u pb_env \<Rightarrow> 'u encoder" where
  "pb_enc_fixed_length_bytes env field src s st =
     wro (pb_encode_string env (load_bytes (mem st) src (unat (data_size field))) (ucast (data_size field))) s st"

section \<open>Submessages\<close>

text \<open>The second half of \<^verbatim>\<open>pb_encode_submessage\<close>, after the size of the submessage is known.\<close>

definition submessage_body ::
  "(addr \<Rightarrow> addr \<Rightarrow> 'u wro) \<Rightarrow> 'u pb_env \<Rightarrow> addr \<Rightarrow> addr \<Rightarrow> size_t \<Rightarrow> 'u wro" where
  "submessage_body enc env desc src count s st =
     (if o_callback s = WR_NULL then wro (pb_write env [] count) s st
      else if max_size s < bytes_written s + count then wro (wr_fail ''stream full'') s st
      else
        (case enc desc src \<lparr>o_callback = o_callback s, o_state = o_state s, max_size = count,
                            bytes_written = 0, o_errmsg = None\<rparr> st of
           None \<Rightarrow> None
         | Some (status, sub, st') \<Rightarrow>
             (let s' = s\<lparr>bytes_written := bytes_written s + bytes_written sub, o_state := o_state sub,
                         o_errmsg := o_errmsg sub\<rparr>
              in if bytes_written sub \<noteq> count then wro (wr_fail ''submsg size changed'') s' st'
                 else Some (status, s', st'))))"

definition pb_encode_submessage ::
  "(addr \<Rightarrow> addr \<Rightarrow> 'u wro) \<Rightarrow> 'u pb_env \<Rightarrow> addr \<Rightarrow> addr \<Rightarrow> 'u wro" where
  "pb_encode_submessage enc env desc src s st =
     (case enc desc src PB_OSTREAM_SIZING st of
        None \<Rightarrow> None
      | Some (ok, sub, st') \<Rightarrow>
          if \<not> ok then Some (False, s\<lparr>o_errmsg := o_errmsg sub\<rparr>, st')
          else wro_seq (wro (pb_encode_varint env (bytes_written sub)))
                 (submessage_body enc env desc src (bytes_written sub)) s st')"

definition pb_enc_submessage :: "(addr \<Rightarrow> addr \<Rightarrow> 'u wro) \<Rightarrow> 'u pb_env \<Rightarrow> 'u encoder" where
  "pb_enc_submessage enc env field src =
     (if ptr field = 0 then wro (wr_fail ''invalid field descriptor'')
      else pb_encode_submessage enc env (ptr field) src)"

definition PB_ENCODERS :: "(addr \<Rightarrow> addr \<Rightarrow> 'u wro) \<Rightarrow> 'u pb_env \<Rightarrow> byte \<Rightarrow> 'u encoder option" where
  "PB_ENCODERS enc env lt =
     (let table = [Some (pb_enc_bool env), Some (pb_enc_varint env), Some (pb_enc_uvarint env),
                   Some (pb_enc_svarint env), Some (pb_enc_fixed32 env), Some (pb_enc_fixed64 env),
                   Some (pb_enc_bytes env), Some (pb_enc_string env), Some (pb_enc_submessage enc env),
                   None, Some (pb_enc_fixed_length_bytes env)]
      in if unat lt < length table then table ! unat lt else None)"

section \<open>Fields\<close>

primrec encode_items :: "nat \<Rightarrow> (addr \<Rightarrow> 'u wro) \<Rightarrow> u64 \<Rightarrow> addr \<Rightarrow> 'u wro" where
  "encode_items 0 f step p = wro_ok"
| "encode_items (Suc n) f step p = wro_seq (f p) (encode_items n f step (p + step))"

text \<open>The size of a packed array: \<^verbatim>\<open>None\<close> inside the pair is the early \<^verbatim>\<open>return false\<close>.\<close>

definition packed_size ::
  "'u encoder option \<Rightarrow> pb_field \<Rightarrow> addr \<Rightarrow> size_t \<Rightarrow> 'u cstate \<Rightarrow> (size_t option \<times> 'u cstate) option" where
  "packed_size func field data count st =
     (if PB_LTYPE (ftype field) = PB_LTYPE_FIXED32 then Some (Some (4 * count), st)
      else if PB_LTYPE (ftype field) = PB_LTYPE_FIXED64 then Some (Some (8 * count), st)
      else
        (case encode_items (unat count) (call_encoder func field) (ucast (data_size field)) data
                PB_OSTREAM_SIZING st of
           None \<Rightarrow> None
         | Some (ok, sizestream, st') \<Rightarrow>
             if ok then Some (Some (bytes_written sizestream), st') else Some (None, st')))"

definition encode_item :: "'u pb_env \<Rightarrow> 'u encoder option \<Rightarrow> 'u encoder" where
  "encode_item env func field p = wro_seq (wro (pb_encode_tag_for_field env field))
     (\<lambda>s st. call_encoder func field
        (if PB_ATYPE (ftype field) = PB_ATYPE_POINTER \<and>
            (PB_LTYPE (ftype field) = PB_LTYPE_STRING \<or> PB_LTYPE (ftype field) = PB_LTYPE_BYTES)
         then load64 (mem st) p else p) s st)"

definition encode_array ::
  "'u pb_env \<Rightarrow> 'u encoder option \<Rightarrow> pb_field \<Rightarrow> addr \<Rightarrow> size_t \<Rightarrow> 'u wro" where
  "encode_array env func field data count =
     (if count = 0 then wro_ok
      else if PB_ATYPE (ftype field) \<noteq> PB_ATYPE_POINTER \<and> ucast (array_size field) < count
      then wro (wr_fail ''array max size exceeded'')
      else if PB_LTYPE (ftype field) \<le> PB_LTYPE_LAST_PACKABLE then
        wro_seq (wro (pb_encode_tag env PB_WT_STRING (tag field)))
          (\<lambda>s st. case packed_size func field data count st of
             None \<Rightarrow> None
           | Some (None, st') \<Rightarrow> Some (False, s, st')
           | Some (Some n, st') \<Rightarrow>
               wro_seq (wro (pb_encode_varint env n))
                 (\<lambda>s st. if o_callback s = WR_NULL then wro (pb_write env [] n) s st
                         else encode_items (unat count) (call_encoder func field)
                                (ucast (data_size field)) data s st) s st')
      else encode_items (unat count) (encode_item env func field) (ucast (data_size field)) data)"

text \<open>
  \<^verbatim>\<open>pSize\<close> of \<^verbatim>\<open>encode_basic_field\<close> points into the message or to the local \<^verbatim>\<open>implicit_has\<close>, a single
  boolean; \<^verbatim>\<open>None\<close> stands for the latter.
\<close>

definition encode_basic_field ::
  "(addr \<Rightarrow> addr \<Rightarrow> 'u wro) \<Rightarrow> nat \<Rightarrow> 'u pb_env \<Rightarrow> 'u encoder" where
  "encode_basic_field enc n env field data0 s st =
     (let m = mem st; t = ftype field;
          func = PB_ENCODERS enc env (PB_LTYPE t);
          sz = (if size_offset field \<noteq> 0 then Some (size_ptr field data0) else None);
          has0 = (if size_offset field \<noteq> 0 then Some True
                  else if PB_HTYPE t = PB_HTYPE_OPTIONAL
                  then map_option Not (pb_check_proto3_default_value n env m field data0)
                  else Some True)
      in case has0 of
           None \<Rightarrow> None
         | Some implicit0 \<Rightarrow>
             (let data = (if PB_ATYPE t = PB_ATYPE_POINTER then load64 m data0 else data0);
                  implicit_has = (if PB_ATYPE t = PB_ATYPE_POINTER then data \<noteq> 0 else implicit0);
                  put = wro_seq (wro (pb_encode_tag_for_field env field)) (call_encoder func field data)
              in if PB_HTYPE t = PB_HTYPE_REQUIRED then
                   (if data = 0 then wro (wr_fail ''missing required field'') s st else put s st)
                 else if PB_HTYPE t = PB_HTYPE_OPTIONAL then
                   (if (case sz of Some a \<Rightarrow> safe_read_bool m a | None \<Rightarrow> implicit_has) then put s st
                    else wro_ok s st)
                 else if PB_HTYPE t = PB_HTYPE_REPEATED then
                   encode_array env func field data
                     (ucast (case sz of Some a \<Rightarrow> load32 m a | None \<Rightarrow> array_size field)) s st
                 else if PB_HTYPE t = PB_HTYPE_ONEOF then
                   (case sz of None \<Rightarrow> None
                    | Some a \<Rightarrow> if load32 m a = tag field then put s st else wro_ok s st)
                 else wro (wr_fail ''invalid field type'') s st))"

definition encode_callback_field :: "'u pb_env \<Rightarrow> 'u encoder" where
  "encode_callback_field env field data s st =
     (let fn = load64 (mem st) data in
      if fn \<noteq> 0 then
        (case field_encode env fn field (data + 8) s st of (ok, s', st') \<Rightarrow>
           if \<not> ok then Some (False, set_oerr ''callback error'' s', st') else Some (True, s', st'))
      else Some (True, s, st))"

definition encode_field :: "(addr \<Rightarrow> addr \<Rightarrow> 'u wro) \<Rightarrow> nat \<Rightarrow> 'u pb_env \<Rightarrow> 'u encoder" where
  "encode_field enc n env field data =
     (if PB_ATYPE (ftype field) = PB_ATYPE_STATIC \<or> PB_ATYPE (ftype field) = PB_ATYPE_POINTER
      then encode_basic_field enc n env field data
      else if PB_ATYPE (ftype field) = PB_ATYPE_CALLBACK then encode_callback_field env field data
      else wro (wr_fail ''invalid field type''))"

text \<open>An extension structure is its type, destination, successor and found flag; a type its two functions and argument.\<close>

definition ext_type :: "memory \<Rightarrow> addr \<Rightarrow> addr" where "ext_type m e = load64 m e"
definition ext_dest :: "memory \<Rightarrow> addr \<Rightarrow> addr" where "ext_dest m e = load64 m (e + 8)"
definition ext_next :: "memory \<Rightarrow> addr \<Rightarrow> addr" where "ext_next m e = load64 m (e + 16)"
definition type_decode :: "memory \<Rightarrow> addr \<Rightarrow> addr" where "type_decode m t = load64 m t"
definition type_encode :: "memory \<Rightarrow> addr \<Rightarrow> addr" where "type_encode m t = load64 m (t + 8)"
definition type_arg :: "memory \<Rightarrow> addr \<Rightarrow> addr" where "type_arg m t = load64 m (t + 16)"

definition default_extension_encoder ::
  "(addr \<Rightarrow> addr \<Rightarrow> 'u wro) \<Rightarrow> nat \<Rightarrow> 'u pb_env \<Rightarrow> addr \<Rightarrow> 'u wro" where
  "default_extension_encoder enc n env ext s st =
     (let field = field_at (descs env (type_arg (mem st) (ext_type (mem st) ext))) 0 in
      if PB_ATYPE (ftype field) = PB_ATYPE_POINTER then encode_field enc n env field (ext + 8) s st
      else encode_field enc n env field (ext_dest (mem st) ext) s st)"

fun encode_extensions ::
  "nat \<Rightarrow> (addr \<Rightarrow> addr \<Rightarrow> 'u wro) \<Rightarrow> nat \<Rightarrow> 'u pb_env \<Rightarrow> addr \<Rightarrow> 'u wro" where
  "encode_extensions 0 enc n env ext s st = (if ext = 0 then Some (True, s, st) else None)"
| "encode_extensions (Suc k) enc n env ext s st =
     (if ext = 0 then Some (True, s, st)
      else
        (let fn = type_encode (mem st) (ext_type (mem st) ext) in
         case (if fn \<noteq> 0 then Some (ext_encode env fn ext s st)
               else default_extension_encoder enc n env ext s st) of
           None \<Rightarrow> None
         | Some (status, s', st') \<Rightarrow>
             if \<not> status then Some (False, s', st')
             else encode_extensions k enc n env (ext_next (mem st') ext) s' st'))"

definition encode_extension_field :: "(addr \<Rightarrow> addr \<Rightarrow> 'u wro) \<Rightarrow> nat \<Rightarrow> 'u pb_env \<Rightarrow> 'u encoder" where
  "encode_extension_field enc n env field data s st =
     encode_extensions n enc n env (load64 (mem st) data) s st"

section \<open>Messages\<close>

definition encode_step ::
  "(addr \<Rightarrow> addr \<Rightarrow> 'u wro) \<Rightarrow> nat \<Rightarrow> 'u pb_env \<Rightarrow> pb_iter \<Rightarrow> pb_ostream \<times> 'u cstate \<Rightarrow>
   (bool \<times> pb_ostream \<times> 'u cstate) option + (pb_ostream \<times> 'u cstate)" where
  "encode_step enc n env it x = (case x of (s, st) \<Rightarrow>
     (case (if PB_LTYPE (ftype (cur_field env it)) = PB_LTYPE_EXTENSION
            then encode_extension_field enc n env (cur_field env it) (pData it) s st
            else encode_field enc n env (cur_field env it) (pData it) s st) of
        None \<Rightarrow> Inl None
      | Some (ok, s', st') \<Rightarrow> if ok then Inr (s', st') else Inl (Some (False, s', st'))))"

primrec pb_encode :: "nat \<Rightarrow> 'u pb_env \<Rightarrow> addr \<Rightarrow> addr \<Rightarrow> 'u wro" where
  "pb_encode 0 env desc src = (\<lambda>s st. None)"
| "pb_encode (Suc n) env desc src = (\<lambda>s st.
     case pb_field_iter_begin env desc src of (nonempty, it) \<Rightarrow>
       if \<not> nonempty then Some (True, s, st)
       else
         (case iter_fields env (encode_step (pb_encode n env) n env) it (s, st) of
            Inl r \<Rightarrow> r
          | Inr (s', st') \<Rightarrow> Some (True, s', st')))"

definition pb_encode_delimited :: "nat \<Rightarrow> 'u pb_env \<Rightarrow> addr \<Rightarrow> addr \<Rightarrow> 'u wro" where
  "pb_encode_delimited n env desc src = pb_encode_submessage (pb_encode n env) env desc src"

definition pb_encode_nullterminated :: "nat \<Rightarrow> 'u pb_env \<Rightarrow> addr \<Rightarrow> addr \<Rightarrow> 'u wro" where
  "pb_encode_nullterminated n env desc src = wro_seq (pb_encode n env desc src) (wro (pb_write env [0] 1))"

definition pb_get_encoded_size ::
  "nat \<Rightarrow> 'u pb_env \<Rightarrow> addr \<Rightarrow> addr \<Rightarrow> 'u cstate \<Rightarrow> (size_t option \<times> 'u cstate) option" where
  "pb_get_encoded_size n env desc src st = (case pb_encode n env desc src PB_OSTREAM_SIZING st of
     None \<Rightarrow> None
   | Some (ok, s', st') \<Rightarrow> Some (if ok then Some (bytes_written s') else None, st'))"

section \<open>The bytes of a message\<close>

text \<open>
  The encodings of the parts of a message as functions of the message memory \<^verbatim>\<open>m\<close>. \<^verbatim>\<open>None\<close> is a message
  the encoder rejects. What an application callback contributes is a parameter: \<^verbatim>\<open>cbs\<close> for field
  callbacks, \<^verbatim>\<open>cbx\<close> for extension callbacks.
\<close>

type_synonym field_spec = "addr \<Rightarrow> pb_field \<Rightarrow> addr \<Rightarrow> memory \<Rightarrow> byte list option"
type_synonym ext_spec = "addr \<Rightarrow> addr \<Rightarrow> memory \<Rightarrow> byte list option"

definition append_o :: "byte list option \<Rightarrow> byte list option \<Rightarrow> byte list option" where
  "append_o a b = (case a of None \<Rightarrow> None | Some x \<Rightarrow> map_option (append x) b)"

primrec items_bytes :: "nat \<Rightarrow> (addr \<Rightarrow> byte list option) \<Rightarrow> u64 \<Rightarrow> addr \<Rightarrow> byte list option" where
  "items_bytes 0 f step p = Some []"
| "items_bytes (Suc n) f step p = append_o (f p) (items_bytes n f step (p + step))"

definition wire_type_of :: "byte \<Rightarrow> wire_type option" where
  "wire_type_of lt =
     (if lt \<in> {PB_LTYPE_BOOL, PB_LTYPE_VARINT, PB_LTYPE_UVARINT, PB_LTYPE_SVARINT} then Some PB_WT_VARINT
      else if lt = PB_LTYPE_FIXED32 then Some PB_WT_32BIT
      else if lt = PB_LTYPE_FIXED64 then Some PB_WT_64BIT
      else if lt \<in> {PB_LTYPE_BYTES, PB_LTYPE_STRING, PB_LTYPE_SUBMESSAGE, PB_LTYPE_FIXED_LENGTH_BYTES}
      then Some PB_WT_STRING
      else None)"

definition tag_bytes :: "wire_type \<Rightarrow> u32 \<Rightarrow> byte list" where
  "tag_bytes wt n = varint (push_bit 3 (ucast n) OR ucast wt)"

definition field_tag :: "pb_field \<Rightarrow> byte list option" where
  "field_tag f = map_option (\<lambda>wt. tag_bytes wt (tag f)) (wire_type_of (PB_LTYPE (ftype f)))"

definition delimited :: "byte list \<Rightarrow> byte list" where
  "delimited bs = varint (of_nat (length bs)) @ bs"

definition c_string :: "memory \<Rightarrow> addr \<Rightarrow> u64 \<Rightarrow> byte list" where
  "c_string m p limit = load_bytes m p (unat (strlen_loop m p 0 limit))"

definition value_bytes ::
  "(addr \<Rightarrow> addr \<Rightarrow> byte list option) \<Rightarrow> memory \<Rightarrow> pb_field \<Rightarrow> addr \<Rightarrow> byte list option" where
  "value_bytes sub m f src =
     (let lt = PB_LTYPE (ftype f) in
      if lt = PB_LTYPE_BOOL then Some (varint (if load8 m src \<noteq> 0 then 1 else 0))
      else if lt = PB_LTYPE_VARINT then map_option varint (load_signed m src (data_size f))
      else if lt = PB_LTYPE_UVARINT then map_option varint (load_unsigned m src (data_size f))
      else if lt = PB_LTYPE_SVARINT then map_option (varint \<circ> zigzag) (load_signed m src (data_size f))
      else if lt = PB_LTYPE_FIXED32 then Some (load_bytes m src 4)
      else if lt = PB_LTYPE_FIXED64 then Some (load_bytes m src 8)
      else if lt = PB_LTYPE_BYTES then
        (if src = 0 then Some (delimited [])
         else if PB_ATYPE (ftype f) = PB_ATYPE_STATIC \<and> ucast (data_size f) - (4 :: u64) < ucast (load32 m src)
         then None else Some (delimited (load_bytes m (src + 4) (unat (load32 m src)))))
      else if lt = PB_LTYPE_STRING then
        Some (delimited (if src = 0 then []
          else c_string m src (if PB_ATYPE (ftype f) = PB_ATYPE_POINTER then - 1 else ucast (data_size f))))
      else if lt = PB_LTYPE_SUBMESSAGE then (if ptr f = 0 then None else map_option delimited (sub (ptr f) src))
      else if lt = PB_LTYPE_FIXED_LENGTH_BYTES then Some (delimited (load_bytes m src (unat (data_size f))))
      else None)"

definition item_bytes ::
  "(addr \<Rightarrow> addr \<Rightarrow> byte list option) \<Rightarrow> memory \<Rightarrow> pb_field \<Rightarrow> addr \<Rightarrow> byte list option" where
  "item_bytes sub m f p = append_o (field_tag f) (value_bytes sub m f
     (if PB_ATYPE (ftype f) = PB_ATYPE_POINTER \<and>
         (PB_LTYPE (ftype f) = PB_LTYPE_STRING \<or> PB_LTYPE (ftype f) = PB_LTYPE_BYTES)
      then load64 m p else p))"

definition array_bytes ::
  "(addr \<Rightarrow> addr \<Rightarrow> byte list option) \<Rightarrow> memory \<Rightarrow> pb_field \<Rightarrow> addr \<Rightarrow> u32 \<Rightarrow> byte list option" where
  "array_bytes sub m f p count =
     (if count = 0 then Some []
      else if PB_ATYPE (ftype f) \<noteq> PB_ATYPE_POINTER \<and> array_size f < count then None
      else if PB_LTYPE (ftype f) \<le> PB_LTYPE_LAST_PACKABLE
      then map_option (\<lambda>bs. tag_bytes PB_WT_STRING (tag f) @ delimited bs)
             (items_bytes (unat count) (value_bytes sub m f) (ucast (data_size f)) p)
      else items_bytes (unat count) (item_bytes sub m f) (ucast (data_size f)) p)"

text \<open>Whether the optional or oneof field at \<^verbatim>\<open>p\<close> is set.\<close>

definition has_field :: "nat \<Rightarrow> 'u pb_env \<Rightarrow> memory \<Rightarrow> pb_field \<Rightarrow> addr \<Rightarrow> bool option" where
  "has_field n env m f p =
     (if size_offset f \<noteq> 0 then Some (load8 m (size_ptr f p) \<noteq> 0)
      else if PB_ATYPE (ftype f) = PB_ATYPE_POINTER
      then (case pb_check_proto3_default_value n env m f p of None \<Rightarrow> None | Some _ \<Rightarrow> Some (load64 m p \<noteq> 0))
      else map_option Not (pb_check_proto3_default_value n env m f p))"

definition basic_bytes ::
  "(addr \<Rightarrow> addr \<Rightarrow> byte list option) \<Rightarrow> nat \<Rightarrow> 'u pb_env \<Rightarrow> memory \<Rightarrow> pb_field \<Rightarrow> addr \<Rightarrow> byte list option" where
  "basic_bytes sub n env m f p =
     (let data = (if PB_ATYPE (ftype f) = PB_ATYPE_POINTER then load64 m p else p);
          ht = PB_HTYPE (ftype f);
          whole = append_o (field_tag f) (value_bytes sub m f data)
      in if ht = PB_HTYPE_REQUIRED then (if data = 0 then None else whole)
         else if ht = PB_HTYPE_OPTIONAL then
           (case has_field n env m f p of None \<Rightarrow> None | Some has \<Rightarrow> if has then whole else Some [])
         else if ht = PB_HTYPE_REPEATED then
           array_bytes sub m f data
             (if size_offset f \<noteq> 0 then load32 m (size_ptr f p) else array_size f)
         else if size_offset f = 0 then None
         else if load32 m (size_ptr f p) = tag f then whole else Some [])"

definition field_bytes ::
  "(addr \<Rightarrow> addr \<Rightarrow> byte list option) \<Rightarrow> nat \<Rightarrow> 'u pb_env \<Rightarrow> field_spec \<Rightarrow> memory \<Rightarrow> pb_field \<Rightarrow> addr \<Rightarrow> byte list option" where
  "field_bytes sub n env cbs m f p =
     (if PB_ATYPE (ftype f) = PB_ATYPE_STATIC \<or> PB_ATYPE (ftype f) = PB_ATYPE_POINTER
      then basic_bytes sub n env m f p
      else if PB_ATYPE (ftype f) = PB_ATYPE_CALLBACK
      then (if load64 m p = 0 then Some [] else cbs (load64 m p) f (p + 8) m)
      else None)"

fun exts_bytes ::
  "nat \<Rightarrow> (addr \<Rightarrow> addr \<Rightarrow> byte list option) \<Rightarrow> nat \<Rightarrow> 'u pb_env \<Rightarrow> field_spec \<Rightarrow> ext_spec \<Rightarrow> memory \<Rightarrow> addr \<Rightarrow> byte list option" where
  "exts_bytes 0 sub n env cbs cbx m e = (if e = 0 then Some [] else None)"
| "exts_bytes (Suc k) sub n env cbs cbx m e =
     (if e = 0 then Some []
      else append_o
        (if type_encode m (ext_type m e) \<noteq> 0 then cbx (type_encode m (ext_type m e)) e m
         else
           (let f = field_at (descs env (type_arg m (ext_type m e))) 0
            in field_bytes sub n env cbs m f
                 (if PB_ATYPE (ftype f) = PB_ATYPE_POINTER then e + 8 else ext_dest m e)))
        (exts_bytes k sub n env cbs cbx m (ext_next m e)))"

definition entry_bytes ::
  "(addr \<Rightarrow> addr \<Rightarrow> byte list option) \<Rightarrow> nat \<Rightarrow> 'u pb_env \<Rightarrow> field_spec \<Rightarrow> ext_spec \<Rightarrow> memory \<Rightarrow> pb_field \<Rightarrow> addr \<Rightarrow> byte list option" where
  "entry_bytes sub n env cbs cbx m f p =
     (if PB_LTYPE (ftype f) = PB_LTYPE_EXTENSION then exts_bytes n sub n env cbs cbx m (load64 m p)
      else field_bytes sub n env cbs m f p)"

definition concat_o :: "byte list option list \<Rightarrow> byte list option" where
  "concat_o xs = foldr append_o xs (Some [])"

primrec msg_bytes ::
  "nat \<Rightarrow> 'u pb_env \<Rightarrow> field_spec \<Rightarrow> ext_spec \<Rightarrow> memory \<Rightarrow> addr \<Rightarrow> addr \<Rightarrow> byte list option" where
  "msg_bytes 0 env cbs cbx m desc src = None"
| "msg_bytes (Suc n) env cbs cbx m desc src =
     (let fs = descs env desc in
      if \<not> wf_desc fs \<or> src = 0 then None
      else concat_o (map (\<lambda>i. entry_bytes (msg_bytes n env cbs cbx m) n env cbs cbx m (fs ! i) (field_addr fs src i))
             [0..<length fs]))"

section \<open>Encoding on a sink\<close>

definition emits_o ::
  "wr_callback \<Rightarrow> (addr \<Rightarrow> byte list \<Rightarrow> addr) \<Rightarrow> (addr \<Rightarrow> byte list \<Rightarrow> 'u cstate \<Rightarrow> 'u cstate) \<Rightarrow>
   (pb_ostream \<Rightarrow> 'u cstate \<Rightarrow> 'u cstate \<Rightarrow> bool) \<Rightarrow> memory \<Rightarrow> 'u wro \<Rightarrow> byte list \<Rightarrow> bool" where
  "emits_o cb nxt put frm m f bs \<longleftrightarrow>
     (\<forall>s st. ready cb m (length bs) s st \<longrightarrow> (\<exists>r. f s st = Some r \<and> outcome nxt put frm bs s st r))"

lemma emits_oE:
  assumes "emits_o cb nxt put frm m f bs" and "ready cb m (length bs) s st"
  obtains r where "f s st = Some r" "outcome nxt put frm bs s st r"
  using assms unfolding emits_o_def by blast

abbreviation sizes :: "memory \<Rightarrow> 'u wro \<Rightarrow> byte list \<Rightarrow> bool" where
  "sizes \<equiv> emits_o WR_NULL (\<lambda>a bs. a) (\<lambda>a bs st. st) no_effect"

lemma append_o_SomeE:
  assumes "append_o a b = Some bs"
  obtains x y where "a = Some x" "b = Some y" "bs = x @ y"
  using assms by (auto simp: append_o_def split: option.splits)

lemma emits_o_cong:
  "(\<And>s st. o_callback s = cb \<Longrightarrow> mem st = m \<Longrightarrow> length bs < 2 ^ 64 \<Longrightarrow> f s st = g s st) \<Longrightarrow>
   emits_o cb nxt put frm m g bs \<Longrightarrow> emits_o cb nxt put frm m f bs"
  by (simp add: emits_o_def ready_def)

lemma sizes_size:
  assumes "sizes m f bs" and "mem st = m" and "length bs < 2 ^ 64"
  shows "f PB_OSTREAM_SIZING st = Some (True, PB_OSTREAM_SIZING\<lparr>bytes_written := of_nat (length bs)\<rparr>, st)"
proof -
  have "ready WR_NULL m (length bs) PB_OSTREAM_SIZING st"
    using assms by (simp add: ready_def has_room_def PB_OSTREAM_SIZING_def)
  from emits_oE [OF assms(1) this] show ?thesis
    by (auto simp: outcome_def advanced_def has_room_def PB_OSTREAM_SIZING_def)
qed

text \<open>The submessage encoder \<^verbatim>\<open>enc\<close> implements \<^verbatim>\<open>sub\<close>, when sizing and on the sink.\<close>

definition encodes ::
  "wr_callback \<Rightarrow> (addr \<Rightarrow> byte list \<Rightarrow> addr) \<Rightarrow> (addr \<Rightarrow> byte list \<Rightarrow> 'u cstate \<Rightarrow> 'u cstate) \<Rightarrow>
   (pb_ostream \<Rightarrow> 'u cstate \<Rightarrow> 'u cstate \<Rightarrow> bool) \<Rightarrow> memory \<Rightarrow> (addr \<Rightarrow> addr \<Rightarrow> byte list option) \<Rightarrow> (addr \<Rightarrow> addr \<Rightarrow> 'u wro) \<Rightarrow> bool" where
  "encodes cb nxt put frm m sub enc \<longleftrightarrow> (\<forall>desc src bs. sub desc src = Some bs \<longrightarrow>
     sizes m (enc desc src) bs \<and> emits_o cb nxt put frm m (enc desc src) bs)"

lemma encodes_sizing:
  "encodes cb nxt put frm m sub enc \<Longrightarrow> encodes WR_NULL (\<lambda>a bs. a) (\<lambda>a bs st. st) no_effect m sub enc"
  by (simp add: encodes_def)

context pb_sink
begin

lemma emits_wro: "emits cb nxt put frm m f bs \<Longrightarrow> emits_o cb nxt put frm m (wro f) bs"
  by (simp add: emits_def emits_o_def wro_def)

lemma emits_wro_ok: "emits_o cb nxt put frm m wro_ok []"
  by (simp add: emits_o_def wro_ok_def outcome_Nil)

lemma emits_wro_seq:
  assumes "emits_o cb nxt put frm m f bs" and "emits_o cb nxt put frm m g cs"
  shows "emits_o cb nxt put frm m (wro_seq f g) (bs @ cs)"
  unfolding emits_o_def
proof (intro allI impI)
  fix s :: pb_ostream and st :: "'u cstate"
  assume ready: "ready cb m (length (bs @ cs)) s st"
  then have ready_mem: "mem st = m"
    by (simp add: ready_def)
  obtain r where f: "f s st = Some r" "outcome nxt put frm bs s st r"
    using emits_oE [OF assms(1) ready_append(1) [OF ready]] by blast
  obtain ok s1 st1 where r: "r = (ok, s1, st1)"
    by (cases r)
  let ?r = "the (wro_seq f g s st)"
  have g: "\<exists>r'. g s1 st1 = Some r' \<and> outcome nxt put frm cs s1 st1 r'" if "ready cb m (length cs) s1 st1"
    using emits_oE [OF assms(2) that] by blast
  have "outcome nxt put frm (bs @ cs) s st ?r"
    by (rule outcome_append [OF ready f(2) [unfolded r]]) (use f r g in \<open>auto simp: wro_seq_def\<close>)
  moreover have "wro_seq f g s st = Some ?r"
  proof (cases ok)
    case True
    then have "ready cb m (length cs) s1 st1"
      using f(2) r ready ready_append(2) [OF ready, of "put (o_state s) bs st" nxt]
      using ready_mem by (auto simp: outcome_def put_mem split: if_splits)
    then show ?thesis
      using g f r by (auto simp: wro_seq_def)
  next
    case False
    then show ?thesis
      using f r by (simp add: wro_seq_def)
  qed
  ultimately show "\<exists>r. wro_seq f g s st = Some r \<and> outcome nxt put frm (bs @ cs) s st r"
    by blast
qed

lemma emits_items:
  assumes "\<And>p bs. spec p = Some bs \<Longrightarrow> emits_o cb nxt put frm m (f p) bs"
  shows "items_bytes n spec step p = Some bs \<Longrightarrow> emits_o cb nxt put frm m (encode_items n f step p) bs"
proof (induction n arbitrary: p bs)
  case 0
  then show ?case by (simp add: emits_wro_ok)
next
  case (Suc n)
  then show ?case
    by (auto elim!: append_o_SomeE intro!: emits_wro_seq assms)
qed

text \<open>Without a callback, writing is counting, so that the bytes do not matter.\<close>

lemma emits_count:
  assumes "cb = WR_NULL"
  shows "emits_o cb nxt put frm m (wro (pb_write env [] (of_nat (length bs)))) bs"
proof (rule emits_o_cong)
  show "emits_o cb nxt put frm m (wro (pb_write env bs (of_nat (length bs)))) bs"
    by (rule emits_wro [OF write_emits])
qed (use assms in \<open>simp add: wro_def pb_write_def\<close>)

lemma emits_tag_for_field:
  "field_tag f = Some bs \<Longrightarrow> emits_o cb nxt put frm m (wro (pb_encode_tag_for_field env f)) bs"
  by (auto simp: field_tag_def wire_type_of_def pb_encode_tag_for_field_def tag_bytes_def
      intro!: emits_wro emits_tag split: if_splits)

lemma emits_delimited: "emits cb nxt put frm m (pb_encode_string env bs (of_nat (length bs))) (delimited bs)"
  unfolding delimited_def by (rule emits_string) simp

lemma emits_delimited_long:
  assumes "c = (of_nat (length bs) :: u64)"
  shows "emits_o cb nxt put frm m (wro (pb_encode_string env bs c)) (delimited bs)"
  unfolding assms by (rule emits_wro [OF emits_delimited])

lemma emits_submessage_body:
  assumes enc: "emits_o cb nxt put frm m (enc desc src) bs" and c: "c = of_nat (length bs)"
  shows "emits_o cb nxt put frm m (submessage_body enc env desc src c) bs"
proof (cases "cb = WR_NULL")
  case True
  show ?thesis
    by (rule emits_o_cong [OF _ emits_count [OF True, of m bs]]) (simp add: submessage_body_def True c)
next
  case False
  show ?thesis
    unfolding emits_o_def
  proof (intro allI impI)
    fix s :: pb_ostream and st :: "'u cstate"
    assume ready: "ready cb m (length bs) s st"
    then have s: "o_callback s = cb" "o_errmsg s = None" and len: "length bs < 2 ^ 64"
      and fits0: "unat (bytes_written s) \<le> unat (max_size s)"
      using False by (auto simp: ready_def has_room_def)
    have c_unat: "unat c = length bs"
      using len by (simp add: c unat_of_nat_u64)
    let ?sub = "\<lparr>o_callback = o_callback s, o_state = o_state s, max_size = c, bytes_written = 0, o_errmsg = None\<rparr>"
    have sub_eq: "?sub = s\<lparr>max_size := c, bytes_written := 0\<rparr>"
      using s by simp
    have "ready cb m (length bs) ?sub st" and room_sub: "has_room ?sub (length bs)"
      using ready c_unat by (auto simp: ready_def has_room_def)
    then have sub: "enc desc src ?sub st = Some (True, advanced nxt bs ?sub, put (o_state s) bs st)"
      using emits_oE [OF enc, of ?sub st] by (auto simp: outcome_def)
    have room: "max_size s < bytes_written s + c \<longleftrightarrow> \<not> has_room s (length bs)"
      using ready_bytes_written [OF ready] s False by (auto simp: word_less_nat_alt c has_room_def)
    show "\<exists>r. submessage_body enc env desc src c s st = Some r \<and> outcome nxt put frm bs s st r"
      using False s sub room
      by (auto simp: submessage_body_def outcome_def advanced_def c wro_def wr_fail_def frm_refl)
  qed
qed

lemma emits_submessage:
  assumes sz: "sizes m (enc desc src) bs" and enc: "emits_o cb nxt put frm m (enc desc src) bs"
  shows "emits_o cb nxt put frm m (pb_encode_submessage enc env desc src) (delimited bs)"
proof (rule emits_o_cong)
  let ?n = "of_nat (length bs) :: u64"
  show "emits_o cb nxt put frm m
      (wro_seq (wro (pb_encode_varint env ?n)) (submessage_body enc env desc src ?n)) (delimited bs)"
    unfolding delimited_def
    by (intro emits_wro_seq emits_wro emits_varint emits_submessage_body enc refl)
  fix s :: pb_ostream and st :: "'u cstate"
  assume "mem st = m" "length (delimited bs) < 2 ^ 64"
  then show "pb_encode_submessage enc env desc src s st =
      wro_seq (wro (pb_encode_varint env ?n)) (submessage_body enc env desc src ?n) s st"
    using sizes_size [OF sz] by (simp add: pb_encode_submessage_def delimited_def)
qed

text \<open>The encoders of the table, one by one.\<close>

lemma emits_enc_bool:
  assumes "value_bytes sub m f src = Some bs" and "PB_LTYPE (ftype f) = PB_LTYPE_BOOL"
  shows "emits_o cb nxt put frm m (pb_enc_bool env f src) bs"
  by (rule emits_o_cong [where g = "wro (pb_encode_varint env (if load8 m src \<noteq> 0 then 1 else 0))"])
    (use assms in \<open>auto simp: pb_enc_bool_def value_bytes_def Let_def safe_read_bool_def load8_def
      intro!: emits_wro emits_varint\<close>)

lemma emits_enc_varint:
  assumes "value_bytes sub m f src = Some bs" and "PB_LTYPE (ftype f) = PB_LTYPE_VARINT"
  shows "emits_o cb nxt put frm m (pb_enc_varint env f src) bs"
proof -
  obtain w where w: "load_signed m src (data_size f) = Some w" "bs = varint w"
    using assms by (auto simp: value_bytes_def ltype_defs)
  show ?thesis
    by (rule emits_o_cong [OF _ emits_wro [OF emits_varint [of m w, folded w(2)]]])
      (simp add: pb_enc_varint_def w)
qed

lemma emits_enc_uvarint:
  assumes "value_bytes sub m f src = Some bs" and "PB_LTYPE (ftype f) = PB_LTYPE_UVARINT"
  shows "emits_o cb nxt put frm m (pb_enc_uvarint env f src) bs"
proof -
  obtain w where w: "load_unsigned m src (data_size f) = Some w" "bs = varint w"
    using assms by (auto simp: value_bytes_def ltype_defs)
  show ?thesis
    by (rule emits_o_cong [OF _ emits_wro [OF emits_varint [of m w, folded w(2)]]])
      (simp add: pb_enc_uvarint_def w)
qed

lemma emits_enc_svarint:
  assumes "value_bytes sub m f src = Some bs" and "PB_LTYPE (ftype f) = PB_LTYPE_SVARINT"
  shows "emits_o cb nxt put frm m (pb_enc_svarint env f src) bs"
proof -
  obtain w where w: "load_signed m src (data_size f) = Some w" "bs = varint (zigzag w)"
    using assms by (auto simp: value_bytes_def ltype_defs)
  show ?thesis
    by (rule emits_o_cong [OF _ emits_wro [OF emits_svarint [of m w, folded w(2)]]])
      (simp add: pb_enc_svarint_def w)
qed

lemma emits_enc_fixed:
  assumes "value_bytes sub m f src = Some bs"
  shows "PB_LTYPE (ftype f) = PB_LTYPE_FIXED32 \<Longrightarrow> emits_o cb nxt put frm m (pb_enc_fixed32 env f src) bs"
    and "PB_LTYPE (ftype f) = PB_LTYPE_FIXED64 \<Longrightarrow> emits_o cb nxt put frm m (pb_enc_fixed64 env f src) bs"
  using assms emits_wro [OF emits_fixed32 [of m src]] emits_wro [OF emits_fixed64 [of m src]]
  by (auto simp: pb_enc_fixed32_def pb_enc_fixed64_def value_bytes_def ltype_defs)

lemma emits_enc_bytes:
  assumes "value_bytes sub m f src = Some bs" and "PB_LTYPE (ftype f) = PB_LTYPE_BYTES"
  shows "emits_o cb nxt put frm m (pb_enc_bytes env f src) bs"
proof -
  let ?bs = "if src = 0 then [] else load_bytes m (src + 4) (unat (load32 m src))"
  have "emits_o cb nxt put frm m (pb_enc_bytes env f src) (delimited ?bs)"
    by (rule emits_o_cong [OF _ emits_delimited_long [OF refl]])
      (use assms in \<open>auto simp: pb_enc_bytes_def value_bytes_def ltype_defs Let_def split: if_splits\<close>)
  moreover have "bs = delimited ?bs"
    using assms by (auto simp: value_bytes_def ltype_defs split: if_splits)
  ultimately show ?thesis by simp
qed

lemma emits_enc_string:
  assumes "value_bytes sub m f src = Some bs" and "PB_LTYPE (ftype f) = PB_LTYPE_STRING"
  shows "emits_o cb nxt put frm m (pb_enc_string env f src) bs"
proof -
  let ?limit = "if PB_ATYPE (ftype f) = PB_ATYPE_POINTER then - 1 else ucast (data_size f)"
  let ?bs = "if src = 0 then [] else c_string m src ?limit"
  have "emits_o cb nxt put frm m (pb_enc_string env f src) (delimited ?bs)"
    by (rule emits_o_cong [OF _ emits_delimited_long [OF refl]])
      (auto simp: pb_enc_string_def c_string_def Let_def)
  moreover have "bs = delimited ?bs"
    using assms by (auto simp: value_bytes_def ltype_defs split: if_splits)
  ultimately show ?thesis by simp
qed

lemma emits_enc_fixed_length:
  assumes "value_bytes sub m f src = Some bs" and "PB_LTYPE (ftype f) = PB_LTYPE_FIXED_LENGTH_BYTES"
  shows "emits_o cb nxt put frm m (pb_enc_fixed_length_bytes env f src) bs"
proof -
  let ?bs = "load_bytes m src (unat (data_size f))"
  have "emits_o cb nxt put frm m (pb_enc_fixed_length_bytes env f src) (delimited ?bs)"
    by (rule emits_o_cong [OF _ emits_delimited_long [OF refl]]) (auto simp: pb_enc_fixed_length_bytes_def)
  moreover have "bs = delimited ?bs"
    using assms by (auto simp: value_bytes_def ltype_defs split: if_splits)
  ultimately show ?thesis by simp
qed

lemma emits_enc_submessage:
  assumes "value_bytes sub m f src = Some bs" and "PB_LTYPE (ftype f) = PB_LTYPE_SUBMESSAGE"
    and "encodes cb nxt put frm m sub enc"
  shows "emits_o cb nxt put frm m (pb_enc_submessage enc env f src) bs"
proof -
  obtain b where "sub (ptr f) src = Some b" "bs = delimited b" "ptr f \<noteq> 0"
    using assms by (auto simp: value_bytes_def ltype_defs split: if_splits)
  then show ?thesis
    using assms(3) by (simp add: pb_enc_submessage_def emits_submessage encodes_def)
qed

lemma emits_value:
  assumes enc: "encodes cb nxt put frm m sub enc" and v: "value_bytes sub m f src = Some bs"
  shows "emits_o cb nxt put frm m (call_encoder (PB_ENCODERS enc env (PB_LTYPE (ftype f))) f src) bs"
proof -
  let ?lt = "PB_LTYPE (ftype f)"
  have call: "PB_ENCODERS enc env ?lt = Some g \<Longrightarrow> emits_o cb nxt put frm m (g f src) bs \<Longrightarrow> ?thesis" for g
    by (rule emits_o_cong) (simp_all add: call_encoder_def)
  consider "?lt = PB_LTYPE_BOOL" | "?lt = PB_LTYPE_VARINT" | "?lt = PB_LTYPE_UVARINT" | "?lt = PB_LTYPE_SVARINT"
    | "?lt = PB_LTYPE_FIXED32" | "?lt = PB_LTYPE_FIXED64" | "?lt = PB_LTYPE_BYTES" | "?lt = PB_LTYPE_STRING"
    | "?lt = PB_LTYPE_SUBMESSAGE" | "?lt = PB_LTYPE_FIXED_LENGTH_BYTES"
    using v by (auto simp: value_bytes_def Let_def split: if_splits)
  then show ?thesis
    by cases (rule call, simp add: PB_ENCODERS_def ltype_defs,
      rule emits_enc_bool emits_enc_varint emits_enc_uvarint emits_enc_svarint emits_enc_fixed emits_enc_bytes
        emits_enc_string emits_enc_submessage emits_enc_fixed_length; (rule v enc | assumption))+
qed

end

lemma length_items:
  "(\<And>p b. spec p = Some b \<Longrightarrow> length b = k) \<Longrightarrow> items_bytes n spec step p = Some bs \<Longrightarrow> length bs = n * k"
  by (induction n arbitrary: p bs) (auto elim!: append_o_SomeE)

lemma packed_size_items:
  assumes items: "items_bytes (unat count) (value_bytes sub m f) (ucast (data_size f)) p = Some bs"
    and enc: "encodes WR_NULL (\<lambda>a bs. a) (\<lambda>a bs st. st) no_effect m sub enc" and st: "mem st = m" and len: "length bs < 2 ^ 64"
  shows "packed_size (PB_ENCODERS enc env (PB_LTYPE (ftype f))) f p (ucast (count :: u32)) st =
    Some (Some (of_nat (length bs)), st)"
proof -
  have c: "unat (ucast count :: u64) = unat count" "(of_nat (unat count) :: u64) = ucast count"
    by (simp_all add: word_unat_eq_iff unat_of_nat)
  consider (b32) "PB_LTYPE (ftype f) = PB_LTYPE_FIXED32" | (b64) "PB_LTYPE (ftype f) = PB_LTYPE_FIXED64"
    | (other) "PB_LTYPE (ftype f) \<noteq> PB_LTYPE_FIXED32" "PB_LTYPE (ftype f) \<noteq> PB_LTYPE_FIXED64"
    by blast
  then show ?thesis
  proof cases
    case b32
    then have "length bs = unat count * 4"
      by (intro length_items [OF _ items]) (auto simp: value_bytes_def ltype_defs)
    then show ?thesis
      using b32 c by (simp add: packed_size_def mult.commute)
  next
    case b64
    then have "length bs = unat count * 8"
      by (intro length_items [OF _ items]) (auto simp: value_bytes_def ltype_defs)
    then show ?thesis
      using b64 c by (simp add: packed_size_def ltype_defs mult.commute)
  next
    case other
    have "sizes m (encode_items (unat count) (call_encoder (PB_ENCODERS enc env (PB_LTYPE (ftype f))) f)
        (ucast (data_size f)) p) bs"
      by (rule sizing.emits_items [OF _ items]) (rule sizing.emits_value [OF enc])
    from sizes_size [OF this st len] show ?thesis
      using other c by (simp add: packed_size_def)
  qed
qed

lemma PB_HTYPE_cases:
  "PB_HTYPE t = PB_HTYPE_REQUIRED \<or> PB_HTYPE t = PB_HTYPE_OPTIONAL \<or> PB_HTYPE t = PB_HTYPE_REPEATED \<or>
   PB_HTYPE t = PB_HTYPE_ONEOF"
proof -
  have bits: "bit (PB_HTYPE t) n \<longleftrightarrow> (n = 4 \<and> bit t 4) \<or> (n = 5 \<and> bit t 5)" for n
  proof -
    have "(0x30 :: byte) = push_bit 4 (mask 2)"
      by (simp add: mask_eq_exp_minus_1)
    then have "bit (PB_HTYPE t) n \<longleftrightarrow> bit t n \<and> 4 \<le> n \<and> n < 6"
      by (simp only: PB_HTYPE_def bit_and_iff bit_push_bit_iff bit_mask_iff) auto
    also have "4 \<le> n \<and> n < 6 \<longleftrightarrow> n = 4 \<or> n = 5"
      by auto
    finally show ?thesis by auto
  qed
  have "PB_HTYPE t = (if bit t 4 then 0x10 else 0) OR (if bit t 5 then 0x20 else 0)"
  proof (rule bit_word_eqI)
    fix n
    have "bit (0x10 :: byte) n \<longleftrightarrow> n = 4" "bit (0x20 :: byte) n \<longleftrightarrow> n = 5"
      using bit_exp_iff [of 4 n, where 'a = byte] bit_exp_iff [of 5 n, where 'a = byte] by auto
    then show "bit (PB_HTYPE t) n = bit ((if bit t 4 then 0x10 else 0) OR (if bit t 5 then 0x20 else 0) :: byte) n"
      by (auto simp: bits bit_or_iff)
  qed
  then show ?thesis
    by (auto simp: htype_defs)
qed

context pb_sink
begin

lemma emits_packed:
  assumes items: "items_bytes (unat count) (value_bytes sub m f) (ucast (data_size f)) p = Some bs"
    and enc: "encodes cb nxt put frm m sub enc"
  shows "emits_o cb nxt put frm m
    (\<lambda>s st. case packed_size (PB_ENCODERS enc env (PB_LTYPE (ftype f))) f p (ucast (count :: u32)) st of
       None \<Rightarrow> None
     | Some (None, st') \<Rightarrow> Some (False, s, st')
     | Some (Some n, st') \<Rightarrow>
         wro_seq (wro (pb_encode_varint env n))
           (\<lambda>s st. if o_callback s = WR_NULL then wro (pb_write env [] n) s st
                   else encode_items (unat (ucast count :: u64))
                     (call_encoder (PB_ENCODERS enc env (PB_LTYPE (ftype f))) f)
                     (ucast (data_size f)) p s st) s st') (delimited bs)"
proof (rule emits_o_cong)
  let ?n = "of_nat (length bs) :: u64"
  let ?items = "encode_items (unat count) (call_encoder (PB_ENCODERS enc env (PB_LTYPE (ftype f))) f)
    (ucast (data_size f)) p"
  let ?rest = "\<lambda>s st. if o_callback s = WR_NULL then wro (pb_write env [] ?n) s st else ?items s st"
  have "emits_o cb nxt put frm m ?rest bs"
  proof (cases "cb = WR_NULL")
    case True
    then show ?thesis
      by (intro emits_o_cong [OF _ emits_count [OF True, of m bs]]) simp
  next
    case False
    have "emits_o cb nxt put frm m ?items bs"
      by (rule emits_items [OF _ items]) (rule emits_value [OF enc])
    then show ?thesis
      using False by (rule_tac emits_o_cong) auto
  qed
  then show "emits_o cb nxt put frm m (wro_seq (wro (pb_encode_varint env ?n)) ?rest) (delimited bs)"
    unfolding delimited_def by (intro emits_wro_seq emits_wro emits_varint)
  fix s :: pb_ostream and st :: "'u cstate"
  assume "mem st = m" and "length (delimited bs) < 2 ^ 64"
  then show "(case packed_size (PB_ENCODERS enc env (PB_LTYPE (ftype f))) f p (ucast count) st of
       None \<Rightarrow> None
     | Some (None, st') \<Rightarrow> Some (False, s, st')
     | Some (Some n, st') \<Rightarrow>
         wro_seq (wro (pb_encode_varint env n))
           (\<lambda>s st. if o_callback s = WR_NULL then wro (pb_write env [] n) s st
                   else encode_items (unat (ucast count :: u64))
                     (call_encoder (PB_ENCODERS enc env (PB_LTYPE (ftype f))) f)
                     (ucast (data_size f)) p s st) s st') =
    wro_seq (wro (pb_encode_varint env ?n)) ?rest s st"
    using packed_size_items [OF items encodes_sizing [OF enc], of st env]
    unfolding unat_ucast_widths by (simp add: delimited_def)
qed

lemma emits_item:
  assumes "encodes cb nxt put frm m sub enc" and "item_bytes sub m f p = Some bs"
  shows "emits_o cb nxt put frm m (encode_item env (PB_ENCODERS enc env (PB_LTYPE (ftype f))) f p) bs"
proof -
  let ?q = "if PB_ATYPE (ftype f) = PB_ATYPE_POINTER \<and>
      (PB_LTYPE (ftype f) = PB_LTYPE_STRING \<or> PB_LTYPE (ftype f) = PB_LTYPE_BYTES) then load64 m p else p"
  obtain x y where xy: "field_tag f = Some x" "value_bytes sub m f ?q = Some y" "bs = x @ y"
    using assms(2) by (auto simp: item_bytes_def elim!: append_o_SomeE)
  show ?thesis
    unfolding encode_item_def xy(3)
    by (intro emits_wro_seq emits_tag_for_field xy)
      (rule emits_o_cong [OF _ emits_value [OF assms(1) xy(2)]], auto)
qed

lemma emits_array:
  assumes enc: "encodes cb nxt put frm m sub enc" and bs: "array_bytes sub m f p count = Some bs"
  shows "emits_o cb nxt put frm m (encode_array env (PB_ENCODERS enc env (PB_LTYPE (ftype f))) f p (ucast count)) bs"
proof -
  have c: "(ucast count :: u64) = 0 \<longleftrightarrow> count = 0"
    "(ucast (array_size f) :: u64) < ucast count \<longleftrightarrow> array_size f < count"
    by (simp_all add: word_unat_eq_iff [where 'a = 64] word_unat_eq_iff [where 'a = 32] word_less_nat_alt)
  consider (empty) "count = 0" "bs = []"
    | (packed) items where "count \<noteq> 0" "\<not> (PB_ATYPE (ftype f) \<noteq> PB_ATYPE_POINTER \<and> array_size f < count)"
        "PB_LTYPE (ftype f) \<le> PB_LTYPE_LAST_PACKABLE"
        "items_bytes (unat count) (value_bytes sub m f) (ucast (data_size f)) p = Some items"
        "bs = tag_bytes PB_WT_STRING (tag f) @ delimited items"
    | (unpacked) "count \<noteq> 0" "\<not> (PB_ATYPE (ftype f) \<noteq> PB_ATYPE_POINTER \<and> array_size f < count)"
        "\<not> PB_LTYPE (ftype f) \<le> PB_LTYPE_LAST_PACKABLE"
        "items_bytes (unat count) (item_bytes sub m f) (ucast (data_size f)) p = Some bs"
    using bs by (auto simp: array_bytes_def split: if_splits)
  then show ?thesis
  proof cases
    case empty
    then show ?thesis
      using emits_wro_ok by (simp add: encode_array_def)
  next
    case packed
    show ?thesis
      unfolding encode_array_def c packed(5) tag_bytes_def
      using packed(1-3) emits_wro_seq [OF emits_wro [OF emits_tag] emits_packed [OF packed(4) enc]]
      by (simp only: if_False if_True)
  next
    case unpacked
    have "emits_o cb nxt put frm m (encode_items (unat count)
        (encode_item env (PB_ENCODERS enc env (PB_LTYPE (ftype f))) f) (ucast (data_size f)) p) bs"
      by (rule emits_items [OF _ unpacked(4)]) (rule emits_item [OF enc])
    then show ?thesis
      unfolding encode_array_def c using unpacked(1-3) by auto
  qed
qed

lemma emits_put:
  assumes "encodes cb nxt put frm m sub enc" and "append_o (field_tag f) (value_bytes sub m f data) = Some bs"
  shows "emits_o cb nxt put frm m (wro_seq (wro (pb_encode_tag_for_field env f))
    (call_encoder (PB_ENCODERS enc env (PB_LTYPE (ftype f))) f data)) bs"
  using assms by (auto elim!: append_o_SomeE intro!: emits_wro_seq emits_tag_for_field emits_value)

lemma emits_basic_field:
  assumes enc: "encodes cb nxt put frm m sub enc" and bs: "basic_bytes sub n env m f p = Some bs"
  shows "emits_o cb nxt put frm m (encode_basic_field enc n env f p) bs"
proof -
  let ?data = "if PB_ATYPE (ftype f) = PB_ATYPE_POINTER then load64 m p else p"
  let ?put = "wro_seq (wro (pb_encode_tag_for_field env f))
    (call_encoder (PB_ENCODERS enc env (PB_LTYPE (ftype f))) f ?data)"
  let ?whole = "append_o (field_tag f) (value_bytes sub m f ?data)"
  let ?basic = "encode_basic_field enc n env f p"
  consider (required) "PB_HTYPE (ftype f) = PB_HTYPE_REQUIRED" "?data \<noteq> 0" "?whole = Some bs"
    | (optional) has where "PB_HTYPE (ftype f) = PB_HTYPE_OPTIONAL" "has_field n env m f p = Some has"
        "(if has then ?whole else Some []) = Some bs"
    | (repeated) "PB_HTYPE (ftype f) = PB_HTYPE_REPEATED"
        "array_bytes sub m f ?data (if size_offset f \<noteq> 0 then load32 m (size_ptr f p) else array_size f) = Some bs"
    | (oneof) "PB_HTYPE (ftype f) \<notin> {PB_HTYPE_REQUIRED, PB_HTYPE_OPTIONAL, PB_HTYPE_REPEATED}"
        "size_offset f \<noteq> 0" "(if load32 m (size_ptr f p) = tag f then ?whole else Some []) = Some bs"
    using bs by (auto simp: basic_bytes_def Let_def split: if_splits option.splits)
  then show ?thesis
  proof cases
    case required
    have "emits_o cb nxt put frm m ?put bs"
      by (rule emits_put [OF enc required(3)])
    then show ?thesis
      by (rule emits_o_cong [rotated])
        (use required in \<open>auto simp: encode_basic_field_def Let_def htype_defs\<close>)
  next
    case optional
    have "emits_o cb nxt put frm m (if has then ?put else wro_ok) bs"
      using optional(3) emits_put [OF enc] emits_wro_ok by auto
    then show ?thesis
      by (rule emits_o_cong [rotated])
        (use optional(1,2) in \<open>auto simp: encode_basic_field_def Let_def htype_defs has_field_def
          safe_read_bool_def load8_def split: option.splits if_splits\<close>)
  next
    case repeated
    then show ?thesis
      by (intro emits_o_cong [OF _ emits_array [OF enc repeated(2)]])
        (auto simp: encode_basic_field_def Let_def htype_defs)
  next
    case oneof
    have ht: "PB_HTYPE (ftype f) = PB_HTYPE_ONEOF"
      using oneof(1) PB_HTYPE_cases [of "ftype f"] by auto
    have "emits_o cb nxt put frm m (if load32 m (size_ptr f p) = tag f then ?put else wro_ok) bs"
      using oneof(3) emits_put [OF enc] emits_wro_ok by auto
    then show ?thesis
      by (rule emits_o_cong [rotated])
        (use oneof(2) ht in \<open>auto simp: encode_basic_field_def Let_def htype_defs\<close>)
  qed
qed

end

lemma encode_step_at:
  "i < length (descs env desc) \<Longrightarrow> encode_step enc n env (iter_at env desc src i) (s, st) =
     (case (if PB_LTYPE (ftype (descs env desc ! i)) = PB_LTYPE_EXTENSION
            then encode_extension_field enc n env (descs env desc ! i) (field_addr (descs env desc) src i) s st
            else encode_field enc n env (descs env desc ! i) (field_addr (descs env desc) src i) s st) of
        None \<Rightarrow> Inl None
      | Some (ok, s', st') \<Rightarrow> if ok then Inr (s', st') else Inl (Some (False, s', st')))"
  by (simp add: encode_step_def)

locale pb_callbacks =
  fixes env :: "'u pb_env"
    and cbs :: field_spec
    and cbx :: ext_spec
  assumes cbs_sizes: "cbs fn f a m = Some bs \<Longrightarrow>
      emits WR_NULL (\<lambda>a bs. a) (\<lambda>a bs st. st) no_effect m (field_encode env fn f a) bs"
    and cbx_sizes: "cbx fn e m = Some bs \<Longrightarrow>
      emits WR_NULL (\<lambda>a bs. a) (\<lambda>a bs st. st) no_effect m (ext_encode env fn e) bs"

locale pb_encoding = pb_sink env cb nxt put frm + pb_callbacks env cbs cbx
  for env :: "'u pb_env" and cb nxt put frm cbs cbx +
  assumes cbs_emits: "cbs fn f a m = Some bs \<Longrightarrow> emits cb nxt put frm m (field_encode env fn f a) bs"
    and cbx_emits: "cbx fn e m = Some bs \<Longrightarrow> emits cb nxt put frm m (ext_encode env fn e) bs"
begin

lemma emits_callback_field:
  assumes "(if load64 m p = 0 then Some [] else cbs (load64 m p) f (p + 8) m) = Some bs"
  shows "emits_o cb nxt put frm m (encode_callback_field env f p) bs"
proof (cases "load64 m p = 0")
  case True
  then have "bs = []"
    using assms by simp
  then show ?thesis
    using True by (auto intro!: emits_o_cong [OF _ emits_wro_ok] simp: encode_callback_field_def wro_ok_def)
next
  case False
  then have cb: "emits cb nxt put frm m (field_encode env (load64 m p) f (p + 8)) bs"
    using assms by (auto intro: cbs_emits)
  show ?thesis
    unfolding emits_o_def
  proof (intro allI impI)
    fix s :: pb_ostream and st :: "'u cstate"
    assume ready: "ready cb m (length bs) s st"
    obtain ok s' st' where r: "field_encode env (load64 m p) f (p + 8) s st = (ok, s', st')"
      by (metis prod_cases3)
    then show "\<exists>r. encode_callback_field env f p s st = Some r \<and> outcome nxt put frm bs s st r"
      using emitsD [OF cb ready] ready False
      by (auto simp: encode_callback_field_def ready_def outcome_def split: if_splits)
  qed
qed

lemma emits_field:
  assumes "encodes cb nxt put frm m sub enc" and "field_bytes sub n env cbs m f p = Some bs"
  shows "emits_o cb nxt put frm m (encode_field enc n env f p) bs"
  using assms by (auto simp: field_bytes_def encode_field_def atype_defs emits_basic_field
      intro!: emits_callback_field split: if_splits)

lemma emits_extensions:
  assumes enc: "encodes cb nxt put frm m sub enc"
  shows "exts_bytes k sub n env cbs cbx m e = Some bs \<Longrightarrow>
    emits_o cb nxt put frm m (encode_extensions k enc n env e) bs"
proof (induction k arbitrary: e bs)
  case 0
  then show ?case
    by (auto intro!: emits_o_cong [OF _ emits_wro_ok] simp: wro_ok_def split: if_splits)
next
  case (Suc k)
  show ?case
  proof (cases "e = 0")
    case True
    then show ?thesis
      using Suc.prems by (auto intro!: emits_o_cong [OF _ emits_wro_ok] simp: wro_ok_def)
  next
    case False
    let ?fn = "type_encode m (ext_type m e)"
    let ?f = "field_at (descs env (type_arg m (ext_type m e))) 0"
    let ?p = "if PB_ATYPE (ftype ?f) = PB_ATYPE_POINTER then e + 8 else ext_dest m e"
    let ?head = "if ?fn \<noteq> 0 then wro (ext_encode env ?fn e) else encode_field enc n env ?f ?p"
    obtain x y where xy: "(if ?fn \<noteq> 0 then cbx ?fn e m else field_bytes sub n env cbs m ?f ?p) = Some x"
      "exts_bytes k sub n env cbs cbx m (ext_next m e) = Some y" "bs = x @ y"
      using Suc.prems False unfolding exts_bytes.simps Let_def by (auto elim!: append_o_SomeE)
    have head: "emits_o cb nxt put frm m ?head x"
      using xy(1) cbx_emits emits_field [OF enc] by (auto intro!: emits_wro)
    have "emits_o cb nxt put frm m (wro_seq ?head (encode_extensions k enc n env (ext_next m e))) bs"
      unfolding xy(3) by (rule emits_wro_seq [OF head Suc.IH [OF xy(2)]])
    moreover have "encode_extensions (Suc k) enc n env e s st =
        wro_seq ?head (encode_extensions k enc n env (ext_next m e)) s st"
      if ready: "ready cb m (length bs) s st" for s and st :: "'u cstate"
    proof -
      obtain ok s' st' where r: "?head s st = Some (ok, s', st')" "outcome nxt put frm x s st (ok, s', st')"
        using emits_oE [OF head ready_append(1) [OF ready [unfolded xy(3)]]] by (metis prod_cases3)
      have st: "mem st = m"
        using ready by (simp add: ready_def)
      have "ok \<Longrightarrow> mem st' = m"
        using r(2) st by (auto simp: outcome_def put_mem split: if_splits)
      then show ?thesis
        using False st r(1)
        by (auto simp: wro_seq_def default_extension_encoder_def wro_def Let_def split: if_splits)
    qed
    ultimately show ?thesis
      by (simp add: emits_o_def)
  qed
qed

lemma emits_entry:
  assumes "encodes cb nxt put frm m sub enc" and "entry_bytes sub n env cbs cbx m f p = Some bs"
  shows "emits_o cb nxt put frm m (\<lambda>s st. if PB_LTYPE (ftype f) = PB_LTYPE_EXTENSION
    then encode_extension_field enc n env f p s st else encode_field enc n env f p s st) bs"
proof (cases "PB_LTYPE (ftype f) = PB_LTYPE_EXTENSION")
  case True
  then have "emits_o cb nxt put frm m (encode_extensions n enc n env (load64 m p)) bs"
    using assms by (simp add: entry_bytes_def emits_extensions)
  then show ?thesis
    by (rule emits_o_cong [rotated]) (simp add: True encode_extension_field_def)
next
  case False
  then show ?thesis
    using assms emits_field by (simp add: entry_bytes_def)
qed

text \<open>The field loop as a fold of the entries.\<close>

lemma emits_fold:
  assumes enc: "encodes cb nxt put frm m sub enc"
    and wf: "wf_desc (descs env desc)" and src: "src \<noteq> 0"
  shows "i + k = length (descs env desc) \<Longrightarrow>
    concat_o (map (\<lambda>i. entry_bytes sub n env cbs cbx m (descs env desc ! i) (field_addr (descs env desc) src i))
      [i..<length (descs env desc)]) = Some bs \<Longrightarrow>
    emits_o cb nxt put frm m (\<lambda>s st. case fold_fields (\<lambda>j. encode_step enc n env (iter_at env desc src j)) i k (s, st) of
        Inl r \<Rightarrow> r | Inr (s', st') \<Rightarrow> Some (True, s', st')) bs"
proof (induction k arbitrary: i bs)
  case 0
  then have "bs = []"
    by (simp add: concat_o_def)
  then show ?case
    using emits_wro_ok by (simp add: wro_ok_def emits_o_def)
next
  case (Suc k)
  let ?fs = "descs env desc"
  let ?one = "\<lambda>s st. if PB_LTYPE (ftype (?fs ! i)) = PB_LTYPE_EXTENSION
      then encode_extension_field enc n env (?fs ! i) (field_addr ?fs src i) s st
      else encode_field enc n env (?fs ! i) (field_addr ?fs src i) s st"
  let ?rest = "\<lambda>s st. case fold_fields (\<lambda>j. encode_step enc n env (iter_at env desc src j)) (Suc i) k (s, st) of
      Inl r \<Rightarrow> r | Inr (s', st') \<Rightarrow> Some (True, s', st')"
  have i: "i < length ?fs" and Si: "Suc i + k = length ?fs"
    using Suc.prems by auto
  obtain x y where xy: "entry_bytes sub n env cbs cbx m (?fs ! i) (field_addr ?fs src i) = Some x"
    "concat_o (map (\<lambda>i. entry_bytes sub n env cbs cbx m (?fs ! i) (field_addr ?fs src i)) [Suc i..<length ?fs]) = Some y"
    "bs = x @ y"
    using Suc.prems(2) i by (auto simp: concat_o_def upt_conv_Cons elim!: append_o_SomeE)
  have "emits_o cb nxt put frm m (wro_seq ?one ?rest) bs"
    unfolding xy(3) by (intro emits_wro_seq emits_entry [OF enc xy(1)] Suc.IH [OF Si xy(2)])
  then show ?case
    by (rule emits_o_cong [rotated])
      (auto simp: wro_seq_def encode_step_at [OF i] split: option.splits)
qed

lemma emits_message_step:
  assumes "encodes cb nxt put frm m (msg_bytes n env cbs cbx m) (pb_encode n env)"
    and "msg_bytes (Suc n) env cbs cbx m desc src = Some bs"
  shows "emits_o cb nxt put frm m (pb_encode (Suc n) env desc src) bs"
proof -
  let ?fs = "descs env desc"
  have wf: "wf_desc ?fs" and src: "src \<noteq> 0"
    and bs: "concat_o (map (\<lambda>i. entry_bytes (msg_bytes n env cbs cbx m) n env cbs cbx m (?fs ! i)
      (field_addr ?fs src i)) [0..<length ?fs]) = Some bs"
    using assms(2) by (auto simp: Let_def split: if_splits)
  show ?thesis
  proof (cases "?fs = []")
    case True
    then have "bs = []"
      using bs by (simp add: concat_o_def)
    then show ?thesis
      using iter_begin_empty [OF True, of src] emits_wro_ok
      by (auto simp: wro_ok_def emits_o_def split: prod.splits)
  next
    case False
    then show ?thesis
      using emits_fold [OF assms(1) wf src _ bs, of "length ?fs"]
        iter_begin [OF wf src]
      by (simp add: emits_o_def iter_fields_fold [OF wf src])
  qed
qed

end

sublocale pb_callbacks \<subseteq> on_sizing: pb_encoding env WR_NULL "\<lambda>a bs. a" "\<lambda>a bs st. st" no_effect cbs cbx
  by unfold_locales (rule cbs_sizes cbx_sizes; assumption)+

context pb_callbacks
begin

lemma sizes_message: "msg_bytes n env cbs cbx m desc src = Some bs \<Longrightarrow> sizes m (pb_encode n env desc src) bs"
proof (induction n arbitrary: desc src bs)
  case 0
  then show ?case by simp
next
  case (Suc n)
  then show ?case
    by (intro on_sizing.emits_message_step) (auto simp: encodes_def)
qed

end

context pb_encoding
begin

lemma emits_message: "msg_bytes n env cbs cbx m desc src = Some bs \<Longrightarrow> emits_o cb nxt put frm m (pb_encode n env desc src) bs"
proof (induction n arbitrary: desc src bs)
  case 0
  then show ?case by simp
next
  case (Suc n)
  then show ?case
    by (intro emits_message_step) (auto simp: encodes_def sizes_message)
qed

end

section \<open>Encoding into a memory buffer\<close>

text \<open>
  The encoder on the sinks the library itself provides, for messages without application callbacks:
  a callback field that is set makes the encoding \<^verbatim>\<open>None\<close>.
\<close>

definition message_bytes :: "nat \<Rightarrow> 'u pb_env \<Rightarrow> memory \<Rightarrow> addr \<Rightarrow> addr \<Rightarrow> byte list option" where
  "message_bytes n env = msg_bytes n env (\<lambda>_ _ _ _. None) (\<lambda>_ _ _. None)"

interpretation no_callbacks: pb_callbacks env "\<lambda>_ _ _ _. None" "\<lambda>_ _ _. None"
  by unfold_locales simp_all

interpretation buffer_encoding:
  pb_encoding env WR_buf_write buf_next buf_put in_buffer "\<lambda>_ _ _ _. None" "\<lambda>_ _ _. None"
  by unfold_locales simp_all

text \<open>What any encoding action does on a fresh buffer of \<^verbatim>\<open>n\<close> bytes at \<^verbatim>\<open>a\<close>.\<close>

lemma emits_o_buffer:
  assumes "emits_o WR_buf_write buf_next buf_put in_buffer (mem st) f bs" and "length bs < 2 ^ 64"
  shows "length bs \<le> unat n \<Longrightarrow> f (pb_ostream_from_buffer a n) st =
      Some (True, (pb_ostream_from_buffer a n)\<lparr>o_state := a + of_nat (length bs), bytes_written := of_nat (length bs)\<rparr>,
        upd_io (\<lambda>m. store_bytes m a bs) st)"
    and "unat n < length bs \<Longrightarrow> \<exists>s' st'. f (pb_ostream_from_buffer a n) st = Some (False, s', st') \<and>
      mem st' = mem st \<and> (\<forall>x. unat n \<le> unat (x - a) \<longrightarrow> io st' x = io st x)"
proof -
  have "ready WR_buf_write (mem st) (length bs) (pb_ostream_from_buffer a n) st"
    using assms(2) by (simp add: ready_def has_room_def pb_ostream_from_buffer_def)
  from emits_oE [OF assms(1) this] obtain r where r: "f (pb_ostream_from_buffer a n) st = Some r"
    "outcome buf_next buf_put in_buffer bs (pb_ostream_from_buffer a n) st r" .
  show "length bs \<le> unat n \<Longrightarrow> f (pb_ostream_from_buffer a n) st =
      Some (True, (pb_ostream_from_buffer a n)\<lparr>o_state := a + of_nat (length bs), bytes_written := of_nat (length bs)\<rparr>,
        upd_io (\<lambda>m. store_bytes m a bs) st)"
    using r by (simp add: outcome_def has_room_def advanced_def pb_ostream_from_buffer_def buf_next_def buf_put_def)
  show "unat n < length bs \<Longrightarrow> \<exists>s' st'. f (pb_ostream_from_buffer a n) st = Some (False, s', st') \<and>
      mem st' = mem st \<and> (\<forall>x. unat n \<le> unat (x - a) \<longrightarrow> io st' x = io st x)"
    using r by (auto simp: outcome_def has_room_def pb_ostream_from_buffer_def in_buffer_def)
qed

lemma message_emits:
  "message_bytes n env m desc src = Some bs \<Longrightarrow>
   emits_o WR_buf_write buf_next buf_put in_buffer m (pb_encode n env desc src) bs"
  unfolding message_bytes_def by (rule buffer_encoding.emits_message)

lemma message_emits_delimited:
  "message_bytes n env m desc src = Some bs \<Longrightarrow>
   emits_o WR_buf_write buf_next buf_put in_buffer m (pb_encode_delimited n env desc src) (delimited bs)"
  unfolding pb_encode_delimited_def
  by (intro buffer.emits_submessage message_emits no_callbacks.sizes_message) (simp_all add: message_bytes_def)

lemma message_emits_nullterminated:
  "message_bytes n env m desc src = Some bs \<Longrightarrow>
   emits_o WR_buf_write buf_next buf_put in_buffer m (pb_encode_nullterminated n env desc src) (bs @ [0])"
  unfolding pb_encode_nullterminated_def
  by (intro buffer.emits_wro_seq message_emits buffer.emits_wro buffer.emits_write) simp_all

lemma message_size:
  assumes "message_bytes n env (mem st) desc src = Some bs" and "length bs < 2 ^ 64"
  shows "pb_get_encoded_size n env desc src st = Some (Some (of_nat (length bs)), st)"
  using sizes_size [OF no_callbacks.sizes_message [of n env "mem st" desc src bs] refl assms(2)] assms(1)
  by (simp add: pb_get_encoded_size_def message_bytes_def)

end
