(* ===== verification/PbMessage.thy ===== *)
theory PbMessage
  imports PbEncode
begin

text \<open>
  The life cycle of a message structure in nanopb, from \<^verbatim>\<open>pb_decode.c\<close>: setting it to its default
  values, allocating the storage of pointer fields, and releasing everything it owns. The functions
  are mutually recursive through submessages and extensions, and run on fuel, which bounds the
  nesting depth and the length of extension lists. \<^verbatim>\<open>None\<close> is a run out of fuel, or a \<^verbatim>\<open>free\<close> or
  \<^verbatim>\<open>realloc\<close> of a pointer that is not a live heap block.
\<close>

section \<open>Extensions as iterators\<close>

definition ext_found :: "addr \<Rightarrow> addr" where "ext_found e = e + 24"

definition iter_from_extension :: "'u pb_env \<Rightarrow> memory \<Rightarrow> addr \<Rightarrow> pb_iter" where
  "iter_from_extension env m ext =
     (let desc = type_arg m (ext_type m ext);
          it = snd (pb_field_iter_begin env desc (ext_dest m ext));
          data = (if PB_ATYPE (ftype (field_at (descs env desc) 0)) = PB_ATYPE_POINTER then ext + 8
                  else ext_dest m ext)
      in it\<lparr>pData := data, pSize := ext_found ext\<rparr>)"

section \<open>Default values\<close>

type_synonym mem_op = "memory \<Rightarrow> memory option"

fun ext_list_defaults :: "nat \<Rightarrow> (pb_iter \<Rightarrow> mem_op) \<Rightarrow> 'u pb_env \<Rightarrow> addr \<Rightarrow> mem_op" where
  "ext_list_defaults 0 setd env ext m = (if ext = 0 then Some m else None)"
| "ext_list_defaults (Suc k) setd env ext m =
     (if ext = 0 then Some m
      else
        (let m1 = store8 m (ext_found ext) 0 in
         case setd (iter_from_extension env m1 ext) m1 of
           None \<Rightarrow> None
         | Some m2 \<Rightarrow> ext_list_defaults k setd env (ext_next m2 ext) m2))"

definition message_defaults :: "(pb_iter \<Rightarrow> mem_op) \<Rightarrow> 'u pb_env \<Rightarrow> addr \<Rightarrow> addr \<Rightarrow> mem_op" where
  "message_defaults setd env desc dest m =
     (case pb_field_iter_begin env desc dest of (nonempty, it) \<Rightarrow>
        if \<not> nonempty then Some m
        else
          (case iter_fields env (\<lambda>it m. case setd it m of None \<Rightarrow> Inl () | Some m' \<Rightarrow> Inr m') it m of
             Inl _ \<Rightarrow> None
           | Inr m' \<Rightarrow> Some m'))"

primrec pb_field_set_to_default :: "nat \<Rightarrow> 'u pb_env \<Rightarrow> pb_iter \<Rightarrow> mem_op" where
  "pb_field_set_to_default 0 env it = (\<lambda>m. None)"
| "pb_field_set_to_default (Suc n) env it = (\<lambda>m.
     let f = cur_field env it; t = ftype f in
     if PB_LTYPE t = PB_LTYPE_EXTENSION
     then ext_list_defaults n (pb_field_set_to_default n env) env (load64 m (pData it)) m
     else if PB_ATYPE t = PB_ATYPE_STATIC then
       (let optional = (PB_HTYPE t = PB_HTYPE_OPTIONAL \<and> pSize it \<noteq> pData it);
            counted = (PB_HTYPE t = PB_HTYPE_REPEATED \<or> PB_HTYPE t = PB_HTYPE_ONEOF);
            m1 = (if optional then store8 m (pSize it) 0
                  else if counted then store32 m (pSize it) 0
                  else m)
        in if \<not> optional \<and> counted then Some m1
           else if PB_LTYPE t = PB_LTYPE_SUBMESSAGE
           then message_defaults (pb_field_set_to_default n env) env (ptr f) (pData it) m1
           else if ptr f \<noteq> 0 then Some (c_memcpy (pData it) (ptr f) (data_size f) m1)
           else Some (c_memset_zero (pData it) (data_size f) m1))
     else if PB_ATYPE t = PB_ATYPE_POINTER then
       (let m1 = store64 m (pData it) 0
        in if PB_HTYPE t = PB_HTYPE_REPEATED \<or> PB_HTYPE t = PB_HTYPE_ONEOF
           then Some (store32 m1 (pSize it) 0) else Some m1)
     else Some m)"

definition pb_message_set_to_defaults :: "nat \<Rightarrow> 'u pb_env \<Rightarrow> addr \<Rightarrow> addr \<Rightarrow> mem_op" where
  "pb_message_set_to_defaults n env desc dest = message_defaults (pb_field_set_to_default n env) env desc dest"

section \<open>Allocation\<close>

definition allocate_field ::
  "addr \<Rightarrow> size_t \<Rightarrow> size_t \<Rightarrow> pb_istream \<Rightarrow> 'u cstate \<Rightarrow> (bool \<times> pb_istream \<times> 'u cstate) option" where
  "allocate_field data size' count s st =
     (let p = load64 (mem st) data; check_limit = (0x100000000 :: u64) in
      if size' = 0 \<or> count = 0 then Some (False, set_ierr ''invalid size'' s, st)
      else if (check_limit \<le> size' \<or> check_limit \<le> count) \<and> - 1 div count < size'
      then Some (False, set_ierr ''size too large'' s, st)
      else
        (case c_realloc p (count * size') st of
           None \<Rightarrow> None
         | Some (q, st') \<Rightarrow>
             if q = 0 then Some (False, set_ierr ''realloc failed'' s, st')
             else Some (True, s, upd_mem (\<lambda>m. store64 m data q) st')))"

text \<open>The overflow test rejects exactly the products that do not fit \<^verbatim>\<open>size_t\<close>.\<close>

lemma allocate_check:
  assumes "size' \<noteq> 0" and "count \<noteq> (0 :: u64)"
  shows "((0x100000000 \<le> size' \<or> 0x100000000 \<le> count) \<and> - 1 div count < size') \<longleftrightarrow>
    2 ^ 64 \<le> unat size' * unat count"
proof -
  have c: "0 < unat count"
    using assms(2) by (simp add: unat_gt_0)
  have max: "unat (- 1 :: u64) = 2 ^ 64 - 1"
    by (simp add: unsigned_minus_1_eq_mask mask_eq_exp_minus_1)
  have "- 1 div count < size' \<longleftrightarrow> (2 ^ 64 - 1) div unat count < unat size'"
    by (simp add: word_less_nat_alt unat_div max)
  also have "\<dots> \<longleftrightarrow> \<not> unat size' * unat count \<le> 2 ^ 64 - 1"
    using less_eq_div_iff_mult_less_eq [OF c, of "unat size'" "2 ^ 64 - 1"] by (metis not_le)
  also have "\<dots> \<longleftrightarrow> 2 ^ 64 \<le> unat size' * unat count"
    by (simp, rule iffI; linarith)
  finally have div: "- 1 div count < size' \<longleftrightarrow> 2 ^ 64 \<le> unat size' * unat count" .
  have "unat size' * unat count < 2 ^ 64" if "\<not> (0x100000000 \<le> size' \<or> 0x100000000 \<le> count)"
  proof -
    have "unat size' * unat count < 2 ^ 32 * 2 ^ 32"
      using that by (intro mult_strict_mono) (simp_all add: word_le_nat_alt)
    then show ?thesis by simp
  qed
  then show ?thesis
    using div by (meson not_le)
qed

text \<open>\<^verbatim>\<open>dflt\<close> is \<^verbatim>\<open>pb_message_set_to_defaults\<close> on the fuel of the caller.\<close>

definition initialize_pointer_field ::
  "(addr \<Rightarrow> addr \<Rightarrow> mem_op) \<Rightarrow> 'u pb_env \<Rightarrow> addr \<Rightarrow> pb_iter \<Rightarrow> mem_op" where
  "initialize_pointer_field dflt env item it m =
     (let f = cur_field env it; lt = PB_LTYPE (ftype f) in
      if lt = PB_LTYPE_STRING \<or> lt = PB_LTYPE_BYTES then Some (store64 m item 0)
      else if lt = PB_LTYPE_SUBMESSAGE then dflt (ptr f) item (c_memset_zero item (data_size f) m)
      else Some m)"

section \<open>Release\<close>

type_synonym 'u st_op = "'u cstate \<Rightarrow> 'u cstate option"

fun ext_list_release :: "nat \<Rightarrow> (pb_iter \<Rightarrow> 'u st_op) \<Rightarrow> 'u pb_env \<Rightarrow> addr \<Rightarrow> 'u st_op" where
  "ext_list_release 0 rel env ext st = (if ext = 0 then Some st else None)"
| "ext_list_release (Suc k) rel env ext st =
     (if ext = 0 then Some st
      else
        (case rel (iter_from_extension env (mem st) ext) st of
           None \<Rightarrow> None
         | Some st' \<Rightarrow> ext_list_release k rel env (ext_next (mem st') ext) st'))"

primrec release_items :: "nat \<Rightarrow> (addr \<Rightarrow> 'u st_op) \<Rightarrow> addr \<Rightarrow> u64 \<Rightarrow> 'u st_op" where
  "release_items 0 rel p step st = Some st"
| "release_items (Suc k) rel p step st = (case rel p st of
     None \<Rightarrow> None | Some st' \<Rightarrow> release_items k rel (p + step) step st')"

text \<open>The entries of a repeated string or bytes array: \<^verbatim>\<open>pb_free (*pItem); *pItem++ = NULL\<close>.\<close>

definition release_entry :: "addr \<Rightarrow> 'u st_op" where
  "release_entry p st = (case c_free (load64 (mem st) p) st of
     None \<Rightarrow> None | Some st' \<Rightarrow> Some (upd_mem (\<lambda>m. store64 m p 0) st'))"

definition release_count :: "'u pb_env \<Rightarrow> memory \<Rightarrow> pb_iter \<Rightarrow> u32" where
  "release_count env m it =
     (let f = cur_field env it; t = ftype f in
      if PB_HTYPE t = PB_HTYPE_REPEATED then
        (let count = (if PB_ATYPE t = PB_ATYPE_STATIC \<and> pSize it = pData it then array_size f
                      else load32 m (pSize it))
         in if PB_ATYPE t = PB_ATYPE_STATIC \<and> array_size f < count then array_size f else count)
      else 1)"

text \<open>The end of \<^verbatim>\<open>pb_release_single_field\<close>: what a pointer field itself owns.\<close>

definition release_pointer :: "'u pb_env \<Rightarrow> pb_iter \<Rightarrow> 'u st_op" where
  "release_pointer env it st =
     (let t = ftype (cur_field env it); repeated = (PB_HTYPE t = PB_HTYPE_REPEATED) in
      case (if repeated \<and> (PB_LTYPE t = PB_LTYPE_STRING \<or> PB_LTYPE t = PB_LTYPE_BYTES)
            then release_items (unat (load32 (mem st) (pSize it))) release_entry (load64 (mem st) (pData it)) 8 st
            else Some st) of
        None \<Rightarrow> None
      | Some st1 \<Rightarrow>
          (let st2 = (if repeated then upd_mem (\<lambda>m. store32 m (pSize it) 0) st1 else st1) in
           case c_free (load64 (mem st2) (pData it)) st2 of
             None \<Rightarrow> None
           | Some st3 \<Rightarrow> Some (upd_mem (\<lambda>m. store64 m (pData it) 0) st3)))"

definition message_release :: "(pb_iter \<Rightarrow> 'u st_op) \<Rightarrow> 'u pb_env \<Rightarrow> addr \<Rightarrow> addr \<Rightarrow> 'u st_op" where
  "message_release rel env desc dest st =
     (if dest = 0 then Some st
      else
        (case pb_field_iter_begin env desc dest of (nonempty, it) \<Rightarrow>
           if \<not> nonempty then Some st
           else
             (case iter_fields env (\<lambda>it st. case rel it st of None \<Rightarrow> Inl () | Some st' \<Rightarrow> Inr st') it st of
                Inl _ \<Rightarrow> None
              | Inr st' \<Rightarrow> Some st')))"

primrec pb_release_single_field :: "nat \<Rightarrow> 'u pb_env \<Rightarrow> pb_iter \<Rightarrow> 'u st_op" where
  "pb_release_single_field 0 env it = (\<lambda>st. None)"
| "pb_release_single_field (Suc n) env it = (\<lambda>st.
     let f = cur_field env it; t = ftype f; m = mem st in
     if PB_HTYPE t = PB_HTYPE_ONEOF \<and> load32 m (pSize it) \<noteq> tag f then Some st
     else
       (case (if PB_LTYPE t = PB_LTYPE_EXTENSION
              then ext_list_release n (pb_release_single_field n env) env (load64 m (pData it)) st
              else if PB_LTYPE t = PB_LTYPE_SUBMESSAGE \<and> PB_ATYPE t \<noteq> PB_ATYPE_CALLBACK then
                (let item = (if PB_ATYPE t = PB_ATYPE_POINTER then load64 m (pData it) else pData it)
                 in if item \<noteq> 0
                    then release_items (unat (release_count env m it))
                           (message_release (pb_release_single_field n env) env (ptr f)) item (ucast (data_size f)) st
                    else Some st)
              else Some st) of
          None \<Rightarrow> None
        | Some st1 \<Rightarrow> if PB_ATYPE t = PB_ATYPE_POINTER then release_pointer env it st1 else Some st1))"

definition pb_release :: "nat \<Rightarrow> 'u pb_env \<Rightarrow> addr \<Rightarrow> addr \<Rightarrow> 'u st_op" where
  "pb_release n env desc dest = message_release (pb_release_single_field n env) env desc dest"

text \<open>The result is the success flag, the stream, the iterator, which the search moves, and the state.\<close>

definition pb_release_union_field ::
  "nat \<Rightarrow> 'u pb_env \<Rightarrow> pb_iter \<Rightarrow> pb_istream \<Rightarrow> 'u cstate \<Rightarrow> (bool \<times> pb_istream \<times> pb_iter \<times> 'u cstate) option" where
  "pb_release_union_field n env it s st =
     (let old_tag = load32 (mem st) (pSize it); new_tag = tag (cur_field env it) in
      if old_tag = 0 then Some (True, s, it, st)
      else if old_tag = new_tag then Some (True, s, it, st)
      else
        (case pb_field_iter_find env old_tag it of (found, it1) \<Rightarrow>
           if \<not> found then Some (False, set_ierr ''invalid union tag'' s, it1, st)
           else
             (case pb_release_single_field n env it1 st of
                None \<Rightarrow> None
              | Some st1 \<Rightarrow>
                  (case pb_field_iter_find env new_tag it1 of (found2, it2) \<Rightarrow>
                     if \<not> found2 then Some (False, set_ierr ''iterator error'' s, it2, st1)
                     else if PB_ATYPE (ftype (cur_field env it2)) = PB_ATYPE_POINTER
                     then Some (True, s, it2, upd_mem (\<lambda>m. store64 m (pData it2) 0) st1)
                     else Some (True, s, it2, st1)))))"

end
