(* ===== verification/PbDecode.thy ===== *)
theory PbDecode
  imports PbMessage
begin

text \<open>
  The message decoder of nanopb (\<^verbatim>\<open>pb_decode.c\<close>). Every C function is one definition. The two
  functions the field decoders call back for submessages, \<^verbatim>\<open>pb_decode\<close> and \<^verbatim>\<open>pb_decode_noinit\<close>, are the
  arguments \<^verbatim>\<open>dec\<close> and \<^verbatim>\<open>noinit\<close>; \<^verbatim>\<open>pb_decode_noinit\<close> ties the knot on fuel, which bounds the nesting
  depth, the length of extension lists and the calls of one field callback. The loop over the input runs on
  the number of bytes the stream has left. \<^verbatim>\<open>None\<close> is a run out of fuel, a call through a null function
  pointer, a division by zero or an invalid \<^verbatim>\<open>free\<close> or \<^verbatim>\<open>realloc\<close>.
\<close>

type_synonym 'u rdo = "pb_istream \<Rightarrow> 'u cstate \<Rightarrow> (bool \<times> pb_istream \<times> 'u cstate) option"
type_synonym 'u decoder = "pb_field \<Rightarrow> addr \<Rightarrow> 'u rdo"

definition rdo :: "'u rd \<Rightarrow> 'u rdo" where
  "rdo f s st = Some (f s st)"

definition rd_fail :: "string \<Rightarrow> 'u rdo" where
  "rd_fail msg s st = Some (False, set_ierr msg s, st)"

definition rdo_seq :: "'u rdo \<Rightarrow> 'u rdo \<Rightarrow> 'u rdo" where
  "rdo_seq f g s st = (case f s st of
     None \<Rightarrow> None
   | Some (ok, s', st') \<Rightarrow> if ok then g s' st' else Some (False, s', st'))"

definition store :: "(memory \<Rightarrow> memory) \<Rightarrow> 'u rdo" where
  "store f s st = Some (True, s, upd_mem f st)"

definition call_decoder :: "'u decoder option \<Rightarrow> 'u decoder" where
  "call_decoder func field dest s st = (case func of None \<Rightarrow> None | Some f \<Rightarrow> f field dest s st)"

section \<open>Decoding of field values\<close>

definition pb_dec_bool :: "'u pb_env \<Rightarrow> 'u decoder" where
  "pb_dec_bool env field dest s st = (case pb_decode_varint32 env s st of
     None \<Rightarrow> None
   | Some (ok, s', v, st') \<Rightarrow>
       if \<not> ok then Some (False, s', st')
       else store (\<lambda>m. store8 m dest (if v \<noteq> 0 then 1 else 0)) s' st')"

definition pb_decode_bool :: "'u pb_env \<Rightarrow> addr \<Rightarrow> 'u rdo" where
  "pb_decode_bool env dest = pb_dec_bool env PB_LAST_FIELD dest"

text \<open>
  The cast of a value to the field's size with the overflow check: the value is stored first and
  compared afterwards, so that a value that does not fit is stored truncated.
\<close>

definition store_signed :: "u32 \<Rightarrow> addr \<Rightarrow> u64 \<Rightarrow> 'u rdo" where
  "store_signed n dest v =
     (let check = (\<lambda>clamped. if clamped \<noteq> v then rd_fail ''integer too large'' else store id) in
      if n = 8 then rdo_seq (store (\<lambda>m. store64 m dest v)) (check v)
      else if n = 4 then rdo_seq (store (\<lambda>m. store32 m dest (ucast v))) (check (scast (ucast v :: u32)))
      else if n = 2 then rdo_seq (store (\<lambda>m. store16 m dest (ucast v))) (check (scast (ucast v :: u16)))
      else if n = 1 then rdo_seq (store (\<lambda>m. store8 m dest (ucast v))) (check (scast (ucast v :: byte)))
      else rd_fail ''invalid data_size'')"

definition store_unsigned :: "u32 \<Rightarrow> addr \<Rightarrow> u64 \<Rightarrow> 'u rdo" where
  "store_unsigned n dest v =
     (let check = (\<lambda>clamped. if clamped \<noteq> v then rd_fail ''integer too large'' else store id) in
      if n = 8 then rdo_seq (store (\<lambda>m. store64 m dest v)) (check v)
      else if n = 4 then rdo_seq (store (\<lambda>m. store32 m dest (ucast v))) (check (ucast (ucast v :: u32)))
      else if n = 2 then rdo_seq (store (\<lambda>m. store16 m dest (ucast v))) (check (ucast (ucast v :: u16)))
      else if n = 1 then rdo_seq (store (\<lambda>m. store8 m dest (ucast v))) (check (ucast (ucast v :: byte)))
      else rd_fail ''invalid data_size'')"

definition pb_dec_varint :: "'u pb_env \<Rightarrow> 'u decoder" where
  "pb_dec_varint env field dest s st = (case pb_decode_varint env s st of (ok, s', v, st') \<Rightarrow>
     if \<not> ok then Some (False, s', st')
     else store_signed (data_size field) dest
            (if data_size field = 8 then v else scast (ucast v :: u32)) s' st')"

definition pb_dec_uvarint :: "'u pb_env \<Rightarrow> 'u decoder" where
  "pb_dec_uvarint env field dest s st = (case pb_decode_varint env s st of (ok, s', v, st') \<Rightarrow>
     if \<not> ok then Some (False, s', st') else store_unsigned (data_size field) dest v s' st')"

definition pb_dec_svarint :: "'u pb_env \<Rightarrow> 'u decoder" where
  "pb_dec_svarint env field dest s st = (case pb_decode_svarint env s st of (ok, s', v, st') \<Rightarrow>
     if \<not> ok then Some (False, s', st') else store_signed (data_size field) dest v s' st')"

definition pb_dec_fixed32 :: "'u pb_env \<Rightarrow> 'u decoder" where
  "pb_dec_fixed32 env field dest = rdo (pb_decode_fixed32 env dest)"

definition pb_dec_fixed64 :: "'u pb_env \<Rightarrow> 'u decoder" where
  "pb_dec_fixed64 env field dest = rdo (pb_decode_fixed64 env dest)"

text \<open>The size of a \<^verbatim>\<open>pb_bytes_array_t\<close> with \<^verbatim>\<open>n\<close> bytes, in \<^verbatim>\<open>size_t\<close>.\<close>

definition PB_BYTES_ARRAY_T_ALLOCSIZE :: "u32 \<Rightarrow> u64" where
  "PB_BYTES_ARRAY_T_ALLOCSIZE n = ucast n + 4"

definition read_bytes_array :: "'u pb_env \<Rightarrow> addr \<Rightarrow> u32 \<Rightarrow> 'u rdo" where
  "read_bytes_array env bdest n = rdo_seq (store (\<lambda>m. store32 m bdest n)) (rdo (pb_read_mem env (bdest + 4) (ucast n)))"

definition pb_dec_bytes :: "'u pb_env \<Rightarrow> 'u decoder" where
  "pb_dec_bytes env field dest s st = (case pb_decode_varint32 env s st of
     None \<Rightarrow> None
   | Some (ok, s', n, st') \<Rightarrow>
       (let alloc_size = PB_BYTES_ARRAY_T_ALLOCSIZE n in
        if \<not> ok then Some (False, s', st')
        else if PB_SIZE_MAX < n then rd_fail ''bytes overflow'' s' st'
        else if alloc_size < ucast n then rd_fail ''size too large'' s' st'
        else if PB_ATYPE (ftype field) = PB_ATYPE_POINTER then
          (if bytes_left s' < ucast n then rd_fail ''end-of-stream'' s' st'
           else rdo_seq (allocate_field dest alloc_size 1)
                  (\<lambda>s st. read_bytes_array env (load64 (mem st) dest) n s st) s' st')
        else if ucast (data_size field) < alloc_size then rd_fail ''bytes overflow'' s' st'
        else read_bytes_array env dest n s' st'))"

text \<open>The terminator is stored whether or not the read succeeded.\<close>

definition read_string :: "'u pb_env \<Rightarrow> addr \<Rightarrow> u32 \<Rightarrow> 'u rdo" where
  "read_string env dest n s st = (case pb_read_mem env dest (ucast n) s st of (status, s', st') \<Rightarrow>
     Some (status, s', upd_mem (\<lambda>m. store8 m (dest + ucast n) 0) st'))"

definition pb_dec_string :: "'u pb_env \<Rightarrow> 'u decoder" where
  "pb_dec_string env field dest s st = (case pb_decode_varint32 env s st of
     None \<Rightarrow> None
   | Some (ok, s', n, st') \<Rightarrow>
       (let alloc_size = (ucast (n + 1) :: u64) in
        if \<not> ok then Some (False, s', st')
        else if alloc_size < ucast n then rd_fail ''size too large'' s' st'
        else if PB_ATYPE (ftype field) = PB_ATYPE_POINTER then
          (if bytes_left s' < ucast n then rd_fail ''end-of-stream'' s' st'
           else rdo_seq (allocate_field dest alloc_size 1)
                  (\<lambda>s st. read_string env (load64 (mem st) dest) n s st) s' st')
        else if ucast (data_size field) < alloc_size then rd_fail ''string overflow'' s' st'
        else read_string env dest n s' st'))"

definition pb_dec_fixed_length_bytes :: "'u pb_env \<Rightarrow> 'u decoder" where
  "pb_dec_fixed_length_bytes env field dest s st = (case pb_decode_varint32 env s st of
     None \<Rightarrow> None
   | Some (ok, s', n, st') \<Rightarrow>
       if \<not> ok then Some (False, s', st')
       else if PB_SIZE_MAX < n then rd_fail ''bytes overflow'' s' st'
       else if n = 0 then store (c_memset_zero dest (data_size field)) s' st'
       else if n \<noteq> data_size field then rd_fail ''incorrect fixed length bytes size'' s' st'
       else rdo (pb_read_mem env dest (ucast (data_size field))) s' st')"

text \<open>
  Decoding inside a length-delimited substream: open it, run the body, close it; the result is the
  body's status, unless closing fails.
\<close>

definition in_substream :: "'u pb_env \<Rightarrow> 'u rdo \<Rightarrow> 'u rdo" where
  "in_substream env body s st = (case pb_make_string_substream env s st of
     None \<Rightarrow> None
   | Some (ok, s1, sub, st1) \<Rightarrow>
       if \<not> ok then Some (False, s1, st1)
       else (case body sub st1 of
          None \<Rightarrow> None
        | Some (status, sub', st2) \<Rightarrow>
            (case pb_close_string_substream env s1 sub' st2 of (closed, s2, st3) \<Rightarrow>
               if \<not> closed then Some (False, s2, st3) else Some (status, s2, st3))))"

type_synonym 'u sub_decoder = "addr \<Rightarrow> addr \<Rightarrow> 'u rdo"

definition pb_dec_submessage :: "'u sub_decoder \<Rightarrow> 'u sub_decoder \<Rightarrow> 'u pb_env \<Rightarrow> 'u decoder" where
  "pb_dec_submessage dec noinit env field dest s st =
     (if ptr field = 0 then
        (case pb_make_string_substream env s st of
           None \<Rightarrow> None
         | Some (ok, s1, sub, st1) \<Rightarrow>
             if \<not> ok then Some (False, s1, st1) else rd_fail ''invalid field descriptor'' s1 st1)
      else in_substream env
        (if PB_HTYPE (ftype field) = PB_HTYPE_REPEATED then dec (ptr field) dest else noinit (ptr field) dest) s st)"

definition PB_DECODERS :: "'u sub_decoder \<Rightarrow> 'u sub_decoder \<Rightarrow> 'u pb_env \<Rightarrow> byte \<Rightarrow> 'u decoder option" where
  "PB_DECODERS dec noinit env lt =
     (let table = [Some (pb_dec_bool env), Some (pb_dec_varint env), Some (pb_dec_uvarint env),
                   Some (pb_dec_svarint env), Some (pb_dec_fixed32 env), Some (pb_dec_fixed64 env),
                   Some (pb_dec_bytes env), Some (pb_dec_string env),
                   Some (pb_dec_submessage dec noinit env),
                   None, Some (pb_dec_fixed_length_bytes env)]
      in if unat lt < length table then table ! unat lt else None)"

section \<open>Fields\<close>

text \<open>\<^verbatim>\<open>data_size * ( *size)\<close> is computed in \<^verbatim>\<open>pb_size_t\<close>, 32 bits.\<close>

definition item_addr :: "addr \<Rightarrow> pb_field \<Rightarrow> u32 \<Rightarrow> addr" where
  "item_addr base f i = base + ucast (data_size f * i)"

text \<open>
  The loop over a packed static array. Every entry of a packable type takes at least one byte, so that
  one more than the bytes left is fuel enough (\<^verbatim>\<open>packed_loop_safe\<close>).
\<close>

fun packed_static_loop :: "nat \<Rightarrow> 'u decoder option \<Rightarrow> pb_field \<Rightarrow> addr \<Rightarrow> addr \<Rightarrow> 'u rdo" where
  "packed_static_loop 0 func f data sz sub st = None"
| "packed_static_loop (Suc k) func f data sz sub st =
     (let n = load32 (mem st) sz in
      if bytes_left sub \<noteq> 0 \<and> n < array_size f then
        (case call_decoder func f (item_addr data f n) sub st of
           None \<Rightarrow> None
         | Some (ok, sub', st') \<Rightarrow>
             if \<not> ok then Some (False, sub', st')
             else packed_static_loop k func f data sz sub' (upd_mem (\<lambda>m. store32 m sz (load32 m sz + 1)) st'))
      else Some (True, sub, st))"

definition decode_packed_static :: "'u pb_env \<Rightarrow> 'u decoder option \<Rightarrow> pb_field \<Rightarrow> addr \<Rightarrow> addr \<Rightarrow> 'u rdo" where
  "decode_packed_static env func f data sz s st = (case pb_make_string_substream env s st of
     None \<Rightarrow> None
   | Some (ok, s1, sub, st1) \<Rightarrow>
       if \<not> ok then Some (False, s1, st1)
       else (case packed_static_loop (Suc (unat (bytes_left sub))) func f data sz sub st1 of
          None \<Rightarrow> None
        | Some (status, sub', st2) \<Rightarrow>
            if bytes_left sub' \<noteq> 0 then rd_fail ''array overflow'' s1 st2
            else (case pb_close_string_substream env s1 sub' st2 of (closed, s2, st3) \<Rightarrow>
              if \<not> closed then Some (False, s2, st3) else Some (status, s2, st3))))"

definition decode_static_field ::
  "'u sub_decoder \<Rightarrow> 'u sub_decoder \<Rightarrow> (addr \<Rightarrow> addr \<Rightarrow> mem_op) \<Rightarrow> 'u pb_env \<Rightarrow> wire_type \<Rightarrow> pb_iter \<Rightarrow> 'u rdo" where
  "decode_static_field dec noinit dflt env wire_type it s st =
     (let f = cur_field env it; t = ftype f; func = PB_DECODERS dec noinit env (PB_LTYPE t);
          data = pData it; sz = pSize it
      in if PB_HTYPE t = PB_HTYPE_REQUIRED then call_decoder func f data s st
         else if PB_HTYPE t = PB_HTYPE_OPTIONAL then
           rdo_seq (store (\<lambda>m. if sz \<noteq> data then store8 m sz 1 else m)) (call_decoder func f data) s st
         else if PB_HTYPE t = PB_HTYPE_REPEATED then
           (if wire_type = PB_WT_STRING \<and> PB_LTYPE t \<le> PB_LTYPE_LAST_PACKABLE
            then decode_packed_static env func f data sz s st
            else
              (let n = load32 (mem st) sz; st1 = upd_mem (\<lambda>m. store32 m sz (n + 1)) st
               in if array_size f \<le> n then rd_fail ''array overflow'' s st1
                  else call_decoder func f (item_addr data f n) s st1))
         else if PB_HTYPE t = PB_HTYPE_ONEOF then
           (case (if PB_LTYPE t = PB_LTYPE_SUBMESSAGE \<and> load32 (mem st) sz \<noteq> tag f
                  then dflt (ptr f) data (c_memset_zero data (data_size f) (mem st))
                  else Some (mem st)) of
              None \<Rightarrow> None
            | Some m1 \<Rightarrow> call_decoder func f data s (upd_mem (\<lambda>_. store32 m1 sz (tag f)) st))
         else rd_fail ''invalid field type'' s st)"

text \<open>
  The loop over a packed array of a pointer field. It grows the allocation by its guess of the
  number of entries that remain; the guess divides by the entry size.
\<close>

definition grow_array ::
  "pb_field \<Rightarrow> addr \<Rightarrow> u32 \<Rightarrow> size_t \<Rightarrow> pb_istream \<Rightarrow> 'u cstate \<Rightarrow> (bool \<times> size_t \<times> pb_istream \<times> 'u cstate) option" where
  "grow_array f data n allocated sub st =
     (if allocated < ucast n + 1 then
        if data_size f = 0 then None
        else
          (let remain = (bytes_left sub - 1) div ucast (data_size f) + 1;
               allocated' = (if remain < ucast PB_SIZE_MAX - allocated then allocated + remain else allocated + 1)
           in case allocate_field data (ucast (data_size f)) allocated' sub st of
                None \<Rightarrow> None
              | Some (ok, sub', st') \<Rightarrow> Some (ok, allocated', sub', st'))
      else Some (True, allocated, sub, st))"

text \<open>The result has the stream, whose error the loop may set, besides the substream.\<close>

fun packed_pointer_loop ::
  "nat \<Rightarrow> (addr \<Rightarrow> addr \<Rightarrow> mem_op) \<Rightarrow> 'u pb_env \<Rightarrow> 'u decoder option \<Rightarrow> pb_iter \<Rightarrow> size_t \<Rightarrow> pb_istream \<Rightarrow>
   pb_istream \<Rightarrow> 'u cstate \<Rightarrow> (bool \<times> pb_istream \<times> pb_istream \<times> 'u cstate) option" where
  "packed_pointer_loop 0 dflt env func it allocated s sub st = None"
| "packed_pointer_loop (Suc k) dflt env func it allocated s sub st =
     (let f = cur_field env it; n = load32 (mem st) (pSize it) in
      if bytes_left sub = 0 then Some (True, s, sub, st)
      else if n = PB_SIZE_MAX then Some (False, s\<lparr>i_errmsg := Some ''too many array entries''\<rparr>, sub, st)
      else
        (case grow_array f (pData it) n allocated sub st of
           None \<Rightarrow> None
         | Some (ok, allocated1, sub1, st1) \<Rightarrow>
             if \<not> ok then Some (False, s, sub1, st1)
             else
               (let item = item_addr (load64 (mem st1) (pData it)) f n in
                if item = 0 then Some (False, s, sub1, st1)
                else
                  (case initialize_pointer_field dflt env item it (mem st1) of
                     None \<Rightarrow> None
                   | Some m2 \<Rightarrow>
                       (case call_decoder func f item sub1 (upd_mem (\<lambda>_. m2) st1) of
                          None \<Rightarrow> None
                        | Some (ok2, sub2, st2) \<Rightarrow>
                            if \<not> ok2 then Some (False, s, sub2, st2)
                            else packed_pointer_loop k dflt env func it allocated1 s sub2
                                   (upd_mem (\<lambda>m. store32 m (pSize it) (load32 m (pSize it) + 1)) st2))))))"

definition decode_packed_pointer ::
  "(addr \<Rightarrow> addr \<Rightarrow> mem_op) \<Rightarrow> 'u pb_env \<Rightarrow> 'u decoder option \<Rightarrow> pb_iter \<Rightarrow> 'u rdo" where
  "decode_packed_pointer dflt env func it s st =
     (let allocated = (ucast (load32 (mem st) (pSize it)) :: u64) in
      case pb_make_string_substream env s st of
        None \<Rightarrow> None
      | Some (ok, s1, sub, st1) \<Rightarrow>
          if \<not> ok then Some (False, s1, st1)
          else (case packed_pointer_loop (Suc (unat (bytes_left sub))) dflt env func it allocated s1 sub st1 of
             None \<Rightarrow> None
           | Some (status, s2, sub', st2) \<Rightarrow>
               (case pb_close_string_substream env s2 sub' st2 of (closed, s3, st3) \<Rightarrow>
                  if \<not> closed then Some (False, s3, st3) else Some (status, s3, st3))))"

text \<open>A new entry: initialise it, then decode into it.\<close>

definition decode_item ::
  "(addr \<Rightarrow> addr \<Rightarrow> mem_op) \<Rightarrow> 'u pb_env \<Rightarrow> 'u decoder option \<Rightarrow> pb_iter \<Rightarrow> addr \<Rightarrow> 'u rdo" where
  "decode_item dflt env func it item s st = (case initialize_pointer_field dflt env item it (mem st) of
     None \<Rightarrow> None
   | Some m \<Rightarrow> call_decoder func (cur_field env it) item s (upd_mem (\<lambda>_. m) st))"

definition decode_pointer_field ::
  "'u sub_decoder \<Rightarrow> 'u sub_decoder \<Rightarrow> (addr \<Rightarrow> addr \<Rightarrow> mem_op) \<Rightarrow> (pb_iter \<Rightarrow> 'u st_op) \<Rightarrow> 'u pb_env \<Rightarrow>
   wire_type \<Rightarrow> pb_iter \<Rightarrow> 'u rdo" where
  "decode_pointer_field dec noinit dflt rel env wire_type it s st =
     (let f = cur_field env it; t = ftype f; lt = PB_LTYPE t;
          func = PB_DECODERS dec noinit env lt; data = pData it; sz = pSize it
      in if PB_HTYPE t = PB_HTYPE_REQUIRED \<or> PB_HTYPE t = PB_HTYPE_OPTIONAL \<or> PB_HTYPE t = PB_HTYPE_ONEOF then
           (case (if lt = PB_LTYPE_SUBMESSAGE \<and> load64 (mem st) data \<noteq> 0 then rel it st else Some st) of
              None \<Rightarrow> None
            | Some st1 \<Rightarrow>
                (let st2 = (if PB_HTYPE t = PB_HTYPE_ONEOF then upd_mem (\<lambda>m. store32 m sz (tag f)) st1 else st1)
                 in if lt = PB_LTYPE_STRING \<or> lt = PB_LTYPE_BYTES then call_decoder func f data s st2
                    else rdo_seq (allocate_field data (ucast (data_size f)) 1)
                           (\<lambda>s st. decode_item dflt env func it (load64 (mem st) data) s st) s st2))
         else if PB_HTYPE t = PB_HTYPE_REPEATED then
           (if wire_type = PB_WT_STRING \<and> lt \<le> PB_LTYPE_LAST_PACKABLE
            then decode_packed_pointer dflt env func it s st
            else
              (let n = load32 (mem st) sz in
               if n = PB_SIZE_MAX then rd_fail ''too many array entries'' s st
               else rdo_seq (allocate_field data (ucast (data_size f)) (ucast (n + 1)))
                      (\<lambda>s st. let n = load32 (mem st) sz; item = item_addr (load64 (mem st) data) f n
                              in decode_item dflt env func it item s (upd_mem (\<lambda>m. store32 m sz (n + 1)) st)) s st))
         else rd_fail ''invalid field type'' s st)"

text \<open>
  The loop of \<^verbatim>\<open>decode_callback_field\<close> calls the application until it has consumed the substream. An
  application that stops consuming keeps it running; the fuel then runs out.
\<close>

fun callback_loop :: "nat \<Rightarrow> 'u pb_env \<Rightarrow> pb_field \<Rightarrow> addr \<Rightarrow> 'u rdo" where
  "callback_loop 0 env f data sub st = None"
| "callback_loop (Suc k) env f data sub st =
     (let fn = load64 (mem st) data in
      if fn = 0 then None
      else (case field_decode env fn f (data + 8) sub st of (ok, sub', st') \<Rightarrow>
        if \<not> ok then Some (False, sub', st')
        else if bytes_left sub' \<noteq> 0 then callback_loop k env f data sub' st'
        else Some (True, sub', st')))"

definition decode_callback_field :: "nat \<Rightarrow> 'u pb_env \<Rightarrow> wire_type \<Rightarrow> pb_iter \<Rightarrow> 'u rdo" where
  "decode_callback_field n env wire_type it s st =
     (let f = cur_field env it; data = pData it in
      if data = 0 \<or> load64 (mem st) data = 0 then pb_skip_field env wire_type s st
      else if wire_type = PB_WT_STRING then
        (case pb_make_string_substream env s st of
           None \<Rightarrow> None
         | Some (ok, s1, sub, st1) \<Rightarrow>
             if \<not> ok then Some (False, s1, st1)
             else (case callback_loop n env f data sub st1 of
                None \<Rightarrow> None
              | Some (done, sub', st2) \<Rightarrow>
                  if \<not> done then rd_fail ''callback failed'' s1 st2
                  else Some (pb_close_string_substream env s1 sub' st2)))
      else
        (case read_raw_value env wire_type 10 s st of (ok, s1, buffer, st1) \<Rightarrow>
           if \<not> ok then Some (False, s1, st1)
           else
             (let local = sp st1;
                  st2 = (upd_io (\<lambda>m. store_bytes m local buffer) st1)\<lparr>sp := local + 16\<rparr>;
                  fn = load64 (mem st2) data
              in if fn = 0 then None
                 else (case field_decode env fn f (data + 8)
                              (pb_istream_from_buffer local (of_nat (length buffer))) st2 of
                   (status, sub', st3) \<Rightarrow> Some (status, s1, st3\<lparr>sp := local\<rparr>)))))"

text \<open>\<^verbatim>\<open>decode_field\<close> returns the iterator too, which releasing an old union member moves.\<close>

definition decode_field ::
  "'u sub_decoder \<Rightarrow> 'u sub_decoder \<Rightarrow> nat \<Rightarrow> 'u pb_env \<Rightarrow> wire_type \<Rightarrow> pb_iter \<Rightarrow> pb_istream \<Rightarrow> 'u cstate \<Rightarrow>
   (bool \<times> pb_istream \<times> pb_iter \<times> 'u cstate) option" where
  "decode_field dec noinit n env wire_type it s st =
     (case (if PB_HTYPE (ftype (cur_field env it)) = PB_HTYPE_ONEOF then pb_release_union_field n env it s st
            else Some (True, s, it, st)) of
        None \<Rightarrow> None
      | Some (ok, s1, it1, st1) \<Rightarrow>
          if \<not> ok then Some (False, s1, it1, st1)
          else
            (let at = PB_ATYPE (ftype (cur_field env it1)) in
             case (if at = PB_ATYPE_STATIC
                   then decode_static_field dec noinit (pb_message_set_to_defaults n env) env wire_type it1 s1 st1
                   else if at = PB_ATYPE_POINTER
                   then decode_pointer_field dec noinit (pb_message_set_to_defaults n env)
                          (pb_release_single_field n env) env wire_type it1 s1 st1
                   else if at = PB_ATYPE_CALLBACK then decode_callback_field n env wire_type it1 s1 st1
                   else rd_fail ''invalid field type'' s1 st1) of
               None \<Rightarrow> None
             | Some (ok2, s2, st2) \<Rightarrow> Some (ok2, s2, it1, st2)))"

section \<open>Extensions\<close>

definition default_extension_decoder ::
  "'u sub_decoder \<Rightarrow> 'u sub_decoder \<Rightarrow> nat \<Rightarrow> 'u pb_env \<Rightarrow> addr \<Rightarrow> u32 \<Rightarrow> wire_type \<Rightarrow> 'u rdo" where
  "default_extension_decoder dec noinit n env ext t wire_type s st =
     (let f = field_at (descs env (type_arg (mem st) (ext_type (mem st) ext))) 0 in
      if tag f \<noteq> t then Some (True, s, st)
      else
        (let it = iter_from_extension env (mem st) ext;
             st1 = upd_mem (\<lambda>m. store8 m (ext_found ext) 1) st
         in case decode_field dec noinit n env wire_type it s st1 of
              None \<Rightarrow> None
            | Some (ok, s', it', st') \<Rightarrow> Some (ok, s', st')))"

fun extension_loop ::
  "nat \<Rightarrow> 'u sub_decoder \<Rightarrow> 'u sub_decoder \<Rightarrow> nat \<Rightarrow> 'u pb_env \<Rightarrow> size_t \<Rightarrow> u32 \<Rightarrow> wire_type \<Rightarrow> addr \<Rightarrow> 'u rdo" where
  "extension_loop 0 dec noinit n env pos t wire_type ext s st =
     (if ext \<noteq> 0 \<and> pos = bytes_left s then None else Some (True, s, st))"
| "extension_loop (Suc k) dec noinit n env pos t wire_type ext s st =
     (if ext \<noteq> 0 \<and> pos = bytes_left s then
        (let fn = type_decode (mem st) (ext_type (mem st) ext) in
         case (if fn \<noteq> 0 then Some (ext_decode env fn ext t wire_type s st)
               else default_extension_decoder dec noinit n env ext t wire_type s st) of
           None \<Rightarrow> None
         | Some (status, s', st') \<Rightarrow>
             if \<not> status then Some (False, s', st')
             else extension_loop k dec noinit n env pos t wire_type (ext_next (mem st') ext) s' st')
      else Some (True, s, st))"

definition decode_extension ::
  "'u sub_decoder \<Rightarrow> 'u sub_decoder \<Rightarrow> nat \<Rightarrow> 'u pb_env \<Rightarrow> u32 \<Rightarrow> wire_type \<Rightarrow> pb_iter \<Rightarrow> 'u rdo" where
  "decode_extension dec noinit n env t wire_type it s st =
     extension_loop n dec noinit n env (bytes_left s) t wire_type (load64 (mem st) (pData it)) s st"

fun find_extension_loop :: "nat \<Rightarrow> 'u pb_env \<Rightarrow> nat \<Rightarrow> pb_iter \<Rightarrow> bool \<times> pb_iter" where
  "find_extension_loop 0 env start it = (False, it)"
| "find_extension_loop (Suc fuel) env start it =
     (if PB_LTYPE (ftype (cur_field env it)) = PB_LTYPE_EXTENSION then (True, it)
      else
        (let it' = snd (pb_field_iter_next env it)
         in if it_pos it' \<noteq> start then find_extension_loop fuel env start it' else (False, it')))"

definition find_extension_field :: "'u pb_env \<Rightarrow> pb_iter \<Rightarrow> bool \<times> pb_iter" where
  "find_extension_field env it =
     find_extension_loop (Suc (length (descs env (it_start it)))) env (it_pos it) it"

section \<open>Messages\<close>

text \<open>
  The locals of \<^verbatim>\<open>pb_decode_noinit\<close> across iterations: the iterator, the bits of the required fields seen,
  the start of the extension range, and the position of the current fixed-count field. The count of
  that field, \<^verbatim>\<open>fixed_count_size\<close>, has its address taken; it lives in memory at \<^verbatim>\<open>fc_addr\<close>.
\<close>

definition PB_MAX_REQUIRED_FIELDS :: u32 where "PB_MAX_REQUIRED_FIELDS = 64"

record dec_locals =
  dl_iter :: pb_iter
  seen0 :: u32
  seen1 :: u32
  ext_start :: u32
  fc_field :: "nat option"
  fc_addr :: addr

text \<open>Whether the current fixed-count field, if any, has received all its entries.\<close>

definition fixed_count_ok :: "'u pb_env \<Rightarrow> dec_locals \<Rightarrow> memory \<Rightarrow> bool" where
  "fixed_count_ok env l m = (case fc_field l of
     None \<Rightarrow> True
   | Some i \<Rightarrow> load32 m (fc_addr l) = array_size (field_at (descs env (it_start (dl_iter l))) i))"

text \<open>Bookkeeping before a known field is decoded: \<^verbatim>\<open>None\<close> is the wrong-size error.\<close>

definition enter_fixed_count :: "'u pb_env \<Rightarrow> dec_locals \<Rightarrow> memory \<Rightarrow> (dec_locals \<times> memory) option" where
  "enter_fixed_count env l m =
     (let it = dl_iter l in
      if PB_HTYPE (ftype (cur_field env it)) = PB_HTYPE_REPEATED \<and> pSize it = pData it then
        (let l' = l\<lparr>dl_iter := it\<lparr>pSize := fc_addr l\<rparr>\<rparr> in
         if fc_field l \<noteq> Some (it_pos it)
         then if \<not> fixed_count_ok env l m then None
              else Some (l'\<lparr>fc_field := Some (it_pos it)\<rparr>, store32 m (fc_addr l) 0)
         else Some (l', m))
      else Some (l, m))"

definition mark_required :: "'u pb_env \<Rightarrow> dec_locals \<Rightarrow> dec_locals" where
  "mark_required env l =
     (let it = dl_iter l; i = required_field_index it; tmp = push_bit (unat (i AND 31)) (1 :: u32) in
      if PB_HTYPE (ftype (cur_field env it)) = PB_HTYPE_REQUIRED \<and> i < PB_MAX_REQUIRED_FIELDS then
        (if drop_bit 5 i = 0 then l\<lparr>seen0 := seen0 l OR tmp\<rparr> else l\<lparr>seen1 := seen1 l OR tmp\<rparr>)
      else l)"

text \<open>A tag that no field has: try the extensions, else skip the value.\<close>

definition decode_unknown ::
  "'u sub_decoder \<Rightarrow> 'u sub_decoder \<Rightarrow> nat \<Rightarrow> 'u pb_env \<Rightarrow> u32 \<Rightarrow> wire_type \<Rightarrow> dec_locals \<Rightarrow> pb_istream \<Rightarrow>
   'u cstate \<Rightarrow> (bool \<times> dec_locals \<times> pb_istream \<times> 'u cstate) option" where
  "decode_unknown dec noinit n env t wire_type l s st =
     (let skip = (\<lambda>l s st. case pb_skip_field env wire_type s st of
                     None \<Rightarrow> None | Some (ok, s', st') \<Rightarrow> Some (ok, l, s', st')) in
      if ext_start l \<le> t then
        (case find_extension_field env (dl_iter l) of (found, it) \<Rightarrow>
           (let l1 = l\<lparr>dl_iter := it, ext_start := (if found then tag (cur_field env it) else - 1)\<rparr> in
            if ext_start l1 \<le> t then
              (case decode_extension dec noinit n env t wire_type it s st of
                 None \<Rightarrow> None
               | Some (ok, s1, st1) \<Rightarrow>
                   if \<not> ok then Some (False, l1, s1, st1)
                   else if bytes_left s \<noteq> bytes_left s1 then Some (True, l1, s1, st1)
                   else skip l1 s1 st1)
            else skip l1 s st))
      else skip l s st)"

fun decode_loop ::
  "nat \<Rightarrow> 'u sub_decoder \<Rightarrow> 'u sub_decoder \<Rightarrow> nat \<Rightarrow> 'u pb_env \<Rightarrow> dec_locals \<Rightarrow> pb_istream \<Rightarrow> 'u cstate \<Rightarrow>
   (bool \<times> dec_locals \<times> pb_istream \<times> 'u cstate) option" where
  "decode_loop 0 dec noinit n env l s st = None"
| "decode_loop (Suc k) dec noinit n env l s st =
     (if bytes_left s = 0 then Some (True, l, s, st)
      else
        (case pb_decode_tag env s st of
           None \<Rightarrow> None
         | Some (ok, s1, wire_type, t, eof, st1) \<Rightarrow>
             if \<not> ok then Some (eof, l, s1, st1)
             else
               (case pb_field_iter_find env t (dl_iter l) of (found, it) \<Rightarrow>
                  (let l1 = l\<lparr>dl_iter := it\<rparr> in
                   if \<not> found then
                     (case decode_unknown dec noinit n env t wire_type l1 s1 st1 of
                        None \<Rightarrow> None
                      | Some (ok2, l2, s2, st2) \<Rightarrow>
                          if \<not> ok2 then Some (False, l2, s2, st2)
                          else decode_loop k dec noinit n env l2 s2 st2)
                   else
                     (case enter_fixed_count env l1 (mem st1) of
                        None \<Rightarrow> Some (False, l1, set_ierr ''wrong size for fixed count field'' s1, st1)
                      | Some (l2, m) \<Rightarrow>
                          (let l3 = mark_required env l2 in
                           case decode_field dec noinit n env wire_type (dl_iter l3) s1 (upd_mem (\<lambda>_. m) st1) of
                             None \<Rightarrow> None
                           | Some (ok3, s3, it3, st3) \<Rightarrow>
                               if \<not> ok3 then Some (False, l3\<lparr>dl_iter := it3\<rparr>, s3, st3)
                               else decode_loop k dec noinit n env (l3\<lparr>dl_iter := it3\<rparr>) s3 st3))))))"

text \<open>
  The check for required fields. The loop seeks the end of the descriptor from the current position
  and yields the index and type of the last field and the iterator behind it.
\<close>

function seek_end :: "'u pb_env \<Rightarrow> pb_iter \<Rightarrow> u32 \<times> byte \<times> pb_iter" where
  "seek_end env it = (case pb_field_iter_next env it of (again, it') \<Rightarrow>
     if again then seek_end env it' else (required_field_index it, ftype (cur_field env it), it'))"
  by pat_completeness auto
termination
  by (relation "measure (\<lambda>(env, it). length (descs env (it_start it)) - it_pos it)")
    (auto dest: iter_next_measure [OF sym])

declare seek_end.simps [simp del]

definition required_count :: "'u pb_env \<Rightarrow> pb_iter \<Rightarrow> u32" where
  "required_count env it = (case seek_end env it of (i, last_type, it') \<Rightarrow>
     (let c = (if PB_HTYPE last_type = PB_HTYPE_REQUIRED \<and> tag (cur_field env it') \<noteq> 0 then i + 1 else i)
      in if PB_MAX_REQUIRED_FIELDS < c then PB_MAX_REQUIRED_FIELDS else c))"

definition required_seen :: "u32 \<Rightarrow> u32 \<Rightarrow> u32 \<Rightarrow> bool" where
  "required_seen c w0 w1 \<longleftrightarrow>
     (let seen = (\<lambda>i. if i = 0 then w0 else w1); whole = drop_bit 5 c; bits = c AND 31
      in list_all (\<lambda>i. seen i = - 1) (map of_nat [0..<unat whole]) \<and>
         (bits = 0 \<or> seen whole = drop_bit (unat (32 - bits)) (- 1)))"

definition finish_message :: "'u pb_env \<Rightarrow> dec_locals \<Rightarrow> 'u rd" where
  "finish_message env l s st =
     (if \<not> fixed_count_ok env l (mem st) then (False, set_ierr ''wrong size for fixed count field'' s, st)
      else if \<not> required_seen (required_count env (dl_iter l)) (seen0 l) (seen1 l)
      then (False, set_ierr ''missing required field'' s, st)
      else (True, s, st))"

definition noinit_body :: "'u sub_decoder \<Rightarrow> 'u sub_decoder \<Rightarrow> nat \<Rightarrow> 'u pb_env \<Rightarrow> 'u sub_decoder" where
  "noinit_body dec noinit n env desc dest s st =
     (let local = sp st;
          l = \<lparr>dl_iter = snd (pb_field_iter_begin env desc dest), seen0 = 0, seen1 = 0, ext_start = 0,
               fc_field = None, fc_addr = local\<rparr>;
          st0 = (upd_mem (\<lambda>m. store32 m local 0) st)\<lparr>sp := local + 8\<rparr>
      in case decode_loop (Suc (unat (bytes_left s))) dec noinit n env l s st0 of
           None \<Rightarrow> None
         | Some (ok, l', s', st') \<Rightarrow>
             (case (if ok then finish_message env l' s' st' else (False, s', st')) of
                (ok2, s2, st2) \<Rightarrow> Some (ok2, s2, st2\<lparr>sp := local\<rparr>)))"

definition decode_with :: "nat \<Rightarrow> 'u sub_decoder \<Rightarrow> 'u pb_env \<Rightarrow> 'u sub_decoder" where
  "decode_with n noinit env desc dest s st = (case pb_message_set_to_defaults n env desc dest (mem st) of
     None \<Rightarrow> None
   | Some m \<Rightarrow>
       (case noinit desc dest s (upd_mem (\<lambda>_. m) st) of
          None \<Rightarrow> None
        | Some (status, s', st') \<Rightarrow>
            if \<not> status then
              (case pb_release n env desc dest st' of None \<Rightarrow> None | Some st'' \<Rightarrow> Some (False, s', st''))
            else Some (True, s', st')))"

primrec pb_decode_noinit :: "nat \<Rightarrow> 'u pb_env \<Rightarrow> 'u sub_decoder" where
  "pb_decode_noinit 0 env = (\<lambda>desc dest s st. None)"
| "pb_decode_noinit (Suc n) env =
     noinit_body (decode_with n (pb_decode_noinit n env) env) (pb_decode_noinit n env) n env"

definition pb_decode :: "nat \<Rightarrow> 'u pb_env \<Rightarrow> 'u sub_decoder" where
  "pb_decode n env = decode_with n (pb_decode_noinit n env) env"

definition pb_decode_delimited_noinit :: "nat \<Rightarrow> 'u pb_env \<Rightarrow> 'u sub_decoder" where
  "pb_decode_delimited_noinit n env desc dest = in_substream env (pb_decode_noinit n env desc dest)"

definition pb_decode_delimited :: "nat \<Rightarrow> 'u pb_env \<Rightarrow> 'u sub_decoder" where
  "pb_decode_delimited n env desc dest = in_substream env (pb_decode n env desc dest)"

definition pb_decode_nullterminated :: "nat \<Rightarrow> 'u pb_env \<Rightarrow> 'u sub_decoder" where
  "pb_decode_nullterminated n env = pb_decode n env"

section \<open>Required fields\<close>

text \<open>The end of the descriptor, from any of its fields.\<close>

lemma seek_end_at:
  assumes wf: "wf_desc (descs env desc)" "dest \<noteq> 0"
  shows "i < length (descs env desc) \<Longrightarrow> seek_end env (iter_at env desc dest i) =
    (of_nat (length (filter is_required (butlast (descs env desc)))), ftype (last (descs env desc)), iter_at env desc dest 0)"
proof (induction "length (descs env desc) - i" arbitrary: i)
  case 0
  then show ?case by simp
next
  case (Suc n)
  let ?fs = "descs env desc"
  show ?case
  proof (cases "Suc i < length ?fs")
    case True
    then show ?thesis
      using Suc(1) [of "Suc i"] Suc(2) iter_next [OF wf Suc(3)] by (subst seek_end.simps) simp
  next
    case False
    then have i: "i = length ?fs - 1"
      using Suc(3) by simp
    have "?fs \<noteq> []"
      using Suc(3) by auto
    then show ?thesis
      using False iter_next [OF wf Suc(3)] Suc(3)
      by (subst seek_end.simps) (simp add: i iter_at_def Let_def butlast_conv_take last_conv_nth field_at_def cur_field_def)
  qed
qed

lemma required_count_at:
  assumes wf: "wf_desc (descs env desc)" "dest \<noteq> 0" and i: "i < length (descs env desc)"
    and len: "length (descs env desc) < 2 ^ 32"
  shows "unat (required_count env (iter_at env desc dest i)) = min 64 (length (filter is_required (descs env desc)))"
proof -
  let ?fs = "descs env desc"
  have ne: "?fs \<noteq> []"
    using i by auto
  then have "filter is_required ?fs = filter is_required (butlast ?fs) @ (if is_required (last ?fs) then [last ?fs] else [])"
    by (cases ?fs rule: rev_cases) simp_all
  moreover have "length (filter is_required ?fs) < 2 ^ 32"
    using len length_filter_le [of is_required ?fs] by linarith
  moreover have "tag (?fs ! 0) \<noteq> 0" "cur_field env (iter_at env desc dest 0) = ?fs ! 0"
    using wf(1) ne by (simp_all add: wf_desc_def)
  ultimately have "(case seek_end env (iter_at env desc dest i) of (i, last_type, it') \<Rightarrow>
      if PB_HTYPE last_type = PB_HTYPE_REQUIRED \<and> tag (cur_field env it') \<noteq> 0 then i + 1 else i) =
      (of_nat (length (filter is_required ?fs)) :: u32)"
    using seek_end_at [OF wf i] by (simp add: is_required_def)
  moreover have "unat (of_nat (length (filter is_required ?fs)) :: u32) = length (filter is_required ?fs)"
    using \<open>length (filter is_required ?fs) < 2 ^ 32\<close> by (simp add: unat_of_nat)
  ultimately show ?thesis
    by (auto simp: required_count_def Let_def PB_MAX_REQUIRED_FIELDS_def word_less_nat_alt split: prod.splits)
qed

text \<open>The words of the seen bits; the test wants the bits below the count set and all others clear.\<close>

definition seen_bit :: "u32 \<Rightarrow> u32 \<Rightarrow> nat \<Rightarrow> bool" where
  "seen_bit w0 w1 i \<longleftrightarrow> (if i < 32 then bit w0 i else bit w1 (i - 32))"

lemma word_all_bits: "w = - 1 \<longleftrightarrow> (\<forall>i<32. bit w i)" for w :: u32
  by (auto simp: bit_eq_iff bit_simps)

lemma word_low_bits: "w = drop_bit (32 - k) (- 1) \<longleftrightarrow> (\<forall>i<32. bit w i \<longleftrightarrow> i < k)" if "k \<le> 32" for w :: u32
  using that by (auto simp: bit_eq_iff bit_simps)

lemma low_bits_iff:
  fixes w :: u32
  assumes "k \<le> 32" and "\<And>i. k \<le> i \<Longrightarrow> i < 32 \<Longrightarrow> \<not> bit w i"
  shows "(\<forall>i<32. bit w i \<longleftrightarrow> i < k) \<longleftrightarrow> (\<forall>i<k. bit w i)"
  using assms by (meson not_le_imp_less order_less_le_trans)

lemma all_less_add: "(\<forall>i < a + b. P i) \<longleftrightarrow> (\<forall>i < a. P i) \<and> (\<forall>i < b. P (i + a))" for a b :: nat
proof -
  have "P i" if "\<forall>i < b. P (i + a)" "a \<le> i" "i < a + b" for i
    using that(1) [rule_format, of "i - a"] that(2,3) by simp
  then show ?thesis
    by (metis add.commute less_add_eq_less nat_add_left_cancel_less not_le_imp_less trans_less_add1)
qed

lemma required_seen_iff:
  assumes c: "unat c \<le> 64" and clear: "\<And>i. unat c \<le> i \<Longrightarrow> i < 64 \<Longrightarrow> \<not> seen_bit w0 w1 i"
  shows "required_seen c w0 w1 \<longleftrightarrow> (\<forall>i < unat c. seen_bit w0 w1 i)"
proof -
  let ?k = "unat c"
  have whole: "drop_bit 5 c = of_nat (?k div 32)"
  proof -
    have "drop_bit 5 c = of_nat (unat (drop_bit 5 c))"
      by simp
    then show ?thesis
      by (simp add: unat_drop_bit_div)
  qed
  have "c AND 31 = take_bit 5 c"
    by (simp add: take_bit_eq_mask mask_eq_exp_minus_1)
  then have bits: "unat (c AND 31) = ?k mod 32"
    by (simp only: unsigned_take_bit_eq) (simp add: take_bit_eq_mod)
  then have sub: "unat (32 - (c AND 31)) = 32 - ?k mod 32"
    by (simp add: unat_sub word_le_nat_alt)
  have zero: "c AND 31 = 0 \<longleftrightarrow> ?k mod 32 = 0"
    using bits unat_eq_0 [of "c AND 31"] by simp
  consider (low) "?k < 32" | (high) "32 \<le> ?k" "?k < 64" | (all) "?k = 64"
    using c by linarith
  then show ?thesis
  proof cases
    case low
    then have "?k div 32 = 0" "?k mod 32 = ?k"
      by simp_all
    then have "required_seen c w0 w1 \<longleftrightarrow> ?k = 0 \<or> w0 = drop_bit (32 - ?k) (- 1)"
      using whole by (simp add: required_seen_def Let_def zero sub)
    also have "\<dots> \<longleftrightarrow> ?k = 0 \<or> (\<forall>i<32. bit w0 i \<longleftrightarrow> i < ?k)"
      using word_low_bits [of ?k w0] low by simp
    also have "\<dots> \<longleftrightarrow> (\<forall>i < ?k. seen_bit w0 w1 i)"
    proof -
      have "\<not> bit w0 i" if "?k \<le> i" "i < 32" for i
        using clear [of i] that by (simp add: seen_bit_def)
      then have "(\<forall>i<32. bit w0 i \<longleftrightarrow> i < ?k) \<longleftrightarrow> (\<forall>i < ?k. bit w0 i)"
        using low by (intro low_bits_iff) simp_all
      then show ?thesis
        using low by (auto simp: seen_bit_def)
    qed
    finally show ?thesis .
  next
    case high
    then have "?k div 32 = 1" "?k mod 32 = ?k - 32"
      by (simp_all add: div_nat_eqI mod_if)
    then have "required_seen c w0 w1 \<longleftrightarrow> w0 = - 1 \<and> (?k = 32 \<or> w1 = drop_bit (32 - (?k - 32)) (- 1))"
      using whole high by (auto simp: required_seen_def Let_def zero sub)
    also have "\<dots> \<longleftrightarrow> (\<forall>i<32. bit w0 i) \<and> (?k = 32 \<or> (\<forall>i<32. bit w1 i \<longleftrightarrow> i < ?k - 32))"
      using word_low_bits [of "?k - 32" w1] word_all_bits [of w0] high by simp
    also have "\<dots> \<longleftrightarrow> (\<forall>i < ?k. seen_bit w0 w1 i)"
    proof -
      have "\<not> bit w1 i" if "?k - 32 \<le> i" "i < 32" for i
        using clear [of "i + 32"] that by (simp add: seen_bit_def)
      then have "(\<forall>i<32. bit w1 i \<longleftrightarrow> i < ?k - 32) \<longleftrightarrow> (\<forall>i < ?k - 32. bit w1 i)"
        using high by (intro low_bits_iff) simp_all
      then show ?thesis
        using all_less_add [of 32 "?k - 32" "seen_bit w0 w1"] high by (auto simp: seen_bit_def)
    qed
    finally show ?thesis .
  next
    case all
    then have "required_seen c w0 w1 \<longleftrightarrow> w0 = - 1 \<and> w1 = - 1"
    proof -
      have "[0..<unat (drop_bit 5 c)] = [0, 1]"
        by (simp add: unat_drop_bit_div all upt_rec)
      then show ?thesis
        using whole by (simp add: required_seen_def Let_def zero all)
    qed
    also have "\<dots> \<longleftrightarrow> (\<forall>i < ?k. seen_bit w0 w1 i)"
      using all_less_add [of 32 32 "seen_bit w0 w1"] by (simp add: all word_all_bits seen_bit_def)
    finally show ?thesis .
  qed
qed

end
