(* ===== verification/PbStatic.thy ===== *)
theory PbStatic
  imports PbSafe
begin

text \<open>
  Memory safety of decoding into statically allocated messages.
\<close>

unbundle bit_operations_syntax

section \<open>Static messages\<close>

text \<open>The addresses of the values of a field: the field itself and the entries of its array.\<close>

definition item_addrs :: "pb_field \<Rightarrow> addr \<Rightarrow> addr list" where
  "item_addrs f data = data # map (\<lambda>k. item_addr data f (of_nat k)) [0..<unat (array_size f)]"

text \<open>
  Messages that are statically allocated throughout: no pointers, callbacks or extensions, at most
  \<^verbatim>\<open>d\<close> levels of submessages, none at the null address. The empty descriptor is excluded; the theorem
  \<^verbatim>\<open>empty_message_writes\<close> shows why.
\<close>

primrec static_msg :: "nat \<Rightarrow> 'u pb_env \<Rightarrow> addr \<Rightarrow> addr \<Rightarrow> bool" where
  "static_msg 0 env desc dest = False"
| "static_msg (Suc d) env desc dest = (let fs = descs env desc in
     dest \<noteq> 0 \<and> fs \<noteq> [] \<and> wf_desc fs \<and>
     list_all (\<lambda>i. PB_ATYPE (ftype (fs ! i)) = PB_ATYPE_STATIC \<and>
        (PB_LTYPE (ftype (fs ! i)) \<in> scalar_types \<or>
         PB_LTYPE (ftype (fs ! i)) = PB_LTYPE_SUBMESSAGE \<and> ptr (fs ! i) \<noteq> 0 \<and>
         list_all (static_msg d env (ptr (fs ! i))) (item_addrs (fs ! i) (field_addr fs dest i))))
       [0..<length fs])"

text \<open>The addresses that belong to one value, to a field, and to a message.\<close>

definition item_region :: "(addr \<Rightarrow> addr \<Rightarrow> addr set) \<Rightarrow> pb_field \<Rightarrow> addr \<Rightarrow> addr set" where
  "item_region sub f p = addr_range p (max (value_width f) (unat (data_size f))) \<union>
     (if PB_LTYPE (ftype f) = PB_LTYPE_SUBMESSAGE then sub (ptr f) p else {})"

definition field_region :: "(addr \<Rightarrow> addr \<Rightarrow> addr set) \<Rightarrow> pb_field \<Rightarrow> addr \<Rightarrow> addr \<Rightarrow> addr set" where
  "field_region sub f data sz = addr_range sz 4 \<union> (\<Union>p \<in> set (item_addrs f data). item_region sub f p)"

primrec msg_region :: "nat \<Rightarrow> 'u pb_env \<Rightarrow> addr \<Rightarrow> addr \<Rightarrow> addr set" where
  "msg_region 0 env desc dest = {}"
| "msg_region (Suc d) env desc dest = (let fs = descs env desc in
     \<Union>i \<in> {..<length fs}. field_region (msg_region d env) (fs ! i) (field_addr fs dest i) (field_size_addr fs dest i))"

lemma item_addrsI: "data \<in> set (item_addrs f data)" "n < array_size f \<Longrightarrow> item_addr data f n \<in> set (item_addrs f data)"
proof -
  show "data \<in> set (item_addrs f data)"
    by (simp add: item_addrs_def)
  assume "n < array_size f"
  then have "unat n \<in> set [0..<unat (array_size f)]"
    by (simp add: word_less_nat_alt)
  then have "item_addr data f (of_nat (unat n)) \<in> (\<lambda>k. item_addr data f (of_nat k)) ` set [0..<unat (array_size f)]"
    by (rule imageI)
  then show "item_addr data f n \<in> set (item_addrs f data)"
    by (simp add: item_addrs_def)
qed

lemma static_msg_wf: "static_msg d env desc dest \<Longrightarrow> wf_desc (descs env desc) \<and> descs env desc \<noteq> [] \<and> dest \<noteq> 0"
  by (cases d) (auto simp: Let_def)

lemma static_msgD:
  assumes "static_msg (Suc d) env desc dest" and i: "i < length (descs env desc)"
  shows "PB_ATYPE (ftype (descs env desc ! i)) = PB_ATYPE_STATIC"
    and "PB_LTYPE (ftype (descs env desc ! i)) \<noteq> PB_LTYPE_EXTENSION"
    and "PB_LTYPE (ftype (descs env desc ! i)) \<noteq> PB_LTYPE_SUBMESSAGE \<Longrightarrow>
      PB_LTYPE (ftype (descs env desc ! i)) \<in> scalar_types"
    and "PB_LTYPE (ftype (descs env desc ! i)) = PB_LTYPE_SUBMESSAGE \<Longrightarrow>
      ptr (descs env desc ! i) \<noteq> 0 \<and>
      (\<forall>p \<in> set (item_addrs (descs env desc ! i) (field_addr (descs env desc) dest i)).
         static_msg d env (ptr (descs env desc ! i)) p)"
proof -
  let ?f = "descs env desc ! i"
  let ?items = "item_addrs ?f (field_addr (descs env desc) dest i)"
  have f: "PB_ATYPE (ftype ?f) = PB_ATYPE_STATIC"
    "PB_LTYPE (ftype ?f) \<in> scalar_types \<or>
     PB_LTYPE (ftype ?f) = PB_LTYPE_SUBMESSAGE \<and> ptr ?f \<noteq> 0 \<and> (\<forall>p \<in> set ?items. static_msg d env (ptr ?f) p)"
    using assms by (simp_all add: Let_def list_all_iff)
  have distinct: "PB_LTYPE_EXTENSION \<notin> scalar_types" "PB_LTYPE_SUBMESSAGE \<notin> scalar_types"
    "PB_LTYPE_EXTENSION \<noteq> PB_LTYPE_SUBMESSAGE"
    by (simp_all add: scalar_types_def ltype_defs)
  show "PB_ATYPE (ftype ?f) = PB_ATYPE_STATIC"
    by (rule f)
  show "PB_LTYPE (ftype ?f) \<noteq> PB_LTYPE_EXTENSION"
    using f(2) distinct by auto
  show "PB_LTYPE (ftype ?f) \<noteq> PB_LTYPE_SUBMESSAGE \<Longrightarrow> PB_LTYPE (ftype ?f) \<in> scalar_types"
    "PB_LTYPE (ftype ?f) = PB_LTYPE_SUBMESSAGE \<Longrightarrow>
      ptr ?f \<noteq> 0 \<and> (\<forall>p \<in> set ?items. static_msg d env (ptr ?f) p)"
    using f(2) distinct by auto
qed

lemma msg_regionI:
  "i < length (descs env desc) \<Longrightarrow>
   field_region (msg_region d env) (descs env desc ! i) (field_addr (descs env desc) dest i)
     (field_size_addr (descs env desc) dest i) \<subseteq> msg_region (Suc d) env desc dest"
  by (auto simp: Let_def)

lemma field_regionI:
  "addr_range sz 4 \<subseteq> field_region sub f data sz"
  "p \<in> set (item_addrs f data) \<Longrightarrow> item_region sub f p \<subseteq> field_region sub f data sz"
  by (auto simp: field_region_def)

lemma item_regionI:
  "addr_range p (value_width f) \<subseteq> item_region sub f p" "addr_range p (unat (data_size f)) \<subseteq> item_region sub f p"
  "PB_LTYPE (ftype f) = PB_LTYPE_SUBMESSAGE \<Longrightarrow> sub (ptr f) p \<subseteq> item_region sub f p"
  using addr_range_mono [of "value_width f" "max (value_width f) (unat (data_size f))" p]
    addr_range_mono [of "unat (data_size f)" "max (value_width f) (unat (data_size f))" p]
  by (auto simp: item_region_def)

section \<open>Default values\<close>

definition mem_frame :: "addr set \<Rightarrow> memory \<Rightarrow> memory \<Rightarrow> bool" where
  "mem_frame R m m' \<longleftrightarrow> (\<forall>a. a \<notin> R \<longrightarrow> m' a = m a)"

definition mem_safe :: "addr set \<Rightarrow> mem_op \<Rightarrow> bool" where
  "mem_safe R f \<longleftrightarrow> (\<forall>m. \<exists>m'. f m = Some m' \<and> mem_frame R m m')"

lemma mem_frame_refl [simp]: "mem_frame R m m"
  by (simp add: mem_frame_def)

lemma mem_frame_trans: "mem_frame R m m' \<Longrightarrow> mem_frame R m' m'' \<Longrightarrow> mem_frame R m m''"
  by (simp add: mem_frame_def)

lemma writes_mem_frame: "writes R f \<Longrightarrow> mem_frame R m (f m)"
  by (simp add: writes_def mem_frame_def)

lemma mem_safeE:
  assumes "mem_safe R f"
  obtains m' where "f m = Some m'" "mem_frame R m m'"
  using assms unfolding mem_safe_def by blast

lemma mem_safe_mono: "mem_safe R f \<Longrightarrow> R \<subseteq> S \<Longrightarrow> mem_safe S f"
  unfolding mem_safe_def mem_frame_def by (meson subsetD)

lemma message_defaults_safe:
  assumes wf: "wf_desc (descs env desc)" "descs env desc \<noteq> []" and dest: "dest \<noteq> 0"
    and setd: "\<And>i. i < length (descs env desc) \<Longrightarrow> mem_safe R (setd (iter_at env desc dest i))"
  shows "mem_safe R (message_defaults setd env desc dest)"
  unfolding mem_safe_def
proof
  fix m
  let ?f = "\<lambda>j m. case setd (iter_at env desc dest j) m of None \<Rightarrow> Inl () | Some m' \<Rightarrow> Inr m'"
  have "i + k = length (descs env desc) \<Longrightarrow> \<exists>m'. fold_fields ?f i k m = Inr m' \<and> mem_frame R m m'" for i k m
  proof (induction k arbitrary: i m)
    case 0
    then show ?case by simp
  next
    case (Suc k)
    then have "i < length (descs env desc)"
      by simp
    then obtain m1 where "setd (iter_at env desc dest i) m = Some m1" "mem_frame R m m1"
      by (rule mem_safeE [OF setd])
    moreover obtain m2 where "fold_fields ?f (Suc i) k m1 = Inr m2" "mem_frame R m1 m2"
      using Suc.IH [of "Suc i" m1] Suc.prems by auto
    ultimately show ?case
      using mem_frame_trans by auto
  qed
  from this [of 0 "length (descs env desc)" m] obtain m' where
    "fold_fields ?f 0 (length (descs env desc)) m = Inr m'" "mem_frame R m m'"
    by auto
  then show "\<exists>m'. message_defaults setd env desc dest m = Some m' \<and> mem_frame R m m'"
    using iter_begin [OF wf(1) dest wf(2)] wf(2)
    by (simp add: message_defaults_def iter_fields_fold [OF wf(1) dest, of 0])
qed

text \<open>Setting one static field to its default stores into the field only.\<close>

lemma field_default_safe:
  assumes f: "cur_field env it = f" and static: "PB_ATYPE (ftype f) = PB_ATYPE_STATIC"
    and lt: "PB_LTYPE (ftype f) \<noteq> PB_LTYPE_EXTENSION"
    and sub: "PB_LTYPE (ftype f) = PB_LTYPE_SUBMESSAGE \<Longrightarrow>
      mem_safe R (message_defaults (pb_field_set_to_default n env) env (ptr f) (pData it))"
    and R: "field_region subr f (pData it) (pSize it) \<subseteq> R"
  shows "mem_safe R (pb_field_set_to_default (Suc n) env it)"
  unfolding mem_safe_def
proof
  fix m
  let ?t = "ftype f"
  let ?optional = "PB_HTYPE ?t = PB_HTYPE_OPTIONAL \<and> pSize it \<noteq> pData it"
  let ?counted = "PB_HTYPE ?t = PB_HTYPE_REPEATED \<or> PB_HTYPE ?t = PB_HTYPE_ONEOF"
  let ?m1 = "if ?optional then store8 m (pSize it) 0 else if ?counted then store32 m (pSize it) 0 else m"
  have sz: "addr_range (pSize it) 4 \<subseteq> R" and data: "addr_range (pData it) (unat (data_size f)) \<subseteq> R"
    using R field_regionI(1) [of "pSize it" subr f "pData it"]
      field_regionI(2) [OF item_addrsI(1), of subr f "pData it" "pSize it"] item_regionI(2) [of "pData it" f subr]
    by auto
  have "writes R (\<lambda>m. store8 m (pSize it) 0)" "writes R (\<lambda>m. store32 m (pSize it) 0)"
    using sz addr_range_mono [of 1 4 "pSize it"] by (auto intro!: writes_store)
  then have m1: "mem_frame R m ?m1"
    using writes_mem_frame by (auto split: if_splits)
  let ?init = "\<lambda>m. if PB_LTYPE ?t = PB_LTYPE_SUBMESSAGE
      then message_defaults (pb_field_set_to_default n env) env (ptr f) (pData it) m
      else if ptr f \<noteq> 0 then Some (c_memcpy (pData it) (ptr f) (data_size f) m)
      else Some (c_memset_zero (pData it) (data_size f) m)"
  have "mem_safe R ?init"
    using sub writes_mem_frame [OF writes_store(5) [OF data]] writes_mem_frame [OF writes_store(6) [OF data]]
    by (cases "PB_LTYPE ?t = PB_LTYPE_SUBMESSAGE"; cases "ptr f = 0") (auto simp: mem_safe_def)
  then obtain m2 where m2: "?init ?m1 = Some m2" "mem_frame R ?m1 m2"
    by (rule mem_safeE)
  have "pb_field_set_to_default (Suc n) env it m = (if \<not> ?optional \<and> ?counted then Some ?m1 else Some m2)"
    unfolding m2(1) [symmetric] using lt static by (simp add: f Let_def)
  then show "\<exists>m'. pb_field_set_to_default (Suc n) env it m = Some m' \<and> mem_frame R m m'"
    using m1 mem_frame_trans [OF m1 m2(2)] by (simp split: if_splits)
qed

lemma field_defaults_safe:
  "static_msg d env desc dest \<Longrightarrow> d \<le> n \<Longrightarrow> msg_region d env desc dest \<subseteq> R \<Longrightarrow> i < length (descs env desc) \<Longrightarrow>
   mem_safe R (pb_field_set_to_default n env (iter_at env desc dest i))"
proof (induction d arbitrary: desc dest n i R)
  case 0
  then show ?case by simp
next
  case (Suc d)
  let ?f = "descs env desc ! i"
  let ?p = "field_addr (descs env desc) dest i"
  obtain k where k: "n = Suc k" "d \<le> k"
    using Suc.prems(2) by (cases n) auto
  note D = static_msgD [OF Suc.prems(1,4)]
  have reg: "field_region (msg_region d env) ?f ?p (field_size_addr (descs env desc) dest i) \<subseteq> R"
    using msg_regionI [OF Suc.prems(4), of d dest] Suc.prems(3) by blast
  show ?case
    unfolding k(1)
  proof (rule field_default_safe [where subr = "msg_region d env"])
    show "cur_field env (iter_at env desc dest i) = ?f"
      using Suc.prems(4) by simp
    assume lt: "PB_LTYPE (ftype ?f) = PB_LTYPE_SUBMESSAGE"
    have sub: "static_msg d env (ptr ?f) ?p"
      using D(4) [OF lt] item_addrsI(1) by blast
    have "msg_region d env (ptr ?f) ?p \<subseteq> R"
      using reg field_regionI(2) [OF item_addrsI(1)] item_regionI(3) [OF lt] by fast
    then show "mem_safe R (message_defaults (pb_field_set_to_default k env) env (ptr ?f) (pData (iter_at env desc dest i)))"
      using static_msg_wf [OF sub] Suc.IH [OF sub k(2)] by (auto intro!: message_defaults_safe)
  qed (use D reg in simp_all)
qed

lemma defaults_safe:
  assumes "static_msg d env desc dest" and "d \<le> n" and "msg_region d env desc dest \<subseteq> R"
  shows "mem_safe R (pb_message_set_to_defaults n env desc dest)"
  unfolding pb_message_set_to_defaults_def using static_msg_wf [OF assms(1)] field_defaults_safe [OF assms]
  by (auto intro!: message_defaults_safe)

section \<open>Release\<close>

text \<open>A static message owns no heap blocks: releasing it changes nothing.\<close>

lemma release_items_id: "(\<And>p st. rel p st = Some st) \<Longrightarrow> release_items k rel p step st = Some st"
  by (induction k arbitrary: p) auto

lemma message_release_id:
  assumes wf: "wf_desc (descs env desc)"
    and rel: "\<And>i st. i < length (descs env desc) \<Longrightarrow> rel (iter_at env desc dest i) st = Some st"
  shows "message_release rel env desc dest st = Some st"
proof (cases "dest = 0 \<or> descs env desc = []")
  case True
  then show ?thesis
    using iter_begin_empty [of env desc dest] by (auto simp: message_release_def split: prod.splits)
next
  case False
  then have dest: "dest \<noteq> 0" and ne: "descs env desc \<noteq> []"
    by simp_all
  let ?f = "\<lambda>j st. case rel (iter_at env desc dest j) st of None \<Rightarrow> Inl () | Some st' \<Rightarrow> Inr st'"
  have "i + k = length (descs env desc) \<Longrightarrow> fold_fields ?f i k st = Inr st" for i k
    using rel by (induction k arbitrary: i) simp_all
  then have "fold_fields ?f 0 (length (descs env desc)) st = Inr st"
    by simp
  then show ?thesis
    using dest ne iter_begin [OF wf dest ne] by (simp add: message_release_def iter_fields_fold [OF wf dest, of 0])
qed

lemma field_release_id:
  "static_msg d env desc dest \<Longrightarrow> d \<le> n \<Longrightarrow> i < length (descs env desc) \<Longrightarrow> cur_field env it = descs env desc ! i \<Longrightarrow>
   pb_release_single_field n env it st = Some st"
proof (induction d arbitrary: desc dest n i it st)
  case 0
  then show ?case by simp
next
  case (Suc d)
  let ?f = "descs env desc ! i"
  obtain k where k: "n = Suc k" "d \<le> k"
    using Suc.prems(2) by (cases n) auto
  note D = static_msgD [OF Suc.prems(1,3)]
  have "release_items c (message_release (pb_release_single_field k env) env (ptr ?f)) p step st = Some st"
    if lt: "PB_LTYPE (ftype ?f) = PB_LTYPE_SUBMESSAGE" for c p step
  proof (rule release_items_id)
    fix q st
    have sub: "static_msg d env (ptr ?f) (field_addr (descs env desc) dest i)"
      using D(4) [OF lt] item_addrsI(1) by blast
    show "message_release (pb_release_single_field k env) env (ptr ?f) q st = Some st"
      using static_msg_wf [OF sub] Suc.IH [OF sub k(2)] by (intro message_release_id) simp_all
  qed
  then show ?case
    using D(1,2) Suc.prems(4) by (simp add: k(1) Let_def atype_defs)
qed

lemma release_id: "static_msg d env desc dest0 \<Longrightarrow> d \<le> n \<Longrightarrow> pb_release n env desc dest st = Some st"
  unfolding pb_release_def
  by (intro message_release_id, blast dest: static_msg_wf, rule field_release_id) simp_all

section \<open>Fields\<close>

text \<open>The iterator during decoding: at a field, with its own size pointer or that of the fixed count.\<close>

definition iter_ok :: "'u pb_env \<Rightarrow> addr \<Rightarrow> addr \<Rightarrow> addr \<Rightarrow> pb_iter \<Rightarrow> bool" where
  "iter_ok env desc dest fc it \<longleftrightarrow> (\<exists>i < length (descs env desc).
     it = iter_at env desc dest i \<or>
     it = (iter_at env desc dest i)\<lparr>pSize := fc\<rparr> \<and> PB_HTYPE (ftype (descs env desc ! i)) = PB_HTYPE_REPEATED)"

lemma iter_okE:
  assumes "iter_ok env desc dest fc it"
  obtains i where "i < length (descs env desc)" "cur_field env it = descs env desc ! i" "it_start it = desc"
    "it_pos it = i" "pData it = field_addr (descs env desc) dest i"
    "pSize it = field_size_addr (descs env desc) dest i \<or>
     pSize it = fc \<and> PB_HTYPE (ftype (descs env desc ! i)) = PB_HTYPE_REPEATED"
  using assms by (auto simp: iter_ok_def cur_field_def field_at_def)

lemma iter_next_pSize:
  "PB_HTYPE (ftype (cur_field env it)) \<noteq> PB_HTYPE_ONEOF \<Longrightarrow> tag (cur_field env it) \<noteq> 0 \<Longrightarrow>
   snd (pb_field_iter_next env (it\<lparr>pSize := p\<rparr>)) = snd (pb_field_iter_next env it)"
  by (simp add: pb_field_iter_next_def Let_def cur_field_def pb_field_iter_begin_def)

lemma iter_ok_next:
  assumes wf: "wf_desc (descs env desc)" "dest \<noteq> 0" and ok: "iter_ok env desc dest fc it"
  shows "iter_ok env desc dest fc (snd (pb_field_iter_next env it))"
proof -
  obtain i where i: "i < length (descs env desc)" "it = iter_at env desc dest i \<or>
     it = (iter_at env desc dest i)\<lparr>pSize := fc\<rparr> \<and> PB_HTYPE (ftype (descs env desc ! i)) = PB_HTYPE_REPEATED"
    using ok by (auto simp: iter_ok_def)
  have "tag (descs env desc ! i) \<noteq> 0"
    using wf(1) i(1) by (simp add: wf_desc_def)
  then have "snd (pb_field_iter_next env it) = snd (pb_field_iter_next env (iter_at env desc dest i))"
    using i iter_next_pSize [of env "iter_at env desc dest i" fc] by (auto simp: htype_defs)
  moreover have "iter_ok env desc dest fc (iter_at env desc dest j)" if "j < length (descs env desc)" for j
    using that unfolding iter_ok_def by blast
  moreover have "0 < length (descs env desc)"
    using i(1) by linarith
  ultimately show ?thesis
    using iter_next [OF wf i(1)] by (cases "Suc i < length (descs env desc)") simp_all
qed

lemma iter_ok_find_loop:
  assumes "wf_desc (descs env desc)" "dest \<noteq> 0"
  shows "iter_ok env desc dest fc it \<Longrightarrow> iter_ok env desc dest fc (snd (iter_find_loop k env start t it))"
proof (induction k arbitrary: it)
  case (Suc k)
  then show ?case
    using iter_ok_next [OF assms Suc.prems] by (simp add: Let_def)
qed simp

lemma iter_ok_find:
  "wf_desc (descs env desc) \<Longrightarrow> dest \<noteq> 0 \<Longrightarrow> iter_ok env desc dest fc it \<Longrightarrow>
   iter_ok env desc dest fc (snd (pb_field_iter_find env t it))"
  unfolding pb_field_iter_find_def by (rule iter_ok_find_loop)

lemma find_extension_loop_ok:
  assumes "wf_desc (descs env desc)" "dest \<noteq> 0"
    and "\<And>i. i < length (descs env desc) \<Longrightarrow> PB_LTYPE (ftype (descs env desc ! i)) \<noteq> PB_LTYPE_EXTENSION"
  shows "iter_ok env desc dest fc it \<Longrightarrow>
    \<not> fst (find_extension_loop k env start it) \<and> iter_ok env desc dest fc (snd (find_extension_loop k env start it))"
proof (induction k arbitrary: it)
  case (Suc k)
  have "PB_LTYPE (ftype (cur_field env it)) \<noteq> PB_LTYPE_EXTENSION"
    using Suc.prems assms(3) by (metis iter_okE)
  then show ?case
    using Suc.IH iter_ok_next [OF assms(1,2) Suc.prems] Suc.prems by (simp add: Let_def)
qed simp

text \<open>Releasing the old member of a union: nothing is released, the iterator stays in the message.\<close>

lemma union_release_safe:
  assumes st: "static_msg d env desc dest" and n: "d \<le> n" and ok: "iter_ok env desc dest fc it"
    and s: "i_callback s = RD_buf_read"
  shows "\<exists>ok s' it'. pb_release_union_field n env it s st = Some (ok, s', it', st) \<and> moves s s' \<and>
    iter_ok env desc dest fc it'"
proof -
  note wf = static_msg_wf [OF st]
  have find: "iter_ok env desc dest fc (snd (pb_field_iter_find env t it'))" if "iter_ok env desc dest fc it'" for t it'
    using iter_ok_find wf that by blast
  have rel: "pb_release_single_field n env it' st = Some st" if "iter_ok env desc dest fc it'" for it'
    using iter_okE [OF that] field_release_id [OF st n] by metis
  have static: "PB_ATYPE (ftype (cur_field env it')) = PB_ATYPE_STATIC" if "iter_ok env desc dest fc it'" for it'
  proof -
    from that obtain i where i: "i < length (descs env desc)" "cur_field env it' = descs env desc ! i"
      by (rule iter_okE)
    obtain k where "d = Suc k"
      using st by (cases d) auto
    then show ?thesis
      using i st static_msgD(1) by metis
  qed
  obtain f1 it1 where 1: "pb_field_iter_find env (load32 (mem st) (pSize it)) it = (f1, it1)"
    by fastforce
  obtain f2 it2 where 2: "pb_field_iter_find env (tag (cur_field env it)) it1 = (f2, it2)"
    by fastforce
  have ok1: "iter_ok env desc dest fc it1"
    using find [OF ok, of "load32 (mem st) (pSize it)"] 1 by simp
  have ok2: "iter_ok env desc dest fc it2"
    using find [OF ok1, of "tag (cur_field env it)"] 2 by simp
  show ?thesis
    using 1 2 ok ok1 ok2 rel [OF ok1] static [OF ok2] moves_refl [OF s]
    by (auto simp: pb_release_union_field_def Let_def atype_defs ex_bool_eq)
qed

text \<open>Decoding one value of a static field, given safe decoders for the submessages one level down.\<close>

definition sub_safe :: "nat \<Rightarrow> 'u pb_env \<Rightarrow> addr \<Rightarrow> addr set \<Rightarrow> 'u sub_decoder \<Rightarrow> bool" where
  "sub_safe d env q R dec \<longleftrightarrow>
     (\<forall>desc dest. static_msg d env desc dest \<longrightarrow> msg_region d env desc dest \<subseteq> R \<longrightarrow> rd_safe q R (dec desc dest))"

lemma item_safe:
  assumes st: "static_msg (Suc d) env desc dest" and i: "i < length (descs env desc)"
    and p: "p \<in> set (item_addrs (descs env desc ! i) (field_addr (descs env desc) dest i))"
    and R: "msg_region (Suc d) env desc dest \<subseteq> R"
    and sub: "sub_safe d env q R dec" "sub_safe d env q R noinit"
  shows "rd_safe q R (call_decoder (PB_DECODERS dec noinit env (PB_LTYPE (ftype (descs env desc ! i)))) (descs env desc ! i) p)"
proof -
  let ?f = "descs env desc ! i"
  note D = static_msgD [OF st i]
  have item: "item_region (msg_region d env) ?f p \<subseteq> R"
    using msg_regionI [OF i, of d dest] field_regionI(2) [OF p, of "msg_region d env" "field_size_addr (descs env desc) dest i"] R
    by blast
  show ?thesis
  proof (cases "PB_LTYPE (ftype ?f) = PB_LTYPE_SUBMESSAGE")
    case True
    have "static_msg d env (ptr ?f) p" "msg_region d env (ptr ?f) p \<subseteq> R"
      using D(4) [OF True] p item item_regionI(3) [OF True, of "msg_region d env" p] by auto
    then have "rd_safe q R (dec (ptr ?f) p)" "rd_safe q R (noinit (ptr ?f) p)"
      using sub by (auto simp: sub_safe_def)
    then show ?thesis
      using D(4) [OF True] True by (intro rd_safe_submessage) simp_all
  next
    case False
    then show ?thesis
      using D(3) [OF False] D(1) item item_regionI(1) [of p ?f "msg_region d env"]
      by (intro rd_safe_scalar) auto
  qed
qed

text \<open>Every entry of a packable type takes at least one byte of the stream.\<close>

definition takes :: "'u rdo \<Rightarrow> bool" where
  "takes f \<longleftrightarrow> (\<forall>s st s' st'. i_callback s = RD_buf_read \<longrightarrow> f s st = Some (True, s', st') \<longrightarrow>
     unat (bytes_left s') < unat (bytes_left s))"

lemma takesD:
  "takes f \<Longrightarrow> i_callback s = RD_buf_read \<Longrightarrow> f s st = Some (True, s', st') \<Longrightarrow>
   unat (bytes_left s') < unat (bytes_left s)"
  unfolding takes_def by blast

lemma store_signed_stream: "store_signed n p v s st = Some (True, s', st') \<Longrightarrow> s' = s"
  and store_unsigned_stream: "store_unsigned n p v s st = Some (True, s', st') \<Longrightarrow> s' = s"
  by (auto simp: store_signed_def store_unsigned_def Let_def rdo_seq_def store_def rd_fail_def id_def split: if_splits)

lemma takes_varint:
  assumes "\<And>v s st s' st'. k v s st = Some (True, s', st') \<Longrightarrow> s' = s"
    and "\<And>s st. f s st = (case pb_decode_varint env s st of (ok, s', v, st') \<Rightarrow>
      if \<not> ok then Some (False, s', st') else k v s' st')"
  shows "takes f"
  unfolding takes_def
proof (intro allI impI)
  fix s st s' st'
  assume s: "i_callback s = RD_buf_read" and f: "f s st = Some (True, s', st')"
  from s obtain ok s1 v where d: "pb_decode_varint env s st = (ok, s1, v, st)"
    "ok \<Longrightarrow> unat (bytes_left s1) < unat (bytes_left s)"
    using decode_varint_buffer by blast
  then show "unat (bytes_left s') < unat (bytes_left s)"
    using f assms(1) [of v s1 st s' st'] by (simp add: assms(2) split: if_splits)
qed

lemma takes_packable:
  assumes lt: "PB_LTYPE (ftype f) \<in> scalar_types" "PB_LTYPE (ftype f) \<le> PB_LTYPE_LAST_PACKABLE"
  shows "takes (call_decoder (PB_DECODERS dec noinit env (PB_LTYPE (ftype f))) f p)"
proof -
  let ?lt = "PB_LTYPE (ftype f)"
  have call: "PB_DECODERS dec noinit env ?lt = Some g \<Longrightarrow> takes (g f p) \<Longrightarrow> ?thesis" for g
    by (simp add: takes_def call_decoder_def)
  have b: "takes (pb_dec_bool env f p)"
    unfolding takes_def
  proof (intro allI impI)
    fix s st s' st'
    assume s: "i_callback s = RD_buf_read" and f: "pb_dec_bool env f p s st = Some (True, s', st')"
    from s obtain ok s1 v where "pb_decode_varint32 env s st = Some (ok, s1, v, st)"
      "ok \<Longrightarrow> unat (bytes_left s1) < unat (bytes_left s)"
      using decode_varint32_buffer by blast
    then show "unat (bytes_left s') < unat (bytes_left s)"
      using f by (auto simp: pb_dec_bool_def store_def split: if_splits)
  qed
  have v: "takes (pb_dec_varint env f p)" "takes (pb_dec_uvarint env f p)"
    by (rule takes_varint [where env = env]; auto simp: pb_dec_varint_def pb_dec_uvarint_def
        dest: store_signed_stream store_unsigned_stream)+
  have z: "takes (pb_dec_svarint env f p)"
    by (rule takes_varint [where env = env and k = "\<lambda>v. store_signed (data_size f) p (unzigzag v)"])
      (auto simp: pb_dec_svarint_def pb_decode_svarint_eq dest: store_signed_stream split: prod.splits)
  have x: "takes (pb_dec_fixed32 env f p)" "takes (pb_dec_fixed64 env f p)"
    unfolding takes_def
  proof (safe)
    fix s s' :: pb_istream and st st' :: "'a cstate"
    assume s: "i_callback s = RD_buf_read"
    show "pb_dec_fixed32 env f p s st = Some (True, s', st') \<Longrightarrow> unat (bytes_left s') < unat (bytes_left s)"
      using s by (cases rule: read_buffer [where env = env and st = st and has_buf = True and count = 4])
        (auto simp: pb_dec_fixed32_def rdo_def pb_decode_fixed32_def)
    show "pb_dec_fixed64 env f p s st = Some (True, s', st') \<Longrightarrow> unat (bytes_left s') < unat (bytes_left s)"
      using s by (cases rule: read_buffer [where env = env and st = st and has_buf = True and count = 8])
        (auto simp: pb_dec_fixed64_def rdo_def pb_decode_fixed64_def)
  qed
  consider "?lt = PB_LTYPE_BOOL" | "?lt = PB_LTYPE_VARINT" | "?lt = PB_LTYPE_UVARINT"
    | "?lt = PB_LTYPE_SVARINT" | "?lt = PB_LTYPE_FIXED32" | "?lt = PB_LTYPE_FIXED64"
    using lt by (auto simp: scalar_types_def ltype_defs)
  then show ?thesis
    by cases (rule call, simp add: PB_DECODERS_def ltype_defs, (rule b v z x))+
qed

lemma packed_loop_safe:
  assumes item: "\<And>i. i < array_size f \<Longrightarrow> rd_safe q R (call_decoder func f (item_addr data f i))"
    and takes: "\<And>p. takes (call_decoder func f p)"
    and sz: "addr_range sz 4 \<subseteq> R"
  shows "i_callback s = RD_buf_read \<Longrightarrow> sp st = q \<Longrightarrow> unat (bytes_left s) < k \<Longrightarrow>
    \<exists>ok s' st'. packed_static_loop k func f data sz s st = Some (ok, s', st') \<and> moves s s' \<and> frame R st st'"
proof (induction k arbitrary: s st)
  case 0
  then show ?case by simp
next
  case (Suc k)
  let ?n = "load32 (mem st) sz"
  have w: "writes R (\<lambda>m. store32 m sz (load32 m sz + 1))"
    by (rule writes_store(3) [OF sz])
  show ?case
  proof (cases "bytes_left s \<noteq> 0 \<and> ?n < array_size f")
    case False
    then show ?thesis
      using moves_refl [OF Suc.prems(1)] by (cases "bytes_left s = 0") (simp_all add: Let_def)
  next
    case True
    obtain ok s1 st1 where c: "call_decoder func f (item_addr data f ?n) s st = Some (ok, s1, st1)" "moves s s1"
      "frame R st st1" "i_callback s1 = RD_buf_read" "sp st1 = q"
      using rd_safeE [OF item Suc.prems(1,2)] True by blast
    show ?thesis
    proof (cases ok)
      case False
      then show ?thesis
        using True c by (simp add: Let_def)
    next
      case ok: True
      then have "unat (bytes_left s1) < unat (bytes_left s)"
        using takesD [OF takes Suc.prems(1)] c(1) by simp
      then have left: "unat (bytes_left s1) < k"
        using Suc.prems(3) by simp
      let ?st = "upd_mem (\<lambda>m. store32 m sz (load32 m sz + 1)) st1"
      have fr: "frame R st1 ?st"
        by (rule frame_upd_mem [OF w])
      have "sp ?st = q"
        using c(5) by simp
      from Suc.IH [OF c(4) this left] obtain ok2 s2 st2 where
        "packed_static_loop k func f data sz s1 ?st = Some (ok2, s2, st2)" "moves s1 s2" "frame R ?st st2"
        by blast
      then show ?thesis
        using True c(1) ok moves_trans [OF c(2)] frame_trans [OF c(3) frame_trans [OF fr]]
        by (simp add: Let_def)
    qed
  qed
qed

lemma packed_static_safe:
  assumes "\<And>i. i < array_size f \<Longrightarrow> rd_safe q R (call_decoder func f (item_addr data f i))"
    and "\<And>p. takes (call_decoder func f p)" and "addr_range sz 4 \<subseteq> R"
  shows "rd_safe q R (decode_packed_static env func f data sz)"
proof (rule rd_safeI)
  fix s :: pb_istream and st :: "'a cstate"
  assume s: "i_callback s = RD_buf_read" "sp st = q"
  from s(1) obtain ok s1 sub where m: "pb_make_string_substream env s st = Some (ok, s1, sub, st)" "moves s s1" "moves s sub"
    using make_substream_buffer by blast
  then have "i_callback sub = RD_buf_read"
    by (simp add: moves_def)
  then obtain ok2 sub' st2 where l: "packed_static_loop (Suc (unat (bytes_left sub))) func f data sz sub st =
      Some (ok2, sub', st2)" "moves sub sub'" "frame R st st2"
    using packed_loop_safe [OF assms _ s(2), of sub "Suc (unat (bytes_left sub))"]
    by (auto simp del: packed_static_loop.simps)
  have "i_callback sub' = RD_buf_read"
    using l(2) by (simp add: moves_def)
  then obtain closed s2 where "pb_close_string_substream env s1 sub' st2 = (closed, s2, st2)"
    "i_callback s2 = i_callback s1" "bytes_left s2 = bytes_left s1"
    by (rule close_substream_buffer)
  then show "\<exists>ok s' st'. decode_packed_static env func f data sz s st = Some (ok, s', st') \<and> moves s s' \<and> frame R st st'"
    using m l moves_same [OF m(2)] by (auto simp: decode_packed_static_def rd_fail_def ex_bool_eq simp del: packed_static_loop.simps)
qed

section \<open>Fields of a message\<close>

text \<open>Where the iterator's pointers may lead while a field of a static message is decoded.\<close>

lemma static_field_safe:
  assumes st: "static_msg (Suc d) env desc dest" and n: "d \<le> n" and ok: "iter_ok env desc dest fc it"
    and R: "msg_region (Suc d) env desc dest \<subseteq> R" "addr_range fc 4 \<subseteq> R"
    and sub: "sub_safe d env q R dec" "sub_safe d env q R noinit"
  shows "rd_safe q R (decode_static_field dec noinit (pb_message_set_to_defaults n env) env wt it)"
proof -
  from ok obtain i where i: "i < length (descs env desc)" "cur_field env it = descs env desc ! i"
    and data: "pData it = field_addr (descs env desc) dest i"
    and pSize: "pSize it = field_size_addr (descs env desc) dest i \<or> pSize it = fc"
    by (rule iter_okE) auto
  let ?f = "descs env desc ! i"
  let ?func = "PB_DECODERS dec noinit env (PB_LTYPE (ftype ?f))"
  note D = static_msgD [OF st i(1)]
  have reg: "field_region (msg_region d env) ?f (pData it) (field_size_addr (descs env desc) dest i) \<subseteq> R"
    using msg_regionI [OF i(1), of d dest] R(1) by (auto simp: data)
  have sz: "addr_range (pSize it) 4 \<subseteq> R"
    using pSize reg R(2) field_regionI(1) [of "field_size_addr (descs env desc) dest i" "msg_region d env" ?f "pData it"]
    by auto
  then have sz1: "addr_range (pSize it) 1 \<subseteq> R"
    using addr_range_mono [of 1 4 "pSize it"] by auto
  have item: "rd_safe q R (call_decoder ?func ?f p)" if "p \<in> set (item_addrs ?f (pData it))" for p
    using item_safe [OF st i(1) _ R(1) sub] that by (simp add: data)
  have first: "rd_safe q R (call_decoder ?func ?f (pData it))"
    by (rule item [OF item_addrsI(1)])
  consider "PB_HTYPE (ftype ?f) = PB_HTYPE_REQUIRED" | "PB_HTYPE (ftype ?f) = PB_HTYPE_OPTIONAL"
    | "PB_HTYPE (ftype ?f) = PB_HTYPE_REPEATED" | "PB_HTYPE (ftype ?f) = PB_HTYPE_ONEOF"
    | "PB_HTYPE (ftype ?f) \<notin> {PB_HTYPE_REQUIRED, PB_HTYPE_OPTIONAL, PB_HTYPE_REPEATED, PB_HTYPE_ONEOF}"
    by auto
  then show ?thesis
  proof cases
    case 1
    then show ?thesis
      using first by (simp add: rd_safe_def decode_static_field_def Let_def i)
  next
    case 2
    have "rd_safe q R (rdo_seq (store (\<lambda>m. if pSize it \<noteq> pData it then store8 m (pSize it) 1 else m))
        (call_decoder ?func ?f (pData it)))"
      using first writes_store(1) [OF sz1, of "\<lambda>_. 1"]
      by (intro rd_safe_seq rd_safe_store) (auto simp: writes_def)
    then show ?thesis
      using 2 by (simp add: rd_safe_def decode_static_field_def Let_def i htype_defs)
  next
    case 3
    show ?thesis
    proof (rule rd_safeI)
      fix s :: pb_istream and st :: "'a cstate"
      assume s: "i_callback s = RD_buf_read" "sp st = q"
      let ?n = "load32 (mem st) (pSize it)"
      let ?st = "upd_mem (\<lambda>m. store32 m (pSize it) (?n + 1)) st"
      have fr: "frame R st ?st"
        by (rule frame_upd_mem [OF writes_store(3) [OF sz]])
      have packed: "\<exists>ok s' st'. decode_packed_static env ?func ?f (pData it) (pSize it) s st = Some (ok, s', st') \<and>
          moves s s' \<and> frame R st st'" if "PB_LTYPE (ftype ?f) \<le> PB_LTYPE_LAST_PACKABLE"
      proof -
        have "PB_LTYPE (ftype ?f) \<in> scalar_types"
          using D(3) that by (cases "PB_LTYPE (ftype ?f) = PB_LTYPE_SUBMESSAGE") (simp_all add: ltype_defs)
        then have "takes (call_decoder ?func ?f p)" for p
          using that by (rule takes_packable)
        then have "rd_safe q R (decode_packed_static env ?func ?f (pData it) (pSize it))"
          using item item_addrsI(2) sz by (intro packed_static_safe) auto
        then show ?thesis
          using s by (simp add: rd_safe_def)
      qed
      have one: "\<exists>ok s' st'. call_decoder ?func ?f (item_addr (pData it) ?f ?n) s ?st = Some (ok, s', st') \<and>
          moves s s' \<and> frame R st st'" if "\<not> array_size ?f \<le> ?n"
      proof -
        have "rd_safe q R (call_decoder ?func ?f (item_addr (pData it) ?f ?n))"
          using that by (intro item item_addrsI(2)) simp
        then show ?thesis
          using s frame_trans [OF fr] frame_sp [OF fr] unfolding rd_safe_def by metis
      qed
      show "\<exists>ok s' st'. decode_static_field dec noinit (pb_message_set_to_defaults n env) env wt it s st =
          Some (ok, s', st') \<and> moves s s' \<and> frame R st st'"
        using 3 packed one fr moves_refl [OF s(1)]
        by (cases "wt = PB_WT_STRING \<and> PB_LTYPE (ftype ?f) \<le> PB_LTYPE_LAST_PACKABLE";
            cases "array_size ?f \<le> ?n")
          (auto simp: decode_static_field_def Let_def i htype_defs rd_fail_def)
    qed
  next
    case 4
    show ?thesis
    proof (rule rd_safeI)
      fix s :: pb_istream and st :: "'a cstate"
      assume s: "i_callback s = RD_buf_read" "sp st = q"
      let ?init = "if PB_LTYPE (ftype ?f) = PB_LTYPE_SUBMESSAGE \<and> load32 (mem st) (pSize it) \<noteq> tag ?f
        then pb_message_set_to_defaults n env (ptr ?f) (pData it) (c_memset_zero (pData it) (data_size ?f) (mem st))
        else Some (mem st)"
      have region: "item_region (msg_region d env) ?f (pData it) \<subseteq> R"
        using reg field_regionI(2) [OF item_addrsI(1), of "msg_region d env" ?f "pData it"] by fast
      have "\<exists>m1. ?init = Some m1 \<and> mem_frame R (mem st) m1"
      proof (cases "PB_LTYPE (ftype ?f) = PB_LTYPE_SUBMESSAGE \<and> load32 (mem st) (pSize it) \<noteq> tag ?f")
        case True
        have "static_msg d env (ptr ?f) (pData it)"
          using D(4) True item_addrsI(1) by (auto simp: data)
        moreover have "msg_region d env (ptr ?f) (pData it) \<subseteq> R"
          using region item_regionI(3) [of ?f "msg_region d env" "pData it"] True by auto
        ultimately have "mem_safe R (pb_message_set_to_defaults n env (ptr ?f) (pData it))"
          using n by (intro defaults_safe)
        moreover have "mem_frame R (mem st) (c_memset_zero (pData it) (data_size ?f) (mem st))"
          using region item_regionI(2) [of "pData it" ?f "msg_region d env"] by (intro writes_mem_frame writes_store) auto
        ultimately show ?thesis
          using True mem_frame_trans unfolding mem_safe_def by (metis (no_types, lifting))
      next
        case False
        then show ?thesis by (simp only: if_False) simp
      qed
      then obtain m1 where m1: "?init = Some m1" "mem_frame R (mem st) m1"
        by blast
      let ?st = "upd_mem (\<lambda>_. store32 m1 (pSize it) (tag ?f)) st"
      have "mem_frame R m1 (store32 m1 (pSize it) (tag ?f))"
        by (rule writes_mem_frame [OF writes_store(3) [OF sz]])
      then have "mem_frame R (mem st) (store32 m1 (pSize it) (tag ?f))"
        using m1(2) mem_frame_trans by blast
      then have fr: "frame R st ?st"
        by (simp add: frame_def mem_frame_def)
      obtain ok s' st' where "call_decoder ?func ?f (pData it) s ?st = Some (ok, s', st')" "moves s s'" "frame R ?st st'"
        using rd_safeE [OF first s(1), of ?st] s(2) frame_sp [OF fr] by metis
      moreover from this(3) have "frame R st st'"
        using fr frame_trans by blast
      ultimately show "\<exists>ok s' st'. decode_static_field dec noinit (pb_message_set_to_defaults n env) env wt it s st =
          Some (ok, s', st') \<and> moves s s' \<and> frame R st st'"
        using 4 m1(1) by (simp add: decode_static_field_def Let_def i htype_defs)
    qed
  next
    case 5
    then show ?thesis
      using rd_safe_fail by (simp add: rd_safe_def decode_static_field_def Let_def i)
  qed
qed

lemma decode_field_safe:
  assumes st: "static_msg (Suc d) env desc dest" and n: "d < n" and ok: "iter_ok env desc dest fc it"
    and R: "msg_region (Suc d) env desc dest \<subseteq> R" "addr_range fc 4 \<subseteq> R"
    and sub: "sub_safe d env q R dec" "sub_safe d env q R noinit"
    and s: "i_callback s = RD_buf_read" "sp cs = q"
  shows "\<exists>ok s' it' cs'. decode_field dec noinit n env wt it s cs = Some (ok, s', it', cs') \<and> moves s s' \<and>
    frame R cs cs' \<and> iter_ok env desc dest fc it'"
proof -
  obtain ok1 s1 it1 where u: "(if PB_HTYPE (ftype (cur_field env it)) = PB_HTYPE_ONEOF
      then pb_release_union_field n env it s cs else Some (True, s, it, cs)) = Some (ok1, s1, it1, cs)"
    "moves s s1" "iter_ok env desc dest fc it1"
    using union_release_safe [OF st Suc_leI [OF n] ok s(1), of cs] ok moves_refl [OF s(1)]
    by (cases "PB_HTYPE (ftype (cur_field env it)) = PB_HTYPE_ONEOF") auto
  from u(3) obtain i where "i < length (descs env desc)" "cur_field env it1 = descs env desc ! i"
    by (rule iter_okE)
  then have static: "PB_ATYPE (ftype (cur_field env it1)) = PB_ATYPE_STATIC"
    using static_msgD(1) [OF st] by simp
  have "i_callback s1 = RD_buf_read"
    using u(2) by (simp add: moves_def)
  then obtain ok2 s2 st2 where
    "decode_static_field dec noinit (pb_message_set_to_defaults n env) env wt it1 s1 cs = Some (ok2, s2, st2)"
    "moves s1 s2" "frame R cs st2"
    using static_field_safe [OF st _ u(3) R sub, of n wt] n s(2) unfolding rd_safe_def by (metis less_imp_le)
  then show ?thesis
    using u static moves_trans [OF u(2)] by (cases ok1) (simp_all add: decode_field_def Let_def)
qed

text \<open>The locals of the message loop: the iterator is in the message, the count at the same place.\<close>

definition locals_ok :: "'u pb_env \<Rightarrow> addr \<Rightarrow> addr \<Rightarrow> addr \<Rightarrow> dec_locals \<Rightarrow> bool" where
  "locals_ok env desc dest fc l \<longleftrightarrow> iter_ok env desc dest fc (dl_iter l) \<and> fc_addr l = fc"

lemma find_extension_ok:
  assumes st: "static_msg d env desc dest" and ok: "iter_ok env desc dest fc it"
  shows "\<not> fst (find_extension_field env it) \<and> iter_ok env desc dest fc (snd (find_extension_field env it))"
proof -
  obtain k where d: "d = Suc k"
    using st by (cases d) auto
  have "PB_LTYPE (ftype (descs env desc ! i)) \<noteq> PB_LTYPE_EXTENSION" if "i < length (descs env desc)" for i
    using static_msgD(2) [OF st [unfolded d] that] .
  then show ?thesis
    unfolding find_extension_field_def using static_msg_wf [OF st] ok by (intro find_extension_loop_ok) auto
qed

lemma decode_unknown_safe:
  assumes st: "static_msg d env desc dest" and l: "locals_ok env desc dest fc l"
    and s: "i_callback s = RD_buf_read" and t: "t \<noteq> - 1"
  shows "\<exists>ok l' s'. decode_unknown dec noinit n env t wt l s cs = Some (ok, l', s', cs) \<and> moves s s' \<and>
    locals_ok env desc dest fc l'"
proof -
  obtain ok s' where skip: "pb_skip_field env wt s cs = Some (ok, s', cs)" "moves s s'"
    using skip_field_buffer [OF s] by blast
  obtain it where it: "find_extension_field env (dl_iter l) = (False, it)" "iter_ok env desc dest fc it"
    using find_extension_ok [OF st, of fc "dl_iter l"] l by (cases "find_extension_field env (dl_iter l)") (auto simp: locals_ok_def)
  have "\<not> - 1 \<le> t"
    using t word_order.extremum_uniqueI by blast
  then show ?thesis
    using skip it l by (auto simp: decode_unknown_def Let_def locals_ok_def)
qed

section \<open>Messages\<close>

lemma enter_fixed_count_safe:
  assumes l: "locals_ok env desc dest fc l" and fc: "addr_range fc 4 \<subseteq> R"
    and e: "enter_fixed_count env l m = Some (l', m')"
  shows "locals_ok env desc dest fc l' \<and> mem_frame R m m'"
proof -
  obtain i where i: "i < length (descs env desc)" "dl_iter l = iter_at env desc dest i \<or>
      dl_iter l = (iter_at env desc dest i)\<lparr>pSize := fc\<rparr> \<and> PB_HTYPE (ftype (descs env desc ! i)) = PB_HTYPE_REPEATED"
    using l by (auto simp: locals_ok_def iter_ok_def)
  have cur: "cur_field env (dl_iter l) = descs env desc ! i"
    using i by (auto simp: cur_field_def field_at_def)
  have "iter_ok env desc dest fc ((dl_iter l)\<lparr>pSize := fc\<rparr>)"
    if "PB_HTYPE (ftype (descs env desc ! i)) = PB_HTYPE_REPEATED"
    using i that by (auto simp: iter_ok_def)
  moreover have "mem_frame R m (store32 m fc 0)"
    by (rule writes_mem_frame [OF writes_store(3) [OF fc]])
  ultimately show ?thesis
    using e l by (auto simp: enter_fixed_count_def Let_def locals_ok_def cur split: if_splits)
qed

lemma mark_required_ok: "locals_ok env desc dest fc (mark_required env l) = locals_ok env desc dest fc l"
  by (simp add: mark_required_def Let_def locals_ok_def)

lemma decode_loop_safe:
  assumes st: "static_msg (Suc d) env desc dest" and n: "d < n"
    and R: "msg_region (Suc d) env desc dest \<subseteq> R" "addr_range fc 4 \<subseteq> R"
    and sub: "sub_safe d env q R dec" "sub_safe d env q R noinit"
  shows "i_callback s = RD_buf_read \<Longrightarrow> sp cs = q \<Longrightarrow> unat (bytes_left s) < k \<Longrightarrow> locals_ok env desc dest fc l \<Longrightarrow>
    \<exists>ok l' s' cs'. decode_loop k dec noinit n env l s cs = Some (ok, l', s', cs') \<and> moves s s' \<and> frame R cs cs' \<and>
      locals_ok env desc dest fc l'"
proof (induction k arbitrary: l s cs)
  case 0
  then show ?case by simp
next
  case (Suc k)
  show ?case
  proof (cases "bytes_left s = 0")
    case True
    then show ?thesis
      using moves_refl [OF Suc.prems(1)] Suc.prems(4) by simp
  next
    case more: False
    obtain ok s1 wt t eof where tag: "pb_decode_tag env s cs = Some (ok, s1, wt, t, eof, cs)" "moves s s1"
      "ok \<Longrightarrow> unat (bytes_left s1) < unat (bytes_left s)" "t \<noteq> - 1"
      using decode_tag_buffer [OF Suc.prems(1)] by blast
    obtain found it where find: "pb_field_iter_find env t (dl_iter l) = (found, it)"
      by fastforce
    then have it: "iter_ok env desc dest fc it"
      using iter_ok_find [of env desc dest fc "dl_iter l" t] static_msg_wf [OF st] Suc.prems(4)
      by (simp add: locals_ok_def)
    let ?l1 = "l\<lparr>dl_iter := it\<rparr>"
    have l1: "locals_ok env desc dest fc ?l1"
      using it Suc.prems(4) by (simp add: locals_ok_def)
    have s1: "i_callback s1 = RD_buf_read"
      using tag(2) by (simp add: moves_def)
    have step: "\<exists>ok l' s' cs'. decode_loop k dec noinit n env l2 s2 cs2 = Some (ok, l', s', cs') \<and> moves s s' \<and>
        frame R cs cs' \<and> locals_ok env desc dest fc l'"
      if ok and s2: "moves s1 s2" and cs2: "frame R cs cs2" and l2: "locals_ok env desc dest fc l2" for l2 s2 cs2
    proof -
      have "unat (bytes_left s2) < k" "i_callback s2 = RD_buf_read" "sp cs2 = q"
        using tag(3) [OF that(1)] s2 Suc.prems(2,3) frame_sp [OF cs2] by (simp_all add: moves_def)
      then obtain ok l' s' cs' where "decode_loop k dec noinit n env l2 s2 cs2 = Some (ok, l', s', cs')" "moves s2 s'"
        "frame R cs2 cs'" "locals_ok env desc dest fc l'"
        using Suc.IH [of s2 cs2 l2] l2 by blast
      then show ?thesis
        using moves_trans [OF tag(2) moves_trans [OF s2]] frame_trans [OF cs2] by blast
    qed
    show ?thesis
    proof (cases "\<not> ok")
      case True
      then show ?thesis
        using more tag(1,2) Suc.prems(4) by simp
    next
      case False
      then have ok by simp
      show ?thesis
      proof (cases found)
        case False
        obtain ok2 l2 s2 where u: "decode_unknown dec noinit n env t wt ?l1 s1 cs = Some (ok2, l2, s2, cs)" "moves s1 s2"
          "locals_ok env desc dest fc l2"
          using decode_unknown_safe [OF st l1 s1 tag(4)] by blast
        show ?thesis
          using more tag(1) find u(1,3) step [OF \<open>ok\<close> u(2) frame_refl u(3)] \<open>ok\<close> False moves_trans [OF tag(2) u(2)]
          by (cases ok2) simp_all
      next
        case True
        show ?thesis
        proof (cases "enter_fixed_count env ?l1 (mem cs)")
          case None
          then show ?thesis
            using more tag(1,2) find \<open>ok\<close> True l1 by simp
        next
          case (Some lm)
          obtain l2 m where lm: "lm = (l2, m)"
            by fastforce
          let ?l3 = "mark_required env l2"
          let ?cs = "upd_mem (\<lambda>_. m) cs"
          have e: "locals_ok env desc dest fc l2" "mem_frame R (mem cs) m"
            using enter_fixed_count_safe [OF l1 R(2), of "mem cs" l2 m] Some lm by auto
          have l3: "locals_ok env desc dest fc ?l3"
            using e(1) by (simp add: mark_required_ok)
          have fr: "frame R cs ?cs"
            using e(2) by (simp add: frame_def mem_frame_def)
          have "sp ?cs = q"
            using Suc.prems(2) by simp
          moreover have "iter_ok env desc dest fc (dl_iter ?l3)"
            using l3 by (simp add: locals_ok_def)
          ultimately obtain ok3 s3 it3 cs3 where
            f: "decode_field dec noinit n env wt (dl_iter ?l3) s1 ?cs = Some (ok3, s3, it3, cs3)"
            "moves s1 s3" "frame R ?cs cs3" "iter_ok env desc dest fc it3"
            using decode_field_safe [OF st n _ R sub s1] by metis
          have l4: "locals_ok env desc dest fc (?l3\<lparr>dl_iter := it3\<rparr>)"
            using l3 f(4) by (simp add: locals_ok_def)
          show ?thesis
            using more tag(1) find \<open>ok\<close> True Some lm f(1) l4 moves_trans [OF tag(2) f(2)] frame_trans [OF fr f(3)]
              step [OF \<open>ok\<close> f(2) frame_trans [OF fr f(3)] l4]
            by (cases ok3) (simp_all add: Let_def)
        qed
      qed
    qed
  qed
qed

text \<open>One level of the message decoder: its own stack frame is the count at \<^verbatim>\<open>q\<close>.\<close>

lemma noinit_body_safe:
  assumes st: "static_msg (Suc d) env desc dest" and n: "d < n"
    and R: "msg_region (Suc d) env desc dest \<subseteq> R" "addr_range q 4 \<subseteq> R"
    and sub: "sub_safe d env (q + 8) R dec" "sub_safe d env (q + 8) R noinit"
  shows "rd_safe q R (noinit_body dec noinit n env desc dest)"
proof (rule rd_safeI)
  fix s :: pb_istream and cs :: "'a cstate"
  assume s: "i_callback s = RD_buf_read" "sp cs = q"
  let ?it = "snd (pb_field_iter_begin env desc dest)"
  let ?l = "\<lparr>dl_iter = ?it, seen0 = 0, seen1 = 0, ext_start = 0, fc_field = None, fc_addr = q\<rparr>"
  let ?cs = "(upd_mem (\<lambda>m. store32 m q 0) cs)\<lparr>sp := q + 8\<rparr>"
  note wf = static_msg_wf [OF st]
  have "?it = iter_at env desc dest 0"
    using iter_begin [of env desc dest] wf by simp
  then have "locals_ok env desc dest q ?l"
    using wf unfolding locals_ok_def iter_ok_def by (auto intro!: exI [of _ 0])
  then obtain ok l' s' cs' where loop: "decode_loop (Suc (unat (bytes_left s))) dec noinit n env ?l s ?cs =
      Some (ok, l', s', cs')" "moves s s'" "frame R ?cs cs'"
    using decode_loop_safe [OF st n R sub s(1), of ?cs "Suc (unat (bytes_left s))" ?l] by auto
  have fr: "frame R cs (cs'\<lparr>sp := q\<rparr>)"
    using loop(3) writes_store(3) [OF R(2), of "\<lambda>_. 0"] s(2) by (simp add: frame_def writes_def)
  show "\<exists>ok s' cs'. noinit_body dec noinit n env desc dest s cs = Some (ok, s', cs') \<and> moves s s' \<and> frame R cs cs'"
    using loop(1,2) fr s(2) by (simp add: noinit_body_def Let_def finish_message_def del: decode_loop.simps)
qed

lemma decode_with_safe:
  assumes st: "static_msg d env desc dest" and n: "d \<le> n" and R: "msg_region d env desc dest \<subseteq> R"
    and noinit: "rd_safe q R (noinit desc dest)"
  shows "rd_safe q R (decode_with n noinit env desc dest)"
proof (rule rd_safeI)
  fix s :: pb_istream and cs :: "'a cstate"
  assume s: "i_callback s = RD_buf_read" "sp cs = q"
  obtain m where m: "pb_message_set_to_defaults n env desc dest (mem cs) = Some m" "mem_frame R (mem cs) m"
    using defaults_safe [OF st n R] by (rule mem_safeE)
  let ?cs = "upd_mem (\<lambda>_. m) cs"
  have fr: "frame R cs ?cs"
    using m(2) by (simp add: frame_def mem_frame_def)
  have "sp ?cs = q"
    using s(2) by simp
  with noinit s(1) obtain ok s' cs' where r: "noinit desc dest s ?cs = Some (ok, s', cs')" "moves s s'" "frame R ?cs cs'"
    by (rule rd_safeE)
  then show "\<exists>ok s' cs'. decode_with n noinit env desc dest s cs = Some (ok, s', cs') \<and> moves s s' \<and> frame R cs cs'"
    using m(1) release_id [OF st n] frame_trans [OF fr r(3)] by (cases ok) (simp_all add: decode_with_def)
qed

lemma stack_frames: "addr_range (q + 8) (8 * d) \<subseteq> addr_range q (8 * Suc d)"
proof (cases "8 * Suc d < 2 ^ 64")
  case True
  then show ?thesis
    using addr_range_shift [of 8 "8 * d" "8 * Suc d" q] by simp
next
  case False
  then have "unat (a - q) < 8 * Suc d" for a :: addr
    using unat_u64_less [of "a - q"] by simp
  then show ?thesis
    by (auto simp: addr_range_def)
qed

lemma noinit_safe:
  "static_msg d env desc dest \<Longrightarrow> d < n \<Longrightarrow> msg_region d env desc dest \<subseteq> R \<Longrightarrow> addr_range q (8 * d) \<subseteq> R \<Longrightarrow>
   rd_safe q R (pb_decode_noinit n env desc dest)"
proof (induction d arbitrary: n desc dest q)
  case 0
  then show ?case by simp
next
  case (Suc d)
  then obtain k where k: "n = Suc k" "d < k"
    by (cases n) auto
  have "addr_range (q + 8) (8 * d) \<subseteq> R"
    using stack_frames Suc.prems(4) by blast
  then have "sub_safe d env (q + 8) R (pb_decode_noinit k env)"
    using Suc.IH k(2) by (simp add: sub_safe_def)
  moreover from this have "sub_safe d env (q + 8) R (decode_with k (pb_decode_noinit k env) env)"
    using decode_with_safe k(2) unfolding sub_safe_def by (metis less_imp_le)
  moreover have "addr_range q 4 \<subseteq> R"
    using Suc.prems(4) addr_range_mono [of 4 "8 * Suc d" q] by auto
  ultimately show ?case
    unfolding k(1) pb_decode_noinit.simps(2) using Suc.prems k(2) by (intro noinit_body_safe)
qed

lemma decode_safe:
  assumes "static_msg d env desc dest" and "d < n"
    and "msg_region d env desc dest \<subseteq> R" and "addr_range q (8 * d) \<subseteq> R"
  shows "rd_safe q R (pb_decode n env desc dest)"
  unfolding pb_decode_def using assms noinit_safe by (intro decode_with_safe) auto

end
