(* ===== verification/ConstTime.thy ===== *)
theory ConstTime
  imports Prelude
begin

text \<open>
  The constant-time primitives of BoringSSL (\<^verbatim>\<open>crypto/internal.h\<close>) that its codecs use instead of
  comparisons. A truth value is a mask of all ones or all zeros, computed from the most significant
  bit of a word; \<^verbatim>\<open>crypto_word_t\<close> has 64 bits. Every primitive is shown to compute the comparison
  it stands for. That the running time is independent of the arguments is not modelled;
  \<^verbatim>\<open>value_barrier_w\<close>, which only restrains the compiler, is the identity.
\<close>

section \<open>Definitions\<close>

definition constant_time_msb_w :: "u64 \<Rightarrow> u64" where
  "constant_time_msb_w a = 0 - drop_bit 63 a"

definition constant_time_lt_w :: "u64 \<Rightarrow> u64 \<Rightarrow> u64" where
  "constant_time_lt_w a b = constant_time_msb_w (a XOR ((a XOR b) OR ((a - b) XOR a)))"

definition constant_time_ge_w :: "u64 \<Rightarrow> u64 \<Rightarrow> u64" where
  "constant_time_ge_w a b = NOT (constant_time_lt_w a b)"

definition constant_time_is_zero_w :: "u64 \<Rightarrow> u64" where
  "constant_time_is_zero_w a = constant_time_msb_w (NOT a AND (a - 1))"

definition constant_time_eq_w :: "u64 \<Rightarrow> u64 \<Rightarrow> u64" where
  "constant_time_eq_w a b = constant_time_is_zero_w (a XOR b)"

definition constant_time_eq_8 :: "u64 \<Rightarrow> u64 \<Rightarrow> byte" where
  "constant_time_eq_8 a b = ucast (constant_time_eq_w a b)"

definition constant_time_select_w :: "u64 \<Rightarrow> u64 \<Rightarrow> u64 \<Rightarrow> u64" where
  "constant_time_select_w mask_w a b = (mask_w AND a) OR (NOT mask_w AND b)"

definition constant_time_select_8 :: "u64 \<Rightarrow> byte \<Rightarrow> byte \<Rightarrow> byte" where
  "constant_time_select_8 mask_w a b = (let m = (ucast mask_w :: byte) in (m AND a) OR (NOT m AND b))"

section \<open>Correctness\<close>

definition ct_mask :: "bool \<Rightarrow> 'a::len word" where
  "ct_mask p = (if p then - 1 else 0)"

lemma ct_mask_simps [simp]:
  "ct_mask True = - 1" "ct_mask False = 0" "NOT (ct_mask p) = ct_mask (\<not> p)"
  by (simp_all add: ct_mask_def)

lemma ucast_ct_mask [simp]: "(ucast (ct_mask p :: u64) :: byte) = ct_mask p"
  by (rule bit_word_eqI) (simp add: ct_mask_def bit_simps)

lemma drop_bit_msb: "drop_bit 63 a = of_bool (bit a 63)" for a :: u64
proof (rule bit_word_eqI)
  fix n
  show "bit (drop_bit 63 a) n \<longleftrightarrow> bit (of_bool (bit a 63) :: u64) n"
    using bit_imp_le_length [of a "63 + n"] by (cases "n = 0") (auto simp: bit_simps)
qed

lemma constant_time_msb_w: "constant_time_msb_w a = ct_mask (bit a 63)"
  by (simp add: constant_time_msb_w_def drop_bit_msb ct_mask_def)

lemma bit_63_iff: "bit a 63 \<longleftrightarrow> 2 ^ 63 \<le> unat a" for a :: u64
proof -
  have "bit a 63 \<longleftrightarrow> unat (drop_bit 63 a) \<noteq> 0"
    by (simp add: drop_bit_msb)
  also have "\<dots> \<longleftrightarrow> 2 ^ 63 \<le> unat a"
    using div_greater_zero_iff [of "unat a" "2 ^ 63"] by (simp only: unat_drop_bit_div) simp
  finally show ?thesis .
qed

lemma constant_time_lt_w: "constant_time_lt_w a b = ct_mask (a < b)"
proof -
  have "unat (a - b) = (if b \<le> a then unat a - unat b else unat a + 2 ^ 64 - unat b)"
    by (simp add: unat_sub_if_size word_size word_le_nat_alt not_le)
  then have "(bit a 63 \<noteq> (bit a 63 \<noteq> bit b 63 \<or> bit (a - b) 63 \<noteq> bit a 63)) \<longleftrightarrow> a < b"
    using unat_u64_less [of a] unat_u64_less [of b]
    unfolding bit_63_iff word_less_nat_alt word_le_nat_alt by (auto split: if_splits)
  then have "bit (a XOR ((a XOR b) OR ((a - b) XOR a))) 63 \<longleftrightarrow> a < b"
    by (simp only: bit_or_iff bit_xor_iff)
  then show ?thesis
    by (simp add: constant_time_lt_w_def constant_time_msb_w)
qed

lemma constant_time_ge_w: "constant_time_ge_w a b = ct_mask (b \<le> a)"
  by (simp add: constant_time_ge_w_def constant_time_lt_w not_less)

lemma constant_time_is_zero_w: "constant_time_is_zero_w a = ct_mask (a = 0)"
proof -
  have "bit (NOT a AND (a - 1)) 63 \<longleftrightarrow> a = 0"
  proof (cases "a = 0")
    case False
    then have "unat (a - 1) = unat a - 1"
      by (simp add: unat_minus_one)
    then have "\<not> (\<not> bit a 63 \<and> bit (a - 1) 63)"
      unfolding bit_63_iff by linarith
    then show ?thesis
      using False by (simp only: bit_and_iff bit_not_iff) simp
  qed (simp add: bit_simps)
  then show ?thesis
    by (simp add: constant_time_is_zero_w_def constant_time_msb_w)
qed

lemma constant_time_eq_w: "constant_time_eq_w a b = ct_mask (a = b)"
proof -
  have "a XOR b = 0 \<longleftrightarrow> a = b"
    by (simp add: bit_eq_iff bit_xor_iff)
  then show ?thesis
    by (simp add: constant_time_eq_w_def constant_time_is_zero_w)
qed

lemma constant_time_eq_8: "constant_time_eq_8 a b = ct_mask (a = b)"
  by (simp add: constant_time_eq_8_def constant_time_eq_w)

lemma constant_time_select_w: "constant_time_select_w (ct_mask p) a b = (if p then a else b)"
  by (simp add: constant_time_select_w_def)

lemma constant_time_select_8: "constant_time_select_8 (ct_mask p) a b = (if p then a else b)"
  by (simp add: constant_time_select_8_def Let_def)

end
