(* ===== verification/Base64.thy ===== *)
theory Base64
  imports ConstTime CMemory
begin

text \<open>
  BoringSSL's base64 codec (\<^verbatim>\<open>crypto/base64/base64.c\<close>). Output pointers are addresses of the C memory, so
  that every byte an operation stores is visible, the terminating NULs included; input buffers are
  the lists of their bytes and do not overlap the output. The streaming context is a record with
  the source's fields. A failed \<^verbatim>\<open>assert\<close> is \<^verbatim>\<open>None\<close>.

  The specification is the list function \<^verbatim>\<open>b64\<close> (RFC 4648) with the alphabet as a table. The block
  encoder and the two decoders are proved against it, and the streaming interface is shown to give
  the same text however its input is cut into calls.
\<close>

section \<open>Characters\<close>

text \<open>Characters are their ASCII codes: \<^verbatim>\<open>0x41\<close> is \<^verbatim>\<open>A\<close>, \<^verbatim>\<open>0x61\<close> is \<^verbatim>\<open>a\<close>, \<^verbatim>\<open>0x30\<close> is \<^verbatim>\<open>0\<close>, \<^verbatim>\<open>0x3D\<close> is \<^verbatim>\<open>=\<close>.\<close>

definition constant_time_lt_args_8 :: "byte \<Rightarrow> byte \<Rightarrow> byte" where
  "constant_time_lt_args_8 a b = ucast (constant_time_msb_w (ucast a - ucast b))"

definition constant_time_in_range_8 :: "byte \<Rightarrow> byte \<Rightarrow> byte \<Rightarrow> byte" where
  "constant_time_in_range_8 a lo hi = constant_time_lt_args_8 (a - lo) (hi - lo + 1)"

definition conv_bin2ascii :: "byte \<Rightarrow> byte" where
  "conv_bin2ascii a0 =
     (let a = a0 AND 0x3f;
          ret = constant_time_select_8 (ucast (constant_time_eq_8 (ucast a) 62)) 0x2B 0x2F;
          ret = constant_time_select_8 (ucast (constant_time_lt_args_8 a 62)) (a - 52 + 0x30) ret;
          ret = constant_time_select_8 (ucast (constant_time_lt_args_8 a 52)) (a - 26 + 0x61) ret
      in constant_time_select_8 (ucast (constant_time_lt_args_8 a 26)) (a + 0x41) ret)"

definition base64_ascii_to_bin :: "byte \<Rightarrow> byte" where
  "base64_ascii_to_bin a =
     (let is_upper = constant_time_in_range_8 a 0x41 0x5A;
          is_lower = constant_time_in_range_8 a 0x61 0x7A;
          is_digit = constant_time_in_range_8 a 0x30 0x39;
          is_plus = constant_time_eq_8 (ucast a) 0x2B;
          is_slash = constant_time_eq_8 (ucast a) 0x2F;
          is_equals = constant_time_eq_8 (ucast a) 0x3D;
          ret = (is_upper AND (a - 0x41)) OR (is_lower AND (a - 0x61 + 26)) OR
                (is_digit AND (a - 0x30 + 52)) OR (is_plus AND 62) OR (is_slash AND 63);
          is_valid = is_upper OR is_lower OR is_digit OR is_plus OR is_slash OR is_equals
      in ret OR NOT is_valid)"

section \<open>Lengths\<close>

definition EVP_EncodedLength :: "size_t \<Rightarrow> size_t option" where
  "EVP_EncodedLength len =
     (if len + 2 < len then None
      else
        (let n = (len + 2) div 3 in
         if drop_bit 2 (push_bit 2 n) \<noteq> n then None
         else (let k = push_bit 2 n in if k + 1 < k then None else Some (k + 1))))"

definition EVP_DecodedLength :: "size_t \<Rightarrow> size_t option" where
  "EVP_DecodedLength len = (if len mod 4 \<noteq> 0 then None else Some (len div 4 * 3))"

section \<open>Block encoding\<close>

definition quad_chars :: "u32 \<Rightarrow> byte list" where
  "quad_chars l = [conv_bin2ascii (ucast (drop_bit 18 l)), conv_bin2ascii (ucast (drop_bit 12 l)),
     conv_bin2ascii (ucast (drop_bit 6 l)), conv_bin2ascii (ucast l)]"

text \<open>The loop over the input yields the result and the output pointer behind the last character.\<close>

fun encode_block_loop :: "memory \<Rightarrow> addr \<Rightarrow> byte list \<Rightarrow> size_t \<Rightarrow> size_t \<times> addr \<times> memory" where
  "encode_block_loop m dst [] ret = (ret, dst, m)"
| "encode_block_loop m dst (a # b # c # src) ret =
     (let l = push_bit 16 (ucast a) OR push_bit 8 (ucast b) OR ucast c
      in encode_block_loop (store_bytes m dst (quad_chars l)) (dst + 4) src (ret + 4))"
| "encode_block_loop m dst [a, b] ret =
     (let l = push_bit 16 (ucast a) OR push_bit 8 (ucast b)
      in (ret + 4, dst + 4, store_bytes m dst ((quad_chars l)[3 := 0x3D])))"
| "encode_block_loop m dst [a] ret =
     (let l = push_bit 16 (ucast a)
      in (ret + 4, dst + 4, store_bytes m dst ((quad_chars l)[2 := 0x3D, 3 := 0x3D])))"

definition EVP_EncodeBlock :: "memory \<Rightarrow> addr \<Rightarrow> byte list \<Rightarrow> size_t \<times> memory" where
  "EVP_EncodeBlock m dst src = (case encode_block_loop m dst src 0 of
     (ret, dst', m') \<Rightarrow> (ret, store8 m' dst' 0))"

section \<open>Streaming encoding\<close>

record evp_encode_ctx =
  data_used :: u32
  ctx_data :: "byte list"
  eof_seen :: bool
  error_encountered :: bool

definition EVP_EncodeInit :: evp_encode_ctx where
  "EVP_EncodeInit = \<lparr>data_used = 0, ctx_data = replicate 48 0, eof_seen = False, error_encountered = False\<rparr>"

definition EVP_DecodeInit :: evp_encode_ctx where
  "EVP_DecodeInit = \<lparr>data_used = 0, ctx_data = replicate 48 0, eof_seen = False, error_encountered = False\<rparr>"

text \<open>\<^verbatim>\<open>OPENSSL_memcpy (&data[k], bs, length bs)\<close>.\<close>

definition overwrite :: "nat \<Rightarrow> byte list \<Rightarrow> byte list \<Rightarrow> byte list" where
  "overwrite k bs d = take k d @ bs @ drop (k + length bs) d"

text \<open>One line of output: the encoded block, a newline and a NUL behind it.\<close>

definition encode_line :: "memory \<Rightarrow> addr \<Rightarrow> byte list \<Rightarrow> size_t \<times> addr \<times> memory" where
  "encode_line m out block = (case EVP_EncodeBlock m out block of (encoded, m1) \<Rightarrow>
     (encoded, out + encoded + 1, store8 (store8 m1 (out + encoded) 0x0A) (out + encoded + 1) 0))"

text \<open>
  The loop over whole blocks yields the output pointer, the total and the rest of the input, or
  \<^verbatim>\<open>None\<close> in place of the total when it overflows.
\<close>

function encode_lines :: "memory \<Rightarrow> addr \<Rightarrow> byte list \<Rightarrow> size_t \<Rightarrow> size_t option \<times> byte list \<times> memory" where
  "encode_lines m out src tot =
     (if 48 \<le> length src then
        (case encode_line m out (take 48 src) of (encoded, out', m') \<Rightarrow>
           if tot + encoded + 1 < tot then (None, drop 48 src, m')
           else encode_lines m' out' (drop 48 src) (tot + encoded + 1))
      else (Some tot, src, m))"
  by pat_completeness auto
termination
  by (relation "measure (\<lambda>(m, out, src, tot). length src)") auto

declare encode_lines.simps [simp del]

definition EVP_EncodeUpdate ::
  "evp_encode_ctx \<Rightarrow> memory \<Rightarrow> addr \<Rightarrow> byte list \<Rightarrow> (size_t \<times> evp_encode_ctx \<times> memory) option" where
  "EVP_EncodeUpdate ctx m out src =
     (if src = [] then Some (0, ctx, m)
      else if \<not> data_used ctx < 48 then None
      else
        (let used = unat (data_used ctx) in
         if length src < 48 - used
         then Some (0, ctx\<lparr>ctx_data := overwrite used src (ctx_data ctx), data_used := data_used ctx + of_nat (length src)\<rparr>, m)
         else
           (case (if used \<noteq> 0 then
                    (let todo = 48 - used; block = overwrite used (take todo src) (ctx_data ctx) in
                     case encode_line m out block of (encoded, out', m') \<Rightarrow>
                       (ctx\<lparr>ctx_data := block, data_used := 0\<rparr>, encoded + 1, out', m', drop todo src))
                  else (ctx, 0, out, m, src)) of
              (ctx1, tot, out1, m1, src1) \<Rightarrow>
                (case encode_lines m1 out1 src1 tot of
                   (None, rest, m2) \<Rightarrow> Some (0, ctx1, m2)
                 | (Some tot', rest, m2) \<Rightarrow>
                     Some (if INT_MAX < tot' then 0 else tot',
                           ctx1\<lparr>ctx_data := overwrite 0 rest (ctx_data ctx1), data_used := of_nat (length rest)\<rparr>, m2)))))"

definition EVP_EncodeFinal :: "evp_encode_ctx \<Rightarrow> memory \<Rightarrow> addr \<Rightarrow> size_t \<times> evp_encode_ctx \<times> memory" where
  "EVP_EncodeFinal ctx m out =
     (if data_used ctx = 0 then (0, ctx, m)
      else
        (case EVP_EncodeBlock m out (take (unat (data_used ctx)) (ctx_data ctx)) of (encoded, m1) \<Rightarrow>
           (encoded + 1, ctx\<lparr>data_used := 0\<rparr>, store8 (store8 m1 (out + encoded) 0x0A) (out + encoded + 1) 0)))"

section \<open>Decoding\<close>

text \<open>A quad of characters: the number of bytes it stands for, which are stored at \<^verbatim>\<open>out\<close>.\<close>

definition base64_decode_quad :: "memory \<Rightarrow> addr \<Rightarrow> byte list \<Rightarrow> (size_t \<times> memory) option" where
  "base64_decode_quad m out q =
     (let a = base64_ascii_to_bin (q ! 0); b = base64_ascii_to_bin (q ! 1);
          c = base64_ascii_to_bin (q ! 2); d = base64_ascii_to_bin (q ! 3)
      in if a = 0xff \<or> b = 0xff \<or> c = 0xff \<or> d = 0xff then None
         else
           (let v = push_bit 18 (ucast a) OR push_bit 12 (ucast b) OR push_bit 6 (ucast c) OR (ucast d :: u32);
                padding_pattern = push_bit 3 (of_bool (q ! 0 = 0x3D)) OR push_bit 2 (of_bool (q ! 1 = 0x3D)) OR
                  push_bit 1 (of_bool (q ! 2 = 0x3D)) OR (of_bool (q ! 3 = 0x3D) :: u32);
                m1 = store8 m out (ucast (drop_bit 16 v))
            in if padding_pattern = 0
               then Some (3, store8 (store8 m1 (out + 1) (ucast (drop_bit 8 v))) (out + 2) (ucast v))
               else if padding_pattern = 1 then Some (2, store8 m1 (out + 1) (ucast (drop_bit 8 v)))
               else if padding_pattern = 3 then Some (1, m1)
               else None))"

definition is_space :: "byte \<Rightarrow> bool" where
  "is_space c \<longleftrightarrow> c = 0x20 \<or> c = 0x09 \<or> c = 0x0D \<or> c = 0x0A"

text \<open>The loop over the input: \<^verbatim>\<open>None\<close> in place of the byte count is the error return.\<close>

fun decode_chars ::
  "evp_encode_ctx \<Rightarrow> memory \<Rightarrow> addr \<Rightarrow> byte list \<Rightarrow> size_t \<Rightarrow> size_t option \<times> evp_encode_ctx \<times> memory" where
  "decode_chars ctx m out [] bytes_out = (Some bytes_out, ctx, m)"
| "decode_chars ctx m out (c # src) bytes_out =
     (if is_space c then decode_chars ctx m out src bytes_out
      else if eof_seen ctx then (None, ctx\<lparr>error_encountered := True\<rparr>, m)
      else
        (let ctx1 = ctx\<lparr>ctx_data := (ctx_data ctx)[unat (data_used ctx) := c], data_used := data_used ctx + 1\<rparr> in
         if data_used ctx1 = 4 then
           (case base64_decode_quad m out (ctx_data ctx1) of
              None \<Rightarrow> (None, ctx1\<lparr>error_encountered := True\<rparr>, m)
            | Some (n, m') \<Rightarrow>
                decode_chars (ctx1\<lparr>data_used := 0, eof_seen := (if n < 3 then True else eof_seen ctx1)\<rparr>)
                  m' (out + n) src (bytes_out + n))
         else decode_chars ctx1 m out src bytes_out))"

text \<open>The result of the C function, the number of bytes, the context and the memory.\<close>

definition EVP_DecodeUpdate ::
  "evp_encode_ctx \<Rightarrow> memory \<Rightarrow> addr \<Rightarrow> byte list \<Rightarrow> int \<times> size_t \<times> evp_encode_ctx \<times> memory" where
  "EVP_DecodeUpdate ctx m out src =
     (if error_encountered ctx then (- 1, 0, ctx, m)
      else
        (case decode_chars ctx m out src 0 of
           (None, ctx', m') \<Rightarrow> (- 1, 0, ctx', m')
         | (Some bytes_out, ctx', m') \<Rightarrow>
             if INT_MAX < bytes_out then (- 1, 0, ctx'\<lparr>error_encountered := True\<rparr>, m')
             else (if eof_seen ctx' then 0 else 1, bytes_out, ctx', m')))"

definition EVP_DecodeFinal :: "evp_encode_ctx \<Rightarrow> int \<times> size_t" where
  "EVP_DecodeFinal ctx = (if error_encountered ctx \<or> data_used ctx \<noteq> 0 then (- 1, 0) else (1, 0))"

fun decode_quads :: "memory \<Rightarrow> addr \<Rightarrow> byte list \<Rightarrow> size_t \<Rightarrow> size_t option \<times> memory" where
  "decode_quads m out (a # b # c # d # src) bytes_out =
     (case base64_decode_quad m out [a, b, c, d] of
        None \<Rightarrow> (None, m)
      | Some (n, m') \<Rightarrow>
          if n \<noteq> 3 \<and> src \<noteq> [] then (None, m')
          else decode_quads m' (out + n) src (bytes_out + n))"
| "decode_quads m out _ bytes_out = (Some bytes_out, m)"

text \<open>\<^verbatim>\<open>None\<close> is the result zero, with \<^verbatim>\<open>*out_len\<close> zero.\<close>

definition EVP_DecodeBase64 :: "memory \<Rightarrow> addr \<Rightarrow> size_t \<Rightarrow> byte list \<Rightarrow> size_t option \<times> memory" where
  "EVP_DecodeBase64 m out max_out src =
     (if length src mod 4 \<noteq> 0 then (None, m)
      else
        (case EVP_DecodedLength (of_nat (length src)) of
           None \<Rightarrow> (None, m)
         | Some max_len \<Rightarrow>
             if max_out < max_len then (None, m) else decode_quads m out src 0))"

definition trim_left :: "byte list \<Rightarrow> byte list" where
  "trim_left = dropWhile (\<lambda>c. c = 0x20 \<or> c = 0x09)"

definition trim_right :: "byte list \<Rightarrow> byte list" where
  "trim_right src = rev (dropWhile is_space (rev src))"

function pad_block :: "memory \<Rightarrow> addr \<Rightarrow> size_t \<Rightarrow> size_t \<times> memory" where
  "pad_block m dst dst_len =
     (if dst_len mod 3 \<noteq> 0 then pad_block (store8 m (dst + dst_len) 0) dst (dst_len + 1) else (dst_len, m))"
  by pat_completeness auto
termination
proof (relation "measure (\<lambda>(m, dst, n). if unat n mod 3 = 0 then 0 else 3 - unat n mod 3)")
  fix m :: memory and dst n :: u64
  assume "n mod 3 \<noteq> 0"
  moreover have "unat (n mod 3) = unat n mod 3"
    by (simp add: unat_mod)
  ultimately have n: "unat n mod 3 \<noteq> 0"
    using unat_eq_zero [of "n mod 3"] by simp
  then have "unat n \<noteq> 2 ^ 64 - 1"
    by auto
  then have "unat (n + 1) = unat n + 1"
    using unat_u64_less [of n] by (simp add: unat_word_ariths)
  then show "((store8 m (dst + n) 0, dst, n + 1), m, dst, n) \<in> measure (\<lambda>(m, dst, n). if unat n mod 3 = 0 then 0 else 3 - unat n mod 3)"
    using \<open>n mod 3 \<noteq> 0\<close> n by (auto simp: mod_Suc)
qed simp

definition EVP_DecodeBlock :: "memory \<Rightarrow> addr \<Rightarrow> byte list \<Rightarrow> int \<times> memory" where
  "EVP_DecodeBlock m dst src0 =
     (let src = trim_right (trim_left src0) in
      case EVP_DecodedLength (of_nat (length src)) of
        None \<Rightarrow> (- 1, m)
      | Some max_len \<Rightarrow>
          if INT_MAX < max_len then (- 1, m)
          else
            (case EVP_DecodeBase64 m dst max_len src of
               (None, m') \<Rightarrow> (- 1, m')
             | (Some dst_len, m') \<Rightarrow>
                 (case pad_block m' dst dst_len of (n, m'') \<Rightarrow> (sint n, m''))))"

section \<open>The text of a byte sequence\<close>

definition alphabet :: "byte list" where
  "alphabet = map of_nat ([0x41..<0x5B] @ [0x61..<0x7B] @ [0x30..<0x3A] @ [0x2B, 0x2F])"

definition b64_char :: "byte \<Rightarrow> byte" where
  "b64_char s = alphabet ! unat s"

definition sextets :: "byte \<Rightarrow> byte \<Rightarrow> byte \<Rightarrow> byte list" where
  "sextets a b c = [drop_bit 2 a, push_bit 4 (a AND 3) OR drop_bit 4 b,
     push_bit 2 (b AND 15) OR drop_bit 6 c, c AND 63]"

fun b64 :: "byte list \<Rightarrow> byte list" where
  "b64 [] = []"
| "b64 [a] = map b64_char (take 2 (sextets a 0 0)) @ [0x3D, 0x3D]"
| "b64 [a, b] = map b64_char (take 3 (sextets a b 0)) @ [0x3D]"
| "b64 (a # b # c # bs) = map b64_char (sextets a b c) @ b64 bs"

lemma sextet_cases: "a AND 63 = of_nat (unat (a AND 63)) \<and> unat (a AND 63) < 64" for a :: byte
proof -
  have "a AND 63 = take_bit 6 a"
    by (simp add: take_bit_eq_mask mask_eq_exp_minus_1)
  then have "unat (a AND 63) = unat a mod 64"
    by (simp only: unsigned_take_bit_eq) (simp add: take_bit_eq_mod)
  moreover have "a AND 63 = of_nat (unat (a AND 63))"
    by simp
  ultimately show ?thesis
    by (metis mod_less_divisor zero_less_numeral)
qed

lemma sextet_all:
  assumes "list_all (\<lambda>i. P (of_nat i :: byte)) [0..<64]"
  shows "P (a AND 63)"
  using assms sextet_cases [of a] by (metis (no_types, lifting) atLeastLessThan_iff le0 list_all_iff set_upt)

lemma conv_bin2ascii: "conv_bin2ascii a = b64_char (a AND 63)"
proof -
  have "list_all (\<lambda>i. conv_bin2ascii (of_nat i) = b64_char (of_nat i)) [0..<64]"
    by code_simp
  from sextet_all [OF this] have "conv_bin2ascii (a AND 63) = b64_char (a AND 63)" .
  moreover have "conv_bin2ascii (a AND 63) = conv_bin2ascii a"
    by (simp add: conv_bin2ascii_def Let_def and.assoc)
  ultimately show ?thesis by simp
qed

lemma ascii_to_bin: "base64_ascii_to_bin (b64_char (a AND 63)) = a AND 63" "b64_char (a AND 63) \<noteq> 0x3D"
    "\<not> is_space (b64_char (a AND 63))"
proof -
  have "list_all (\<lambda>i. base64_ascii_to_bin (b64_char (of_nat i)) = of_nat i \<and> b64_char (of_nat i) \<noteq> 0x3D \<and>
      \<not> is_space (b64_char (of_nat i))) [0..<64]"
    by code_simp
  from sextet_all [OF this] show "base64_ascii_to_bin (b64_char (a AND 63)) = a AND 63" "b64_char (a AND 63) \<noteq> 0x3D"
      "\<not> is_space (b64_char (a AND 63))"
    by auto
qed

lemma less_8_cases: "n < 8 \<Longrightarrow> n = 0 \<or> n = 1 \<or> n = 2 \<or> n = 3 \<or> n = 4 \<or> n = 5 \<or> n = 6 \<or> n = (7 :: nat)"
  by linarith

lemma byte_high: "8 \<le> n \<Longrightarrow> \<not> bit b n" for b :: byte
  using bit_imp_le_length [of b n] by auto

lemma byte_eqI:
  fixes v w :: byte
  assumes "bit v 0 = bit w 0" "bit v 1 = bit w 1" "bit v 2 = bit w 2" "bit v 3 = bit w 3" "bit v 4 = bit w 4"
    "bit v 5 = bit w 5" "bit v 6 = bit w 6" "bit v 7 = bit w 7"
  shows "v = w"
  by (rule bit_word_eqI) (use assms less_8_cases in auto)

lemma quad_chars:
  "quad_chars (push_bit 16 (ucast a) OR push_bit 8 (ucast b) OR ucast c) = map b64_char (sextets a b c)"
proof -
  let ?l = "push_bit 16 (ucast a) OR push_bit 8 (ucast b) OR ucast c :: u32"
  have "(ucast (drop_bit 18 ?l) AND 63 :: byte) = drop_bit 2 a"
    by (rule byte_eqI; simp add: bit_simps byte_high)
  moreover have "(ucast (drop_bit 12 ?l) AND 63 :: byte) = push_bit 4 (a AND 3) OR drop_bit 4 b"
    by (rule byte_eqI; simp add: bit_simps byte_high)
  moreover have "(ucast (drop_bit 6 ?l) AND 63 :: byte) = push_bit 2 (b AND 15) OR drop_bit 6 c"
    by (rule byte_eqI; simp add: bit_simps byte_high)
  moreover have "(ucast ?l AND 63 :: byte) = c AND 63"
    by (rule byte_eqI; simp add: bit_simps byte_high)
  ultimately show ?thesis
    by (simp add: quad_chars_def sextets_def conv_bin2ascii)
qed

lemmas quad_chars_1 = quad_chars [of a 0 0, simplified] for a
lemmas quad_chars_2 = quad_chars [of a b 0, simplified] for a b

lemma length_b64: "length (b64 bs) = 4 * ((length bs + 2) div 3)"
proof (induction bs rule: b64.induct)
  case (4 a b c bs)
  have "(length bs + 5) div 3 = Suc ((length bs + 2) div 3)"
    by presburger
  then show ?case
    using 4 by (simp add: sextets_def algebra_simps)
qed (simp_all add: sextets_def)

section \<open>Encoding\<close>

lemma encode_block_loop:
  "encode_block_loop m dst src ret =
     (ret + of_nat (length (b64 src)), dst + of_nat (length (b64 src)), store_bytes m dst (b64 src))"
proof (induction m dst src ret rule: encode_block_loop.induct)
  case (2 m dst a b c src ret)
  have "length (sextets a b c) = 4"
    by (simp add: sextets_def)
  then show ?case
    using 2 by (simp add: quad_chars Let_def store_bytes_append algebra_simps)
qed (simp_all add: quad_chars_1 quad_chars_2 Let_def sextets_def fun_upd_def fun_eq_iff)

lemma EVP_EncodeBlock_eq:
  "EVP_EncodeBlock m dst src = (of_nat (length (b64 src)), store_bytes m dst (b64 src @ [0]))"
  by (simp add: EVP_EncodeBlock_def encode_block_loop store_bytes_append store8_def)

lemma EVP_EncodedLength_eq:
  "EVP_EncodedLength len =
     (if 4 * ((unat len + 2) div 3) + 1 < 2 ^ 64 then Some (of_nat (4 * ((unat len + 2) div 3) + 1)) else None)"
proof (cases "len + 2 < len")
  case True
  then have "2 ^ 64 \<le> unat len + 2"
    using unat_u64_less [of len] by (auto simp: word_less_nat_alt unat_word_ariths mod_if split: if_splits)
  then show ?thesis
    using True by (simp add: EVP_EncodedLength_def)
next
  case False
  then have "unat (len + 2) = unat len + 2"
    using unat_u64_less [of len] by (auto simp: word_less_nat_alt unat_word_ariths mod_if split: if_splits)
  then have n: "unat ((len + 2) div 3) = (unat len + 2) div 3"
    by (simp add: unat_div)
  define n where "n = (len + 2) div 3"
  have un: "unat n = (unat len + 2) div 3"
    using n by (simp add: n_def)
  have push: "push_bit 2 n = of_nat (4 * unat n)"
    by (simp add: push_bit_eq_mult)
  show ?thesis
  proof (cases "4 * unat n < 2 ^ 64")
    case fits: True
    then have u: "unat (push_bit 2 n) = 4 * unat n"
      unfolding push by (intro unat_of_nat_u64)
    then have "drop_bit 2 (push_bit 2 n) = n"
      by (simp add: word_unat_eq_iff unat_drop_bit_div)
    moreover have lt: "4 * unat n + 1 < 2 ^ 64"
    proof -
      have "unat n < 2 ^ 62"
        using fits by simp
      then show ?thesis by simp
    qed
    moreover have "\<not> push_bit 2 n + 1 < push_bit 2 n"
      using u lt by (simp add: word_less_nat_alt unat_word_ariths)
    ultimately show ?thesis
      using False un push by (simp add: EVP_EncodedLength_def Let_def n_def [symmetric] algebra_simps)
  next
    case over: False
    have "drop_bit 2 (push_bit 2 n) \<noteq> n"
    proof
      assume "drop_bit 2 (push_bit 2 n) = n"
      then have "unat n = unat (push_bit 2 n) div 4"
        using unat_drop_bit_div [of 2 "push_bit 2 n"] by simp
      then show False
        using over unat_u64_less [of "push_bit 2 n"] by simp
    qed
    then show ?thesis
      using False over un by (simp add: EVP_EncodedLength_def Let_def n_def [symmetric])
  qed
qed

section \<open>Decoding a quad\<close>

text \<open>
  The bytes of four characters. The unused low bits before the padding are ignored, so that several
  texts stand for the same bytes.
\<close>

definition triple :: "byte list \<Rightarrow> byte list" where
  "triple q = (let s = map base64_ascii_to_bin q in
     [push_bit 2 (s ! 0) OR drop_bit 4 (s ! 1), push_bit 4 (s ! 1) OR drop_bit 2 (s ! 2), push_bit 6 (s ! 2) OR s ! 3])"

definition quad_value :: "byte list \<Rightarrow> byte list option" where
  "quad_value q =
     (if 0xff \<in> base64_ascii_to_bin ` set q then None
      else if q ! 0 = 0x3D \<or> q ! 1 = 0x3D \<or> q ! 2 = 0x3D \<and> q ! 3 \<noteq> 0x3D then None
      else Some (take (if q ! 3 \<noteq> 0x3D then 3 else if q ! 2 \<noteq> 0x3D then 2 else 1) (triple q)))"

lemma unat_byte_less: "unat b < 256" for b :: byte
  using unsigned_less [of b] by simp

lemma constant_time_lt_args_8: "constant_time_lt_args_8 a b = ct_mask (a < b)"
proof -
  have "unat (ucast a - ucast b :: u64) = (if b \<le> a then unat a - unat b else unat a + 2 ^ 64 - unat b)"
    by (simp add: unat_sub_if_size word_size word_le_nat_alt not_le)
  then have "bit (ucast a - ucast b :: u64) 63 \<longleftrightarrow> a < b"
    using unat_byte_less [of a] unat_byte_less [of b]
    unfolding bit_63_iff word_less_nat_alt word_le_nat_alt by (auto split: if_splits)
  then show ?thesis
    by (simp add: constant_time_lt_args_8_def constant_time_msb_w)
qed

lemma base64_ascii_to_bin_eq:
  "base64_ascii_to_bin a =
     (if a - 0x41 < 26 then a - 0x41 else if a - 0x61 < 26 then a - 0x61 + 26
      else if a - 0x30 < 10 then a - 0x30 + 52 else if a = 0x2B then 62 else if a = 0x2F then 63
      else if a = 0x3D then 0 else 0xff)"
proof -
  have disjoint: "\<not> (a - 0x41 < 26 \<and> a - 0x61 < 26)" "\<not> (a - 0x41 < 26 \<and> a - 0x30 < 10)"
    "\<not> (a - 0x61 < 26 \<and> a - 0x30 < 10)"
    using unat_byte_less [of a]
    by (auto simp: word_less_nat_alt unat_sub_if_size word_size split: if_splits)
  have eq: "(ucast a :: u64) = ucast b \<longleftrightarrow> a = b" for b
    by (simp add: word_unat_eq_iff)
  from eq [of "0x2B"] eq [of "0x2F"] eq [of "0x3D"] disjoint show ?thesis
    by (cases "a - 0x41 < 26"; cases "a - 0x61 < 26"; cases "a - 0x30 < 10";
        cases "a = 0x2B"; cases "a = 0x2F"; cases "a = 0x3D")
      (simp_all add: base64_ascii_to_bin_def constant_time_in_range_8_def constant_time_lt_args_8 constant_time_eq_8
        Let_def)
qed

lemma bin_range: "base64_ascii_to_bin c \<noteq> 0xff \<Longrightarrow> base64_ascii_to_bin c < 64"
  using unat_byte_less [of c]
  by (auto simp: base64_ascii_to_bin_eq word_less_nat_alt unat_sub_if_size unat_word_ariths word_size split: if_splits)

lemma small_byte_bits: "b < 64 \<Longrightarrow> \<not> bit b 6 \<and> \<not> bit b 7" for b :: byte
proof -
  assume "b < 64"
  then have "unat (drop_bit 6 b) = 0"
    by (simp add: unat_drop_bit_div word_less_nat_alt)
  then have "drop_bit 6 b = 0"
    by (simp only: unat_eq_zero)
  then have "\<not> bit (drop_bit 6 b) 0 \<and> \<not> bit (drop_bit 6 b) 1"
    by simp
  then show ?thesis
    by (simp add: bit_simps)
qed

lemma pattern:
  fixes a b c d :: bool
  defines "p \<equiv> push_bit 3 (of_bool a) OR push_bit 2 (of_bool b) OR push_bit 1 (of_bool c) OR of_bool d :: u32"
  shows "p = 0 \<longleftrightarrow> \<not> a \<and> \<not> b \<and> \<not> c \<and> \<not> d" "p = 1 \<longleftrightarrow> \<not> a \<and> \<not> b \<and> \<not> c \<and> d"
    "p = 3 \<longleftrightarrow> \<not> a \<and> \<not> b \<and> c \<and> d"
  unfolding p_def by (cases a; cases b; cases c; cases d; simp)+

lemma decode_quad:
  assumes "length q = 4"
  shows "base64_decode_quad m out q = map_option (\<lambda>bs. (of_nat (length bs), store_bytes m out bs)) (quad_value q)"
proof -
  obtain x y z w where q: "q = [x, y, z, w]"
    using assms by (auto simp: length_Suc_conv numeral_eq_Suc)
  have nth: "q ! 0 = x" "q ! 1 = y" "q ! 2 = z" "q ! 3 = w"
    by (simp_all add: q)
  show ?thesis
  proof (cases "0xff \<in> base64_ascii_to_bin ` set q")
    case True
    then show ?thesis
      by (auto simp: base64_decode_quad_def quad_value_def q Let_def)
  next
    case False
    let ?a = "base64_ascii_to_bin x" and ?b = "base64_ascii_to_bin y"
    let ?c = "base64_ascii_to_bin z" and ?d = "base64_ascii_to_bin w"
    define v :: u32 where "v = push_bit 18 (ucast ?a) OR push_bit 12 (ucast ?b) OR push_bit 6 (ucast ?c) OR ucast ?d"
    have high: "\<not> bit ?a 6" "\<not> bit ?a 7" "\<not> bit ?b 6" "\<not> bit ?b 7" "\<not> bit ?c 6" "\<not> bit ?c 7" "\<not> bit ?d 6" "\<not> bit ?d 7"
      using False small_byte_bits bin_range by (auto simp: q)
    have v: "ucast (drop_bit 16 v) = push_bit 2 ?a OR drop_bit 4 ?b" "ucast (drop_bit 8 v) = push_bit 4 ?b OR drop_bit 2 ?c"
      "ucast v = push_bit 6 ?c OR ?d"
      unfolding v_def by (rule byte_eqI; simp add: bit_simps byte_high high)+
    show ?thesis
      using False unfolding base64_decode_quad_def Let_def nth pattern
      unfolding v_def [symmetric] v
      by (cases "x = 0x3D"; cases "y = 0x3D"; cases "z = 0x3D"; cases "w = 0x3D")
        (simp_all add: q quad_value_def triple_def store8_def algebra_simps Let_def)
  qed
qed

section \<open>Round trips\<close>

lemma sextet_char:
  assumes "s AND 63 = s"
  shows "base64_ascii_to_bin (b64_char s) = s" and "b64_char s \<noteq> 0x3D" and "\<not> is_space (b64_char s)" and "s \<noteq> 0xff"
  using ascii_to_bin [of s] assms by auto

lemma sextets_small:
  "drop_bit 2 a AND 63 = drop_bit 2 a"
  "(push_bit 4 (a AND 3) OR drop_bit 4 b) AND 63 = push_bit 4 (a AND 3) OR drop_bit 4 b"
  "(push_bit 2 (b AND 15) OR drop_bit 6 c) AND 63 = push_bit 2 (b AND 15) OR drop_bit 6 c"
  "(c AND 63) AND 63 = c AND 63" for a b c :: byte
  by (rule byte_eqI; simp add: bit_simps byte_high)+

lemma sextets_bytes:
  "push_bit 2 (drop_bit 2 a) OR drop_bit 4 (push_bit 4 (a AND 3) OR drop_bit 4 b) = a"
  "push_bit 4 (push_bit 4 (a AND 3) OR drop_bit 4 b) OR drop_bit 2 (push_bit 2 (b AND 15) OR drop_bit 6 c) = b"
  "push_bit 6 (push_bit 2 (b AND 15) OR drop_bit 6 c) OR (c AND 63) = c" for a b c :: byte
  by (rule byte_eqI; simp add: bit_simps byte_high)+

lemma ascii_to_bin_pad: "base64_ascii_to_bin 0x3D = 0"
  by (simp add: base64_ascii_to_bin_eq)

lemma quad_value_chars:
  assumes "s0 AND 63 = s0" "s1 AND 63 = s1"
  shows "s2 AND 63 = s2 \<Longrightarrow> s3 AND 63 = s3 \<Longrightarrow> quad_value [b64_char s0, b64_char s1, b64_char s2, b64_char s3] =
      Some [push_bit 2 s0 OR drop_bit 4 s1, push_bit 4 s1 OR drop_bit 2 s2, push_bit 6 s2 OR s3]"
    and "s2 AND 63 = s2 \<Longrightarrow> quad_value [b64_char s0, b64_char s1, b64_char s2, 0x3D] =
      Some [push_bit 2 s0 OR drop_bit 4 s1, push_bit 4 s1 OR drop_bit 2 s2]"
    and "quad_value [b64_char s0, b64_char s1, 0x3D, 0x3D] = Some [push_bit 2 s0 OR drop_bit 4 s1]"
proof -
  note c = sextet_char [OF assms(1)] sextet_char [OF assms(2)]
  show "s2 AND 63 = s2 \<Longrightarrow> s3 AND 63 = s3 \<Longrightarrow> quad_value [b64_char s0, b64_char s1, b64_char s2, b64_char s3] =
      Some [push_bit 2 s0 OR drop_bit 4 s1, push_bit 4 s1 OR drop_bit 2 s2, push_bit 6 s2 OR s3]"
    using c sextet_char [of s2] sextet_char [of s3] by (auto simp: quad_value_def triple_def Let_def)
  show "s2 AND 63 = s2 \<Longrightarrow> quad_value [b64_char s0, b64_char s1, b64_char s2, 0x3D] =
      Some [push_bit 2 s0 OR drop_bit 4 s1, push_bit 4 s1 OR drop_bit 2 s2]"
    using c sextet_char [of s2] by (auto simp: quad_value_def triple_def Let_def ascii_to_bin_pad)
  show "quad_value [b64_char s0, b64_char s1, 0x3D, 0x3D] = Some [push_bit 2 s0 OR drop_bit 4 s1]"
    using c by (auto simp: quad_value_def triple_def Let_def ascii_to_bin_pad)
qed

lemma quad_value_b64:
  "quad_value (map b64_char (sextets a b c)) = Some [a, b, c]"
  "quad_value (map b64_char (take 3 (sextets a b 0)) @ [0x3D]) = Some [a, b]"
  "quad_value (map b64_char (take 2 (sextets a 0 0)) @ [0x3D, 0x3D]) = Some [a]"
  using quad_value_chars(1) [OF sextets_small] quad_value_chars(2) [OF sextets_small(1,2) sextets_small(3) [of b 0]]
    quad_value_chars(3) [OF sextets_small(1) sextets_small(2) [of a 0]]
    sextets_bytes(1) [of a b] sextets_bytes(2) [of a b c] sextets_bytes(3) [of b c] sextets_bytes(2) [of a b 0]
    sextets_bytes(1) [of a 0]
  by (simp_all add: sextets_def)

lemma b64_append: "length xs mod 3 = 0 \<Longrightarrow> b64 (xs @ ys) = b64 xs @ b64 ys"
  by (induction xs rule: b64.induct) auto

text \<open>The value of a text: quads, of which only the last may be padded.\<close>

fun b64_value :: "byte list \<Rightarrow> byte list option" where
  "b64_value [] = Some []"
| "b64_value (a # b # c # d # chars) = (case quad_value [a, b, c, d] of
     None \<Rightarrow> None
   | Some bs \<Rightarrow> if length bs < 3 \<and> chars \<noteq> [] then None else map_option ((@) bs) (b64_value chars))"
| "b64_value _ = None"

lemma b64_value_b64: "b64_value (b64 bs) = Some bs"
  using quad_value_b64 by (induction bs rule: b64.induct) (simp_all add: sextets_def)

lemma quad_value_length: "quad_value q = Some bs \<Longrightarrow> length bs \<in> {1, 2, 3}"
  by (auto simp: quad_value_def triple_def Let_def split: if_splits)

lemma b64_value_length: "b64_value chars = Some bs \<Longrightarrow> length bs \<le> length chars"
  by (induction chars arbitrary: bs rule: b64_value.induct)
    (fastforce split: option.splits if_splits dest: quad_value_length)+

lemma decode_quads_value:
  "length chars mod 4 = 0 \<Longrightarrow>
   fst (decode_quads m out chars n) = map_option (\<lambda>bs. n + of_nat (length bs)) (b64_value chars) \<and>
   (\<forall>bs. b64_value chars = Some bs \<longrightarrow> snd (decode_quads m out chars n) = store_bytes m out bs)"
proof (induction m out chars n rule: decode_quads.induct)
  case (1 m out a b c d src n)
  show ?case
  proof (cases "quad_value [a, b, c, d]")
    case None
    then show ?thesis
      by (simp add: decode_quad)
  next
    case (Some bs)
    have len: "length bs = 1 \<or> length bs = 2 \<or> length bs = 3"
      using quad_value_length [OF Some] by simp
    then have n3: "(of_nat (length bs) :: u64) \<noteq> 3 \<longleftrightarrow> length bs < 3"
      by auto
    have dq: "base64_decode_quad m out [a, b, c, d] = Some (of_nat (length bs), store_bytes m out bs)"
      by (simp add: decode_quad Some)
    have m4: "length src mod 4 = 0"
      using 1(2) by simp
    show ?thesis
    proof (cases "length bs < 3 \<and> src \<noteq> []")
      case True
      then show ?thesis
        using n3 by (simp add: dq Some)
    next
      case False
      then have "fst (decode_quads (store_bytes m out bs) (out + of_nat (length bs)) src (n + of_nat (length bs))) =
          map_option (\<lambda>cs. n + of_nat (length bs) + of_nat (length cs)) (b64_value src) \<and>
          (\<forall>cs. b64_value src = Some cs \<longrightarrow>
            snd (decode_quads (store_bytes m out bs) (out + of_nat (length bs)) src (n + of_nat (length bs))) =
            store_bytes (store_bytes m out bs) (out + of_nat (length bs)) cs)"
        using 1(1) [OF dq refl _ m4] n3 by simp
      then show ?thesis
        using False n3 by (auto simp: dq Some store_bytes_append option.map_comp o_def add.assoc)
    qed
  qed
qed auto

lemma EVP_DecodeBase64_value:
  assumes "length chars mod 4 = 0" and "length chars < 2 ^ 64" and "length chars div 4 * 3 \<le> unat max_out"
  shows "fst (EVP_DecodeBase64 m out max_out chars) = map_option (\<lambda>bs. of_nat (length bs)) (b64_value chars)"
    and "b64_value chars = Some bs \<Longrightarrow> snd (EVP_DecodeBase64 m out max_out chars) = store_bytes m out bs"
proof -
  have "unat (of_nat (length chars) :: u64) = length chars"
    using assms(2) by (rule unat_of_nat_u64)
  then have len: "EVP_DecodedLength (of_nat (length chars)) = Some (of_nat (length chars) div 4 * 3)"
    using assms(1) by (simp add: EVP_DecodedLength_def word_unat_eq_iff unat_mod)
  have "length chars div 4 * 3 < 2 ^ 64"
    using assms(2) by simp
  then have "unat (of_nat (length chars) div 4 * 3 :: u64) = length chars div 4 * 3"
    using \<open>unat (of_nat (length chars) :: u64) = length chars\<close> by (simp add: unat_word_ariths unat_div)
  then have "\<not> max_out < of_nat (length chars) div 4 * 3"
    using assms(3) by (simp add: word_less_nat_alt)
  then have "EVP_DecodeBase64 m out max_out chars = decode_quads m out chars 0"
    using len assms(1) by (simp add: EVP_DecodeBase64_def)
  then show "fst (EVP_DecodeBase64 m out max_out chars) = map_option (\<lambda>bs. of_nat (length bs)) (b64_value chars)"
    "b64_value chars = Some bs \<Longrightarrow> snd (EVP_DecodeBase64 m out max_out chars) = store_bytes m out bs"
    using decode_quads_value [OF assms(1), of m out 0] by simp_all
qed

section \<open>Streaming\<close>

text \<open>
  The text of the streaming encoder: lines of 64 characters, each for 48 bytes, and a last one for
  the bytes left. A NUL follows every text written.
\<close>

function pem_lines :: "byte list \<Rightarrow> byte list" where
  "pem_lines bs = (if length bs < 48 then [] else b64 (take 48 bs) @ 0x0A # pem_lines (drop 48 bs))"
  by pat_completeness auto
termination
  by (relation "measure length") auto

declare pem_lines.simps [simp del]

definition pem_rest :: "byte list \<Rightarrow> byte list" where
  "pem_rest bs = drop (48 * (length bs div 48)) bs"

definition pem_text :: "byte list \<Rightarrow> byte list" where
  "pem_text bs = pem_lines bs @ (if pem_rest bs = [] then [] else b64 (pem_rest bs) @ [0x0A])"

definition put_text :: "memory \<Rightarrow> addr \<Rightarrow> byte list \<Rightarrow> memory" where
  "put_text m out t = (if t = [] then m else store_bytes m out (t @ [0]))"

lemma put_text_append: "put_text (put_text m out x) (out + of_nat (length x)) y = put_text m out (x @ y)"
proof (cases y)
  case (Cons b bs)
  then show ?thesis
    by (simp add: put_text_def store_bytes_append)
qed (simp add: put_text_def)

lemma pem_small [simp]: "length bs < 48 \<Longrightarrow> pem_lines bs = []" "length bs < 48 \<Longrightarrow> pem_rest bs = bs"
  by (simp_all add: pem_lines.simps pem_rest_def)

lemma pem_block:
  assumes "length block = 48"
  shows "pem_lines (block @ bs) = b64 block @ 0x0A # pem_lines bs" and "pem_rest (block @ bs) = pem_rest bs"
proof -
  show "pem_lines (block @ bs) = b64 block @ 0x0A # pem_lines bs"
    using assms by (subst pem_lines.simps) simp
  have "drop (48 + 48 * (length bs div 48)) (block @ bs) = drop (48 * (length bs div 48)) bs"
    using assms by simp
  then show "pem_rest (block @ bs) = pem_rest bs"
    using assms by (simp add: pem_rest_def div_add_self1)
qed

lemma pem_induct [case_names rest block]:
  fixes P :: "byte list \<Rightarrow> bool"
  assumes "\<And>bs. length bs < 48 \<Longrightarrow> P bs" and "\<And>block bs. length block = 48 \<Longrightarrow> P bs \<Longrightarrow> P (block @ bs)"
  shows "P bs"
proof (induction bs rule: pem_lines.induct)
  case (1 bs)
  show ?case
  proof (cases "length bs < 48")
    case False
    then have "P (take 48 bs @ drop 48 bs)"
      by (intro assms(2) 1) simp_all
    then show ?thesis by simp
  qed (rule assms(1))
qed

lemma pem_append:
  "pem_lines (xs @ ys) = pem_lines xs @ pem_lines (pem_rest xs @ ys)"
  "pem_rest (xs @ ys) = pem_rest (pem_rest xs @ ys)"
  by (induction xs rule: pem_induct) (simp_all add: pem_block)

lemma pem_length: "length (pem_lines bs) = 65 * (length bs div 48)" "length (pem_rest bs) = length bs mod 48"
  by (induction bs rule: pem_induct) (simp_all add: pem_block length_b64 div_add_self1)

lemma sextets_not_space: "s \<in> set (sextets a b c) \<Longrightarrow> \<not> is_space (b64_char s)"
  using sextets_small sextet_char(3) unfolding sextets_def by (metis empty_iff insert_iff list.set)

lemma b64_not_space: "x \<in> set (b64 bs) \<Longrightarrow> \<not> is_space x"
proof (induction bs rule: b64.induct)
  case (2 a)
  then show ?case
    using sextets_not_space [of _ a 0 0] by (auto simp: is_space_def dest: in_set_takeD)
next
  case (3 a b)
  then show ?case
    using sextets_not_space [of _ a b 0] by (auto simp: is_space_def dest: in_set_takeD)
next
  case (4 a b c bs)
  then show ?case
    using sextets_not_space [of _ a b c] by auto
qed simp

lemma pem_text_chars: "[x \<leftarrow> pem_text bs. \<not> is_space x] = b64 bs"
proof -
  have no: "[x \<leftarrow> b64 cs. \<not> is_space x] = b64 cs" for cs
    using b64_not_space by (simp add: filter_id_conv)
  have nl: "is_space 0x0A"
    by (simp add: is_space_def)
  show ?thesis
    by (induction bs rule: pem_induct) (auto simp: pem_text_def pem_block b64_append no nl split: if_splits)
qed

subsection \<open>Encoding\<close>

lemma encode_line_eq:
  "encode_line m out block = (of_nat (length (b64 block)), out + of_nat (length (b64 block)) + 1, put_text m out (b64 block @ [0x0A]))"
  by (simp add: encode_line_def EVP_EncodeBlock_eq store8_def put_text_def store_bytes_append)

lemma encode_lines_eq:
  "unat tot + length (pem_lines src) < 2 ^ 64 \<Longrightarrow>
   encode_lines m out src tot = (Some (tot + of_nat (length (pem_lines src))), pem_rest src, put_text m out (pem_lines src))"
proof (induction src arbitrary: m out tot rule: pem_induct)
  case (rest bs)
  then show ?case
    by (simp add: encode_lines.simps put_text_def)
next
  case (block block bs)
  have len: "length (b64 block) = 64"
    using block(1) by (simp add: length_b64)
  have u: "unat (tot + 65) = unat tot + 65"
    using block(3) len by (simp add: pem_block [OF block(1)] unat_word_ariths)
  then have "\<not> tot + 65 < tot"
    by (simp add: word_less_nat_alt)
  then have "encode_lines m out (block @ bs) tot =
      encode_lines (put_text m out (b64 block @ [0x0A])) (out + 65) bs (tot + 65)"
    using block(1) len by (subst encode_lines.simps) (simp add: encode_line_eq add.assoc)
  moreover have "unat (tot + 65) + length (pem_lines bs) < 2 ^ 64"
    using u block(3) len by (simp add: pem_block [OF block(1)])
  ultimately show ?case
    using block(2) [of "tot + 65" "put_text m out (b64 block @ [0x0A])" "out + 65"]
      put_text_append [of m out "b64 block @ [0x0A]" "pem_lines bs"] len
    by (simp add: pem_block [OF block(1)] add.assoc)
qed

text \<open>The context holds the bytes of an incomplete line.\<close>

definition pending :: "evp_encode_ctx \<Rightarrow> byte list \<Rightarrow> bool" where
  "pending ctx p \<longleftrightarrow> length (ctx_data ctx) = 48 \<and> length p < 48 \<and> data_used ctx = of_nat (length p) \<and>
     take (length p) (ctx_data ctx) = p"

lemma pending_used: "pending ctx p \<Longrightarrow> unat (data_used ctx) = length p"
  by (simp add: pending_def unat_of_nat)

lemma overwrite_length: "k + length bs \<le> length d \<Longrightarrow> length (overwrite k bs d) = length d"
  by (simp add: overwrite_def)

lemma EVP_EncodeUpdate_eq:
  assumes p: "pending ctx p" and small: "length src < 2 ^ 62"
  shows "\<exists>ctx'. EVP_EncodeUpdate ctx m out src =
      Some (if 0x7FFFFFFF < length (pem_lines (p @ src)) then 0 else of_nat (length (pem_lines (p @ src))), ctx',
        put_text m out (pem_lines (p @ src))) \<and> pending ctx' (pem_rest (p @ src))"
proof -
  have lens: "length (ctx_data ctx) = 48" "length p < 48" "take (length p) (ctx_data ctx) = p"
    and used: "unat (data_used ctx) = length p"
    using p pending_used [OF p] by (auto simp: pending_def)
  have used_less: "data_used ctx < 48"
    using used lens(2) by (simp add: word_less_nat_alt)
  have zero: "data_used ctx = 0 \<longleftrightarrow> p = []"
    using used by (metis length_0_conv unat_eq_zero)
  have text_len: "length (pem_lines (p @ src)) < 2 ^ 63"
    using small lens(2) by (simp add: pem_length)
  have int_max: "INT_MAX < of_nat (length (pem_lines (p @ src))) \<longleftrightarrow> 0x7FFFFFFF < length (pem_lines (p @ src))"
    using text_len by (simp add: INT_MAX_def word_less_nat_alt unat_of_nat)
  show ?thesis
  proof (cases "length (p @ src) < 48")
    case True
    have "pending (ctx\<lparr>ctx_data := overwrite (length p) src (ctx_data ctx), data_used := data_used ctx + of_nat (length src)\<rparr>) (p @ src)"
      using True lens p by (simp add: pending_def overwrite_length) (simp add: overwrite_def)
    moreover have "length src < 48 - length p"
      using True by simp
    ultimately show ?thesis
      using p True used used_less by (auto simp: EVP_EncodeUpdate_def Let_def put_text_def)
  next
    case False
    then have src: "src \<noteq> []" "\<not> length src < 48 - length p"
      using lens(2) by auto
    have rest: "pending (c\<lparr>ctx_data := overwrite 0 (pem_rest (p @ src)) (ctx_data c),
        data_used := of_nat (length (pem_rest (p @ src)))\<rparr>) (pem_rest (p @ src))" if "length (ctx_data c) = 48" for c
    proof -
      have "length (pem_rest (p @ src)) < 48"
        by (simp add: pem_length)
      then show ?thesis
        using that by (simp add: pending_def overwrite_length less_imp_le) (simp add: overwrite_def)
    qed
    show ?thesis
    proof (cases "p = []")
      case True
      then have "encode_lines m out src 0 =
          (Some (of_nat (length (pem_lines src))), pem_rest src, put_text m out (pem_lines src))"
        using text_len by (subst encode_lines_eq) simp_all
      then show ?thesis
        using True src used_less used zero rest [of ctx] lens int_max
        by (auto simp: EVP_EncodeUpdate_def Let_def)
    next
      case nonempty: False
      define todo where "todo = 48 - length p"
      define block where "block = p @ take todo src"
      have block: "length block = 48" "p @ src = block @ drop todo src"
        using src lens(2) by (simp_all add: block_def todo_def)
      have over: "overwrite (length p) (take todo src) (ctx_data ctx) = block"
        using lens src by (simp add: overwrite_def block_def todo_def)
      have len: "length (b64 block) = 64"
        using block(1) by (simp add: length_b64)
      have "encode_lines (put_text m out (b64 block @ [0x0A])) (out + 65) (drop todo src) 65 =
          (Some (65 + of_nat (length (pem_lines (drop todo src)))), pem_rest (drop todo src),
           put_text (put_text m out (b64 block @ [0x0A])) (out + 65) (pem_lines (drop todo src)))"
        using text_len len by (subst encode_lines_eq) (simp_all add: block(2) pem_block [OF block(1)])
      moreover have "put_text (put_text m out (b64 block @ [0x0A])) (out + 65) (pem_lines (drop todo src)) =
          put_text m out (pem_lines (p @ src))"
        using put_text_append [of m out "b64 block @ [0x0A]"] len by (simp add: block(2) pem_block [OF block(1)])
      ultimately show ?thesis
        using nonempty src used_less used zero rest [of "ctx\<lparr>ctx_data := block, data_used := 0\<rparr>"] int_max len block(1)
        by (auto simp: EVP_EncodeUpdate_def Let_def encode_line_eq over block(2) pem_block [OF block(1)] todo_def [symmetric] add.assoc)
    qed
  qed
qed

text \<open>A client encodes its input piece by piece and advances the output pointer by what each call wrote.\<close>

fun encode_updates :: "evp_encode_ctx \<Rightarrow> memory \<Rightarrow> addr \<Rightarrow> byte list list \<Rightarrow> (evp_encode_ctx \<times> memory \<times> addr) option" where
  "encode_updates ctx m out [] = Some (ctx, m, out)"
| "encode_updates ctx m out (src # srcs) = (case EVP_EncodeUpdate ctx m out src of
     None \<Rightarrow> None
   | Some (n, ctx', m') \<Rightarrow> encode_updates ctx' m' (out + n) srcs)"

definition encode_stream :: "memory \<Rightarrow> addr \<Rightarrow> byte list list \<Rightarrow> (addr \<times> memory) option" where
  "encode_stream m out srcs = (case encode_updates EVP_EncodeInit m out srcs of
     None \<Rightarrow> None
   | Some (ctx, m', out') \<Rightarrow> (case EVP_EncodeFinal ctx m' out' of (n, ctx', m'') \<Rightarrow> Some (out' + n, m'')))"

lemma encode_updates_eq:
  "pending ctx p \<Longrightarrow> length p + length (concat srcs) < 2 ^ 30 \<Longrightarrow>
   \<exists>ctx'. encode_updates ctx m out srcs =
     Some (ctx', put_text m out (pem_lines (p @ concat srcs)), out + of_nat (length (pem_lines (p @ concat srcs)))) \<and>
     pending ctx' (pem_rest (p @ concat srcs))"
proof (induction srcs arbitrary: ctx p m out)
  case Nil
  then show ?case
    by (auto simp: pending_def put_text_def)
next
  case (Cons src srcs)
  have "length src < 2 ^ 62" and len: "\<not> 0x7FFFFFFF < length (pem_lines (p @ src))"
    using Cons.prems(2) by (auto simp: pem_length)
  from EVP_EncodeUpdate_eq [OF Cons.prems(1) this(1), of m out] len obtain ctx1 where
    step: "EVP_EncodeUpdate ctx m out src =
      Some (of_nat (length (pem_lines (p @ src))), ctx1, put_text m out (pem_lines (p @ src)))"
    and p1: "pending ctx1 (pem_rest (p @ src))"
    by auto
  have "length (pem_rest (p @ src)) + length (concat srcs) < 2 ^ 30"
  proof -
    have "length (pem_rest (p @ src)) \<le> length (p @ src)"
      by (simp add: pem_length)
    then show ?thesis
      using Cons.prems(2) by simp
  qed
  from Cons.IH [OF p1 this, of "put_text m out (pem_lines (p @ src))" "out + of_nat (length (pem_lines (p @ src)))"]
  show ?case
    using step pem_append [of "p @ src" "concat srcs"] by (simp add: put_text_append add.assoc)
qed

lemma pending_init: "pending EVP_EncodeInit []"
  by (simp add: pending_def EVP_EncodeInit_def)

lemma encode_stream_eq:
  assumes "length (concat srcs) < 2 ^ 30"
  shows "encode_stream m out srcs =
    Some (out + of_nat (length (pem_text (concat srcs))), put_text m out (pem_text (concat srcs)))"
proof -
  let ?bs = "concat srcs"
  obtain ctx where up: "encode_updates EVP_EncodeInit m out srcs =
      Some (ctx, put_text m out (pem_lines ?bs), out + of_nat (length (pem_lines ?bs)))"
    and p: "pending ctx (pem_rest ?bs)"
    using encode_updates_eq [OF pending_init, of srcs m out] assms by auto
  have zero: "data_used ctx = 0 \<longleftrightarrow> pem_rest ?bs = []"
    using pending_used [OF p] by (metis length_0_conv unat_eq_zero)
  have take: "take (unat (data_used ctx)) (ctx_data ctx) = pem_rest ?bs"
    using p pending_used [OF p] by (simp add: pending_def)
  show ?thesis
  proof (cases "pem_rest ?bs = []")
    case True
    then show ?thesis
      using zero by (simp add: encode_stream_def up EVP_EncodeFinal_def pem_text_def)
  next
    case False
    let ?e = "b64 (pem_rest ?bs)"
    have final: "EVP_EncodeFinal ctx m' out' =
        (of_nat (length ?e) + 1, ctx\<lparr>data_used := 0\<rparr>, put_text m' out' (?e @ [0x0A]))" for m' out'
      using False zero take
      by (simp add: EVP_EncodeFinal_def EVP_EncodeBlock_eq store8_def put_text_def store_bytes_append)
    show ?thesis
      using False put_text_append [of m out "pem_lines ?bs" "?e @ [0x0A]"]
      by (simp add: encode_stream_def up final pem_text_def add.assoc)
  qed
qed

subsection \<open>Decoding\<close>

lemma decode_chars_filter: "decode_chars ctx m out src n = decode_chars ctx m out [c \<leftarrow> src. \<not> is_space c] n"
  by (induction ctx m out src n rule: decode_chars.induct) (auto simp: Let_def split: option.splits)

text \<open>The context behind a character that completes no quad, and behind a quad of \<^verbatim>\<open>n\<close> bytes.\<close>

definition hold_char :: "evp_encode_ctx \<Rightarrow> byte \<Rightarrow> evp_encode_ctx" where
  "hold_char ctx c = ctx\<lparr>ctx_data := (ctx_data ctx)[unat (data_used ctx) := c], data_used := data_used ctx + 1\<rparr>"

definition end_quad :: "evp_encode_ctx \<Rightarrow> size_t \<Rightarrow> evp_encode_ctx" where
  "end_quad ctx n = ctx\<lparr>data_used := 0, eof_seen := (n < 3 \<or> eof_seen ctx)\<rparr>"

lemma decode_char_cases:
  obtains (space) "is_space c" "\<And>n src. decode_chars ctx m out (c # src) n = decode_chars ctx m out src n"
  | (fail) ctx' where "\<And>n src. decode_chars ctx m out (c # src) n = (None, ctx', m)"
  | (hold) "\<And>n src. decode_chars ctx m out (c # src) n = decode_chars (hold_char ctx c) m out src n"
  | (quad) k m' where "k \<in> {1, 2, 3}"
      "\<And>n src. decode_chars ctx m out (c # src) n = decode_chars (end_quad (hold_char ctx c) k) m' (out + k) src (n + k)"
proof -
  consider "is_space c" | "\<not> is_space c" "eof_seen ctx" | "\<not> is_space c" "\<not> eof_seen ctx" "data_used ctx + 1 \<noteq> 4"
    | "\<not> is_space c" "\<not> eof_seen ctx" "data_used ctx + 1 = 4" "base64_decode_quad m out (ctx_data (hold_char ctx c)) = None"
    | k m' where "\<not> is_space c" "\<not> eof_seen ctx" "data_used ctx + 1 = 4"
        "base64_decode_quad m out (ctx_data (hold_char ctx c)) = Some (k, m')"
    by (cases "base64_decode_quad m out (ctx_data (hold_char ctx c))") auto
  then show thesis
  proof cases
    case 5
    from 5(4) have "k \<in> {1, 2, 3}"
      by (auto simp: base64_decode_quad_def Let_def split: if_splits)
    from quad [OF this, of m'] show thesis
      using 5 by (simp add: Let_def hold_char_def end_quad_def)
  qed (use space fail hold in \<open>simp_all add: Let_def hold_char_def\<close>)
qed

declare decode_chars.simps(2) [simp del]

lemma decode_chars_count:
  "decode_chars ctx m out src n = (map_option ((+) n) (fst (decode_chars ctx m out src 0)), snd (decode_chars ctx m out src 0))"
proof (induction src arbitrary: ctx m out n)
  case (Cons c src)
  show ?case
  proof (cases rule: decode_char_cases [of c ctx m out])
    case (quad k m')
    then show ?thesis
      using Cons [of "end_quad (hold_char ctx c) k" m' "out + k" "n + k"] Cons [of "end_quad (hold_char ctx c) k" m' "out + k" k]
      by (simp add: option.map_comp o_def add.assoc)
  next
    case hold
    then show ?thesis
      using Cons [of "hold_char ctx c" m out n] by simp
  next
    case space
    then show ?thesis
      using Cons [of ctx m out n] by simp
  qed simp
qed simp

lemma decode_chars_append:
  "decode_chars ctx m out (xs @ ys) n = (case decode_chars ctx m out xs n of
     (None, ctx', m') \<Rightarrow> (None, ctx', m')
   | (Some k, ctx', m') \<Rightarrow> decode_chars ctx' m' (out + (k - n)) ys k)"
proof (induction xs arbitrary: ctx m out n)
  case (Cons c xs)
  show ?case
  proof (cases rule: decode_char_cases [of c ctx m out])
    case (quad k m')
    have shift: "out + k + (j - (n + k)) = out + (j - n)" for j
      by simp
    show ?thesis
      unfolding append_Cons quad(2) Cons shift ..
  qed (use Cons in simp_all)
qed simp

lemma decode_chars_bound:
  "fst (decode_chars ctx m out src n) = Some k \<Longrightarrow> unat n + 3 * length src < 2 ^ 64 \<Longrightarrow> unat k \<le> unat n + 3 * length src"
proof (induction src arbitrary: ctx m out n)
  case (Cons c src)
  show ?case
  proof (cases rule: decode_char_cases [of c ctx m out])
    case (quad j m')
    from quad(1) have j: "unat j \<le> 3"
      by auto
    then have "unat (n + j) = unat n + unat j"
      using Cons.prems(2) by (simp add: unat_word_ariths)
    then show ?thesis
      using Cons.IH [of "end_quad (hold_char ctx c) j" m' "out + j" "n + j"] Cons.prems j by (simp add: quad(2))
  qed (use Cons.IH Cons.prems in \<open>fastforce+\<close>)
qed simp

lemma decode_chars_no_error:
  "fst (decode_chars ctx m out src n) = Some k \<Longrightarrow>
   error_encountered (fst (snd (decode_chars ctx m out src n))) = error_encountered ctx"
proof (induction src arbitrary: ctx m out n)
  case (Cons c src)
  show ?case
  proof (cases rule: decode_char_cases [of c ctx m out])
    case (quad j m')
    then show ?thesis
      using Cons.IH [of "end_quad (hold_char ctx c) j" m' "out + j" "n + j"] Cons.prems
      by (simp add: end_quad_def hold_char_def)
  next
    case hold
    then show ?thesis
      using Cons.IH [of "hold_char ctx c" m out n] Cons.prems by (simp add: hold_char_def)
  qed (use Cons.IH Cons.prems in simp_all)
qed simp

text \<open>A client decodes its input piece by piece; the result is \<^verbatim>\<open>None\<close> when a call returns \<^verbatim>\<open>-1\<close>.\<close>

fun decode_updates :: "evp_encode_ctx \<Rightarrow> memory \<Rightarrow> addr \<Rightarrow> byte list list \<Rightarrow> (evp_encode_ctx \<times> memory \<times> addr) option" where
  "decode_updates ctx m out [] = Some (ctx, m, out)"
| "decode_updates ctx m out (src # srcs) = (case EVP_DecodeUpdate ctx m out src of (r, n, ctx', m') \<Rightarrow>
     if r = - 1 then None else decode_updates ctx' m' (out + n) srcs)"

definition decode_stream :: "memory \<Rightarrow> addr \<Rightarrow> byte list list \<Rightarrow> (addr \<times> memory) option" where
  "decode_stream m out srcs = (case decode_updates EVP_DecodeInit m out srcs of
     None \<Rightarrow> None
   | Some (ctx, m', out') \<Rightarrow> if fst (EVP_DecodeFinal ctx) = 1 then Some (out', m') else None)"

lemma decode_updates_eq:
  "\<not> error_encountered ctx \<Longrightarrow> length (concat srcs) < 2 ^ 29 \<Longrightarrow>
   decode_updates ctx m out srcs = (case decode_chars ctx m out (concat srcs) 0 of
     (None, ctx', m') \<Rightarrow> None
   | (Some k, ctx', m') \<Rightarrow> Some (ctx', m', out + k))"
proof (induction srcs arbitrary: ctx m out)
  case (Cons src srcs)
  obtain r ctx1 m1 where first: "decode_chars ctx m out src 0 = (r, ctx1, m1)"
    by (cases "decode_chars ctx m out src 0") auto
  show ?case
  proof (cases r)
    case None
    then show ?thesis
      using Cons.prems(1) by (simp add: EVP_DecodeUpdate_def first decode_chars_append)
  next
    case (Some k)
    have "unat k \<le> 3 * length src"
      using decode_chars_bound [of ctx m out src 0 k] Cons.prems(2) by (simp add: first Some)
    then have "\<not> INT_MAX < k"
      using Cons.prems(2) by (simp add: INT_MAX_def word_less_nat_alt)
    moreover have "\<not> error_encountered ctx1"
      using decode_chars_no_error [of ctx m out src 0 k] Cons.prems(1) by (simp add: first Some)
    ultimately show ?thesis
      using Cons.IH [of ctx1 m1 "out + k"] Cons.prems decode_chars_count [of ctx1 m1 "out + k" "concat srcs" k]
      by (simp add: EVP_DecodeUpdate_def first Some decode_chars_append add.assoc split: option.splits prod.splits)
  qed
qed simp

lemma decode_chars_value:
  "b64_value chars = Some bs \<Longrightarrow> (\<forall>c \<in> set chars. \<not> is_space c) \<Longrightarrow> data_used ctx = 0 \<Longrightarrow> \<not> eof_seen ctx \<Longrightarrow>
   length (ctx_data ctx) = 48 \<Longrightarrow>
   \<exists>ctx'. decode_chars ctx m out chars n = (Some (n + of_nat (length bs)), ctx', store_bytes m out bs) \<and> data_used ctx' = 0"
proof (induction chars arbitrary: ctx m out n bs rule: b64_value.induct)
  case (2 a b c d chars)
  obtain xs where quad: "quad_value [a, b, c, d] = Some xs"
    using 2(2) by (auto split: option.splits)
  then obtain ys where ys: "b64_value chars = Some ys" "bs = xs @ ys" "length xs < 3 \<longrightarrow> chars = []"
    using 2(2) by (auto split: if_splits)
  have len: "length xs = 1 \<or> length xs = 2 \<or> length xs = 3"
    using quad_value_length [OF quad] by simp
  obtain x0 x1 x2 x3 ds where ds: "ctx_data ctx = x0 # x1 # x2 # x3 # ds"
    using 2(6) by (auto simp: numeral_eq_Suc length_Suc_conv)
  let ?c = "end_quad (hold_char (hold_char (hold_char (hold_char ctx a) b) c) d) (of_nat (length xs))"
  have four: "base64_decode_quad m out (a # b # c # d # ds) = base64_decode_quad m out [a, b, c, d]"
    by (simp add: base64_decode_quad_def)
  have "decode_chars ctx m out (a # b # c # d # chars) n =
      decode_chars ?c (store_bytes m out xs) (out + of_nat (length xs)) chars (n + of_nat (length xs))"
    using 2(3-5) ds by (simp add: decode_chars.simps(2) Let_def hold_char_def end_quad_def four decode_quad quad)
  moreover have "\<exists>ctx'. decode_chars ?c (store_bytes m out xs) (out + of_nat (length xs)) chars (n + of_nat (length xs)) =
      (Some (n + of_nat (length xs) + of_nat (length ys)), ctx', store_bytes (store_bytes m out xs) (out + of_nat (length xs)) ys) \<and>
      data_used ctx' = 0"
  proof (cases "chars = []")
    case True
    then show ?thesis
      using ys(1) by (simp add: end_quad_def)
  next
    case False
    then have "length xs = 3"
      using ys(3) len by auto
    then have "\<not> eof_seen ?c" "data_used ?c = 0" "length (ctx_data ?c) = 48"
      using 2(4-6) by (simp_all add: end_quad_def hold_char_def)
    then show ?thesis
      using 2(1) [OF quad _ ys(1), of ?c] False 2(3) \<open>length xs = 3\<close> by simp
  qed
  ultimately show ?case
    by (simp add: ys(2) store_bytes_append add.assoc)
qed simp_all

lemma decode_stream_value:
  assumes "b64_value [c \<leftarrow> concat srcs. \<not> is_space c] = Some bs" and "length (concat srcs) < 2 ^ 29"
  shows "decode_stream m out srcs = Some (out + of_nat (length bs), store_bytes m out bs)"
proof -
  have init: "data_used EVP_DecodeInit = 0" "\<not> eof_seen EVP_DecodeInit" "length (ctx_data EVP_DecodeInit) = 48"
    "\<not> error_encountered EVP_DecodeInit"
    by (simp_all add: EVP_DecodeInit_def)
  obtain ctx' where chars: "decode_chars EVP_DecodeInit m out (concat srcs) 0 = (Some (of_nat (length bs)), ctx', store_bytes m out bs)"
    and used: "data_used ctx' = 0"
    using decode_chars_value [OF assms(1) _ init(1-3), of m out 0] decode_chars_filter [of EVP_DecodeInit m out "concat srcs" 0]
    by auto
  have "\<not> error_encountered ctx'"
    using decode_chars_no_error [of EVP_DecodeInit m out "concat srcs" 0] chars init(4) by simp
  then show ?thesis
    using decode_updates_eq [OF init(4) assms(2), of m out] chars used by (simp add: decode_stream_def EVP_DecodeFinal_def)
qed

section \<open>The alphabet\<close>

lemma alphabet_nth:
  "n < 26 \<Longrightarrow> alphabet ! n = 0x41 + of_nat n" "n < 26 \<Longrightarrow> alphabet ! (n + 26) = 0x61 + of_nat n"
  "n < 10 \<Longrightarrow> alphabet ! (n + 52) = 0x30 + of_nat n" "alphabet ! 62 = 0x2B" "alphabet ! 63 = 0x2F"
proof -
  have "list_all (\<lambda>n. alphabet ! n = 0x41 + of_nat n) [0..<26]" "list_all (\<lambda>n. alphabet ! (n + 26) = 0x61 + of_nat n) [0..<26]"
    "list_all (\<lambda>n. alphabet ! (n + 52) = 0x30 + of_nat n) [0..<10]"
    by code_simp+
  then show "n < 26 \<Longrightarrow> alphabet ! n = 0x41 + of_nat n" "n < 26 \<Longrightarrow> alphabet ! (n + 26) = 0x61 + of_nat n"
      "n < 10 \<Longrightarrow> alphabet ! (n + 52) = 0x30 + of_nat n"
    by (auto simp only: list_all_iff set_upt atLeastLessThan_iff)
qed (simp_all add: alphabet_def)

lemma char_of_bin: "base64_ascii_to_bin c = 0xff \<or> c = 0x3D \<or> conv_bin2ascii (base64_ascii_to_bin c) = c"
proof (cases "base64_ascii_to_bin c = 0xff")
  case False
  then have "\<not> bit (base64_ascii_to_bin c) 6 \<and> \<not> bit (base64_ascii_to_bin c) 7"
    using small_byte_bits bin_range by blast
  then have "base64_ascii_to_bin c AND 63 = base64_ascii_to_bin c"
    by (intro byte_eqI) (simp_all add: bit_simps)
  then have "conv_bin2ascii (base64_ascii_to_bin c) = alphabet ! unat (base64_ascii_to_bin c)"
    by (simp add: conv_bin2ascii b64_char_def)
  moreover have "unat (d + k) = unat d + unat k" if "unat d < 26" "unat k \<le> 52" for d k :: byte
    using that by (simp add: unat_word_ariths)
  from this [of "c - 0x61" 26] this [of "c - 0x30" 52]
  have "c = 0x3D \<or> alphabet ! unat (base64_ascii_to_bin c) = c"
    using False alphabet_nth(1) [of "unat (c - 0x41)"] alphabet_nth(2) [of "unat (c - 0x61)"] alphabet_nth(3) [of "unat (c - 0x30)"]
      alphabet_nth(4,5)
    by (auto simp: base64_ascii_to_bin_eq word_less_nat_alt split: if_splits)
  ultimately show ?thesis
    by auto
qed simp

lemma sextet_not_ff: "(a :: byte) AND 63 \<noteq> 0xff"
  using sextet_char(4) [of "a AND 63"] by (simp add: and.assoc)

end
