(* ===== verification/Cbs.thy ===== *)
theory Cbs
  imports CMemory "HOL-Library.Sublist"
begin

text \<open>
  BoringSSL's byte-string reader (\<^verbatim>\<open>crypto/bytestring/cbs.c\<close>). A \<^verbatim>\<open>CBS\<close> is a pointer and a length into a
  buffer that no operation writes; it is modelled by the bytes it covers. A reader maps a \<^verbatim>\<open>CBS\<close> to
  its result, \<^verbatim>\<open>None\<close> for the return value zero, and to the \<^verbatim>\<open>CBS\<close> left behind, on failure too: some
  operations consume input before they reject it. Output parameters are part of the result; what
  the C code leaves in them on failure is not modelled.
\<close>

section \<open>Readers\<close>

type_synonym cbs = "byte list"
type_synonym 'a reader = "cbs \<Rightarrow> 'a option \<times> cbs"

text \<open>\<^verbatim>\<open>if (!p(cbs, &x)) return 0;\<close> followed by code that uses \<^verbatim>\<open>x\<close>.\<close>

definition bind_reader :: "'a reader \<Rightarrow> ('a \<Rightarrow> 'b reader) \<Rightarrow> 'b reader" where
  "bind_reader p f cbs = (case p cbs of (None, cbs') \<Rightarrow> (None, cbs') | (Some x, cbs') \<Rightarrow> f x cbs')"

definition succeed :: "'a \<Rightarrow> 'a reader" where
  "succeed x cbs = (Some x, cbs)"

definition reject :: "'a reader" where
  "reject cbs = (None, cbs)"

definition map_reader :: "('a \<Rightarrow> 'b) \<Rightarrow> 'a reader \<Rightarrow> 'b reader" where
  "map_reader f p = bind_reader p (\<lambda>x. succeed (f x))"

section \<open>Bytes and integers\<close>

definition cbs_get :: "size_t \<Rightarrow> byte list reader" where
  "cbs_get n cbs = (if length cbs < unat n then (None, cbs) else (Some (take (unat n) cbs), drop (unat n) cbs))"

definition CBS_len :: "cbs \<Rightarrow> size_t" where
  "CBS_len cbs = of_nat (length cbs)"

definition CBS_skip :: "size_t \<Rightarrow> unit reader" where
  "CBS_skip n = map_reader (\<lambda>_. ()) (cbs_get n)"

text \<open>The copies are heap blocks: the argument says whether the allocator has one to give.\<close>

definition CBS_stow :: "bool \<Rightarrow> cbs \<Rightarrow> bool \<times> byte list" where
  "CBS_stow alloc_ok cbs = (if cbs = [] then (True, []) else if alloc_ok then (True, cbs) else (False, []))"

fun OPENSSL_strnlen :: "byte list \<Rightarrow> size_t" where
  "OPENSSL_strnlen [] = 0"
| "OPENSSL_strnlen (b # bs) = (if b = 0 then 0 else OPENSSL_strnlen bs + 1)"

definition OPENSSL_strndup :: "bool \<Rightarrow> byte list \<Rightarrow> byte list option" where
  "OPENSSL_strndup alloc_ok str =
     (let n = OPENSSL_strnlen str in
      if n + 1 < n then None else if alloc_ok then Some (take (unat n) str @ [0]) else None)"

definition CBS_strdup :: "bool \<Rightarrow> cbs \<Rightarrow> byte list option" where
  "CBS_strdup alloc_ok cbs = OPENSSL_strndup alloc_ok cbs"

definition CBS_contains_zero_byte :: "cbs \<Rightarrow> bool" where
  "CBS_contains_zero_byte cbs \<longleftrightarrow> 0 \<in> set cbs"

definition CRYPTO_memcmp :: "byte list \<Rightarrow> byte list \<Rightarrow> byte" where
  "CRYPTO_memcmp a b = foldl (\<lambda>x (p, q). x OR (p XOR q)) 0 (zip a b)"

definition CBS_mem_equal :: "cbs \<Rightarrow> byte list \<Rightarrow> bool" where
  "CBS_mem_equal cbs bs \<longleftrightarrow> (if length bs \<noteq> length cbs then False else CRYPTO_memcmp cbs bs = 0)"

definition cbs_get_u :: "size_t \<Rightarrow> u64 reader" where
  "cbs_get_u n = map_reader (foldl (\<lambda>result b. push_bit 8 result OR ucast b) 0) (cbs_get n)"

definition CBS_get_u8 :: "byte reader" where
  "CBS_get_u8 = map_reader hd (cbs_get 1)"

definition CBS_get_u16 :: "u16 reader" where
  "CBS_get_u16 = map_reader ucast (cbs_get_u 2)"

text \<open>The compiler's byte swaps: \<^verbatim>\<open>__builtin_bswap16\<close>, \<^verbatim>\<open>__builtin_bswap32\<close> and \<^verbatim>\<open>__builtin_bswap64\<close>.\<close>

definition CRYPTO_bswap2 :: "u16 \<Rightarrow> u16" where
  "CRYPTO_bswap2 x = word_of_bytes (rev (bytes_of_word 2 x))"

definition CRYPTO_bswap4 :: "u32 \<Rightarrow> u32" where
  "CRYPTO_bswap4 x = word_of_bytes (rev (bytes_of_word 4 x))"

definition CRYPTO_bswap8 :: "u64 \<Rightarrow> u64" where
  "CRYPTO_bswap8 x = word_of_bytes (rev (bytes_of_word 8 x))"

definition CBS_get_u16le :: "u16 reader" where
  "CBS_get_u16le = map_reader CRYPTO_bswap2 CBS_get_u16"

definition CBS_get_u24 :: "u32 reader" where
  "CBS_get_u24 = map_reader ucast (cbs_get_u 3)"

definition CBS_get_u32 :: "u32 reader" where
  "CBS_get_u32 = map_reader ucast (cbs_get_u 4)"

definition CBS_get_u32le :: "u32 reader" where
  "CBS_get_u32le = map_reader CRYPTO_bswap4 CBS_get_u32"

definition CBS_get_u64 :: "u64 reader" where
  "CBS_get_u64 = cbs_get_u 8"

definition CBS_get_u64le :: "u64 reader" where
  "CBS_get_u64le = map_reader CRYPTO_bswap8 (cbs_get_u 8)"

definition CBS_get_last_u8 :: "byte reader" where
  "CBS_get_last_u8 cbs = (if cbs = [] then (None, cbs) else (Some (last cbs), butlast cbs))"

definition CBS_get_bytes :: "size_t \<Rightarrow> cbs reader" where
  "CBS_get_bytes n = cbs_get n"

definition CBS_copy_bytes :: "size_t \<Rightarrow> byte list reader" where
  "CBS_copy_bytes n = cbs_get n"

definition cbs_get_length_prefixed :: "size_t \<Rightarrow> cbs reader" where
  "cbs_get_length_prefixed len_len = bind_reader (cbs_get_u len_len) CBS_get_bytes"

definition CBS_get_u8_length_prefixed :: "cbs reader" where
  "CBS_get_u8_length_prefixed = cbs_get_length_prefixed 1"

definition CBS_get_u16_length_prefixed :: "cbs reader" where
  "CBS_get_u16_length_prefixed = cbs_get_length_prefixed 2"

definition CBS_get_u24_length_prefixed :: "cbs reader" where
  "CBS_get_u24_length_prefixed = cbs_get_length_prefixed 3"

definition CBS_get_until_first :: "byte \<Rightarrow> cbs reader" where
  "CBS_get_until_first c cbs =
     (if c \<in> set cbs then CBS_get_bytes (of_nat (length (takeWhile (\<lambda>b. b \<noteq> c) cbs))) cbs else (None, cbs))"

definition OPENSSL_isdigit :: "byte \<Rightarrow> bool" where
  "OPENSSL_isdigit c \<longleftrightarrow> 0x30 \<le> c \<and> c \<le> 0x39"

definition UINT64_MAX :: u64 where "UINT64_MAX = 0xFFFFFFFFFFFFFFFF"

text \<open>The loop: the value so far and whether a digit was seen.\<close>

fun u64_decimal_loop :: "u64 \<Rightarrow> bool \<Rightarrow> u64 reader" where
  "u64_decimal_loop v seen_digit [] = (if seen_digit then Some v else None, [])"
| "u64_decimal_loop v seen_digit (c # cbs) =
     (if \<not> OPENSSL_isdigit c then (if seen_digit then Some v else None, c # cbs)
      else if (v = 0 \<and> seen_digit) \<or> v > UINT64_MAX div 10 \<or> v * 10 > UINT64_MAX - ucast (c - 0x30) then (None, cbs)
      else u64_decimal_loop (v * 10 + ucast (c - 0x30)) True cbs)"

definition CBS_get_u64_decimal :: "u64 reader" where
  "CBS_get_u64_decimal = u64_decimal_loop 0 False"

section \<open>ASN.1 elements\<close>

type_synonym CBS_ASN1_TAG = u32

definition CBS_ASN1_CONSTRUCTED :: CBS_ASN1_TAG where "CBS_ASN1_CONSTRUCTED = push_bit 24 0x20"
definition CBS_ASN1_TAG_NUMBER_MASK :: CBS_ASN1_TAG where "CBS_ASN1_TAG_NUMBER_MASK = push_bit 29 1 - 1"
definition CBS_ASN1_BOOLEAN :: CBS_ASN1_TAG where "CBS_ASN1_BOOLEAN = 1"
definition CBS_ASN1_INTEGER :: CBS_ASN1_TAG where "CBS_ASN1_INTEGER = 2"
definition CBS_ASN1_OCTETSTRING :: CBS_ASN1_TAG where "CBS_ASN1_OCTETSTRING = 4"
definition CBS_ASN1_OBJECT :: CBS_ASN1_TAG where "CBS_ASN1_OBJECT = 6"

fun base128_loop :: "u64 \<Rightarrow> u64 reader" where
  "base128_loop v [] = (None, [])"
| "base128_loop v (b # cbs) =
     (if drop_bit 57 v \<noteq> 0 then (None, cbs)
      else if v = 0 \<and> b = 0x80 then (None, cbs)
      else
        (let v' = push_bit 7 v OR (ucast b AND 0x7f)
         in if b AND 0x80 \<noteq> 0 then base128_loop v' cbs else (Some v', cbs)))"

definition parse_base128_integer :: "u64 reader" where
  "parse_base128_integer = base128_loop 0"

definition parse_asn1_tag :: "CBS_ASN1_TAG reader" where
  "parse_asn1_tag =
     bind_reader CBS_get_u8 (\<lambda>tag_byte.
       let class_bits = push_bit 24 ((ucast tag_byte :: u32) AND 0xe0);
           finish = (\<lambda>tag_number.
             (let tag = class_bits OR tag_number in
              if tag AND NOT CBS_ASN1_CONSTRUCTED = 0 then reject else succeed tag))
       in if tag_byte AND 0x1f = 0x1f then
            bind_reader parse_base128_integer (\<lambda>v.
              if v > ucast CBS_ASN1_TAG_NUMBER_MASK \<or> v < 0x1f then reject else finish (ucast v))
          else finish (ucast (tag_byte AND 0x1f)))"

record asn1_element =
  el_bytes :: cbs
  el_tag :: CBS_ASN1_TAG
  el_header_len :: size_t
  el_ber_found :: bool
  el_indefinite :: bool

text \<open>
  The header is read from a copy of the \<^verbatim>\<open>CBS\<close>: the \<^verbatim>\<open>CBS\<close> itself changes only when the whole element
  is there.
\<close>

definition cbs_get_any_asn1_element :: "bool \<Rightarrow> asn1_element reader" where
  "cbs_get_any_asn1_element ber_ok cbs =
     (case parse_asn1_tag cbs of
        (None, _) \<Rightarrow> (None, cbs)
      | (Some tag, header1) \<Rightarrow>
          (case CBS_get_u8 header1 of
             (None, _) \<Rightarrow> (None, cbs)
           | (Some length_byte, header) \<Rightarrow>
               let header_len = CBS_len cbs - CBS_len header;
                   element = (\<lambda>len hl ber_found indefinite.
                     map_reader (\<lambda>out. \<lparr>el_bytes = out, el_tag = tag, el_header_len = hl,
                       el_ber_found = ber_found, el_indefinite = indefinite\<rparr>) (CBS_get_bytes len) cbs)
               in if length_byte AND 0x80 = 0 then element (ucast length_byte + header_len) header_len False False
                  else
                    (let num_bytes = (ucast (length_byte AND 0x7f) :: size_t) in
                     if ber_ok \<and> tag AND CBS_ASN1_CONSTRUCTED \<noteq> 0 \<and> num_bytes = 0
                     then element header_len header_len True True
                     else if num_bytes = 0 \<or> num_bytes > 4 then (None, cbs)
                     else
                       (case cbs_get_u num_bytes header of
                          (None, _) \<Rightarrow> (None, cbs)
                        | (Some len64, _) \<Rightarrow>
                            let short = len64 < 128;
                                padded = drop_bit (unat ((num_bytes - 1) * 8)) len64 = 0
                            in if (short \<or> padded) \<and> \<not> ber_ok then (None, cbs)
                               else if len64 + header_len + num_bytes < len64 then (None, cbs)
                               else element (len64 + (header_len + num_bytes)) (header_len + num_bytes)
                                      (short \<or> padded) False))))"

definition CBS_get_any_asn1_element :: "asn1_element reader" where
  "CBS_get_any_asn1_element = cbs_get_any_asn1_element False"

definition CBS_get_any_ber_asn1_element :: "asn1_element reader" where
  "CBS_get_any_ber_asn1_element = cbs_get_any_asn1_element True"

text \<open>The contents and the tag of an element. A failed skip would be a failed assertion; it is shown not to happen.\<close>

definition CBS_get_any_asn1 :: "(cbs \<times> CBS_ASN1_TAG) reader" where
  "CBS_get_any_asn1 = bind_reader CBS_get_any_asn1_element (\<lambda>el.
     case CBS_skip (el_header_len el) (el_bytes el) of
       (None, _) \<Rightarrow> reject
     | (Some _, out) \<Rightarrow> succeed (out, el_tag el))"

definition cbs_get_asn1 :: "CBS_ASN1_TAG \<Rightarrow> bool \<Rightarrow> cbs reader" where
  "cbs_get_asn1 tag_value skip_header = bind_reader CBS_get_any_asn1_element (\<lambda>el.
     if el_tag el \<noteq> tag_value then reject
     else if skip_header then
       (case CBS_skip (el_header_len el) (el_bytes el) of
          (None, _) \<Rightarrow> reject
        | (Some _, out) \<Rightarrow> succeed out)
     else succeed (el_bytes el))"

definition CBS_get_asn1 :: "CBS_ASN1_TAG \<Rightarrow> cbs reader" where
  "CBS_get_asn1 tag_value = cbs_get_asn1 tag_value True"

definition CBS_get_asn1_element :: "CBS_ASN1_TAG \<Rightarrow> cbs reader" where
  "CBS_get_asn1_element tag_value = cbs_get_asn1 tag_value False"

definition CBS_peek_asn1_tag :: "cbs \<Rightarrow> CBS_ASN1_TAG \<Rightarrow> bool" where
  "CBS_peek_asn1_tag cbs tag_value \<longleftrightarrow> fst (parse_asn1_tag cbs) = Some tag_value"

section \<open>ASN.1 values\<close>

text \<open>The result says whether the integer is negative; \<^verbatim>\<open>None\<close> rejects the encoding.\<close>

definition CBS_is_valid_asn1_integer :: "cbs \<Rightarrow> bool option" where
  "CBS_is_valid_asn1_integer cbs =
     (case CBS_get_u8 cbs of
        (None, _) \<Rightarrow> None
      | (Some first_byte, copy) \<Rightarrow>
          let is_negative = first_byte AND 0x80 \<noteq> 0 in
          (case CBS_get_u8 copy of
             (None, _) \<Rightarrow> Some is_negative
           | (Some second_byte, _) \<Rightarrow>
               if first_byte = 0x00 \<and> second_byte AND 0x80 = 0 \<or> first_byte = 0xff \<and> second_byte AND 0x80 \<noteq> 0
               then None else Some is_negative))"

definition CBS_is_unsigned_asn1_integer :: "cbs \<Rightarrow> bool" where
  "CBS_is_unsigned_asn1_integer cbs \<longleftrightarrow> CBS_is_valid_asn1_integer cbs = Some False"

fun uint64_loop :: "u64 \<Rightarrow> byte list \<Rightarrow> u64 option" where
  "uint64_loop v [] = Some v"
| "uint64_loop v (b # bs) = (if drop_bit 56 v \<noteq> 0 then None else uint64_loop (push_bit 8 v OR ucast b) bs)"

definition CBS_get_asn1_uint64 :: "u64 reader" where
  "CBS_get_asn1_uint64 = bind_reader (CBS_get_asn1 CBS_ASN1_INTEGER) (\<lambda>bytes.
     if \<not> CBS_is_unsigned_asn1_integer bytes then reject
     else (case uint64_loop 0 bytes of None \<Rightarrow> reject | Some v \<Rightarrow> succeed v))"

definition CRYPTO_load_u64_be :: "byte list \<Rightarrow> u64" where
  "CRYPTO_load_u64_be bs = CRYPTO_bswap8 (word_of_bytes bs)"

text \<open>A signed 64-bit result is the word that holds it, read with \<^verbatim>\<open>sint\<close>.\<close>

definition CBS_get_asn1_int64 :: "u64 reader" where
  "CBS_get_asn1_int64 = bind_reader (CBS_get_asn1 CBS_ASN1_INTEGER) (\<lambda>bytes.
     case CBS_is_valid_asn1_integer bytes of
       None \<Rightarrow> reject
     | Some is_negative \<Rightarrow>
         if CBS_len bytes > 8 then reject
         else succeed (CRYPTO_load_u64_be
           (replicate (8 - length bytes) (if is_negative then 0xff else 0) @ bytes)))"

definition CBS_get_asn1_bool :: "bool reader" where
  "CBS_get_asn1_bool = bind_reader (CBS_get_asn1 CBS_ASN1_BOOLEAN) (\<lambda>bytes.
     if CBS_len bytes \<noteq> 1 then reject
     else
       (let val = hd bytes in
        if val \<noteq> 0 \<and> val \<noteq> 0xff then reject else succeed (val \<noteq> 0)))"

text \<open>\<^verbatim>\<open>*out_present\<close> and \<^verbatim>\<open>*out\<close> are one optional value.\<close>

definition CBS_get_optional_asn1 :: "CBS_ASN1_TAG \<Rightarrow> cbs option reader" where
  "CBS_get_optional_asn1 tag cbs =
     (if CBS_peek_asn1_tag cbs tag then map_reader Some (CBS_get_asn1 tag) cbs else succeed None cbs)"

definition CBS_get_optional_asn1_octet_string :: "CBS_ASN1_TAG \<Rightarrow> cbs option reader" where
  "CBS_get_optional_asn1_octet_string tag = bind_reader (CBS_get_optional_asn1 tag) (\<lambda>present.
     case present of
       None \<Rightarrow> succeed None
     | Some child \<Rightarrow>
         (case CBS_get_asn1 CBS_ASN1_OCTETSTRING child of
            (None, _) \<Rightarrow> reject
          | (Some out, child') \<Rightarrow> if child' \<noteq> [] then reject else succeed (Some out)))"

definition CBS_get_optional_asn1_uint64 :: "CBS_ASN1_TAG \<Rightarrow> u64 \<Rightarrow> u64 reader" where
  "CBS_get_optional_asn1_uint64 tag default_value = bind_reader (CBS_get_optional_asn1 tag) (\<lambda>present.
     case present of
       None \<Rightarrow> succeed default_value
     | Some child \<Rightarrow>
         (case CBS_get_asn1_uint64 child of
            (None, _) \<Rightarrow> reject
          | (Some v, child') \<Rightarrow> if child' \<noteq> [] then reject else succeed v))"

definition CBS_get_optional_asn1_bool :: "CBS_ASN1_TAG \<Rightarrow> bool \<Rightarrow> bool reader" where
  "CBS_get_optional_asn1_bool tag default_value = bind_reader (CBS_get_optional_asn1 tag) (\<lambda>present.
     case present of
       None \<Rightarrow> succeed default_value
     | Some child \<Rightarrow>
         (case CBS_get_asn1 CBS_ASN1_BOOLEAN child of
            (None, _) \<Rightarrow> reject
          | (Some child2, child') \<Rightarrow>
              if CBS_len child2 \<noteq> 1 \<or> child' \<noteq> [] then reject
              else if hd child2 = 0 then succeed False
              else if hd child2 = 0xff then succeed True
              else reject))"

definition CBS_is_valid_asn1_bitstring :: "cbs \<Rightarrow> bool" where
  "CBS_is_valid_asn1_bitstring cbs \<longleftrightarrow>
     (case CBS_get_u8 cbs of
        (None, _) \<Rightarrow> False
      | (Some num_unused_bits, rest) \<Rightarrow>
          if num_unused_bits > 7 then False
          else if num_unused_bits = 0 then True
          else
            (case CBS_get_last_u8 rest of
               (None, _) \<Rightarrow> False
             | (Some last_byte, _) \<Rightarrow> last_byte AND (push_bit (unat num_unused_bits) 1 - 1) = 0))"

definition CBS_asn1_bitstring_has_bit :: "cbs \<Rightarrow> u32 \<Rightarrow> bool" where
  "CBS_asn1_bitstring_has_bit cbs i \<longleftrightarrow>
     (if \<not> CBS_is_valid_asn1_bitstring cbs then False
      else
        (let byte_num = drop_bit 3 i + 1; bit_num = 7 - (i AND 7)
         in ucast byte_num < CBS_len cbs \<and> cbs ! unat byte_num AND push_bit (unat bit_num) 1 \<noteq> 0))"

fun oid_loop :: "byte \<Rightarrow> cbs \<Rightarrow> bool" where
  "oid_loop prev [] \<longleftrightarrow> prev AND 0x80 = 0"
| "oid_loop prev (v # cbs) \<longleftrightarrow> (if prev AND 0x80 = 0 \<and> v = 0x80 then False else oid_loop v cbs)"

definition CBS_is_valid_asn1_oid :: "cbs \<Rightarrow> bool" where
  "CBS_is_valid_asn1_oid cbs \<longleftrightarrow> (if cbs = [] then False else oid_loop 0 cbs)"

section \<open>Reading never leaves the buffer\<close>

text \<open>What a reader leaves behind is a tail of what it was given, whether it succeeds or fails.\<close>

definition in_bounds :: "'a reader \<Rightarrow> bool" where
  "in_bounds p \<longleftrightarrow> (\<forall>cbs. suffix (snd (p cbs)) cbs)"

named_theorems in_bounds_intros \<open>readers that stay in their buffer\<close>

lemma in_bounds_get [in_bounds_intros]: "in_bounds (cbs_get n)"
  by (simp add: in_bounds_def cbs_get_def suffix_drop)

lemma in_bounds_succeed [in_bounds_intros]: "in_bounds (succeed x)" "in_bounds reject"
  by (simp_all add: in_bounds_def succeed_def reject_def)

lemma in_bounds_bind [in_bounds_intros]:
  assumes "in_bounds p" and "\<And>x. in_bounds (f x)"
  shows "in_bounds (bind_reader p f)"
  unfolding in_bounds_def
proof
  fix cbs
  obtain r cbs' where p: "p cbs = (r, cbs')"
    by (cases "p cbs")
  then have "suffix cbs' cbs"
    using assms(1) by (auto simp: in_bounds_def dest: spec [of _ cbs])
  moreover have "suffix (snd (f x cbs')) cbs'" for x
    using assms(2) by (simp add: in_bounds_def)
  ultimately show "suffix (snd (bind_reader p f cbs)) cbs"
    by (cases r) (auto simp: bind_reader_def p intro: suffix_order.trans)
qed

lemma in_bounds_map [in_bounds_intros]: "in_bounds p \<Longrightarrow> in_bounds (map_reader f p)"
  unfolding map_reader_def by (intro in_bounds_intros)

lemma in_bounds_skip [in_bounds_intros]: "in_bounds (CBS_skip n)"
  unfolding CBS_skip_def by (intro in_bounds_intros)

lemma in_bounds_u [in_bounds_intros]: "in_bounds (cbs_get_u n)"
  unfolding cbs_get_u_def by (intro in_bounds_intros)

lemma in_bounds_integers [in_bounds_intros]:
  "in_bounds CBS_get_u8" "in_bounds CBS_get_u16" "in_bounds CBS_get_u16le" "in_bounds CBS_get_u24"
  "in_bounds CBS_get_u32" "in_bounds CBS_get_u32le" "in_bounds CBS_get_u64" "in_bounds CBS_get_u64le"
  unfolding CBS_get_u8_def CBS_get_u16_def CBS_get_u16le_def CBS_get_u24_def CBS_get_u32_def CBS_get_u32le_def
    CBS_get_u64_def CBS_get_u64le_def
  by (intro in_bounds_intros)+

lemma in_bounds_bytes [in_bounds_intros]: "in_bounds (CBS_get_bytes n)" "in_bounds (CBS_copy_bytes n)"
  unfolding CBS_get_bytes_def CBS_copy_bytes_def by (intro in_bounds_intros)+

lemma in_bounds_prefixed [in_bounds_intros]:
  "in_bounds CBS_get_u8_length_prefixed" "in_bounds CBS_get_u16_length_prefixed" "in_bounds CBS_get_u24_length_prefixed"
  unfolding CBS_get_u8_length_prefixed_def CBS_get_u16_length_prefixed_def CBS_get_u24_length_prefixed_def
    cbs_get_length_prefixed_def
  by (intro in_bounds_intros)+

lemma in_bounds_until_first [in_bounds_intros]: "in_bounds (CBS_get_until_first c)"
  using in_bounds_bytes(1) by (simp add: in_bounds_def CBS_get_until_first_def)

lemma in_bounds_decimal [in_bounds_intros]: "in_bounds CBS_get_u64_decimal"
proof -
  have "suffix (snd (u64_decimal_loop v seen cbs)) cbs" for v seen cbs
    by (induction v seen cbs rule: u64_decimal_loop.induct) (auto intro: suffix_ConsI)
  then show ?thesis
    by (simp add: in_bounds_def CBS_get_u64_decimal_def)
qed

lemma in_bounds_base128 [in_bounds_intros]: "in_bounds parse_base128_integer"
proof -
  have "suffix (snd (base128_loop v cbs)) cbs" for v cbs
    by (induction v cbs rule: base128_loop.induct) (auto simp: Let_def intro: suffix_ConsI)
  then show ?thesis
    by (simp add: in_bounds_def parse_base128_integer_def)
qed

lemma in_bounds_if [in_bounds_intros]: "in_bounds p \<Longrightarrow> in_bounds q \<Longrightarrow> in_bounds (if b then p else q)"
  by simp

lemma in_bounds_option [in_bounds_intros]:
  "in_bounds p \<Longrightarrow> (\<And>x. in_bounds (q x)) \<Longrightarrow> in_bounds (case r of None \<Rightarrow> p | Some x \<Rightarrow> q x)"
  by (cases r) simp_all

lemma in_bounds_pair [in_bounds_intros]: "(\<And>x y. in_bounds (q x y)) \<Longrightarrow> in_bounds (case r of (x, y) \<Rightarrow> q x y)"
  by (cases r) simp

lemma in_bounds_tag [in_bounds_intros]: "in_bounds parse_asn1_tag"
  unfolding parse_asn1_tag_def Let_def by (intro in_bounds_intros)

lemma in_bounds_any_element [in_bounds_intros]: "in_bounds (cbs_get_any_asn1_element ber_ok)"
proof -
  have "suffix (snd (map_reader f (CBS_get_bytes n) cbs)) cbs" for n cbs and f :: "cbs \<Rightarrow> asn1_element"
    using in_bounds_map [OF in_bounds_bytes(1)] by (auto simp: in_bounds_def)
  then show ?thesis
    by (simp add: in_bounds_def cbs_get_any_asn1_element_def Let_def split: option.split prod.split)
qed

lemma in_bounds_elements [in_bounds_intros]:
  "in_bounds CBS_get_any_asn1_element" "in_bounds CBS_get_any_ber_asn1_element" "in_bounds CBS_get_any_asn1"
  "in_bounds (CBS_get_asn1 t)" "in_bounds (CBS_get_asn1_element t)"
  unfolding CBS_get_any_asn1_element_def CBS_get_any_ber_asn1_element_def CBS_get_any_asn1_def CBS_get_asn1_def
    CBS_get_asn1_element_def cbs_get_asn1_def
  by (intro in_bounds_intros)+

lemma in_bounds_values [in_bounds_intros]:
  "in_bounds CBS_get_asn1_uint64" "in_bounds CBS_get_asn1_int64" "in_bounds CBS_get_asn1_bool"
  unfolding CBS_get_asn1_uint64_def CBS_get_asn1_int64_def CBS_get_asn1_bool_def Let_def
  by (intro in_bounds_intros)+

lemma in_bounds_optional [in_bounds_intros]: "in_bounds (CBS_get_optional_asn1 t)"
proof -
  have "in_bounds (map_reader Some (CBS_get_asn1 t))"
    by (intro in_bounds_intros)
  then show ?thesis
    by (simp add: in_bounds_def CBS_get_optional_asn1_def succeed_def)
qed

lemma in_bounds_optional_values [in_bounds_intros]:
  "in_bounds (CBS_get_optional_asn1_octet_string t)" "in_bounds (CBS_get_optional_asn1_uint64 t d)"
  "in_bounds (CBS_get_optional_asn1_bool t b)"
  unfolding CBS_get_optional_asn1_octet_string_def CBS_get_optional_asn1_uint64_def CBS_get_optional_asn1_bool_def
  by (intro in_bounds_intros)+

end
