(* ===== verification/Der.thy ===== *)
theory Der
  imports Cbs
begin

text \<open>
  What the readers of \<^verbatim>\<open>cbs.c\<close> accept. For every format there is an encoding function, written
  without reference to the reader, and the locale \<^verbatim>\<open>codec\<close> states the contract between the two: the reader
  accepts exactly the encodings of valid values, returns the value, and leaves the bytes behind
  the encoding. It is interpreted for the integers of fixed width in both byte orders, for
  length-prefixed bytes, base-128 integers, identifier and length octets, DER elements, and the ASN.1
  integers and Booleans. That no DER value has two encodings, and that none is the beginning of
  another one, are facts of the locale.
\<close>

section \<open>Codecs\<close>

text \<open>
  An encoding and its reader. The reader accepts exactly the encodings of valid values, and leaves
  what follows the encoding. So encodings are unique, and none is the beginning of another one.
\<close>

locale codec =
  fixes enc :: "'a \<Rightarrow> byte list"
    and dec :: "'a reader"
    and valid :: "'a \<Rightarrow> bool"
  assumes dec_enc: "valid x \<Longrightarrow> dec (enc x @ rest) = (Some x, rest)"
    and enc_dec: "dec cbs = (Some x, rest) \<Longrightarrow> valid x \<and> cbs = enc x @ rest"
begin

lemma dec_iff: "dec cbs = (Some x, rest) \<longleftrightarrow> valid x \<and> cbs = enc x @ rest"
  using dec_enc enc_dec by blast

lemma prefix_free: "valid x \<Longrightarrow> valid y \<Longrightarrow> enc x @ r = enc y @ s \<Longrightarrow> x = y \<and> r = s"
  using dec_enc by (metis option.inject prod.inject)

lemma dec_alone: "valid x \<Longrightarrow> dec (enc x) = (Some x, [])"
  using dec_enc [of x "[]"] by simp

lemma dec_fails: "fst (dec cbs) = None \<longleftrightarrow> (\<nexists>x rest. valid x \<and> cbs = enc x @ rest)"
proof
  assume "fst (dec cbs) = None"
  then show "\<nexists>x rest. valid x \<and> cbs = enc x @ rest"
    using dec_enc by auto
next
  assume none: "\<nexists>x rest. valid x \<and> cbs = enc x @ rest"
  show "fst (dec cbs) = None"
  proof (cases "fst (dec cbs)")
    case (Some x)
    then have "dec cbs = (Some x, snd (dec cbs))"
      by (metis prod.collapse)
    then show ?thesis
      using none enc_dec by blast
  qed
qed

lemma bind_enc: "valid x \<Longrightarrow> bind_reader dec f (enc x @ rest) = f x rest"
  by (simp add: bind_reader_def dec_enc)

end

text \<open>A reader for a sequence of two values, the second of which may depend on the first.\<close>

lemma bind_reader_SomeD:
  "bind_reader p f cbs = (Some y, rest) \<Longrightarrow> \<exists>x mid. p cbs = (Some x, mid) \<and> f x mid = (Some y, rest)"
  by (auto simp: bind_reader_def split: option.splits prod.splits)

lemma map_reader_Some_iff:
  "map_reader f p cbs = (Some y, rest) \<longleftrightarrow> (\<exists>x. p cbs = (Some x, rest) \<and> y = f x)"
  by (auto simp: map_reader_def bind_reader_def succeed_def split: option.splits prod.splits)

lemma cbs_get_Some_iff: "cbs_get n cbs = (Some bs, rest) \<longleftrightarrow> cbs = bs @ rest \<and> length bs = unat n"
  by (auto simp: cbs_get_def not_less min_def append_eq_conv_conj)

subsection \<open>Integers of fixed width\<close>

definition be_bytes :: "nat \<Rightarrow> 'a::len word \<Rightarrow> byte list" where
  "be_bytes n v = rev (bytes_of_word n v)"

lemma length_be_bytes [simp]: "length (be_bytes n v) = n"
  by (simp add: be_bytes_def)

lemma be_fold: "foldl (\<lambda>result b. push_bit 8 result OR ucast b) 0 bs = (word_of_bytes (rev bs) :: u64)"
  by (induction bs rule: rev_induct) (simp_all add: or.commute)

lemma cbs_get_u_Some_iff:
  "cbs_get_u n cbs = (Some v, rest) \<longleftrightarrow> (\<exists>bs. cbs = bs @ rest \<and> length bs = unat n \<and> v = word_of_bytes (rev bs))"
  by (auto simp: cbs_get_u_def map_reader_Some_iff cbs_get_Some_iff be_fold)

lemma word_of_bytes_narrow:
  "LENGTH('a) \<le> LENGTH('b) \<Longrightarrow> ucast (word_of_bytes bs :: 'b::len word) = (word_of_bytes bs :: 'a::len word)"
  by (rule bit_word_eqI) (auto simp: bit_word_of_bytes bit_simps)

lemma unat_word_of_bytes_less:
  "8 * length bs \<le> LENGTH('a) \<Longrightarrow> unat (word_of_bytes bs :: 'a::len word) < 2 ^ (8 * length bs)"
  by (simp flip: drop_bit_eq_0_iff_unat add: drop_bit_eq_0_iff bit_word_of_bytes)

lemma word_of_bytes_small:
  assumes "unat v < 2 ^ (8 * n)"
  shows "word_of_bytes (bytes_of_word n v) = (v :: 'a::len word)"
  by (rule bit_word_eqI) (use assms unat_less_imp_bit_less in \<open>auto simp: bit_word_of_bytes_bytes_of_word\<close>)

lemma codec_be:
  assumes "unat n = k" and "8 * k \<le> LENGTH('a)" and "LENGTH('a) \<le> 64"
  shows "codec (be_bytes k) (map_reader ucast (cbs_get_u n)) (\<lambda>v :: 'a::len word. unat v < 2 ^ (8 * k))"
proof
  have narrow: "ucast (word_of_bytes bs :: u64) = (word_of_bytes bs :: 'a word)" for bs
    using assms(3) by (intro word_of_bytes_narrow) simp
  fix x :: "'a word" and rest cbs
  {
    assume "unat x < 2 ^ (8 * k)"
    then show "map_reader ucast (cbs_get_u n) (be_bytes k x @ rest) = (Some x, rest)"
      using assms(1) by (auto simp: map_reader_Some_iff cbs_get_u_Some_iff narrow word_of_bytes_small be_bytes_def)
  next
    assume "map_reader ucast (cbs_get_u n) cbs = (Some x, rest)"
    then obtain bs where bs: "cbs = bs @ rest" "length bs = k" "x = word_of_bytes (rev bs)"
      using assms(1) by (auto simp: map_reader_Some_iff cbs_get_u_Some_iff narrow)
    moreover have "be_bytes k x = bs"
      using bytes_of_word_of_bytes [of "rev bs", where 'a = 'a] assms(2) bs(2,3) by (simp add: be_bytes_def)
    ultimately show "unat x < 2 ^ (8 * k) \<and> cbs = be_bytes k x @ rest"
      using unat_word_of_bytes_less [of "rev bs", where 'a = 'a] assms(2) by simp
  }
qed

lemma map_reader_ucast_id: "map_reader (ucast :: u64 \<Rightarrow> u64) p = p"
  by (rule ext) (simp add: map_reader_def bind_reader_def succeed_def split: option.splits prod.splits)

lemma codec_map:
  assumes "codec enc dec valid" and "\<And>x. f (g x) = x" and "\<And>y. g (f y) = y"
  shows "codec (\<lambda>x. enc (g x)) (map_reader f dec) (\<lambda>x. valid (g x))"
  by unfold_locales (use assms(2,3) in \<open>auto simp: map_reader_Some_iff codec.dec_iff [OF assms(1)]\<close>)

lemma all_words_small:
  "unat (v :: u16) < 65536" "unat (w :: u32) < 4294967296" "unat (x :: u64) < 18446744073709551616"
  using unsigned_less [of v] unsigned_less [of w] unsigned_less [of x] by simp_all

lemma be_le:
  "LENGTH('a) = 8 * n \<Longrightarrow> be_bytes n (word_of_bytes (rev (bytes_of_word n v)) :: 'a::len word) = bytes_of_word n v"
  using bytes_of_word_of_bytes [of "rev (bytes_of_word n v)", where 'a = 'a] by (simp add: be_bytes_def)

lemma swap_swap:
  "LENGTH('a) = 8 * n \<Longrightarrow>
   word_of_bytes (rev (bytes_of_word n (word_of_bytes (rev (bytes_of_word n v)) :: 'a::len word))) = (v :: 'a word)"
  using bytes_of_word_of_bytes [of "rev (bytes_of_word n v)", where 'a = 'a] by (simp add: word_of_bytes_of_word)

interpretation u8: codec "\<lambda>v. [v]" CBS_get_u8 "\<lambda>v. True"
  by unfold_locales (auto simp: CBS_get_u8_def map_reader_Some_iff cbs_get_Some_iff length_Suc_conv)

interpretation u16: codec "be_bytes 2" CBS_get_u16 "\<lambda>v. True"
  using codec_be [where n = 2 and k = 2 and 'a = 16] by (simp add: CBS_get_u16_def all_words_small)

interpretation u24: codec "be_bytes 3" CBS_get_u24 "\<lambda>v. unat v < 2 ^ 24"
  using codec_be [where n = 3 and k = 3 and 'a = 32] by (simp add: CBS_get_u24_def)

interpretation u32: codec "be_bytes 4" CBS_get_u32 "\<lambda>v. True"
  using codec_be [where n = 4 and k = 4 and 'a = 32] by (simp add: CBS_get_u32_def all_words_small)

interpretation u64: codec "be_bytes 8" CBS_get_u64 "\<lambda>v. True"
  using codec_be [where n = 8 and k = 8 and 'a = 64] by (simp add: CBS_get_u64_def map_reader_ucast_id all_words_small)

interpretation u16le: codec "bytes_of_word 2" CBS_get_u16le "\<lambda>v. True"
  using codec_map [OF u16.codec_axioms, of CRYPTO_bswap2 CRYPTO_bswap2]
  by (simp add: CBS_get_u16le_def CRYPTO_bswap2_def swap_swap be_le)

interpretation u32le: codec "bytes_of_word 4" CBS_get_u32le "\<lambda>v. True"
  using codec_map [OF u32.codec_axioms, of CRYPTO_bswap4 CRYPTO_bswap4]
  by (simp add: CBS_get_u32le_def CRYPTO_bswap4_def swap_swap be_le)

interpretation u64le: codec "bytes_of_word 8" CBS_get_u64le "\<lambda>v. True"
  using codec_map [OF u64.codec_axioms, of CRYPTO_bswap8 CRYPTO_bswap8]
  by (simp add: CBS_get_u64le_def CBS_get_u64_def CRYPTO_bswap8_def swap_swap be_le)

subsection \<open>Length-prefixed bytes\<close>

definition prefixed :: "nat \<Rightarrow> byte list \<Rightarrow> byte list" where
  "prefixed k bs = be_bytes k (of_nat (length bs) :: u64) @ bs"

lemma codec_prefixed:
  assumes "unat n = k" and "8 * k \<le> 64"
  shows "codec (prefixed k) (cbs_get_length_prefixed n) (\<lambda>bs. length bs < 2 ^ (8 * k))"
proof -
  have be: "codec (be_bytes k) (cbs_get_u n) (\<lambda>v :: u64. unat v < 2 ^ (8 * k))"
    using codec_be [where n = n and k = k and 'a = 64] assms by (simp add: map_reader_ucast_id)
  have pow: "(2 :: nat) ^ (8 * k) \<le> 2 ^ 64"
    using assms(2) by (intro power_increasing) simp_all
  show ?thesis
  proof
    fix bs rest :: cbs
    assume "length bs < 2 ^ (8 * k)"
    moreover from this have "unat (of_nat (length bs) :: u64) = length bs"
      using pow by (intro unat_of_nat_u64) linarith
    ultimately show "cbs_get_length_prefixed n (prefixed k bs @ rest) = (Some bs, rest)"
      using codec.bind_enc [OF be, of "of_nat (length bs)" CBS_get_bytes "bs @ rest"]
      by (simp add: cbs_get_length_prefixed_def prefixed_def CBS_get_bytes_def cbs_get_def)
  next
    fix cbs bs rest :: cbs
    assume "cbs_get_length_prefixed n cbs = (Some bs, rest)"
    then obtain len mid where "cbs_get_u n cbs = (Some len, mid)" "cbs_get len mid = (Some bs, rest)"
      by (auto simp: cbs_get_length_prefixed_def CBS_get_bytes_def dest!: bind_reader_SomeD)
    then show "length bs < 2 ^ (8 * k) \<and> cbs = prefixed k bs @ rest"
      using codec.enc_dec [OF be, of cbs len mid] by (auto simp: cbs_get_Some_iff prefixed_def)
  qed
qed

interpretation prefixed8: codec "prefixed 1" CBS_get_u8_length_prefixed "\<lambda>bs. length bs < 2 ^ 8"
  using codec_prefixed [of 1 1] by (simp add: CBS_get_u8_length_prefixed_def)

interpretation prefixed16: codec "prefixed 2" CBS_get_u16_length_prefixed "\<lambda>bs. length bs < 2 ^ 16"
  using codec_prefixed [of 2 2] by (simp add: CBS_get_u16_length_prefixed_def)

interpretation prefixed24: codec "prefixed 3" CBS_get_u24_length_prefixed "\<lambda>bs. length bs < 2 ^ 24"
  using codec_prefixed [of 3 3] by (simp add: CBS_get_u24_length_prefixed_def)

subsection \<open>Base-128 integers\<close>

text \<open>Seven bits a byte, most significant first, all bytes but the last with the top bit set.\<close>

fun base128_digits :: "nat \<Rightarrow> nat list" where
  "base128_digits n = (if n < 128 then [n] else base128_digits (n div 128) @ [n mod 128])"

declare base128_digits.simps [simp del]

fun base128_code :: "nat list \<Rightarrow> byte list" where
  "base128_code [] = []"
| "base128_code [d] = [of_nat d]"
| "base128_code (d # e # ds) = of_nat (d + 128) # base128_code (e # ds)"

definition base128 :: "u64 \<Rightarrow> byte list" where
  "base128 v = base128_code (base128_digits (unat v))"

definition base128_value :: "nat \<Rightarrow> nat list \<Rightarrow> nat" where
  "base128_value = foldl (\<lambda>a d. a * 128 + d)"

lemma base128_value_simps [simp]:
  "base128_value a [] = a" "base128_value a (d # ds) = base128_value (a * 128 + d) ds"
  "base128_value a (ds @ [d]) = base128_value a ds * 128 + d"
  by (simp_all add: base128_value_def)

lemma base128_value_mono: "a \<le> base128_value a ds"
proof (induction ds arbitrary: a)
  case (Cons d ds)
  then show ?case
    using order_trans [OF _ Cons [of "a * 128 + d"]] by simp
qed simp

lemma base128_digits_props:
  "base128_digits n \<noteq> []" "base128_value 0 (base128_digits n) = n" "\<forall>d \<in> set (base128_digits n). d < 128"
  by (induction n rule: base128_digits.induct; subst base128_digits.simps; auto)+

lemma base128_digits_head: "hd (base128_digits n) = 0 \<longleftrightarrow> n = 0"
proof (induction n rule: base128_digits.induct)
  case (1 n)
  show ?case
    using 1 base128_digits_props(1) by (subst base128_digits.simps) (auto simp: div_eq_0_iff)
qed

lemma base128_digits_unique:
  "ds \<noteq> [] \<Longrightarrow> \<forall>d \<in> set ds. d < 128 \<Longrightarrow> hd ds \<noteq> 0 \<or> length ds = 1 \<Longrightarrow> base128_digits (base128_value 0 ds) = ds"
proof (induction ds rule: rev_induct)
  case (snoc d ds)
  show ?case
  proof (cases "ds = []")
    case True
    then show ?thesis
      using snoc.prems by (simp add: base128_digits.simps)
  next
    case False
    then obtain e es where es: "ds = e # es"
      by (cases ds) auto
    have "0 < e"
      using snoc.prems es by simp
    then have "0 < base128_value 0 ds"
      using base128_value_mono [of e es] by (simp add: es)
    moreover have "base128_digits (base128_value 0 ds) = ds"
      using snoc.IH snoc.prems False by (simp add: es)
    ultimately show ?thesis
      using snoc.prems(2) by (subst base128_digits.simps) simp
  qed
qed simp

text \<open>One step of the loop as arithmetic.\<close>

lemma base128_step:
  fixes v :: u64 and b :: byte
  assumes "drop_bit 57 v = 0"
  shows "unat (push_bit 7 v OR (ucast b AND 0x7f)) = unat v * 128 + unat b mod 128"
proof -
  have low: "(ucast b AND 0x7f :: u64) = take_bit 7 (ucast b)"
    by (simp add: take_bit_eq_mask mask_eq_exp_minus_1)
  have "push_bit 7 v OR (ucast b AND 0x7f) = push_bit 7 v + (ucast b AND 0x7f)"
    by (rule disjunctive_add_eq_or [symmetric]) (auto intro!: bit_word_eqI simp: low word_bits)
  moreover have "unat v < 2 ^ 57"
    using assms by (simp add: drop_bit_eq_0_iff_unat)
  moreover have "unat (take_bit 7 (ucast b :: u64)) = unat b mod 128"
    by (simp only: unsigned_take_bit_eq) (simp add: take_bit_eq_mod)
  ultimately show ?thesis
    by (simp add: low push_bit_eq_mult unat_word_ariths)
qed

lemma base128_byte: "d < 128 \<Longrightarrow> unat (of_nat (d + 128) :: byte) = d + 128" "d < 128 \<Longrightarrow> unat (of_nat d :: byte) = d"
  by (simp_all only: unat_of_nat) simp_all

lemma byte_high_iff: "b AND 0x80 = 0 \<longleftrightarrow> unat b < 128" for b :: byte
proof -
  have "b AND 0x80 = 0 \<longleftrightarrow> (\<forall>n. bit b n \<longrightarrow> n < 7)"
    proof -
    have "n < 7" if "bit b n" "\<not> bit b 7" for n
    proof -
      have "n < 8" "n \<noteq> 7"
        using bit_imp_le_length [OF that(1)] that by auto
      then show ?thesis
        by simp
    qed
    then show ?thesis
      unfolding and_0x80_eq_0_iff by auto
  qed
  then show ?thesis
    using drop_bit_eq_0_iff [of 7 b] drop_bit_eq_0_iff_unat [of 7 b] by simp
qed

lemma base128_loop_code:
  "\<forall>d \<in> set ds. d < 128 \<Longrightarrow> ds \<noteq> [] \<Longrightarrow> base128_value (unat v) ds < 2 ^ 64 \<Longrightarrow>
   v \<noteq> 0 \<or> hd ds \<noteq> 0 \<or> length ds = 1 \<Longrightarrow>
   base128_loop v (base128_code ds @ rest) = (Some (of_nat (base128_value (unat v) ds)), rest)"
proof (induction ds arbitrary: v rule: base128_code.induct)
  case (2 d)
  have "unat v < 2 ^ 57" "d < 128"
    using 2 by simp_all
  then have d0: "drop_bit 57 v = 0"
    by (simp add: drop_bit_eq_0_iff_unat)
  have b: "unat (of_nat d :: byte) = d"
    using base128_byte(2) [OF \<open>d < 128\<close>] .
  let ?w = "push_bit 7 v OR (ucast (of_nat d :: byte) AND 0x7f)"
  have w: "unat ?w = unat v * 128 + d"
    using base128_step [OF d0, of "of_nat d"] \<open>d < 128\<close> b by simp
  have "?w = of_nat (unat ?w)"
    by simp
  then have "?w = of_nat (unat v * 128 + d)"
    by (simp only: w)
  moreover have "(of_nat d :: byte) AND 0x80 = 0" "(of_nat d :: byte) \<noteq> 0x80"
    using b \<open>d < 128\<close> by (auto simp: byte_high_iff)
  ultimately show ?case
    using d0 by simp
next
  case (3 d e ds)
  have d: "d < 128"
    using 3 by simp
  have "unat v * 128 + d \<le> base128_value (unat v) (d # e # ds)"
    using base128_value_mono [of "unat v * 128 + d" "e # ds"] by simp
  moreover have "(unat v * 128 + d) * 128 \<le> base128_value (unat v) (d # e # ds)"
    using base128_value_mono [of "(unat v * 128 + d) * 128 + e" ds] by simp
  ultimately have "unat v < 2 ^ 57"
    using 3(4) by simp
  then have d0: "drop_bit 57 v = 0"
    by (simp add: drop_bit_eq_0_iff_unat)
  have b: "unat (of_nat (d + 128) :: byte) = d + 128"
    using base128_byte(1) [OF d] .
  let ?w = "push_bit 7 v OR (ucast (of_nat (d + 128) :: byte) AND 0x7f)"
  have w: "unat ?w = unat v * 128 + d"
    using base128_step [OF d0, of "of_nat (d + 128)"] d b by simp
  have "unat v \<noteq> 0 \<or> d \<noteq> 0"
    using 3(5) by (auto simp: unat_eq_zero)
  then have "?w \<noteq> 0" and "\<not> (v = 0 \<and> of_nat (d + 128) = (0x80 :: byte))"
    using w b by (auto simp del: of_nat_add)
  moreover have "(of_nat (d + 128) :: byte) AND 0x80 \<noteq> 0"
    using b by (simp add: byte_high_iff del: of_nat_add)
  moreover have "base128_loop ?w (base128_code (e # ds) @ rest) = (Some (of_nat (base128_value (unat ?w) (e # ds))), rest)"
    using 3 \<open>?w \<noteq> 0\<close> w by (intro 3(1)) simp_all
  ultimately show ?case
    using d0 w by (simp add: Let_def del: of_nat_add)
qed simp

lemma base128_loop_accepts:
  "base128_loop v cbs = (Some w, rest) \<Longrightarrow>
   \<exists>ds. cbs = base128_code ds @ rest \<and> ds \<noteq> [] \<and> (\<forall>d \<in> set ds. d < 128) \<and> unat w = base128_value (unat v) ds \<and>
     (v \<noteq> 0 \<or> hd ds \<noteq> 0 \<or> length ds = 1)"
proof (induction v cbs rule: base128_loop.induct)
  case (2 v b cbs)
  have d0: "drop_bit 57 v = 0" and nz: "\<not> (v = 0 \<and> b = 0x80)"
    using 2(2) by (auto split: if_splits)
  let ?w = "push_bit 7 v OR (ucast b AND 0x7f)"
  have w: "unat ?w = unat v * 128 + unat b mod 128"
    by (rule base128_step [OF d0])
  show ?case
  proof (cases "b AND 0x80 = 0")
    case True
    then have "unat b < 128"
      by (simp add: byte_high_iff)
    moreover have "w = ?w" "cbs = rest"
      using 2(2) d0 nz True by (simp_all add: Let_def)
    ultimately show ?thesis
      using w by (intro exI [of _ "[unat b]"]) simp
  next
    case False
    then have "base128_loop ?w cbs = (Some w, rest)"
      using 2(2) d0 nz by (simp add: Let_def)
    then obtain ds where
      ds: "cbs = base128_code ds @ rest" "ds \<noteq> []" "\<forall>d \<in> set ds. d < 128" "unat w = base128_value (unat ?w) ds"
      using 2(1) [OF _ nz refl False] d0 by blast
    have "128 \<le> unat b" "unat b < 256"
      using False unsigned_less [of b] by (simp_all add: byte_high_iff not_less)
    then have b: "128 \<le> unat b" "unat b mod 128 = unat b - 128"
      by (simp_all add: le_mod_geq)
    then have code: "base128_code ((unat b - 128) # ds) = b # base128_code ds"
      using ds(2) by (cases ds) simp_all
    have "v \<noteq> 0 \<or> unat b - 128 \<noteq> 0"
      using nz b(1) by (auto simp: word_unat_eq_iff)
    then show ?thesis
      using ds w code b by (intro exI [of _ "(unat b - 128) # ds"]) auto
  qed
qed simp

interpretation base128: codec base128 parse_base128_integer "\<lambda>v. True"
proof
  fix v rest
  show "parse_base128_integer (base128 v @ rest) = (Some v, rest)"
    using base128_loop_code [of "base128_digits (unat v)" 0 rest] base128_digits_props [of "unat v"] base128_digits_head [of "unat v"]
      unsigned_less [of v]
    by (auto simp: parse_base128_integer_def base128_def base128_digits.simps [of 0])
next
  fix cbs v rest
  assume "parse_base128_integer cbs = (Some v, rest)"
  then obtain ds where ds: "cbs = base128_code ds @ rest" "ds \<noteq> []" "\<forall>d \<in> set ds. d < 128" "unat v = base128_value 0 ds"
      "hd ds \<noteq> 0 \<or> length ds = 1"
    using base128_loop_accepts [of 0 cbs v rest] by (auto simp: parse_base128_integer_def)
  then show "True \<and> cbs = base128 v @ rest"
    using base128_digits_unique [of ds] by (simp add: base128_def)
qed

subsection \<open>Tags\<close>

lemma read_u8 [simp]:
  "bind_reader CBS_get_u8 f (b # rest) = f b rest" "CBS_get_u8 (b # rest) = (Some b, rest)" "CBS_get_u8 [] = (None, [])"
  by (simp_all add: CBS_get_u8_def map_reader_def bind_reader_def cbs_get_def succeed_def)

definition tag_class :: "CBS_ASN1_TAG \<Rightarrow> byte" where
  "tag_class t = ucast (drop_bit 24 t) AND 0xe0"

definition tag_number :: "CBS_ASN1_TAG \<Rightarrow> u32" where
  "tag_number t = t AND CBS_ASN1_TAG_NUMBER_MASK"

definition tag_valid :: "CBS_ASN1_TAG \<Rightarrow> bool" where
  "tag_valid t \<longleftrightarrow> t AND NOT CBS_ASN1_CONSTRUCTED \<noteq> 0"

definition tag_code :: "CBS_ASN1_TAG \<Rightarrow> byte list" where
  "tag_code t =
     (if tag_number t < 0x1f then [tag_class t OR ucast (tag_number t)]
      else (tag_class t OR 0x1f) # base128 (ucast (tag_number t)))"

lemma tag_masks:
  "(0xe0 :: byte) = push_bit 5 (mask 3)" "(0xe0 :: u32) = push_bit 5 (mask 3)" "(0x1f :: byte) = mask 5"
  "(0x1f :: u32) = mask 5" "CBS_ASN1_TAG_NUMBER_MASK = mask 29"
  by (simp_all add: mask_eq_exp_minus_1 CBS_ASN1_TAG_NUMBER_MASK_def)

lemma tag_number_less: "unat (tag_number t) < 2 ^ 29"
  unfolding drop_bit_eq_0_iff_unat [symmetric] drop_bit_eq_0_iff
  by (simp add: tag_number_def tag_masks word_bits)

lemma unat_ucast_narrow: "unat w < 2 ^ LENGTH('b) \<Longrightarrow> unat (ucast w :: 'b::len word) = unat w" for w :: "'a::len word"
  by (simp add: unsigned_ucast_eq unsigned_take_bit_eq take_bit_nat_eq_self)

lemma tag_byte_number:
  assumes "unat x < 2 ^ 5"
  shows "(tag_class t OR x) AND 0x1f = x" "(tag_class t OR x) AND 0xe0 = tag_class t"
  by (rule bit_word_eqI; auto simp: tag_class_def tag_masks word_bits not_less dest: unat_less_imp_bit_less [OF assms])+

lemma tag_join: "push_bit 24 (ucast (tag_class t) AND 0xe0) OR tag_number t = t"
proof (rule bit_word_eqI)
  fix n
  assume n: "n < LENGTH(32)"
  show "bit (push_bit 24 (ucast (tag_class t) AND 0xe0) OR tag_number t) n \<longleftrightarrow> bit t n"
    using n by (cases "n < 29") (auto simp: tag_class_def tag_number_def tag_masks word_bits)
qed

lemma ucast_and_e0: "(ucast (b :: byte) :: u32) AND 0xe0 = ucast (b AND 0xe0)"
  by (rule bit_word_eqI) (auto simp: tag_masks word_bits)

lemma tag_class_idem [simp]: "tag_class t AND 0xe0 = tag_class t"
  by (simp add: tag_class_def and.assoc)

lemma tag_joined:
  assumes "unat num < 2 ^ 29"
  shows "tag_class (push_bit 24 (ucast (b :: byte) AND 0xe0) OR num) = b AND 0xe0"
    and "tag_number (push_bit 24 (ucast (b :: byte) AND 0xe0) OR num) = num"
  by (rule bit_word_eqI; auto simp: tag_class_def tag_number_def tag_masks word_bits dest: unat_less_imp_bit_less [OF assms])+

lemma tag_byte_split: "(b AND 0xe0) OR (b AND 0x1f) = b" for b :: byte
  by (rule bit_word_eqI) (auto simp: tag_masks word_bits not_less)

lemma unat_ucast_number: "unat (ucast (tag_number t) :: byte) = unat (tag_number t)" if "tag_number t < 0x1f"
  using that by (intro unat_ucast_narrow) (simp add: word_less_nat_alt)

interpretation tag: codec tag_code parse_asn1_tag tag_valid
proof
  fix t rest
  assume t: "tag_valid t"
  show "parse_asn1_tag (tag_code t @ rest) = (Some t, rest)"
  proof (cases "tag_number t < 0x1f")
    case True
    let ?x = "ucast (tag_number t) :: byte"
    have x: "unat ?x = unat (tag_number t)" "unat ?x < 31"
      using unat_ucast_number [OF True] True by (simp_all add: word_less_nat_alt)
    then have "ucast ?x = tag_number t" "?x \<noteq> 0x1f"
      by (auto simp: word_unat_eq_iff)
    then show ?thesis
      using t True x tag_byte_number [of ?x t] tag_join [of t]
      by (simp add: parse_asn1_tag_def read_u8 base128.bind_enc tag_code_def Let_def ucast_and_e0 tag_valid_def succeed_def)
  next
    case False
    have "ucast (ucast (tag_number t) :: u64) = tag_number t"
      by (rule bit_word_eqI) (simp add: word_bits)
    then show ?thesis
      using t False tag_byte_number [of "0x1f" t] tag_join [of t]
        tag_number_less [of t]
      by (auto simp: parse_asn1_tag_def read_u8 base128.bind_enc tag_code_def Let_def ucast_and_e0 tag_valid_def succeed_def
          word_less_nat_alt CBS_ASN1_TAG_NUMBER_MASK_def)
  qed
next
  fix cbs t rest
  assume "parse_asn1_tag cbs = (Some t, rest)"
  then obtain b mid where b: "cbs = b # mid" and
    rest: "(let class_bits = push_bit 24 ((ucast b :: u32) AND 0xe0);
           finish = (\<lambda>tag_number.
             (let tag = class_bits OR tag_number in
              if tag AND NOT CBS_ASN1_CONSTRUCTED = 0 then reject else succeed tag))
       in if b AND 0x1f = 0x1f then
            bind_reader parse_base128_integer (\<lambda>v.
              if v > ucast CBS_ASN1_TAG_NUMBER_MASK \<or> v < 0x1f then reject else finish (ucast v))
          else finish (ucast (b AND 0x1f))) mid = (Some t, rest)"
    unfolding parse_asn1_tag_def using u8.enc_dec by (fastforce dest!: bind_reader_SomeD)
  show "tag_valid t \<and> cbs = tag_code t @ rest"
  proof (cases "b AND 0x1f = 0x1f")
    case True
    then obtain v where v: "mid = base128 v @ rest" "\<not> v > ucast CBS_ASN1_TAG_NUMBER_MASK" "\<not> v < 0x1f"
        "tag_valid t" "t = push_bit 24 (ucast b AND 0xe0) OR ucast v"
      using rest base128.enc_dec by (fastforce simp: Let_def succeed_def reject_def tag_valid_def split: if_splits dest!: bind_reader_SomeD)
    have "unat v < 2 ^ 29"
      using v(2) by (simp add: word_less_nat_alt CBS_ASN1_TAG_NUMBER_MASK_def)
    then have u: "unat (ucast v :: u32) = unat v"
      by (intro unat_ucast_narrow) simp
    then have n: "tag_class t = b AND 0xe0" "tag_number t = ucast v"
      using tag_joined [of "ucast v" b] \<open>unat v < 2 ^ 29\<close> by (simp_all add: v(5))
    have "ucast (ucast v :: u32) = v"
      using u by (simp add: word_unat_eq_iff)
    moreover have "\<not> tag_number t < 0x1f"
      using v(3) u by (simp add: n word_less_nat_alt)
    ultimately show ?thesis
      using v(1,4) tag_byte_split [of b] True by (simp add: tag_code_def n b)
  next
    case False
    then have t: "tag_valid t" "t = push_bit 24 (ucast b AND 0xe0) OR ucast (b AND 0x1f)" "mid = rest"
      using rest by (auto simp: Let_def succeed_def reject_def tag_valid_def split: if_splits)
    have "b AND 0x1f = take_bit 5 b"
      by (simp add: tag_masks take_bit_eq_mask)
    then have less: "unat (b AND 0x1f) < 2 ^ 5"
      by (simp only: unsigned_take_bit_eq) (simp add: take_bit_eq_mod)
    then have "unat (b AND 0x1f) < 31"
      using False by (auto simp: word_unat_eq_iff)
    moreover have "tag_class t = b AND 0xe0" "tag_number t = ucast (b AND 0x1f)"
      using tag_joined [of "ucast (b AND 0x1f)" b] less by (simp_all add: t(2))
    moreover have "ucast (ucast (b AND 0x1f) :: u32) = b AND 0x1f"
      by (rule bit_word_eqI) (auto simp: word_bits)
    ultimately show ?thesis
      using t(1,3) tag_byte_split [of b] by (simp add: tag_code_def b word_less_nat_alt)
  qed
qed

subsection \<open>DER elements\<close>

text \<open>The length octets of DER: the short form below 128, otherwise the fewest bytes.\<close>

definition length_octets :: "nat \<Rightarrow> nat" where
  "length_octets n = (if n < 2 ^ 8 then 1 else if n < 2 ^ 16 then 2 else if n < 2 ^ 24 then 3 else 4)"

definition der_length :: "nat \<Rightarrow> byte list" where
  "der_length n =
     (if n < 128 then [of_nat n]
      else of_nat (128 + length_octets n) # be_bytes (length_octets n) (of_nat n :: u64))"

text \<open>The part of the element reader that reads the length, on its own.\<close>

definition read_length :: "nat reader" where
  "read_length = bind_reader CBS_get_u8 (\<lambda>length_byte.
     if length_byte AND 0x80 = 0 then succeed (unat length_byte)
     else
       (let num_bytes = (ucast (length_byte AND 0x7f) :: size_t) in
        if num_bytes = 0 \<or> num_bytes > 4 then reject
        else bind_reader (cbs_get_u num_bytes) (\<lambda>len64.
          if len64 < 128 \<or> drop_bit (unat ((num_bytes - 1) * 8)) len64 = 0 then reject else succeed (unat len64))))"

lemma length_octets_minimal:
  assumes "n < 2 ^ 32" and "1 \<le> k" and "k \<le> 4" and "n < 2 ^ (8 * k)" and "128 \<le> n"
  shows "n div 2 ^ (8 * (k - 1)) \<noteq> 0 \<longleftrightarrow> length_octets n = k"
proof -
  have "k = 1 \<or> k = 2 \<or> k = 3 \<or> k = 4"
    using assms(2,3) by auto
  then show ?thesis
    using assms(1,4,5) by (auto simp: length_octets_def div_eq_0_iff)
qed

lemma length_octets_less: "n < 2 ^ 32 \<Longrightarrow> n < 2 ^ (8 * length_octets n)"
  by (auto simp: length_octets_def)

lemma length_octets_range: "1 \<le> length_octets n" "length_octets n \<le> 4"
  by (auto simp: length_octets_def)

lemma byte_low: "unat (b AND 0x7f) = unat b mod 128" for b :: byte
proof -
  have "b AND 0x7f = take_bit 7 b"
    by (simp add: take_bit_eq_mask mask_eq_exp_minus_1)
  then show ?thesis
    by (simp only: unsigned_take_bit_eq) (simp add: take_bit_eq_mod)
qed

lemma shift_amount: "1 \<le> k \<Longrightarrow> k \<le> 4 \<Longrightarrow> unat ((of_nat k - 1) * 8 :: u64) = 8 * (k - 1)"
proof -
  assume "1 \<le> k" "k \<le> 4"
  then have "k = 1 \<or> k = 2 \<or> k = 3 \<or> k = 4"
    by auto
  then show ?thesis
    by auto
qed

lemma length_byte_long:
  assumes "k \<le> 127"
  shows "(of_nat (128 + k) :: byte) AND 0x80 \<noteq> 0" "ucast ((of_nat (128 + k) :: byte) AND 0x7f) = (of_nat k :: u64)"
proof -
  have u: "unat (of_nat (128 + k) :: byte) = 128 + k"
    using assms by (simp only: unat_of_nat) simp
  show "(of_nat (128 + k) :: byte) AND 0x80 \<noteq> 0"
    using u by (simp add: byte_high_iff del: of_nat_add)
  have "unat ((of_nat (128 + k) :: byte) AND 0x7f) = (128 + k) mod 128"
    by (simp only: byte_low u)
  then have "unat ((of_nat (128 + k) :: byte) AND 0x7f) = k"
    using assms by simp
  then show "ucast ((of_nat (128 + k) :: byte) AND 0x7f) = (of_nat k :: u64)"
    using assms by (simp add: word_unat_eq_iff unat_of_nat)
qed

lemma length_byte_split:
  fixes lb :: byte
  assumes "lb AND 0x80 \<noteq> 0"
  shows "lb = of_nat (128 + unat (lb AND 0x7f))"
proof -
  have "unat (lb AND 0x7f) = unat lb mod 128"
    by (rule byte_low)
  moreover have "128 \<le> unat lb" "unat lb < 256"
    using assms unsigned_less [of lb] by (simp_all add: byte_high_iff not_less)
  ultimately have "128 + unat (lb AND 0x7f) = unat lb"
    by (simp add: le_mod_geq)
  then show ?thesis
    by simp
qed

lemma codec_u:
  "k \<le> 8 \<Longrightarrow> unat n = k \<Longrightarrow> codec (be_bytes k) (cbs_get_u n) (\<lambda>v :: u64. unat v < 2 ^ (8 * k))"
  using codec_be [where n = n and k = k and 'a = 64] by (simp add: map_reader_ucast_id)

interpretation der_len: codec der_length read_length "\<lambda>n. n < 2 ^ 32"
proof
  fix n rest
  assume n: "n < (2 :: nat) ^ 32"
  show "read_length (der_length n @ rest) = (Some n, rest)"
  proof (cases "n < 128")
    case True
    then have "unat (of_nat n :: byte) = n"
      by (rule base128_byte(2))
    then show ?thesis
      using True by (simp add: der_length_def read_length_def byte_high_iff succeed_def)
  next
    case False
    let ?k = "length_octets n"
    have k: "1 \<le> ?k" "?k \<le> 4" "n < 2 ^ (8 * ?k)" "n div 2 ^ (8 * (?k - 1)) \<noteq> 0"
      using length_octets_range [of n] length_octets_less [OF n] length_octets_minimal [of n ?k] n False by auto
    have uk: "unat (of_nat ?k :: u64) = ?k"
      using k(2) by (intro unat_of_nat_u64) simp
    have un: "unat (of_nat n :: u64) = n"
      using n by (intro unat_of_nat_u64) simp
    have "unat ((of_nat ?k - 1) * 8 :: u64) = 8 * (?k - 1)"
      using k(1,2) by (rule shift_amount)
    then have "drop_bit (unat ((of_nat ?k - 1) * 8 :: u64)) (of_nat n :: u64) \<noteq> 0"
      using k(4) un by (simp add: drop_bit_eq_0_iff_unat div_eq_0_iff)
    moreover have "\<not> (of_nat n :: u64) < 128"
      using un False by (simp add: word_less_nat_alt)
    moreover have "(of_nat ?k :: u64) \<noteq> 0" "\<not> (of_nat ?k :: u64) > 4"
      using uk k by (auto simp: word_less_nat_alt)
    moreover have "8 * ?k \<le> 64" "unat (of_nat n :: u64) < 2 ^ (8 * ?k)"
      using k un by auto
    ultimately show ?thesis
      using False un length_byte_long [of ?k] k codec.dec_enc [OF codec_u [OF _ uk], of "of_nat n"]
      by (simp add: der_length_def read_length_def bind_reader_def Let_def succeed_def del: of_nat_add)
  qed
next
  fix cbs n rest
  assume "read_length cbs = (Some n, rest)"
  then obtain lb mid where cbs: "cbs = lb # mid" and
    r: "(if lb AND 0x80 = 0 then succeed (unat lb)
     else
       (let num_bytes = (ucast (lb AND 0x7f) :: size_t) in
        if num_bytes = 0 \<or> num_bytes > 4 then reject
        else bind_reader (cbs_get_u num_bytes) (\<lambda>len64.
          if len64 < 128 \<or> drop_bit (unat ((num_bytes - 1) * 8)) len64 = 0 then reject else succeed (unat len64)))) mid
      = (Some n, rest)"
    unfolding read_length_def using u8.enc_dec by (fastforce dest!: bind_reader_SomeD)
  show "n < 2 ^ 32 \<and> cbs = der_length n @ rest"
  proof (cases "lb AND 0x80 = 0")
    case True
    then show ?thesis
      using r by (auto simp: succeed_def cbs byte_high_iff der_length_def)
  next
    case False
    let ?nb = "ucast (lb AND 0x7f) :: u64"
    let ?k = "unat (lb AND 0x7f)"
    from r False obtain v where nb: "?nb \<noteq> 0" "\<not> ?nb > 4" and v: "cbs_get_u ?nb mid = (Some v, rest)" "\<not> v < 128"
        "drop_bit (unat ((?nb - 1) * 8)) v \<noteq> 0" "n = unat v"
      by (fastforce simp: Let_def succeed_def reject_def split: if_splits dest!: bind_reader_SomeD)
    have k: "1 \<le> ?k" "?k \<le> 4" "unat ?nb = ?k"
      using nb by (auto simp: word_less_nat_alt word_unat_eq_iff)
    have enc: "n < 2 ^ (8 * ?k)" "mid = be_bytes ?k v @ rest"
      using codec.enc_dec [OF codec_u [of ?k ?nb], of mid v rest] k v by auto
    have "unat ((?nb - 1) * 8) = 8 * (?k - 1)"
    proof -
      have "?nb = of_nat ?k"
        using k(2) by (simp add: word_unat_eq_iff unat_of_nat)
      then show ?thesis
        using shift_amount [OF k(1,2)] by (simp only:)
    qed
    then have "n div 2 ^ (8 * (?k - 1)) \<noteq> 0"
      using v(3,4) by (simp add: drop_bit_eq_0_iff_unat div_eq_0_iff)
    moreover have n: "n < 2 ^ 32" "128 \<le> n"
    proof -
      have "(2 :: nat) ^ (8 * ?k) \<le> 2 ^ 32"
        using k(2) by (intro power_increasing) simp_all
      then show "n < 2 ^ 32" "128 \<le> n"
        using enc(1) v(2,4) by (simp_all add: word_less_nat_alt)
    qed
    ultimately have "length_octets n = ?k"
      using length_octets_minimal [OF n(1) k(1,2) enc(1) n(2)] by simp
    then show ?thesis
      using n enc(2) length_byte_split [OF False] v(4) by (simp add: der_length_def cbs)
  qed
qed

definition der :: "CBS_ASN1_TAG \<times> cbs \<Rightarrow> byte list" where
  "der el = tag_code (fst el) @ der_length (length (snd el)) @ snd el"

definition der_valid :: "CBS_ASN1_TAG \<times> cbs \<Rightarrow> bool" where
  "der_valid el \<longleftrightarrow> tag_valid (fst el) \<and> length (snd el) < 2 ^ 32"

definition der_header_len :: "CBS_ASN1_TAG \<times> cbs \<Rightarrow> nat" where
  "der_header_len el = length (tag_code (fst el)) + length (der_length (length (snd el)))"

lemma base128_digits_length: "n < 128 ^ k \<Longrightarrow> 0 < k \<Longrightarrow> length (base128_digits n) \<le> k"
proof (induction n arbitrary: k rule: base128_digits.induct)
  case (1 n)
  show ?case
  proof (cases "n < 128")
    case True
    then show ?thesis
      using 1(3) by (simp add: base128_digits.simps)
  next
    case False
    then have "1 < k"
      using 1(2,3) by (cases "k = 1") auto
    then obtain j where j: "k = Suc j" "0 < j"
      by (cases k) auto
    then have "n div 128 < 128 ^ j"
      using 1(2) by (simp add: less_mult_imp_div_less mult.commute)
    then show ?thesis
      using 1(1) [OF False _ j(2)] False j(1) by (subst base128_digits.simps) simp
  qed
qed

lemma length_base128_code [simp]: "length (base128_code ds) = length ds"
  by (induction ds rule: base128_code.induct) simp_all

lemma length_tag_code: "1 \<le> length (tag_code t)" "length (tag_code t) \<le> 11"
  using base128_digits_length [of "unat (tag_number t)" 10] unat_u32_less [of "tag_number t"]
  by (auto simp: tag_code_def base128_def)

lemma length_der_length: "length (der_length n) = (if n < 128 then 1 else 1 + length_octets n)"
  by (simp add: der_length_def)

lemma der_header_len_small: "der_header_len el \<le> 16" "2 \<le> der_header_len el"
  using length_tag_code [of "fst el"] length_octets_range [of "length (snd el)"]
  by (simp_all add: der_header_len_def length_der_length split: if_splits)

text \<open>The DER reader is the tag reader, the length reader, and the check that the contents are there.\<close>

lemma header_len_diff: "CBS_len (xs @ ys) - CBS_len ys = of_nat (length xs)"
  by (simp add: CBS_len_def)

lemma cbs_get_u_rest: "cbs_get_u n cbs = (Some v, rest) \<Longrightarrow> CBS_len cbs = n + CBS_len rest"
  by (auto simp: cbs_get_u_Some_iff CBS_len_def)

lemma element_eq:
  "CBS_get_any_asn1_element cbs =
     (case parse_asn1_tag cbs of
        (None, _) \<Rightarrow> (None, cbs)
      | (Some t, h1) \<Rightarrow>
          (case read_length h1 of
             (None, _) \<Rightarrow> (None, cbs)
           | (Some n, h2) \<Rightarrow>
               map_reader (\<lambda>out. \<lparr>el_bytes = out, el_tag = t, el_header_len = CBS_len cbs - CBS_len h2,
                   el_ber_found = False, el_indefinite = False\<rparr>)
                 (cbs_get (of_nat n + (CBS_len cbs - CBS_len h2))) cbs))"
proof (cases "fst (parse_asn1_tag cbs)")
  case None
  then show ?thesis
    by (auto simp: CBS_get_any_asn1_element_def cbs_get_any_asn1_element_def split: option.splits prod.splits)
next
  case (Some t)
  then obtain h1 where tag: "parse_asn1_tag cbs = (Some t, h1)"
    by (metis prod.collapse)
  then have cbs: "cbs = tag_code t @ h1"
    using tag.enc_dec by blast
  show ?thesis
  proof (cases h1)
    case Nil
    then show ?thesis
      by (simp add: tag CBS_get_any_asn1_element_def cbs_get_any_asn1_element_def read_length_def bind_reader_def)
  next
    case (Cons lb h2)
    let ?nb = "ucast (lb AND 0x7f) :: u64"
    have hl: "CBS_len cbs - CBS_len h2 = of_nat (length (tag_code t) + 1)"
      using header_len_diff [of "tag_code t @ [lb]" h2] by (simp add: cbs Cons)
    show ?thesis
    proof (cases "lb AND 0x80 \<noteq> 0 \<and> ?nb \<noteq> 0 \<and> \<not> ?nb > 4 \<and> fst (cbs_get_u ?nb h2) \<noteq> None")
      case False
      then show ?thesis
        by (auto simp: tag Cons CBS_get_any_asn1_element_def cbs_get_any_asn1_element_def read_length_def Let_def
            succeed_def reject_def bind_reader_def CBS_get_bytes_def split: option.splits prod.splits)
    next
      case True
      then obtain v h3 where v: "cbs_get_u ?nb h2 = (Some v, h3)"
        by (metis option.exhaust_sel prod.collapse)
      have nb: "unat ?nb \<le> 4"
        using True by (simp add: word_less_nat_alt)
      have len3: "CBS_len h2 = ?nb + CBS_len h3"
        by (rule cbs_get_u_rest [OF v])
      then have hl3: "CBS_len cbs - CBS_len h3 = CBS_len cbs - CBS_len h2 + ?nb"
        by simp
      have "unat v < 2 ^ (8 * unat ?nb)"
        using codec.enc_dec [OF codec_u [OF _ refl], of ?nb h2 v h3] v nb by simp
      moreover have "(2 :: nat) ^ (8 * unat ?nb) \<le> 2 ^ 32"
        using nb by (intro power_increasing) simp_all
      ultimately have "unat v < 2 ^ 32"
        by linarith
      moreover have "unat (of_nat (length (tag_code t) + 1) :: u64) = length (tag_code t) + 1"
        using length_tag_code(2) [of t] by (intro unat_of_nat_u64) simp
      ultimately have "\<not> v + (CBS_len cbs - CBS_len h2) + ?nb < v"
        using nb length_tag_code(2) [of t] by (simp add: hl word_less_nat_alt unat_word_ariths del: of_nat_add)
      then show ?thesis
        using True v
        by (simp add: tag Cons CBS_get_any_asn1_element_def cbs_get_any_asn1_element_def read_length_def Let_def
            succeed_def reject_def bind_reader_def CBS_get_bytes_def hl3 [unfolded Cons])
    qed
  qed
qed

definition der_element :: "CBS_ASN1_TAG \<times> cbs \<Rightarrow> asn1_element" where
  "der_element el = \<lparr>el_bytes = der el, el_tag = fst el, el_header_len = of_nat (der_header_len el),
     el_ber_found = False, el_indefinite = False\<rparr>"

lemma length_der: "length (der el) = der_header_len el + length (snd el)"
  by (simp add: der_def der_header_len_def)

lemma element_iff:
  "CBS_get_any_asn1_element cbs = (Some e, rest) \<longleftrightarrow>
   (\<exists>el. der_valid el \<and> cbs = der el @ rest \<and> e = der_element el)"
proof
  assume "CBS_get_any_asn1_element cbs = (Some e, rest)"
  then obtain t h1 n h2 out where p: "parse_asn1_tag cbs = (Some t, h1)" "read_length h1 = (Some n, h2)"
      "cbs_get (of_nat n + (CBS_len cbs - CBS_len h2)) cbs = (Some out, rest)"
      "e = \<lparr>el_bytes = out, el_tag = t, el_header_len = CBS_len cbs - CBS_len h2, el_ber_found = False, el_indefinite = False\<rparr>"
    by (auto simp: element_eq map_reader_Some_iff split: option.splits prod.splits)
  then have t: "tag_valid t" "cbs = tag_code t @ h1" and n: "n < 2 ^ 32" "h1 = der_length n @ h2"
    using tag.enc_dec der_len.enc_dec by blast+
  let ?h = "length (tag_code t) + length (der_length n)"
  have h: "?h \<le> 16"
    using length_tag_code(2) [of t] length_octets_range(2) [of n] by (simp add: length_der_length)
  have hl: "CBS_len cbs - CBS_len h2 = of_nat ?h"
    using header_len_diff [of "tag_code t @ der_length n" h2] by (simp add: t n)
  have "of_nat n + of_nat ?h = (of_nat (n + ?h) :: u64)"
    by simp
  moreover have "unat (of_nat (n + ?h) :: u64) = n + ?h"
    using h n(1) by (intro unat_of_nat_u64) simp
  ultimately have out: "cbs = out @ rest" "length out = n + ?h"
    using p(3) unfolding cbs_get_Some_iff hl by simp_all
  define body where "body = drop ?h out"
  have "tag_code t @ der_length n @ h2 = out @ rest"
    using t n out by simp
  then have "take ?h out = tag_code t @ der_length n"
    using out(2) by (metis append.assoc append_eq_conv_conj le_add2 length_append take_append take_all diff_is_0_eq' take0 append_Nil2)
  then have "out = (tag_code t @ der_length n) @ body"
    unfolding body_def by (metis append_take_drop_id)
  moreover have "length body = n"
    using out(2) by (simp add: body_def)
  ultimately show "\<exists>el. der_valid el \<and> cbs = der el @ rest \<and> e = der_element el"
    using t(1) n(1) out p(4) hl
    by (intro exI [of _ "(t, body)"]) (simp add: der_valid_def der_def der_element_def der_header_len_def)
next
  assume "\<exists>el. der_valid el \<and> cbs = der el @ rest \<and> e = der_element el"
  then obtain t body where el: "tag_valid t" "length body < 2 ^ 32" "cbs = der (t, body) @ rest" "e = der_element (t, body)"
    by (auto simp: der_valid_def)
  have tag: "parse_asn1_tag cbs = (Some t, der_length (length body) @ body @ rest)"
    using tag.dec_enc [OF el(1)] by (simp add: el(3) der_def)
  have len: "read_length (der_length (length body) @ body @ rest) = (Some (length body), body @ rest)"
    by (rule der_len.dec_enc [OF el(2)])
  have hl: "CBS_len cbs - CBS_len (body @ rest) = of_nat (der_header_len (t, body))"
    using header_len_diff [of "tag_code t @ der_length (length body)" "body @ rest"]
    by (simp add: el(3) der_def der_header_len_def)
  have "of_nat (length body) + of_nat (der_header_len (t, body)) = (of_nat (length (der (t, body))) :: u64)"
    by (simp add: length_der)
  moreover have "unat (of_nat (length (der (t, body))) :: u64) = length (der (t, body))"
    using el(2) der_header_len_small [of "(t, body)"] by (intro unat_of_nat_u64) (simp add: length_der)
  ultimately have "cbs_get (of_nat (length body) + of_nat (der_header_len (t, body))) cbs = (Some (der (t, body)), rest)"
    by (simp add: cbs_get_Some_iff el(3))
  then show "CBS_get_any_asn1_element cbs = (Some e, rest)"
    by (simp add: element_eq tag len hl map_reader_Some_iff el(4) der_element_def)
qed

lemma skip_header: "der_valid el \<Longrightarrow> CBS_skip (of_nat (der_header_len el)) (der el) = (Some (), snd el)"
proof -
  have "unat (of_nat (der_header_len el) :: u64) = der_header_len el"
    using der_header_len_small(1) [of el] by (intro unat_of_nat_u64) simp
  moreover have "der el = (tag_code (fst el) @ der_length (length (snd el))) @ snd el"
    by (simp add: der_def)
  ultimately show ?thesis
    by (simp add: CBS_skip_def map_reader_Some_iff cbs_get_Some_iff der_header_len_def)
qed

text \<open>The readers of an element accept exactly the DER encodings; the failed assertion is never reached.\<close>

interpretation any_asn1: codec "\<lambda>(body, t). der (t, body)" CBS_get_any_asn1 "\<lambda>(body, t). der_valid (t, body)"
proof
  have iff: "CBS_get_any_asn1 cbs = (Some (body, t), rest) \<longleftrightarrow> der_valid (t, body) \<and> cbs = der (t, body) @ rest" for cbs body t rest
  proof
    assume "CBS_get_any_asn1 cbs = (Some (body, t), rest)"
    then obtain e mid where e: "CBS_get_any_asn1_element cbs = (Some e, mid)" and
      f: "(case CBS_skip (el_header_len e) (el_bytes e) of (None, _) \<Rightarrow> reject | (Some _, out) \<Rightarrow> succeed (out, el_tag e)) mid = (Some (body, t), rest)"
      unfolding CBS_get_any_asn1_def by (blast dest: bind_reader_SomeD)
    then show "der_valid (t, body) \<and> cbs = der (t, body) @ rest"
      by (auto simp: element_iff der_element_def skip_header succeed_def)
  next
    assume el: "der_valid (t, body) \<and> cbs = der (t, body) @ rest"
    then have "CBS_get_any_asn1_element cbs = (Some (der_element (t, body)), rest)"
      by (auto simp: element_iff)
    then show "CBS_get_any_asn1 cbs = (Some (body, t), rest)"
      using el by (simp add: CBS_get_any_asn1_def bind_reader_def der_element_def skip_header succeed_def)
  qed
  fix x rest cbs
  show "(case x of (body, t) \<Rightarrow> der_valid (t, body)) \<Longrightarrow>
      CBS_get_any_asn1 ((case x of (body, t) \<Rightarrow> der (t, body)) @ rest) = (Some x, rest)"
    by (cases x) (simp add: iff)
  show "CBS_get_any_asn1 cbs = (Some x, rest) \<Longrightarrow>
      (case x of (body, t) \<Rightarrow> der_valid (t, body)) \<and> cbs = (case x of (body, t) \<Rightarrow> der (t, body)) @ rest"
    by (cases x) (simp add: iff)
qed

interpretation asn1: codec "\<lambda>body. der (t, body)" "CBS_get_asn1 t" "\<lambda>body. der_valid (t, body)" for t
proof
  fix body rest
  assume "der_valid (t, body)"
  then have "CBS_get_any_asn1_element (der (t, body) @ rest) = (Some (der_element (t, body)), rest)"
    by (auto simp: element_iff)
  then show "CBS_get_asn1 t (der (t, body) @ rest) = (Some body, rest)"
    using \<open>der_valid (t, body)\<close>
    by (simp add: CBS_get_asn1_def cbs_get_asn1_def bind_reader_def der_element_def skip_header succeed_def)
next
  fix cbs body rest
  assume "CBS_get_asn1 t cbs = (Some body, rest)"
  then obtain e mid where e: "CBS_get_any_asn1_element cbs = (Some e, mid)" and
    f: "(if el_tag e \<noteq> t then reject
       else if True then (case CBS_skip (el_header_len e) (el_bytes e) of (None, _) \<Rightarrow> reject | (Some _, out) \<Rightarrow> succeed out)
       else succeed (el_bytes e)) mid = (Some body, rest)"
    unfolding CBS_get_asn1_def cbs_get_asn1_def by (blast dest: bind_reader_SomeD)
  then show "der_valid (t, body) \<and> cbs = der (t, body) @ rest"
    by (auto simp: element_iff der_element_def skip_header succeed_def reject_def split: if_splits)
qed

lemma peek_asn1_tag: "CBS_peek_asn1_tag cbs t \<longleftrightarrow> tag_valid t \<and> (\<exists>rest. cbs = tag_code t @ rest)"
  unfolding CBS_peek_asn1_tag_def by (metis tag.dec_iff fst_conv prod.collapse)

subsection \<open>Integers and Booleans\<close>

text \<open>The two's complement value of a big-endian byte sequence, and the minimal encodings.\<close>

definition be_value :: "byte list \<Rightarrow> nat" where
  "be_value = foldl (\<lambda>v b. v * 256 + unat b) 0"

definition be_signed :: "byte list \<Rightarrow> int" where
  "be_signed bs = int (be_value bs) - (if 128 \<le> unat (hd bs) then 2 ^ (8 * length bs) else 0)"

definition minimal_integer :: "byte list \<Rightarrow> bool" where
  "minimal_integer bs \<longleftrightarrow> bs \<noteq> [] \<and>
     (2 \<le> length bs \<longrightarrow> \<not> (bs ! 0 = 0 \<and> unat (bs ! 1) < 128) \<and> \<not> (bs ! 0 = 0xff \<and> 128 \<le> unat (bs ! 1)))"

lemma valid_asn1_integer:
  "CBS_is_valid_asn1_integer cbs = (if minimal_integer cbs then Some (128 \<le> unat (hd cbs)) else None)"
proof (cases cbs)
  case (Cons b bs)
  then show ?thesis
    by (cases bs) (auto simp: CBS_is_valid_asn1_integer_def minimal_integer_def byte_high_iff Let_def)
qed (simp add: CBS_is_valid_asn1_integer_def minimal_integer_def)

lemma be_value_simps [simp]: "be_value [] = 0" "be_value (bs @ [b]) = be_value bs * 256 + unat b" "be_value [b] = unat b"
  by (simp_all add: be_value_def)

lemma byte_less [simp]: "unat b < 256" for b :: byte
  using unsigned_less [of b] by simp

lemma byte_uint:
  fixes b :: byte
  shows "128 \<le> unat b \<longleftrightarrow> 128 \<le> uint b" "unat b < 128 \<longleftrightarrow> uint b < 128" "- 128 \<le> uint b" "0 \<le> uint b" "uint b < 256"
proof -
  show le: "128 \<le> unat b \<longleftrightarrow> 128 \<le> uint b"
    using of_nat_le_iff [of 128 "unat b", where 'a = int] by simp
  then show "unat b < 128 \<longleftrightarrow> uint b < 128"
    by (simp only: not_le [symmetric])
  show "0 \<le> uint b" "uint b < 256"
    using uint_bounded [of b] by simp_all
  then show "- 128 \<le> uint b"
    by linarith
qed

lemma be_value_less: "be_value bs < 2 ^ (8 * length bs)"
proof (induction bs rule: rev_induct)
  case (snoc b bs)
  have "be_value bs * 256 + unat b < 2 ^ (8 * length bs) * 256"
    using snoc byte_less [of b] by linarith
  then show ?case
    by (simp add: power_add)
qed simp

lemma be_signed_snoc [simp]: "bs \<noteq> [] \<Longrightarrow> be_signed (bs @ [b]) = be_signed bs * 256 + uint b"
  by (auto simp: be_signed_def power_add)

lemma be_signed_single: "be_signed [b] = uint b - (if 128 \<le> uint b then 256 else 0)"
  by (simp add: be_signed_def byte_uint)

lemma be_signed_nonneg: "bs \<noteq> [] \<Longrightarrow> 0 \<le> be_signed bs \<longleftrightarrow> unat (hd bs) < 128"
  using be_value_less [of bs] by (auto simp: be_signed_def not_le simp flip: of_nat_power)

fun integer_bytes :: "int \<Rightarrow> byte list" where
  "integer_bytes i = (if - 128 \<le> i \<and> i < 128 then [of_int i] else integer_bytes (i div 256) @ [of_int (i mod 256)])"

declare integer_bytes.simps [simp del]

lemma minimal_snoc: "bs \<noteq> [] \<Longrightarrow> minimal_integer (bs @ [b]) \<Longrightarrow> minimal_integer bs"
  by (auto simp: minimal_integer_def nth_append)

lemma minimal_large: "minimal_integer bs \<Longrightarrow> 2 \<le> length bs \<Longrightarrow> be_signed bs < - 128 \<or> 128 \<le> be_signed bs"
proof (induction bs rule: rev_induct)
  case (snoc b bs)
  have ne: "bs \<noteq> []"
    using snoc.prems(2) by auto
  show ?case
  proof (cases "2 \<le> length bs")
    case True
    then show ?thesis
      using snoc.IH minimal_snoc [OF ne snoc.prems(1)] byte_uint(4,5) [of b]
      unfolding be_signed_snoc [OF ne] by arith
  next
    case False
    then obtain a where a: "bs = [a]"
      using ne by (cases bs) (auto simp: not_le less_Suc_eq numeral_2_eq_2)
    have "\<not> (a = 0 \<and> uint b < 128)" "\<not> (a = 0xff \<and> 128 \<le> uint b)"
      using snoc.prems by (simp_all add: minimal_integer_def a byte_uint)
    moreover have "a = 0 \<longleftrightarrow> uint a = 0" "a = 0xff \<longleftrightarrow> uint a = 255"
      by (simp_all add: word_uint_eq_iff)
    moreover define x where "x = uint a"
    moreover define y where "y = uint b"
    ultimately have "x = 0 \<longrightarrow> \<not> y < 128" "x = 255 \<longrightarrow> \<not> 128 \<le> y" "0 \<le> x" "0 \<le> y" "x < 256" "y < 256"
      using byte_uint(4,5) [of a] byte_uint(4,5) [of b] by simp_all
    then have "(x - (if 128 \<le> x then 256 else 0)) * 256 + y < - 128 \<or> 128 \<le> (x - (if 128 \<le> x then 256 else 0)) * 256 + y"
      by (cases "128 \<le> x") auto
    then show ?thesis
      using be_signed_snoc [of "[a]" b] by (simp add: a be_signed_single x_def y_def)
  qed
qed simp

lemma of_int_be_single: "of_int (be_signed [b]) = b"
  by (simp add: be_signed_single)

lemma integer_bytes_unique: "minimal_integer bs \<Longrightarrow> integer_bytes (be_signed bs) = bs"
proof (induction bs rule: rev_induct)
  case (snoc b bs)
  show ?case
  proof (cases "bs = []")
    case True
    then show ?thesis
      using of_int_be_single [of b] byte_uint(4,5) [of b]
      by (subst integer_bytes.simps, simp only: append_Nil be_signed_single) (auto split: if_splits intro: order_trans [of _ 0])
  next
    case False
    then have large: "be_signed (bs @ [b]) < - 128 \<or> 128 \<le> be_signed (bs @ [b])"
      by (intro minimal_large [OF snoc.prems]) (cases bs; simp)
    have "be_signed (bs @ [b]) div 256 = be_signed bs" "be_signed (bs @ [b]) mod 256 = uint b"
      using False byte_uint(3-5) [of b] by simp_all
    then show ?thesis
      using large snoc.IH minimal_snoc [OF False snoc.prems] by (subst integer_bytes.simps) auto
  qed
qed (simp add: minimal_integer_def)

lemma integer_bytes_value: "be_signed (integer_bytes i) = i \<and> minimal_integer (integer_bytes i)"
proof (induction i rule: integer_bytes.induct)
  case (1 i)
  show ?case
  proof (cases "- 128 \<le> i \<and> i < 128")
    case True
    have "uint (of_int i :: byte) = i mod 256"
      by (simp add: unsigned_of_int take_bit_eq_mod)
    moreover have "i mod 256 = (if i < 0 then i + 256 else i)"
      using True mod_pos_pos_trivial [of "i + 256" 256] by auto
    ultimately have "uint (of_int i :: byte) = (if i < 0 then i + 256 else i)"
      by (simp only:)
    then show ?thesis
      using True by (simp add: integer_bytes.simps be_signed_single minimal_integer_def)
  next
    case False
    let ?bs = "integer_bytes (i div 256)" and ?b = "of_int (i mod 256) :: byte"
    have IH: "be_signed ?bs = i div 256" "minimal_integer ?bs"
      using 1 False by auto
    have b: "uint ?b = i mod 256"
      by (simp add: unsigned_of_int take_bit_eq_mod)
    have ne: "?bs \<noteq> []"
      using IH(2) by (auto simp: minimal_integer_def)
    have val: "be_signed (?bs @ [?b]) = i"
      using ne IH(1) b by simp
    have "minimal_integer (?bs @ [?b])"
    proof (cases "2 \<le> length ?bs")
      case True
      then show ?thesis
        using IH(2) by (simp add: minimal_integer_def nth_append)
    next
      case short: False
      then obtain a where a: "?bs = [a]"
        using ne by (cases ?bs) (auto simp: not_le less_Suc_eq numeral_2_eq_2)
      have "uint a - (if 128 \<le> uint a then 256 else 0) = i div 256"
        using IH(1) by (simp add: a be_signed_single)
      then have "(a = 0 \<longrightarrow> i div 256 = 0) \<and> (a = 0xff \<longrightarrow> i div 256 = - 1)"
        by auto
      moreover have "\<not> (i div 256 = 0 \<and> i mod 256 < 128)" "\<not> (i div 256 = - 1 \<and> 128 \<le> i mod 256)"
        using False by presburger+
      ultimately show ?thesis
        using b by (auto simp: a minimal_integer_def byte_uint)
    qed
    then show ?thesis
      using False val by (subst (1 2) integer_bytes.simps) auto
  qed
qed

lemma integer_bytes_length:
  "- (2 ^ (8 * k + 7)) \<le> i \<Longrightarrow> i < 2 ^ (8 * k + 7) \<Longrightarrow> length (integer_bytes i) \<le> Suc k"
proof (induction k arbitrary: i)
  case 0
  then show ?case
    by (simp add: integer_bytes.simps)
next
  case (Suc k)
  have "- (2 ^ (8 * k + 7)) \<le> i div 256" "i div 256 < 2 ^ (8 * k + 7)"
    using Suc.prems by (auto simp: power_add)
  from Suc.IH [OF this] show ?case
    by (subst integer_bytes.simps) simp
qed

lemma or_shifted_byte: "ucast b OR push_bit 8 w = ucast b + push_bit 8 w" for w :: u64 and b :: byte
proof (rule disjunctive_add_eq_or [symmetric], rule bit_word_eqI)
  fix n
  show "bit (ucast b AND push_bit 8 w) n \<longleftrightarrow> bit (0 :: u64) n"
    using bit_imp_le_length [of b n] by (auto simp: word_bits)
qed

lemma word_of_bytes_value: "(word_of_bytes (rev bs) :: u64) = of_nat (be_value bs)"
proof (induction bs rule: rev_induct)
  case (snoc b bs)
  then show ?case
    using or_shifted_byte [of b "word_of_bytes (rev bs)"] by (simp add: push_bit_eq_mult add.commute)
qed simp

lemma be_value_append: "be_value (xs @ ys) = be_value xs * 2 ^ (8 * length ys) + be_value ys"
  by (induction ys rule: rev_induct) (simp_all flip: append_assoc add: power_add algebra_simps)

lemma be_value_zeros: "be_value (replicate k 0) = 0"
  by (induction k) (simp_all flip: replicate_append_same)

lemma be_value_ones: "int (be_value (replicate k 0xff)) = 2 ^ (8 * k) - 1"
  by (induction k) (simp_all flip: replicate_append_same add: power_add)

lemma load_be:
  assumes "length bs = 8"
  shows "CRYPTO_load_u64_be bs = of_nat (be_value bs)"
  using bytes_of_word_of_bytes [of bs, where 'a = 64] assms
  by (simp add: CRYPTO_load_u64_be_def CRYPTO_bswap8_def word_of_bytes_value)

lemma load_be_signed:
  assumes "bs \<noteq> []" and "length bs \<le> 8"
  shows "CRYPTO_load_u64_be (replicate (8 - length bs) (if 128 \<le> unat (hd bs) then 0xff else 0) @ bs) = of_int (be_signed bs)"
proof -
  let ?k = "8 - length bs"
  have pow: "(2 :: int) ^ (8 * ?k) * 2 ^ (8 * length bs) = 2 ^ 64"
  proof -
    have "8 * ?k + 8 * length bs = 64"
      using assms(2) by simp
    then show ?thesis
      by (metis power_add)
  qed
  show ?thesis
  proof (cases "128 \<le> unat (hd bs)")
    case True
    have "int (be_value (replicate ?k 0xff @ bs)) = be_signed bs + 2 ^ 64"
      using pow True by (simp add: be_value_append be_value_ones be_signed_def algebra_simps)
    then have "(of_nat (be_value (replicate ?k 0xff @ bs)) :: u64) = of_int (be_signed bs + 2 ^ 64)"
      by (metis of_int_of_nat_eq)
    then show ?thesis
      using True assms(2) by (simp add: load_be)
  next
    case False
    have "int (be_value (replicate ?k 0 @ bs)) = be_signed bs"
      using False by (simp add: be_value_append be_value_zeros be_signed_def)
    then have "(of_nat (be_value (replicate ?k 0 @ bs)) :: u64) = of_int (be_signed bs)"
      by (metis of_int_of_nat_eq)
    then show ?thesis
      using False assms(2) by (simp add: load_be)
  qed
qed

lemma be_signed_range:
  assumes "bs \<noteq> []"
  shows "- (2 ^ (8 * length bs - 1)) \<le> be_signed bs" "be_signed bs < 2 ^ (8 * length bs - 1)"
proof -
  have "- (2 ^ (8 * length bs - 1)) \<le> be_signed bs \<and> be_signed bs < 2 ^ (8 * length bs - 1)"
    using assms
  proof (induction bs rule: rev_induct)
    case (snoc b bs)
    show ?case
    proof (cases "bs = []")
      case True
      define x where "x = uint b"
      have "0 \<le> x" "x < 256"
        using byte_uint(4,5) [of b] by (simp_all add: x_def)
      then show ?thesis
        by (simp add: True be_signed_single x_def [symmetric])
    next
      case False
      then obtain k where k: "8 * length bs - 1 = k" "8 * length (bs @ [b]) - 1 = k + 8"
        by (cases bs) auto
      define x where "x = uint b"
      have "0 \<le> x" "x < 256"
        using byte_uint(4,5) [of b] by (simp_all add: x_def)
      moreover have "- (2 ^ k) \<le> be_signed bs" "be_signed bs < 2 ^ k"
        using snoc.IH False k by auto
      ultimately have "- (2 ^ k * 256) \<le> be_signed bs * 256 + x" "be_signed bs * 256 + x < 2 ^ k * 256"
        by linarith+
      then show ?thesis
        unfolding k be_signed_snoc [OF False] x_def power_add by simp
    qed
  qed simp
  then show "- (2 ^ (8 * length bs - 1)) \<le> be_signed bs" "be_signed bs < 2 ^ (8 * length bs - 1)"
    by simp_all
qed

lemma sint_of_int_64: "- (2 ^ 63) \<le> i \<Longrightarrow> i < 2 ^ 63 \<Longrightarrow> sint (of_int i :: u64) = i"
  by (simp add: signed_of_int signed_take_bit_int_eq_self)

lemma uint64_loop_eq:
  "uint64_loop v bs = (let n = foldl (\<lambda>v b. v * 256 + unat b) (unat v) bs in if n < 2 ^ 64 then Some (of_nat n) else None)"
proof (induction v bs rule: uint64_loop.induct)
  case (1 v)
  then show ?case
    using unat_u64_less [of v] by simp
next
  case (2 v b bs)
  have mono: "a \<le> foldl (\<lambda>v b. v * 256 + unat b) a bs" for a :: nat and bs :: "byte list"
  proof (induction bs arbitrary: a)
    case (Cons b bs)
    show ?case
      using Cons [of "a * 256 + unat b"] by simp
  qed simp
  show ?case
  proof (cases "drop_bit 56 v = 0")
    case True
    then have "unat v < 2 ^ 56"
      by (simp add: drop_bit_eq_0_iff_unat)
    moreover have "push_bit 8 v OR ucast b = push_bit 8 v + ucast b"
      using or_shifted_byte [of b v] by (simp add: or.commute add.commute)
    moreover have "unat v * 256 + unat b < 2 ^ 64"
      using \<open>unat v < 2 ^ 56\<close> byte_less [of b] by (simp del: byte_less)
    ultimately have "unat (push_bit 8 v OR ucast b) = unat v * 256 + unat b"
      by (simp add: push_bit_eq_mult unat_word_ariths)
    then show ?thesis
      using 2 True by simp
  next
    case False
    then have "2 ^ 56 \<le> unat v"
      by (simp add: drop_bit_eq_0_iff_unat)
    then have "2 ^ 64 \<le> unat v * 256 + unat b"
      by simp
    then have "\<not> foldl (\<lambda>v b. v * 256 + unat b) (unat v) (b # bs) < 2 ^ 64"
      using mono [of "unat v * 256 + unat b" bs] by simp
    then show ?thesis
      using False by simp
  qed
qed

lemma uint64_loop_value: "uint64_loop 0 bs = (if be_value bs < 2 ^ 64 then Some (of_nat (be_value bs)) else None)"
  by (simp add: uint64_loop_eq be_value_def Let_def)

lemma minimal_nonempty: "minimal_integer bs \<Longrightarrow> bs \<noteq> []"
  by (simp add: minimal_integer_def)

definition der_uint64 :: "u64 \<Rightarrow> byte list" where
  "der_uint64 v = der (CBS_ASN1_INTEGER, integer_bytes (int (unat v)))"

definition der_int64 :: "u64 \<Rightarrow> byte list" where
  "der_int64 v = der (CBS_ASN1_INTEGER, integer_bytes (sint v))"

definition der_bool :: "bool \<Rightarrow> byte list" where
  "der_bool v = der (CBS_ASN1_BOOLEAN, [if v then 0xff else 0])"

lemma tag_valid_universal [simp]:
  "tag_valid CBS_ASN1_INTEGER" "tag_valid CBS_ASN1_BOOLEAN" "tag_valid CBS_ASN1_OCTETSTRING" "tag_valid CBS_ASN1_OBJECT"
  by (simp_all add: tag_valid_def CBS_ASN1_INTEGER_def CBS_ASN1_BOOLEAN_def CBS_ASN1_OCTETSTRING_def
      CBS_ASN1_OBJECT_def CBS_ASN1_CONSTRUCTED_def)

lemma der_valid_integer:
  "- (2 ^ 71) \<le> i \<Longrightarrow> i < 2 ^ 71 \<Longrightarrow> der_valid (CBS_ASN1_INTEGER, integer_bytes i)"
  using integer_bytes_length [of 8 i] by (simp add: der_valid_def)

interpretation asn1_uint64: codec der_uint64 CBS_get_asn1_uint64 "\<lambda>v. True"
proof
  fix v :: u64 and rest
  let ?bs = "integer_bytes (int (unat v))"
  have v: "int (unat v) < 2 ^ 64"
    using of_nat_less_iff [of "unat v" "2 ^ 64", where 'a = int] unat_u64_less [of v] by simp
  have val: "be_signed ?bs = int (unat v)" "minimal_integer ?bs"
    using integer_bytes_value by auto
  then have hd: "unat (hd ?bs) < 128"
    using be_signed_nonneg [OF minimal_nonempty] by fastforce
  then have "int (be_value ?bs) = int (unat v)"
    using val(1) unfolding be_signed_def by (simp only: not_le [symmetric] if_False diff_zero)
  then have "be_value ?bs = unat v" "CBS_is_unsigned_asn1_integer ?bs"
    using hd val(2) by (simp_all only: of_nat_eq_iff) (simp add: CBS_is_unsigned_asn1_integer_def valid_asn1_integer)
  moreover have "der_valid (CBS_ASN1_INTEGER, ?bs)"
    using v order_trans [of "- (2 ^ 71)" 0 "int (unat v)"] by (intro der_valid_integer) simp_all
  ultimately show "CBS_get_asn1_uint64 (der_uint64 v @ rest) = (Some v, rest)"
    using unat_u64_less [of v]
    by (simp add: CBS_get_asn1_uint64_def der_uint64_def asn1.bind_enc uint64_loop_value succeed_def)
next
  fix cbs v rest
  assume "CBS_get_asn1_uint64 cbs = (Some v, rest)"
  then obtain bs mid where bs: "CBS_get_asn1 CBS_ASN1_INTEGER cbs = (Some bs, mid)" and
    r: "(if \<not> CBS_is_unsigned_asn1_integer bs then reject
       else (case uint64_loop 0 bs of None \<Rightarrow> reject | Some v \<Rightarrow> succeed v)) mid = (Some v, rest)"
    unfolding CBS_get_asn1_uint64_def by (blast dest: bind_reader_SomeD)
  then have "minimal_integer bs" "unat (hd bs) < 128" "be_value bs < 2 ^ 64" "v = of_nat (be_value bs)" "mid = rest"
    by (auto simp: reject_def succeed_def uint64_loop_value CBS_is_unsigned_asn1_integer_def valid_asn1_integer split: if_splits)
  moreover from this have "int (unat v) = be_signed bs"
    by (simp add: be_signed_def unat_of_nat)
  ultimately show "True \<and> cbs = der_uint64 v @ rest"
    using asn1.enc_dec [OF bs] integer_bytes_unique [of bs] by (simp add: der_uint64_def)
qed

interpretation asn1_int64: codec der_int64 CBS_get_asn1_int64 "\<lambda>v. True"
proof
  fix v :: u64 and rest
  let ?bs = "integer_bytes (sint v)"
  have v: "- (2 ^ 63) \<le> sint v" "sint v < 2 ^ 63"
    using sint_greater_eq [of v] sint_less [of v] by simp_all
  have val: "be_signed ?bs = sint v" "minimal_integer ?bs"
    using integer_bytes_value by auto
  have len: "length ?bs \<le> 8"
    using integer_bytes_length [of 7 "sint v"] v by simp
  then have "\<not> CBS_len ?bs > 8"
    by (simp add: CBS_len_def word_less_nat_alt unat_of_nat)
  moreover have "der_valid (CBS_ASN1_INTEGER, ?bs)"
    using v by (intro der_valid_integer) simp_all
  ultimately show "CBS_get_asn1_int64 (der_int64 v @ rest) = (Some v, rest)"
    using load_be_signed [OF minimal_nonempty [OF val(2)] len] val
    by (simp add: CBS_get_asn1_int64_def der_int64_def asn1.bind_enc valid_asn1_integer succeed_def)
next
  fix cbs v rest
  assume "CBS_get_asn1_int64 cbs = (Some v, rest)"
  then obtain bs mid where bs: "CBS_get_asn1 CBS_ASN1_INTEGER cbs = (Some bs, mid)" and
    r: "(case CBS_is_valid_asn1_integer bs of
       None \<Rightarrow> reject
     | Some is_negative \<Rightarrow>
         if CBS_len bs > 8 then reject
         else succeed (CRYPTO_load_u64_be (replicate (8 - length bs) (if is_negative then 0xff else 0) @ bs))) mid = (Some v, rest)"
    unfolding CBS_get_asn1_int64_def by (blast dest: bind_reader_SomeD)
  have cbs: "der_valid (CBS_ASN1_INTEGER, bs)" "cbs = der (CBS_ASN1_INTEGER, bs) @ mid"
    using asn1.enc_dec [OF bs] by auto
  have m: "minimal_integer bs" "\<not> CBS_len bs > 8" "mid = rest" and
    v: "v = CRYPTO_load_u64_be (replicate (8 - length bs) (if 128 \<le> unat (hd bs) then 0xff else 0) @ bs)"
    using r by (auto simp: reject_def succeed_def valid_asn1_integer split: if_splits)
  have "length bs < 2 ^ 64"
    using cbs(1) by (simp add: der_valid_def)
  then have len: "length bs \<le> 8"
    using m(2) by (simp add: CBS_len_def word_less_nat_alt unat_of_nat)
  have "(2 :: int) ^ (8 * length bs - 1) \<le> 2 ^ 63"
    using len by (intro power_increasing) simp_all
  then have "sint v = be_signed bs"
    using be_signed_range [OF minimal_nonempty [OF m(1)]]
    unfolding v load_be_signed [OF minimal_nonempty [OF m(1)] len] by (intro sint_of_int_64) linarith+
  then show "True \<and> cbs = der_int64 v @ rest"
    using cbs(2) m integer_bytes_unique [OF m(1)] by (simp add: der_int64_def)
qed

interpretation asn1_bool: codec der_bool CBS_get_asn1_bool "\<lambda>v. True"
proof
  fix v rest
  show "CBS_get_asn1_bool (der_bool v @ rest) = (Some v, rest)"
    by (simp add: CBS_get_asn1_bool_def der_bool_def asn1.bind_enc der_valid_def CBS_len_def succeed_def)
next
  fix cbs v rest
  assume "CBS_get_asn1_bool cbs = (Some v, rest)"
  then obtain bs mid where bs: "CBS_get_asn1 CBS_ASN1_BOOLEAN cbs = (Some bs, mid)" and
    r: "(if CBS_len bs \<noteq> 1 then reject
     else (let val = hd bs in if val \<noteq> 0 \<and> val \<noteq> 0xff then reject else succeed (val \<noteq> 0))) mid = (Some v, rest)"
    unfolding CBS_get_asn1_bool_def by (blast dest: bind_reader_SomeD)
  have cbs: "der_valid (CBS_ASN1_BOOLEAN, bs)" "cbs = der (CBS_ASN1_BOOLEAN, bs) @ mid"
    using asn1.enc_dec [OF bs] by auto
  have m: "CBS_len bs = 1" "mid = rest" "hd bs = (if v then 0xff else 0)"
    using r by (auto simp: reject_def succeed_def Let_def split: if_splits)
  have "unat (of_nat (length bs) :: u64) = length bs"
    using cbs(1) by (intro unat_of_nat_u64) (simp add: der_valid_def)
  then have "length bs = 1"
    using m(1) by (simp add: CBS_len_def)
  then have "bs = [if v then 0xff else 0]"
    using m(3) by (cases bs) auto
  then show "True \<and> cbs = der_bool v @ rest"
    using cbs(2) m(2) by (simp add: der_bool_def)
qed

end
