(* ===== verification/Cbb.thy ===== *)
theory Cbb
  imports Der
begin

text \<open>
  BoringSSL's byte-string builder (\<^verbatim>\<open>crypto/bytestring/cbb.c\<close>). A top-level \<^verbatim>\<open>CBB\<close> owns a buffer; a child
  \<^verbatim>\<open>CBB\<close> writes to the buffer of its parent, behind a length prefix that is filled in when the parent
  is used again. The state holds the one buffer of a tree of \<^verbatim>\<open>CBB\<close>s and the \<^verbatim>\<open>CBB\<close> structures by their
  address (a number); a \<^verbatim>\<open>CBB\<close> on the stack of a function of this file gets the address \<^verbatim>\<open>next_local\<close>.

  An operation returns the result of the C function and the new state. \<^verbatim>\<open>None\<close> is a failed \<^verbatim>\<open>assert\<close> or
  the dereference of a null \<^verbatim>\<open>base\<close> pointer. Allocation is not determined by the source: the result of
  the \<^verbatim>\<open>n\<close>-th allocation from now on, its bytes or a failure, is read from \<^verbatim>\<open>cbb_allocs\<close>.
\<close>

section \<open>State\<close>

record cbb_buffer_st =
  buf :: "byte list"
  buf_len :: size_t
  cap :: size_t
  can_resize :: bool
  cbb_error :: bool

text \<open>
  The base pointer of a child points to the one buffer or is null; the fields of the child arm of the
  union are read only when \<^verbatim>\<open>is_child\<close> is set.
\<close>

record cbb_st =
  child :: "nat option"
  is_child :: bool
  has_base :: bool
  offset :: size_t
  pending_len_len :: byte
  pending_is_asn1 :: bool

record builder =
  base :: cbb_buffer_st
  cells :: "nat \<Rightarrow> cbb_st"
  next_local :: nat
  cbb_allocs :: "nat \<Rightarrow> byte list option"

type_synonym cbb_result = "(bool \<times> builder) option"

definition set_cell :: "nat \<Rightarrow> cbb_st \<Rightarrow> builder \<Rightarrow> builder" where
  "set_cell h c st = st\<lparr>cells := (cells st)(h := c)\<rparr>"

definition set_error :: "builder \<Rightarrow> builder" where
  "set_error st = st\<lparr>base := (base st)\<lparr>cbb_error := True\<rparr>\<rparr>"

text \<open>The \<^verbatim>\<open>&&\<close> of a chain of calls: the next one runs only when the one before returned one.\<close>

definition and_then :: "cbb_result \<Rightarrow> (builder \<Rightarrow> cbb_result) \<Rightarrow> cbb_result" where
  "and_then r q = Option.bind r (\<lambda>(ok, st). if ok then q st else Some (False, st))"

section \<open>The buffer\<close>

definition CBB_zero :: cbb_st where
  "CBB_zero = \<lparr>child = None, is_child = False, has_base = False, offset = 0, pending_len_len = 0, pending_is_asn1 = False\<rparr>"

text \<open>Clearing a top-level \<^verbatim>\<open>CBB\<close> clears its buffer too.\<close>

definition zero_top :: "nat \<Rightarrow> builder \<Rightarrow> builder" where
  "zero_top h st =
     st\<lparr>base := \<lparr>buf = [], buf_len = 0, cap = 0, can_resize = False, cbb_error = False\<rparr>,
        cells := (cells st)(h := CBB_zero)\<rparr>"

definition cbb_init :: "nat \<Rightarrow> byte list \<Rightarrow> size_t \<Rightarrow> bool \<Rightarrow> builder \<Rightarrow> builder" where
  "cbb_init h bs n resize st =
     st\<lparr>base := \<lparr>buf = bs, buf_len = 0, cap = n, can_resize = resize, cbb_error = False\<rparr>,
        cells := (cells st)(h := CBB_zero)\<rparr>"

definition sized :: "nat \<Rightarrow> byte list \<Rightarrow> byte list" where
  "sized n bs = take n (bs @ replicate n 0)"

text \<open>The result is the contents of the new block; blocks hold whatever was in them before.\<close>

definition OPENSSL_malloc :: "size_t \<Rightarrow> builder \<Rightarrow> byte list option \<times> builder" where
  "OPENSSL_malloc n st = (map_option (sized (unat n)) (cbb_allocs st 0), st\<lparr>cbb_allocs := \<lambda>i. cbb_allocs st (Suc i)\<rparr>)"

definition OPENSSL_realloc :: "byte list \<Rightarrow> size_t \<Rightarrow> builder \<Rightarrow> byte list option \<times> builder" where
  "OPENSSL_realloc orig new_size st = (case OPENSSL_malloc new_size st of
     (None, st') \<Rightarrow> (None, st')
   | (Some ret, st') \<Rightarrow>
       let to_copy = min (unat new_size) (length orig)
       in (Some (take to_copy orig @ drop to_copy ret), st'))"

definition CBB_init :: "nat \<Rightarrow> size_t \<Rightarrow> builder \<Rightarrow> bool \<times> builder" where
  "CBB_init h initial_capacity st =
     (case OPENSSL_malloc initial_capacity (zero_top h st) of
        (None, st') \<Rightarrow> if initial_capacity > 0 then (False, st') else (True, cbb_init h [] initial_capacity True st')
      | (Some bs, st') \<Rightarrow> (True, cbb_init h bs initial_capacity True st'))"

definition CBB_init_fixed :: "nat \<Rightarrow> byte list \<Rightarrow> builder \<Rightarrow> bool \<times> builder" where
  "CBB_init_fixed h bs st = (True, cbb_init h bs (of_nat (length bs)) False (zero_top h st))"

text \<open>The result is the offset of the reserved bytes in the buffer; \<^verbatim>\<open>None\<close> is the return value zero.\<close>

definition cbb_buffer_reserve :: "bool \<Rightarrow> size_t \<Rightarrow> builder \<Rightarrow> size_t option \<times> builder" where
  "cbb_buffer_reserve base_ok n st =
     (if \<not> base_ok then (None, st)
      else
        (let b = base st; newlen = buf_len b + n in
         if newlen < buf_len b then (None, set_error st)
         else if newlen > cap b then
           (if \<not> can_resize b then (None, set_error st)
            else
              (let doubled = cap b * 2;
                   newcap = (if doubled < cap b \<or> doubled < newlen then newlen else doubled)
               in case OPENSSL_realloc (buf b) newcap st of
                    (None, st') \<Rightarrow> (None, set_error st')
                  | (Some newbuf, st') \<Rightarrow> (Some (buf_len b), st'\<lparr>base := b\<lparr>buf := newbuf, cap := newcap\<rparr>\<rparr>)))
         else (Some (buf_len b), st)))"

definition cbb_buffer_add :: "bool \<Rightarrow> size_t \<Rightarrow> builder \<Rightarrow> size_t option \<times> builder" where
  "cbb_buffer_add base_ok n st = (case cbb_buffer_reserve base_ok n st of
     (None, st') \<Rightarrow> (None, st')
   | (Some out, st') \<Rightarrow> (Some out, st'\<lparr>base := (base st')\<lparr>buf_len := buf_len (base st') + n\<rparr>\<rparr>))"

text \<open>\<^verbatim>\<open>OPENSSL_memcpy(buf + k, bs, length bs)\<close>.\<close>

definition write_at :: "nat \<Rightarrow> byte list \<Rightarrow> builder \<Rightarrow> builder" where
  "write_at k bs st =
     st\<lparr>base := (base st)\<lparr>buf := take k (buf (base st)) @ bs @ drop (k + length bs) (buf (base st))\<rparr>\<rparr>"

text \<open>The loop that stores the low bytes of \<^verbatim>\<open>v\<close> big-endian, and what is left of \<^verbatim>\<open>v\<close>.\<close>

fun put_be :: "nat \<Rightarrow> nat \<Rightarrow> u64 \<Rightarrow> byte list \<Rightarrow> byte list \<times> u64" where
  "put_be 0 k v bs = (bs, v)"
| "put_be (Suc i) k v bs = put_be i k (drop_bit 8 v) (bs[k + i := ucast v])"

section \<open>Flushing\<close>

definition cbb_get_base :: "nat \<Rightarrow> builder \<Rightarrow> bool" where
  "cbb_get_base h st \<longleftrightarrow> (if is_child (cells st h) then has_base (cells st h) else True)"

definition cbb_on_error :: "nat \<Rightarrow> builder \<Rightarrow> builder option" where
  "cbb_on_error h st =
     (if \<not> cbb_get_base h st then None
      else Some (set_cell h ((cells st h)\<lparr>child := None\<rparr>) (set_error st)))"

text \<open>\<^verbatim>\<open>cbb_on_error(cbb); return 0;\<close>\<close>

definition fail_with_error :: "nat \<Rightarrow> builder \<Rightarrow> cbb_result" where
  "fail_with_error h st = map_option (\<lambda>st'. (False, st')) (cbb_on_error h st)"

definition asn1_length_form :: "size_t \<Rightarrow> (byte \<times> byte \<times> size_t) option" where
  "asn1_length_form len =
     (if len > 0xfffffffe then None
      else if len > 0xffffff then Some (5, 0x80 OR 4, len)
      else if len > 0xffff then Some (4, 0x80 OR 3, len)
      else if len > 0xff then Some (3, 0x80 OR 2, len)
      else if len > 0x7f then Some (2, 0x80 OR 1, len)
      else Some (1, ucast len, 0))"

text \<open>The rest of \<^verbatim>\<open>CBB_flush\<close> after the child \<^verbatim>\<open>k\<close> is flushed: the bytes of the prefix, then the links.\<close>

definition flush_prefix :: "nat \<Rightarrow> nat \<Rightarrow> size_t \<Rightarrow> builder \<Rightarrow> cbb_result" where
  "flush_prefix h k len st =
     (let c = cells st k;
          (bs, rest) = put_be (unat (pending_len_len c)) (unat (offset c)) len (buf (base st));
          st1 = st\<lparr>base := (base st)\<lparr>buf := bs\<rparr>\<rparr>
      in if rest \<noteq> 0 then fail_with_error h st1
         else Some (True, set_cell h ((cells st1 h)\<lparr>child := None\<rparr>) (set_cell k (c\<lparr>has_base := False\<rparr>) st1)))"

definition flush_child :: "nat \<Rightarrow> nat \<Rightarrow> size_t \<Rightarrow> builder \<Rightarrow> cbb_result" where
  "flush_child h k child_start st =
     (let len = buf_len (base st) - child_start; c = cells st k in
      if pending_is_asn1 c then
        (if pending_len_len c \<noteq> 1 then None
         else
           (case asn1_length_form len of
              None \<Rightarrow> fail_with_error h st
            | Some (len_len, initial_length_byte, len') \<Rightarrow>
                (case (if len_len \<noteq> 1 then
                         (let extra_bytes = (ucast len_len - 1 :: size_t) in
                          case cbb_buffer_add True extra_bytes st of
                            (None, st1) \<Rightarrow> (False, st1)
                          | (Some _, st1) \<Rightarrow>
                              (True, write_at (unat (child_start + extra_bytes))
                                 (take (unat len') (drop (unat child_start) (buf (base st1)))) st1))
                       else (True, st)) of
                   (False, st1) \<Rightarrow> fail_with_error h st1
                 | (True, st1) \<Rightarrow>
                     flush_prefix h k len'
                       (set_cell k (c\<lparr>offset := offset c + 1, pending_len_len := len_len - 1\<rparr>)
                         (write_at (unat (offset c)) [initial_length_byte] st1)))))
      else flush_prefix h k len st)"

partial_function (option) CBB_flush :: "nat \<Rightarrow> builder \<Rightarrow> cbb_result" where
  "CBB_flush h st =
     (if \<not> cbb_get_base h st \<or> cbb_error (base st) then Some (False, st)
      else
        (case child (cells st h) of
           None \<Rightarrow> Some (True, st)
         | Some k \<Rightarrow>
             if \<not> is_child (cells st k) \<or> \<not> has_base (cells st k) then None
             else
               Option.bind (CBB_flush k st) (\<lambda>(ok, st1).
                 let c = cells st k; child_start = offset c + ucast (pending_len_len c) in
                 if \<not> ok \<or> child_start < offset c \<or> buf_len (base st1) < child_start then fail_with_error h st1
                 else flush_child h k child_start st1)))"

text \<open>The data and length of a finished \<^verbatim>\<open>CBB\<close>: the buffer and its length.\<close>

definition CBB_finish :: "nat \<Rightarrow> builder \<Rightarrow> (byte list option \<times> builder) option" where
  "CBB_finish h st =
     (if is_child (cells st h) then Some (None, st)
      else
        Option.bind (CBB_flush h st) (\<lambda>(ok, st1).
          if \<not> ok then Some (None, st1)
          else Some (Some (take (unat (buf_len (base st1))) (buf (base st1))), st1\<lparr>base := (base st1)\<lparr>buf := []\<rparr>\<rparr>)))"

text \<open>\<^verbatim>\<open>CBB_data\<close> and \<^verbatim>\<open>CBB_len\<close>: the offset and the number of the bytes written to a \<^verbatim>\<open>CBB\<close>.\<close>

definition CBB_data :: "nat \<Rightarrow> builder \<Rightarrow> size_t option" where
  "CBB_data h st =
     (let c = cells st h in
      if child c \<noteq> None \<or> \<not> cbb_get_base h st then None
      else if is_child c then Some (offset c + ucast (pending_len_len c)) else Some 0)"

definition CBB_len :: "nat \<Rightarrow> builder \<Rightarrow> size_t option" where
  "CBB_len h st =
     (let c = cells st h in
      if child c \<noteq> None \<or> \<not> cbb_get_base h st then None
      else if is_child c then
        (if \<not> offset c + ucast (pending_len_len c) \<le> buf_len (base st) then None
         else Some (buf_len (base st) - offset c - ucast (pending_len_len c)))
      else Some (buf_len (base st)))"

section \<open>Length prefixes\<close>

definition cbb_add_child :: "nat \<Rightarrow> nat \<Rightarrow> byte \<Rightarrow> bool \<Rightarrow> builder \<Rightarrow> cbb_result" where
  "cbb_add_child h out_child len_len is_asn1 st =
     (if child (cells st h) \<noteq> None \<or> is_asn1 \<and> len_len \<noteq> 1 \<or> \<not> cbb_get_base h st then None
      else
        (let off = buf_len (base st) in
         case cbb_buffer_add (cbb_get_base h st) (ucast len_len) st of
           (None, st1) \<Rightarrow> Some (False, st1)
         | (Some prefix_bytes, st1) \<Rightarrow>
             let st2 = write_at (unat prefix_bytes) (replicate (unat len_len) 0) st1;
                 st3 = set_cell out_child (CBB_zero\<lparr>is_child := True, has_base := True, offset := off,
                         pending_len_len := len_len, pending_is_asn1 := is_asn1\<rparr>) st2
             in Some (True, set_cell h ((cells st3 h)\<lparr>child := Some out_child\<rparr>) st3)))"

definition cbb_add_length_prefixed :: "nat \<Rightarrow> nat \<Rightarrow> byte \<Rightarrow> builder \<Rightarrow> cbb_result" where
  "cbb_add_length_prefixed h out_contents len_len st =
     and_then (CBB_flush h st) (cbb_add_child h out_contents len_len False)"

definition CBB_add_u8_length_prefixed :: "nat \<Rightarrow> nat \<Rightarrow> builder \<Rightarrow> cbb_result" where
  "CBB_add_u8_length_prefixed h out_contents = cbb_add_length_prefixed h out_contents 1"

definition CBB_add_u16_length_prefixed :: "nat \<Rightarrow> nat \<Rightarrow> builder \<Rightarrow> cbb_result" where
  "CBB_add_u16_length_prefixed h out_contents = cbb_add_length_prefixed h out_contents 2"

definition CBB_add_u24_length_prefixed :: "nat \<Rightarrow> nat \<Rightarrow> builder \<Rightarrow> cbb_result" where
  "CBB_add_u24_length_prefixed h out_contents = cbb_add_length_prefixed h out_contents 3"

section \<open>Bytes and integers\<close>

text \<open>The offset of the new bytes, to be filled in by the caller.\<close>

definition CBB_add_space :: "nat \<Rightarrow> size_t \<Rightarrow> builder \<Rightarrow> (size_t option \<times> builder) option" where
  "CBB_add_space h n st = Option.bind (CBB_flush h st) (\<lambda>(ok, st1).
     if \<not> ok then Some (None, st1) else Some (cbb_buffer_add (cbb_get_base h st1) n st1))"

definition CBB_reserve :: "nat \<Rightarrow> size_t \<Rightarrow> builder \<Rightarrow> (size_t option \<times> builder) option" where
  "CBB_reserve h n st = Option.bind (CBB_flush h st) (\<lambda>(ok, st1).
     if \<not> ok then Some (None, st1) else Some (cbb_buffer_reserve (cbb_get_base h st1) n st1))"

definition CBB_did_write :: "nat \<Rightarrow> size_t \<Rightarrow> builder \<Rightarrow> cbb_result" where
  "CBB_did_write h n st =
     (if \<not> cbb_get_base h st then None
      else
        (let newlen = buf_len (base st) + n in
         if child (cells st h) \<noteq> None \<or> newlen < buf_len (base st) \<or> newlen > cap (base st) then Some (False, st)
         else Some (True, st\<lparr>base := (base st)\<lparr>buf_len := newlen\<rparr>\<rparr>)))"

definition CBB_add_bytes :: "nat \<Rightarrow> byte list \<Rightarrow> builder \<Rightarrow> cbb_result" where
  "CBB_add_bytes h bs st = Option.bind (CBB_add_space h (of_nat (length bs)) st) (\<lambda>(out, st1).
     case out of None \<Rightarrow> Some (False, st1) | Some k \<Rightarrow> Some (True, write_at (unat k) bs st1))"

definition CBB_add_zeros :: "nat \<Rightarrow> size_t \<Rightarrow> builder \<Rightarrow> cbb_result" where
  "CBB_add_zeros h n st = Option.bind (CBB_add_space h n st) (\<lambda>(out, st1).
     case out of None \<Rightarrow> Some (False, st1) | Some k \<Rightarrow> Some (True, write_at (unat k) (replicate (unat n) 0) st1))"

definition cbb_add_u :: "nat \<Rightarrow> u64 \<Rightarrow> nat \<Rightarrow> builder \<Rightarrow> cbb_result" where
  "cbb_add_u h v len_len st = Option.bind (CBB_add_space h (of_nat len_len) st) (\<lambda>(out, st1).
     case out of
       None \<Rightarrow> Some (False, st1)
     | Some k \<Rightarrow>
         (case put_be len_len (unat k) v (buf (base st1)) of
            (bs, rest) \<Rightarrow>
              let st2 = st1\<lparr>base := (base st1)\<lparr>buf := bs\<rparr>\<rparr>
              in if rest \<noteq> 0 then fail_with_error h st2 else Some (True, st2)))"

definition CBB_add_u8 :: "nat \<Rightarrow> byte \<Rightarrow> builder \<Rightarrow> cbb_result" where
  "CBB_add_u8 h v = cbb_add_u h (ucast v) 1"

definition CBB_add_u16 :: "nat \<Rightarrow> u16 \<Rightarrow> builder \<Rightarrow> cbb_result" where
  "CBB_add_u16 h v = cbb_add_u h (ucast v) 2"

definition CBB_add_u16le :: "nat \<Rightarrow> u16 \<Rightarrow> builder \<Rightarrow> cbb_result" where
  "CBB_add_u16le h v = CBB_add_u16 h (CRYPTO_bswap2 v)"

definition CBB_add_u24 :: "nat \<Rightarrow> u32 \<Rightarrow> builder \<Rightarrow> cbb_result" where
  "CBB_add_u24 h v = cbb_add_u h (ucast v) 3"

definition CBB_add_u32 :: "nat \<Rightarrow> u32 \<Rightarrow> builder \<Rightarrow> cbb_result" where
  "CBB_add_u32 h v = cbb_add_u h (ucast v) 4"

definition CBB_add_u32le :: "nat \<Rightarrow> u32 \<Rightarrow> builder \<Rightarrow> cbb_result" where
  "CBB_add_u32le h v = CBB_add_u32 h (CRYPTO_bswap4 v)"

definition CBB_add_u64 :: "nat \<Rightarrow> u64 \<Rightarrow> builder \<Rightarrow> cbb_result" where
  "CBB_add_u64 h v = cbb_add_u h v 8"

definition CBB_add_u64le :: "nat \<Rightarrow> u64 \<Rightarrow> builder \<Rightarrow> cbb_result" where
  "CBB_add_u64le h v = CBB_add_u64 h (CRYPTO_bswap8 v)"

definition CBB_discard_child :: "nat \<Rightarrow> builder \<Rightarrow> builder option" where
  "CBB_discard_child h st =
     (case child (cells st h) of
        None \<Rightarrow> Some st
      | Some k \<Rightarrow>
          if \<not> cbb_get_base h st \<or> \<not> is_child (cells st k) then None
          else
            (let st1 = st\<lparr>base := (base st)\<lparr>buf_len := offset (cells st k)\<rparr>\<rparr>;
                 st2 = set_cell k ((cells st1 k)\<lparr>has_base := False\<rparr>) st1
             in Some (set_cell h ((cells st2 h)\<lparr>child := None\<rparr>) st2)))"

section \<open>ASN.1\<close>

text \<open>One \<^verbatim>\<open>CBB_add_u8\<close> after the other, up to the first failure.\<close>

fun add_each :: "nat \<Rightarrow> byte list \<Rightarrow> builder \<Rightarrow> cbb_result" where
  "add_each h [] st = Some (True, st)"
| "add_each h (b # bs) st = and_then (CBB_add_u8 h b st) (add_each h bs)"

fun base128_len :: "nat \<Rightarrow> u64 \<Rightarrow> nat" where
  "base128_len 0 copy = 0"
| "base128_len (Suc fuel) copy = (if copy > 0 then Suc (base128_len fuel (drop_bit 7 copy)) else 0)"

definition add_base128_integer :: "nat \<Rightarrow> u64 \<Rightarrow> builder \<Rightarrow> cbb_result" where
  "add_base128_integer h v =
     (let len_len = (if base128_len 10 v = 0 then 1 else base128_len 10 v)
      in add_each h (map (\<lambda>i. let b = (ucast (drop_bit (7 * i) v) :: byte) AND 0x7f in if i \<noteq> 0 then b OR 0x80 else b)
           (rev [0..<len_len])))"

definition CBB_add_asn1 :: "nat \<Rightarrow> nat \<Rightarrow> CBS_ASN1_TAG \<Rightarrow> builder \<Rightarrow> cbb_result" where
  "CBB_add_asn1 h out_contents t st =
     and_then (CBB_flush h st) (\<lambda>st1.
       let tag_bits = (ucast (drop_bit 24 t) :: byte) AND 0xe0; number = t AND CBS_ASN1_TAG_NUMBER_MASK
       in and_then
            (if number \<ge> 0x1f
             then and_then (CBB_add_u8 h (tag_bits OR 0x1f) st1) (add_base128_integer h (ucast number))
             else CBB_add_u8 h (tag_bits OR ucast number) st1)
            (cbb_add_child h out_contents 1 True))"

text \<open>A \<^verbatim>\<open>CBB\<close> on the stack of the function, and the error label that most of them share.\<close>

definition with_local :: "(nat \<Rightarrow> builder \<Rightarrow> cbb_result) \<Rightarrow> builder \<Rightarrow> cbb_result" where
  "with_local f st = f (next_local st) (st\<lparr>next_local := Suc (next_local st)\<rparr>)"

definition or_error :: "nat \<Rightarrow> cbb_result \<Rightarrow> cbb_result" where
  "or_error h r = Option.bind r (\<lambda>(ok, st). if ok then Some (True, st) else fail_with_error h st)"

text \<open>The bytes the loop of \<^verbatim>\<open>CBB_add_asn1_uint64_with_tag\<close> writes, from the byte with index \<^verbatim>\<open>8 - n\<close> on.\<close>

fun uint64_bytes :: "nat \<Rightarrow> u64 \<Rightarrow> bool \<Rightarrow> byte list" where
  "uint64_bytes 0 v started = (if started then [] else [0])"
| "uint64_bytes (Suc n) v started =
     (let b = (ucast (drop_bit (8 * n) v) :: byte) in
      if \<not> started then
        (if b = 0 then uint64_bytes n v False
         else (if b AND 0x80 \<noteq> 0 then [0] else []) @ b # uint64_bytes n v True)
      else b # uint64_bytes n v True)"

definition CBB_add_asn1_uint64_with_tag :: "nat \<Rightarrow> u64 \<Rightarrow> CBS_ASN1_TAG \<Rightarrow> builder \<Rightarrow> cbb_result" where
  "CBB_add_asn1_uint64_with_tag h v t = with_local (\<lambda>contents st.
     and_then (or_error h (and_then (CBB_add_asn1 h contents t st) (add_each contents (uint64_bytes 8 v False))))
       (CBB_flush h))"

definition CBB_add_asn1_uint64 :: "nat \<Rightarrow> u64 \<Rightarrow> builder \<Rightarrow> cbb_result" where
  "CBB_add_asn1_uint64 h v = CBB_add_asn1_uint64_with_tag h v CBS_ASN1_INTEGER"

fun int64_start :: "nat \<Rightarrow> byte list \<Rightarrow> nat" where
  "int64_start 0 bytes = 0"
| "int64_start (Suc start) bytes =
     (if bytes ! Suc start = 0xff \<and> bytes ! start AND 0x80 \<noteq> 0 then int64_start start bytes else Suc start)"

definition CBB_add_asn1_int64_with_tag :: "nat \<Rightarrow> u64 \<Rightarrow> CBS_ASN1_TAG \<Rightarrow> builder \<Rightarrow> cbb_result" where
  "CBB_add_asn1_int64_with_tag h v t =
     (if 0 \<le> sint v then CBB_add_asn1_uint64_with_tag h v t
      else
        (let bytes = bytes_of_word 8 v; start = int64_start 7 bytes in
         with_local (\<lambda>contents st.
           and_then (or_error h (and_then (CBB_add_asn1 h contents t st)
               (add_each contents (map ((!) bytes) (rev [0..<Suc start])))))
             (CBB_flush h))))"

definition CBB_add_asn1_int64 :: "nat \<Rightarrow> u64 \<Rightarrow> builder \<Rightarrow> cbb_result" where
  "CBB_add_asn1_int64 h v = CBB_add_asn1_int64_with_tag h v CBS_ASN1_INTEGER"

definition CBB_add_asn1_octet_string :: "nat \<Rightarrow> byte list \<Rightarrow> builder \<Rightarrow> cbb_result" where
  "CBB_add_asn1_octet_string h bs = with_local (\<lambda>contents st.
     or_error h (and_then (and_then (CBB_add_asn1 h contents CBS_ASN1_OCTETSTRING st) (CBB_add_bytes contents bs)) (CBB_flush h)))"

definition CBB_add_asn1_bool :: "nat \<Rightarrow> bool \<Rightarrow> builder \<Rightarrow> cbb_result" where
  "CBB_add_asn1_bool h v = with_local (\<lambda>contents st.
     or_error h (and_then (and_then (CBB_add_asn1 h contents CBS_ASN1_BOOLEAN st)
       (CBB_add_u8 contents (if v then 0xff else 0))) (CBB_flush h)))"

end
