(* ===== verification/CbbContract.thy ===== *)
theory CbbContract
  imports Cbb
begin

text \<open>
  What an operation of the builder promises to its caller: the bytes it appends, the children it leaves
  open, the \<^verbatim>\<open>CBB\<close> structures it leaves alone, and when it succeeds. The bytes of open children are a list
  from the outermost to the innermost one (\<^verbatim>\<open>pending_child\<close>); closing them inserts their length prefixes.
  The main lemma is that \<^verbatim>\<open>CBB_flush\<close> closes them all.
\<close>


section \<open>The contract of an operation\<close>

text \<open>The buffer of a builder in use, and the bytes written so far.\<close>

definition buffer_ok :: "builder \<Rightarrow> bool" where
  "buffer_ok st \<longleftrightarrow> length (buf (base st)) = unat (cap (base st)) \<and> buf_len (base st) \<le> cap (base st) \<and> \<not> cbb_error (base st)"

definition written :: "builder \<Rightarrow> byte list" where
  "written st = take (unat (buf_len (base st))) (buf (base st))"

lemma length_written: "buffer_ok st \<Longrightarrow> length (written st) = unat (buf_len (base st))"
  by (simp add: buffer_ok_def written_def word_le_nat_alt)

text \<open>\<^verbatim>\<open>n\<close> bytes fit whatever happens: the buffer has them or the allocator never fails.\<close>

definition room :: "builder \<Rightarrow> nat \<Rightarrow> bool" where
  "room st n \<longleftrightarrow> n < 2 ^ 64 \<and> (if can_resize (base st) then \<forall>i. cbb_allocs st i \<noteq> None else n \<le> unat (cap (base st)))"

text \<open>What an operation leaves alone: the cells outside \<^verbatim>\<open>S\<close>, and the room that is left.\<close>

definition cbb_frame :: "nat set \<Rightarrow> builder \<Rightarrow> builder \<Rightarrow> bool" where
  "cbb_frame S st st' \<longleftrightarrow> (\<forall>x < next_local st. x \<notin> S \<longrightarrow> cells st' x = cells st x) \<and> next_local st \<le> next_local st' \<and>
     (\<forall>n. room st n \<longrightarrow> room st' n)"

lemma cbb_frame_refl [simp]: "cbb_frame S st st"
  by (simp add: cbb_frame_def)

lemma cbb_frame_trans: "cbb_frame S st st1 \<Longrightarrow> cbb_frame T st1 st2 \<Longrightarrow> S \<subseteq> U \<Longrightarrow> T \<subseteq> U \<union> {next_local st..} \<Longrightarrow> cbb_frame U st st2"
  unfolding cbb_frame_def
proof (intro conjI allI impI)
  fix x
  assume st: "(\<forall>x<next_local st. x \<notin> S \<longrightarrow> cells st1 x = cells st x) \<and> next_local st \<le> next_local st1 \<and> (\<forall>n. room st n \<longrightarrow> room st1 n)"
    and st1: "(\<forall>x<next_local st1. x \<notin> T \<longrightarrow> cells st2 x = cells st1 x) \<and> next_local st1 \<le> next_local st2 \<and> (\<forall>n. room st1 n \<longrightarrow> room st2 n)"
    and sub: "S \<subseteq> U" "T \<subseteq> U \<union> {next_local st..}"
  show "next_local st \<le> next_local st2"
    using st st1 by simp
  show "room st n \<Longrightarrow> room st2 n" for n
    using st st1 by simp
  assume x: "x < next_local st" "x \<notin> U"
  then have "x \<notin> S" "x \<notin> T" "x < next_local st1"
    using sub st by auto
  then show "cells st2 x = cells st x"
    using st st1 x by simp
qed

lemma cbb_frame_mono: "cbb_frame S st st' \<Longrightarrow> S \<subseteq> T \<Longrightarrow> cbb_frame T st st'"
  by (auto simp: cbb_frame_def)

lemma room_le: "room st n \<Longrightarrow> k \<le> n \<Longrightarrow> room st k"
  by (auto simp: room_def)

subsection \<open>The buffer\<close>

lemma length_sized [simp]: "length (sized n bs) = n"
  by (simp add: sized_def)

lemma realloc_Some:
  assumes "OPENSSL_realloc orig n st = (Some bs, st')" and "length orig \<le> unat n"
  shows "length bs = unat n" "take (length orig) bs = orig"
  using assms by (auto simp: OPENSSL_realloc_def OPENSSL_malloc_def split: option.splits)

lemma realloc_state:
  "OPENSSL_realloc orig n st = (r, st') \<Longrightarrow> st' = st\<lparr>cbb_allocs := \<lambda>i. cbb_allocs st (Suc i)\<rparr>"
  by (auto simp: OPENSSL_realloc_def OPENSSL_malloc_def Let_def split: option.splits)

lemma realloc_succeeds: "cbb_allocs st 0 \<noteq> None \<Longrightarrow> fst (OPENSSL_realloc orig n st) \<noteq> None"
  by (auto simp: OPENSSL_realloc_def OPENSSL_malloc_def Let_def split: option.splits)

text \<open>Everything but the buffer and the allocations stays as it is.\<close>

definition same_cells :: "builder \<Rightarrow> builder \<Rightarrow> bool" where
  "same_cells st st' \<longleftrightarrow> cells st' = cells st \<and> next_local st' = next_local st \<and> (\<forall>n. room st n \<longrightarrow> room st' n)"

lemma same_cells_frame: "same_cells st st' \<Longrightarrow> cbb_frame S st st'"
  by (simp add: same_cells_def cbb_frame_def)

lemma reserve_cases:
  assumes "buffer_ok st"
  obtains (fail) st' where "cbb_buffer_reserve True n st = (None, st')" "cbb_error (base st')" "same_cells st st'"
      "\<not> room st (length (written st) + unat n)"
  | (ok) st' where "cbb_buffer_reserve True n st = (Some (buf_len (base st)), st')" "buffer_ok st'"
      "written st' = written st" "same_cells st st'" "buf_len (base st') = buf_len (base st)"
      "unat (buf_len (base st) + n) = unat (buf_len (base st)) + unat n" "buf_len (base st) + n \<le> cap (base st')"
proof -
  let ?b = "base st"
  let ?new = "buf_len ?b + n"
  show thesis
  proof (cases "?new < buf_len ?b")
    case True
    then have "2 ^ 64 \<le> unat (buf_len ?b) + unat n"
      using unat_u64_less [of "buf_len ?b"] by (auto simp: word_less_nat_alt unat_word_ariths mod_if split: if_splits)
    then have "\<not> room st (length (written st) + unat n)"
      using length_written [OF assms] by (simp add: room_def)
    then show thesis
      using True by (intro fail [of "set_error st"]) (simp_all add: cbb_buffer_reserve_def set_error_def same_cells_def room_def)
  next
    case False
    then have new: "unat ?new = unat (buf_len ?b) + unat n"
      using unat_u64_less [of "buf_len ?b"] unat_u64_less [of n] by (auto simp: word_less_nat_alt unat_word_ariths mod_if split: if_splits)
    show thesis
    proof (cases "?new > cap ?b")
      case small: False
      then show thesis
        using False new assms by (intro ok [of st]) (simp_all add: cbb_buffer_reserve_def same_cells_def)
    next
      case grow: True
      show thesis
      proof (cases "can_resize ?b")
        case fixed: False
        have "\<not> room st (length (written st) + unat n)"
          using grow new fixed length_written [OF assms] by (simp add: room_def word_less_nat_alt)
        then show thesis
          using False grow fixed
          by (intro fail [of "set_error st"]) (simp_all add: cbb_buffer_reserve_def set_error_def same_cells_def room_def)
      next
        case resize: True
        define newcap where "newcap = (if cap ?b * 2 < cap ?b \<or> cap ?b * 2 < ?new then ?new else cap ?b * 2)"
        have cap: "cap ?b \<le> newcap" "?new \<le> newcap"
          using grow by (auto simp: newcap_def)
        obtain r st1 where re: "OPENSSL_realloc (buf ?b) newcap st = (r, st1)"
          by (cases "OPENSSL_realloc (buf ?b) newcap st")
        have st1: "st1 = st\<lparr>cbb_allocs := \<lambda>i. cbb_allocs st (Suc i)\<rparr>"
          by (rule realloc_state [OF re])
        show thesis
        proof (cases r)
          case None
          have "cbb_allocs st 0 = None"
            using realloc_succeeds [of st "buf ?b" newcap] re None by fastforce
          then have "\<not> room st (length (written st) + unat n)"
            using resize by (auto simp: room_def)
          then show thesis
            using False grow resize re None
            by (intro fail [of "set_error st1"])
              (simp_all add: cbb_buffer_reserve_def newcap_def [symmetric] Let_def set_error_def same_cells_def room_def st1)
        next
          case (Some bs)
          have len: "length (buf ?b) \<le> unat newcap"
            using assms cap by (simp add: buffer_ok_def word_le_nat_alt)
          have bs: "length bs = unat newcap" "take (length (buf ?b)) bs = buf ?b"
            using realloc_Some [of "buf ?b" newcap st bs st1] re Some len by auto
          have "unat (buf_len ?b) \<le> length (buf ?b)"
            using assms by (simp add: buffer_ok_def word_le_nat_alt)
          then have "take (unat (buf_len ?b)) bs = take (unat (buf_len ?b)) (buf ?b)"
            using bs(2) by (metis min.absorb1 take_take)
          then show thesis
            using False grow resize re Some assms cap bs(1) new
            by (intro ok [of "st1\<lparr>base := ?b\<lparr>buf := bs, cap := newcap\<rparr>\<rparr>"])
              (auto simp: cbb_buffer_reserve_def newcap_def [symmetric] Let_def buffer_ok_def written_def same_cells_def
                room_def st1)
        qed
      qed
    qed
  qed
qed

lemma add_cases:
  assumes "buffer_ok st"
  obtains (fail) st' where "cbb_buffer_add True n st = (None, st')" "cbb_error (base st')" "same_cells st st'"
      "\<not> room st (length (written st) + unat n)"
  | (ok) st' junk where "cbb_buffer_add True n st = (Some (buf_len (base st)), st')" "buffer_ok st'"
      "written st' = written st @ junk" "length junk = unat n" "same_cells st st'"
      "unat (buf_len (base st')) = unat (buf_len (base st)) + unat n"
proof (cases rule: reserve_cases [OF assms, of n, case_names fail ok])
  case (fail st')
  then show thesis
    using that(1) [of st'] by (simp add: cbb_buffer_add_def)
next
  case (ok st')
  let ?st = "st'\<lparr>base := (base st')\<lparr>buf_len := buf_len (base st') + n\<rparr>\<rparr>"
  have le: "unat (buf_len (base st) + n) \<le> length (buf (base st'))"
    using ok by (simp add: buffer_ok_def word_le_nat_alt)
  have "written ?st = written st' @ take (unat n) (drop (unat (buf_len (base st))) (buf (base st')))"
    using ok by (simp add: written_def take_add)
  then show thesis
    using ok le
    by (intro that(2) [of ?st "take (unat n) (drop (unat (buf_len (base st))) (buf (base st')))"])
      (simp_all add: cbb_buffer_add_def buffer_ok_def same_cells_def room_def)
qed

text \<open>Filling in the new bytes.\<close>

lemma write_new:
  assumes "buffer_ok st" and "written st = pre @ junk" and "length junk = length bs"
  shows "buffer_ok (write_at (length pre) bs st)" "written (write_at (length pre) bs st) = pre @ bs"
proof -
  let ?b = "base st" and ?n = "unat (buf_len (base st))"
  have n: "?n = length pre + length bs" "?n \<le> length (buf ?b)"
    using length_written [OF assms(1)] assms by (simp_all add: buffer_ok_def word_le_nat_alt)
  have pre: "take (length pre) (buf ?b) = pre"
    using assms(2) n(1) unfolding written_def by (metis append_eq_conv_conj le_add1 min.absorb1 take_take)
  show "buffer_ok (write_at (length pre) bs st)"
    using assms(1) n by (simp add: buffer_ok_def write_at_def)
  show "written (write_at (length pre) bs st) = pre @ bs"
    using n pre by (simp add: written_def write_at_def)
qed

lemma write_at_frame [simp]:
  "cells (write_at k bs st) = cells st" "next_local (write_at k bs st) = next_local st"
  "room (write_at k bs st) n = room st n" "cbb_error (base (write_at k bs st)) = cbb_error (base st)"
  by (simp_all add: write_at_def room_def)

lemma put_be_eq:
  "k + n \<le> length bs \<Longrightarrow> put_be n k v bs = (take k bs @ be_bytes n v @ drop (k + n) bs, drop_bit (8 * n) v)"
proof (induction n arbitrary: v bs)
  case 0
  then show ?case
    by (simp add: be_bytes_def)
next
  case (Suc n)
  have "drop (k + n) (bs[k + n := ucast v]) = ucast v # drop (k + Suc n) bs"
    using Suc.prems by (simp add: Cons_nth_drop_Suc [symmetric] drop_update_cancel)
  then show ?case
    using Suc.IH [of "bs[k + n := ucast v]" "drop_bit 8 v"] Suc.prems by (simp add: be_bytes_def ac_simps)
qed

subsection \<open>Pending children\<close>

text \<open>
  The abstract builder: the children that are open, from the outermost to the innermost, each with
  the kind of its length prefix and the bytes written to it so far.
\<close>

datatype prefix_kind = Fixed nat | Asn1

datatype pending_child = Pending (handle: nat) (kind: prefix_kind) (contents: "byte list")

fun prefix_len :: "prefix_kind \<Rightarrow> nat" where
  "prefix_len (Fixed k) = k"
| "prefix_len Asn1 = 1"

fun prefix_code :: "prefix_kind \<Rightarrow> nat \<Rightarrow> byte list" where
  "prefix_code (Fixed k) n = be_bytes k (of_nat n :: u64)"
| "prefix_code Asn1 n = der_length n"

fun prefix_fits :: "prefix_kind \<Rightarrow> nat \<Rightarrow> bool" where
  "prefix_fits (Fixed k) n \<longleftrightarrow> n < 2 ^ (8 * k)"
| "prefix_fits Asn1 n \<longleftrightarrow> n < 2 ^ 32 - 1"

text \<open>The bytes in the buffer for open children, and the bytes that closing them leaves.\<close>

fun layout :: "pending_child list \<Rightarrow> byte list" where
  "layout [] = []"
| "layout (f # fs) = replicate (prefix_len (kind f)) 0 @ contents f @ layout fs"

fun closed :: "pending_child list \<Rightarrow> byte list" where
  "closed [] = []"
| "closed (f # fs) = (let c = contents f @ closed fs in prefix_code (kind f) (length c) @ c)"

fun fits :: "pending_child list \<Rightarrow> bool" where
  "fits [] \<longleftrightarrow> True"
| "fits (f # fs) \<longleftrightarrow> fits fs \<and> prefix_fits (kind f) (length (contents f @ closed fs))"

definition child_cell :: "nat \<Rightarrow> pending_child \<Rightarrow> cbb_st \<Rightarrow> bool" where
  "child_cell pos f c \<longleftrightarrow> is_child c \<and> has_base c \<and> offset c = of_nat pos \<and> pending_len_len c = of_nat (prefix_len (kind f)) \<and>
     (pending_is_asn1 c \<longleftrightarrow> kind f = Asn1) \<and> prefix_len (kind f) \<le> 3"

fun linked :: "builder \<Rightarrow> nat \<Rightarrow> nat \<Rightarrow> pending_child list \<Rightarrow> bool" where
  "linked st h pos [] \<longleftrightarrow> child (cells st h) = None"
| "linked st h pos (f # fs) \<longleftrightarrow> child (cells st h) = Some (handle f) \<and> child_cell pos f (cells st (handle f)) \<and>
     linked st (handle f) (pos + prefix_len (kind f) + length (contents f)) fs"

text \<open>The \<^verbatim>\<open>CBB\<close> \<^verbatim>\<open>h\<close> may be written to: \<^verbatim>\<open>pre\<close> was written before its open children.\<close>

definition owns :: "builder \<Rightarrow> nat \<Rightarrow> byte list \<Rightarrow> pending_child list \<Rightarrow> bool" where
  "owns st h pre fs \<longleftrightarrow> buffer_ok st \<and> written st = pre @ layout fs \<and> linked st h (length pre) fs \<and> cbb_get_base h st \<and>
     distinct (h # map handle fs) \<and> (\<forall>x \<in> set (h # map handle fs). x < next_local st)"

lemma linked_cong:
  "(\<And>x. x \<in> set (map handle fs) \<Longrightarrow> cells st' x = cells st x) \<Longrightarrow> child (cells st' h) = child (cells st h) \<Longrightarrow>
   linked st' h pos fs = linked st h pos fs"
  by (induction fs arbitrary: h pos) simp_all

lemma length_prefix_code:
  assumes "prefix_fits k n"
  shows "prefix_len k \<le> length (prefix_code k n)" "length (prefix_code k n) \<le> prefix_len k + 4"
proof -
  have "length_octets n \<le> 4"
    by (rule length_octets_range)
  then show "prefix_len k \<le> length (prefix_code k n)" "length (prefix_code k n) \<le> prefix_len k + 4"
    by (cases k; simp add: length_der_length)+
qed

lemma layout_le_closed: "fits fs \<Longrightarrow> length (layout fs) \<le> length (closed fs)"
proof (induction fs)
  case (Cons f fs)
  then show ?case
    using length_prefix_code(1) [of "kind f" "length (contents f @ closed fs)"] by (simp add: Let_def)
qed simp

text \<open>What an operation on \<^verbatim>\<open>h\<close> promises: no failed assertion; on success the bytes \<^verbatim>\<open>new\<close> and the open children \<^verbatim>\<open>fs'\<close>.\<close>

definition appends :: "nat \<Rightarrow> byte list \<Rightarrow> pending_child list \<Rightarrow> nat set \<Rightarrow> bool \<Rightarrow> builder \<Rightarrow> cbb_result \<Rightarrow> bool" where
  "appends h pre fs' S can st r \<longleftrightarrow> (\<exists>ok st'. r = Some (ok, st') \<and> (\<not> ok \<longrightarrow> cbb_error (base st')) \<and>
     (ok \<longrightarrow> can \<and> owns st' h pre fs') \<and> (\<exists>c. cells st' h = (cells st h)\<lparr>child := c\<rparr>) \<and>
     cbb_frame (insert h S) st st' \<and>
     (can \<and> room st (length (pre @ layout fs')) \<longrightarrow> ok))"

lemma appendsD:
  assumes "appends h pre fs' S can st r"
  obtains (fail) st' c where "r = Some (False, st')" "cbb_error (base st')" "\<not> (can \<and> room st (length (pre @ layout fs')))"
      "cells st' h = (cells st h)\<lparr>child := c\<rparr>" "cbb_frame (insert h S) st st'"
  | (ok) st' c where "r = Some (True, st')" "can" "owns st' h pre fs'" "cells st' h = (cells st h)\<lparr>child := c\<rparr>" "cbb_frame (insert h S) st st'"
  using assms by (auto simp: appends_def)

lemma cells_set_cell [simp]: "cells (set_cell k c st) = (cells st)(k := c)" "next_local (set_cell k c st) = next_local st"
  "base (set_cell k c st) = base st" "room (set_cell k c st) n = room st n" "buffer_ok (set_cell k c st) = buffer_ok st"
  "written (set_cell k c st) = written st"
  by (simp_all add: set_cell_def room_def buffer_ok_def written_def)

lemma cells_set_error [simp]: "cells (set_error st) = cells st" "next_local (set_error st) = next_local st"
  "cbb_error (base (set_error st))" "room (set_error st) n = room st n"
  by (simp_all add: set_error_def room_def)

lemma fail_with_error_eq:
  "cbb_get_base h st \<Longrightarrow> fail_with_error h st = Some (False, set_cell h ((cells st h)\<lparr>child := None\<rparr>) (set_error st))"
  by (simp add: fail_with_error_def cbb_on_error_def)

lemma cell_self: "\<exists>c. cells st h = (cells st h)\<lparr>child := c\<rparr>"
  by (intro exI [of _ "child (cells st h)"]) simp

lemma fail_with_error_appends:
  assumes "cbb_get_base h st1" "cbb_frame (insert h S) st st1" "\<not> (can \<and> room st (length (pre @ layout fs')))"
    "\<exists>c. cells st1 h = (cells st h)\<lparr>child := c\<rparr>"
  shows "appends h pre fs' S can st (fail_with_error h st1)"
proof -
  have "cbb_frame (insert h S) st1 (set_cell h ((cells st1 h)\<lparr>child := None\<rparr>) (set_error st1))"
    by (simp add: cbb_frame_def)
  then have "cbb_frame (insert h S) st (set_cell h ((cells st1 h)\<lparr>child := None\<rparr>) (set_error st1))"
    by (rule cbb_frame_trans [OF assms(2)]) auto
  then show ?thesis
    using assms(1,3,4) unfolding appends_def fail_with_error_eq [OF assms(1)] by (intro exI [of _ False]) auto
qed

subsection \<open>Flushing\<close>

lemma write_mid:
  assumes "buffer_ok st" and "written st = xs @ mid @ ys" and "length mid = length bs"
  shows "buffer_ok (write_at (length xs) bs st)" "written (write_at (length xs) bs st) = xs @ bs @ ys"
proof -
  let ?n = "unat (buf_len (base st))"
  have n: "?n = length xs + length bs + length ys" "?n \<le> length (buf (base st))"
    using length_written [OF assms(1)] assms by (simp_all add: buffer_ok_def word_le_nat_alt)
  have buf: "buf (base st) = (xs @ mid @ ys) @ drop ?n (buf (base st))"
    using assms(2) unfolding written_def by (metis append_take_drop_id)
  have "take (length xs) (buf (base st)) = xs"
    by (subst buf) simp
  moreover have "drop (length xs + length bs) (buf (base st)) = ys @ drop ?n (buf (base st))"
    by (subst buf) (simp add: assms(3) [symmetric])
  ultimately show "buffer_ok (write_at (length xs) bs st)" "written (write_at (length xs) bs st) = xs @ bs @ ys"
    using assms(1) n by (simp_all add: buffer_ok_def write_at_def written_def)
qed

lemma read_mid:
  assumes "buffer_ok st" and "written st = xs @ mid @ ys"
  shows "take (length mid) (drop (length xs) (buf (base st))) = mid"
proof -
  have buf: "buf (base st) = (xs @ mid @ ys) @ drop (unat (buf_len (base st))) (buf (base st))"
    using assms(2) unfolding written_def by (metis append_take_drop_id)
  show ?thesis
    by (subst buf) simp
qed

lemma put_mid:
  assumes "buffer_ok st" and "written st = xs @ mid @ ys" and "length mid = n"
  shows "put_be n (length xs) v (buf (base st)) =
    (buf (base (write_at (length xs) (be_bytes n v) st)), drop_bit (8 * n) v)"
proof -
  have "length xs + n \<le> length (buf (base st))"
    using length_written [OF assms(1)] assms by (simp add: buffer_ok_def word_le_nat_alt)
  then show ?thesis
    by (simp add: put_be_eq write_at_def)
qed

lemma appends_intro:
  assumes "r = Some (True, st')" "can" "owns st' h pre fs'" "cells st' h = (cells st h)\<lparr>child := c\<rparr>" "cbb_frame (insert h S) st st'"
  shows "appends h pre fs' S can st r"
  using assms by (auto simp: appends_def)

lemma small_length:
  assumes "buffer_ok st" and "written st = xs @ ys"
  shows "unat (of_nat (length xs) :: u64) = length xs"
  using length_written [OF assms(1)] assms(2) unat_u64_less [of "buf_len (base st)"] by (intro unat_of_nat_u64) simp

lemma flush_prefix_appends:
  assumes ok: "buffer_ok st" and w: "written st = pre @ mid @ c" and mid: "length mid = n" "n \<le> 4"
    and k: "offset (cells st k) = of_nat (length pre)" "pending_len_len (cells st k) = of_nat n"
    and h: "h \<noteq> k" "cbb_get_base h st" "h < next_local st"
  shows "appends h (pre @ be_bytes n len @ c) [] {k} (drop_bit (8 * n) len = 0) st (flush_prefix h k len st)"
proof -
  have u: "unat (pending_len_len (cells st k)) = n" "unat (offset (cells st k)) = length pre"
    using mid small_length [OF ok w] by (simp_all add: k unat_of_nat)
  let ?st1 = "write_at (length pre) (be_bytes n len) st"
  have put: "put_be n (length pre) len (buf (base st)) = (buf (base ?st1), drop_bit (8 * n) len)"
    by (rule put_mid [OF ok w mid(1)])
  have st1: "st\<lparr>base := base st\<lparr>buf := buf (base ?st1)\<rparr>\<rparr> = ?st1"
    by (simp add: write_at_def)
  have ok1: "buffer_ok ?st1" "written ?st1 = pre @ be_bytes n len @ c"
    using write_mid [OF ok w, of "be_bytes n len"] mid by simp_all
  show ?thesis
  proof (cases "drop_bit (8 * n) len = 0")
    case True
    let ?st2 = "set_cell h ((cells ?st1 h)\<lparr>child := None\<rparr>) (set_cell k ((cells st k)\<lparr>has_base := False\<rparr>) ?st1)"
    have r: "flush_prefix h k len st = Some (True, ?st2)"
      using True by (simp add: flush_prefix_def u put Let_def st1)
    have "owns ?st2 h (pre @ be_bytes n len @ c) []"
      using ok1 h by (simp add: owns_def cbb_get_base_def)
    moreover have "cbb_frame (insert h {k}) st ?st2"
      by (simp add: cbb_frame_def)
    ultimately show ?thesis
      using True h(1) by (intro appends_intro [OF r, where c = None]) simp_all
  next
    case False
    have "cbb_get_base h ?st1"
      using h(2) by (simp add: cbb_get_base_def)
    moreover have "cbb_frame (insert h {k}) st ?st1"
      by (simp add: cbb_frame_def)
    moreover have "flush_prefix h k len st = fail_with_error h ?st1"
      using False by (simp add: flush_prefix_def u put Let_def st1)
    ultimately show ?thesis
      using False cell_self [of st h] by (simp add: fail_with_error_appends)
  qed
qed

lemma asn1_length_form_eq:
  assumes "unat len = n"
  shows "asn1_length_form len =
    (if \<not> n < 2 ^ 32 - 1 then None else if n < 128 then Some (1, of_nat n, 0)
     else Some (of_nat (1 + length_octets n), of_nat (128 + length_octets n), len))"
proof -
  have "ucast len = (of_nat n :: byte)"
    unfolding assms [symmetric] by simp
  then show ?thesis
    using assms by (simp add: asn1_length_form_def word_less_nat_alt length_octets_def)
qed

lemma appends_frame: "appends h pre fs' S can st r \<Longrightarrow> S \<subseteq> T \<Longrightarrow> appends h pre fs' T can st r"
  by (fastforce simp: appends_def intro: cbb_frame_mono)

text \<open>An operation that starts in a state that another one left behind.\<close>

lemma appends_after:
  assumes "appends h pre fs' S can st1 r" "cbb_frame (insert h S) st st1" "\<exists>c. cells st1 h = (cells st h)\<lparr>child := c\<rparr>" "h < next_local st"
  shows "appends h pre fs' S can st r"
proof -
  obtain ok st' where r: "r = Some (ok, st')" "\<not> ok \<longrightarrow> cbb_error (base st')"
    "ok \<longrightarrow> can \<and> owns st' h pre fs'" "\<exists>c. cells st' h = (cells st1 h)\<lparr>child := c\<rparr>"
    "cbb_frame (insert h S) st1 st'" "can \<and> room st1 (length (pre @ layout fs')) \<longrightarrow> ok"
    using assms(1) by (auto simp: appends_def)
  have "cbb_frame (insert h S) st st'"
    by (rule cbb_frame_trans [OF assms(2) r(5)]) auto
  moreover have "can \<and> room st (length (pre @ layout fs')) \<longrightarrow> ok"
    using r(6) assms(2) by (auto simp: cbb_frame_def)
  ultimately show ?thesis
    using r(1-4) assms(3) unfolding appends_def by (intro exI [of _ ok] exI [of _ st']) auto
qed

lemma buf_len_written: "buffer_ok st \<Longrightarrow> buf_len (base st) = of_nat (length (written st))"
  by (simp add: length_written)

lemma flush_child_appends:
  assumes ok: "buffer_ok st" and w: "written st = pre @ replicate (prefix_len (kind f)) 0 @ c"
    and k: "child_cell (length pre) f (cells st k)" and h: "h \<noteq> k" "cbb_get_base h st" "h < next_local st" "k < next_local st"
  shows "appends h (pre @ prefix_code (kind f) (length c) @ c) [] {k} (prefix_fits (kind f) (length c)) st
    (flush_child h k (of_nat (length pre + prefix_len (kind f))) st)"
proof -
  let ?start = "of_nat (length pre + prefix_len (kind f)) :: u64"
  have len: "buf_len (base st) - ?start = of_nat (length c)"
    using buf_len_written [OF ok] w by simp
  have uc: "unat (of_nat (length c) :: u64) = length c"
    using length_written [OF ok] w unat_u64_less [of "buf_len (base st)"] by (intro unat_of_nat_u64) simp
  show ?thesis
  proof (cases "kind f")
    case (Fixed n)
    have "n \<le> 4" "pending_len_len (cells st k) = of_nat n" "offset (cells st k) = of_nat (length pre)"
      "\<not> pending_is_asn1 (cells st k)"
      using k by (auto simp: child_cell_def Fixed)
    moreover have "drop_bit (8 * n) (of_nat (length c) :: u64) = 0 \<longleftrightarrow> length c < 2 ^ (8 * n)"
      by (simp add: drop_bit_eq_0_iff_unat uc)
    ultimately show ?thesis
      using flush_prefix_appends [OF ok, of pre "replicate n 0" c n k h "of_nat (length c)"] w h
      by (simp add: flush_child_def Fixed len [unfolded Fixed, simplified])
  next
    case Asn1
    have cell: "pending_len_len (cells st k) = 1" "offset (cells st k) = of_nat (length pre)" "pending_is_asn1 (cells st k)"
      using k by (auto simp: child_cell_def Asn1)
    have w1: "written st = pre @ [0] @ c"
      using w by (simp add: Asn1)
    have upre: "unat (of_nat (length pre) :: u64) = length pre"
      by (rule small_length [OF ok w1])
    have upre1: "unat (1 + of_nat (length pre) :: u64) = length pre + 1"
      using small_length [OF ok, of "pre @ [0]" c] w1 by simp
    note form = asn1_length_form_eq [OF uc]
    show ?thesis
    proof (cases "length c < 2 ^ 32 - 1")
      case False
      then show ?thesis
        using h cell_self [of st h]
        by (simp add: flush_child_def Asn1 len [unfolded Asn1, simplified] cell form fail_with_error_appends Let_def)
    next
      case fit: True
      show ?thesis
      proof (cases "length c < 128")
        case True
        let ?st1 = "set_cell k ((cells st k)\<lparr>offset := of_nat (length pre) + 1, pending_len_len := 0\<rparr>)
          (write_at (length pre) [of_nat (length c)] st)"
        have st1: "buffer_ok ?st1" "written ?st1 = (pre @ [of_nat (length c)]) @ [] @ c"
          using write_mid [OF ok w1, of "[of_nat (length c)]"] by simp_all
        have "appends h ((pre @ [of_nat (length c)]) @ be_bytes 0 (0 :: u64) @ c) [] {k} (drop_bit (8 * 0) (0 :: u64) = 0) ?st1
            (flush_prefix h k 0 ?st1)"
          using h by (intro flush_prefix_appends [OF st1]) (simp_all add: cbb_get_base_def)
        then have "appends h (pre @ der_length (length c) @ c) [] {k} True ?st1 (flush_prefix h k 0 ?st1)"
          using True by (simp add: be_bytes_def der_length_def)
        moreover have "cbb_frame (insert h {k}) st ?st1" "\<exists>x. cells ?st1 h = (cells st h)\<lparr>child := x\<rparr>"
          using h by (auto simp: cbb_frame_def intro: exI [of _ "child (cells st h)"])
        ultimately have "appends h (pre @ der_length (length c) @ c) [] {k} True st (flush_prefix h k 0 ?st1)"
          by (rule appends_after [OF _ _ _ h(3)])
        then show ?thesis
          using True fit by (simp add: flush_child_def Asn1 len [unfolded Asn1, simplified] cell form Let_def upre)
      next
        case long: False
        let ?n = "length c" and ?o = "length_octets (length c)"
        have o: "1 \<le> ?o" "?o \<le> 4" "?n < 2 ^ (8 * ?o)"
          using length_octets_range [of ?n] length_octets_less [of ?n] fit by auto
        have "(ucast (of_nat (1 + ?o) :: byte) :: u64) - 1 = of_nat ?o" "(of_nat (1 + ?o) :: byte) \<noteq> 1"
            "(of_nat (1 + ?o) :: byte) - 1 = of_nat ?o"
          using o(1,2) by (auto simp: word_unat_eq_iff unat_of_nat unat_sub_if_size word_size unat_word_ariths)
        then obtain ll ib :: byte where lf: "asn1_length_form (of_nat ?n) = Some (ll, ib, of_nat ?n)" "ll \<noteq> 1"
            "(ucast ll :: u64) - 1 = of_nat ?o" "ll - 1 = of_nat ?o" "ib = of_nat (128 + ?o)"
          using form long fit by (simp del: of_nat_add)
        have uo: "unat (of_nat ?o :: u64) = ?o"
          using o(2) by (intro unat_of_nat_u64) simp
        have code: "der_length ?n = ib # be_bytes ?o (of_nat ?n :: u64)"
          using long by (simp add: der_length_def lf(5))
        note unfolded = flush_child_def Asn1 len [unfolded Asn1, simplified] cell lf(1-4) Let_def
        show ?thesis
        proof (cases rule: add_cases [OF ok, of "of_nat ?o", case_names fail ok])
          case (fail st1)
          have "\<not> room st (length (pre @ der_length ?n @ c))"
            using fail(4) w1 uo by (simp add: code ac_simps)
          moreover have "cbb_get_base h st1" "cbb_frame (insert h {k}) st st1" "\<exists>c. cells st1 h = (cells st h)\<lparr>child := c\<rparr>"
            using fail(3) h(2) same_cells_frame cell_self [of st h] by (auto simp: same_cells_def cbb_get_base_def)
          ultimately show ?thesis
            using long fit fail(1) by (simp add: unfolded fail_with_error_appends)
        next
          case (ok st1 junk)
          have junk: "length junk = ?o" and w1': "written st1 = (pre @ [0]) @ c @ junk"
            using ok(3,4) w1 uo by simp_all
          have rd: "take ?n (drop (length pre + 1) (buf (base st1))) = c"
            using read_mid [OF ok(2) w1'] by simp
          have "length pre + 1 + ?o < 2 ^ 64"
            using length_written [OF ok(2)] w1' unat_u64_less [of "buf_len (base st1)"] junk by simp
          from unat_of_nat_u64 [OF this] have ustart: "unat (1 + of_nat (length pre) + of_nat ?o :: u64) = length pre + 1 + ?o"
            by (simp add: add.assoc)
          let ?mid = "take ?o (c @ junk)"
          have "written st1 = (pre @ [0] @ ?mid) @ drop ?o (c @ junk) @ []"
            using w1' append_take_drop_id [of ?o "c @ junk"] by (simp del: take_append drop_append append_take_drop_id)
          note w2 = write_mid [OF ok(2) this, of c]
          let ?st2 = "write_at (length pre + 1 + ?o) c st1"
          have mid: "length ?mid = ?o"
            using junk by simp
          have st2: "buffer_ok ?st2" "written ?st2 = pre @ [0] @ ?mid @ c"
            using w2 mid junk by (simp_all del: take_append)
          let ?st3 = "write_at (length pre) [ib] ?st2"
          have st3: "buffer_ok ?st3" "written ?st3 = (pre @ [ib]) @ ?mid @ c"
            using write_mid [OF st2, of "[ib]"] by simp_all
          let ?st4 = "set_cell k ((cells st k)\<lparr>offset := of_nat (length pre) + 1, pending_len_len := of_nat ?o\<rparr>) ?st3"
          have cells: "cells st1 = cells st" "next_local st1 = next_local st"
            using ok(5) by (simp_all add: same_cells_def)
          have "appends h ((pre @ [ib]) @ be_bytes ?o (of_nat ?n :: u64) @ c) [] {k}
              (drop_bit (8 * ?o) (of_nat ?n :: u64) = 0) ?st4 (flush_prefix h k (of_nat ?n) ?st4)"
            using h o st3 mid cells by (intro flush_prefix_appends [where mid = ?mid]) (simp_all add: cbb_get_base_def)
          moreover have "drop_bit (8 * ?o) (of_nat ?n :: u64) = 0"
            using o(3) by (simp add: drop_bit_eq_0_iff_unat uc)
          ultimately have "appends h (pre @ der_length ?n @ c) [] {k} True ?st4 (flush_prefix h k (of_nat ?n) ?st4)"
            by (simp add: code)
          moreover have "cbb_frame (insert h {k}) st ?st4"
            using ok(5) by (simp add: cbb_frame_def same_cells_def)
          moreover have "\<exists>x. cells ?st4 h = (cells st h)\<lparr>child := x\<rparr>"
            using h cells by (auto intro: exI [of _ "child (cells st h)"])
          ultimately have "appends h (pre @ der_length ?n @ c) [] {k} True st (flush_prefix h k (of_nat ?n) ?st4)"
            by (rule appends_after [OF _ _ _ h(3)])
          then show ?thesis
            using long fit ok(1) rd ustart by (simp add: unfolded upre upre1 uc cells)
        qed
      qed
    qed
  qed
qed

lemma owns_linked: "owns st h pre fs \<Longrightarrow> h < next_local st" "owns st h pre fs \<Longrightarrow> cbb_get_base h st"
  "owns st h pre fs \<Longrightarrow> buffer_ok st" "owns st h pre [] \<Longrightarrow> written st = pre" "owns st h pre [] \<Longrightarrow> child (cells st h) = None"
  by (simp_all add: owns_def)

lemma prefix_kind_positive: "child_cell pos f c \<Longrightarrow> prefix_len (kind f) \<le> 3"
  by (simp add: child_cell_def)

lemma flush_appends:
  "owns st h pre fs \<Longrightarrow> appends h (pre @ closed fs) [] (set (map handle fs)) (fits fs) st (CBB_flush h st)"
proof (induction fs arbitrary: st h pre)
  case Nil
  then have "CBB_flush h st = Some (True, st)"
    by (subst CBB_flush.simps) (simp add: owns_def buffer_ok_def)
  then show ?case
    using Nil by (intro appends_intro [where st' = st and c = "child (cells st h)"]) simp_all
next
  case (Cons f fs)
  let ?k = "handle f" and ?pl = "prefix_len (kind f)"
  let ?c = "contents f @ closed fs"
  let ?pre = "pre @ replicate ?pl 0 @ contents f"
  let ?S = "set (map handle (f # fs))"
  have st: "buffer_ok st" "written st = ?pre @ layout fs" "child (cells st h) = Some ?k"
      "child_cell (length pre) f (cells st ?k)" "linked st ?k (length ?pre) fs" "cbb_get_base h st"
      "h \<noteq> ?k" "h \<notin> handle ` set fs" "h < next_local st" "?k < next_local st"
    using Cons.prems by (auto simp: owns_def ac_simps)
  have "owns st ?k ?pre fs"
    using Cons.prems st by (auto simp: owns_def cbb_get_base_def child_cell_def)
  from Cons.IH [OF this] have IH: "appends ?k (pre @ replicate ?pl 0 @ ?c) [] (handle ` set fs) (fits fs) st (CBB_flush ?k st)"
    by simp
  have unfold: "CBB_flush h st = Option.bind (CBB_flush ?k st) (\<lambda>(ok, st1).
      let c = cells st ?k; child_start = offset c + ucast (pending_len_len c) in
      if \<not> ok \<or> child_start < offset c \<or> buf_len (base st1) < child_start then fail_with_error h st1
      else flush_child h ?k child_start st1)"
    using st by (subst CBB_flush.simps) (simp add: buffer_ok_def child_cell_def)
  have start: "offset (cells st ?k) + ucast (pending_len_len (cells st ?k)) = of_nat (length pre + ?pl)"
  proof -
    have "ucast (of_nat ?pl :: byte) = (of_nat ?pl :: u64)"
      using prefix_kind_positive [OF st(4)] by (simp add: word_unat_eq_iff unat_of_nat)
    then show ?thesis
      using st(4) by (simp add: child_cell_def)
  qed
  have h_frame: "cells st1 h = cells st h" if "cbb_frame (insert ?k (handle ` set fs)) st st1" for st1
    using that st(7-9) by (auto simp: cbb_frame_def)
  from IH show ?case
  proof (cases rule: appendsD [case_names fail ok])
    case (fail st1 x)
    have "\<not> (fits (f # fs) \<and> room st (length (pre @ closed (f # fs))))"
    proof
      assume a: "fits (f # fs) \<and> room st (length (pre @ closed (f # fs)))"
      then have "prefix_fits (kind f) (length ?c)"
        by (simp only: fits.simps)
      then have "?pl \<le> length (prefix_code (kind f) (length ?c))"
        by (rule length_prefix_code)
      then have "length (pre @ replicate ?pl 0 @ ?c) \<le> length (pre @ closed (f # fs))"
        by (simp add: Let_def)
      with a have "room st (length (pre @ replicate ?pl 0 @ ?c))"
        by (blast intro: room_le)
      then show False
        using fail(3) a by simp
    qed
    moreover have "cbb_get_base h st1"
      using st(6) h_frame [OF fail(5)] by (simp add: cbb_get_base_def)
    moreover have "cbb_frame (insert h ?S) st st1"
      using fail(5) by (rule cbb_frame_mono) auto
    moreover have "\<exists>c. cells st1 h = (cells st h)\<lparr>child := c\<rparr>"
      using h_frame [OF fail(5)] by (auto intro: exI [of _ "child (cells st h)"])
    ultimately show ?thesis
      using fail(1) by (simp add: unfold Let_def fail_with_error_appends)
  next
    case (ok st1 x)
    have w1: "buffer_ok st1" "written st1 = pre @ replicate ?pl 0 @ ?c"
      using ok(3) by (simp_all add: owns_def)
    have pos: "unat (of_nat (length pre) :: u64) = length pre"
      by (rule small_length [OF w1])
    have pos2: "unat (of_nat (length pre + ?pl) :: u64) = length pre + ?pl"
      using small_length [OF w1(1), of "pre @ replicate ?pl 0"] w1(2) by simp
    have "\<not> of_nat (length pre + ?pl) < offset (cells st ?k)"
      using st(4) pos pos2 by (simp add: child_cell_def word_less_nat_alt)
    moreover have "\<not> buf_len (base st1) < of_nat (length pre + ?pl)"
      using length_written [OF w1(1)] w1(2) pos2 by (simp add: word_less_nat_alt)
    ultimately have r: "CBB_flush h st = flush_child h ?k (of_nat (length pre + ?pl)) st1"
      using ok(1) by (simp add: unfold start Let_def)
    have "child_cell (length pre) f (cells st1 ?k)"
      using st(4) ok(4) by (simp add: child_cell_def)
    then have "appends h (pre @ prefix_code (kind f) (length ?c) @ ?c) [] {?k} (prefix_fits (kind f) (length ?c)) st1 (CBB_flush h st)"
      unfolding r using w1 st(6-10) h_frame [OF ok(5)] ok(5)
      by (intro flush_child_appends) (auto simp: cbb_get_base_def cbb_frame_def)
    then have "appends h (pre @ closed (f # fs)) [] ?S (prefix_fits (kind f) (length ?c)) st1 (CBB_flush h st)"
      by (auto simp: Let_def intro: appends_frame)
    moreover have "cbb_frame (insert h ?S) st st1"
      using ok(5) by (rule cbb_frame_mono) auto
    moreover have "\<exists>c. cells st1 h = (cells st h)\<lparr>child := c\<rparr>"
      using h_frame [OF ok(5)] by (auto intro: exI [of _ "child (cells st h)"])
    ultimately have "appends h (pre @ closed (f # fs)) [] ?S (prefix_fits (kind f) (length ?c)) st (CBB_flush h st)"
      using st(9) by (rule appends_after)
    then show ?thesis
      using ok(2) by simp
  qed
qed

subsection \<open>Writing\<close>

text \<open>An operation that flushes first.\<close>

lemma after_flush:
  assumes "owns st h pre fs"
    and "\<And>st1. owns st1 h (pre @ closed fs) [] \<Longrightarrow> cbb_frame (insert h S) st st1 \<Longrightarrow> appends h (pre @ closed fs @ new) fs' S can st1 (q st1)"
    and "set (map handle fs) \<subseteq> S"
    and "\<And>st1. q' (False, st1) = Some (False, st1)" "\<And>st1. q' (True, st1) = q st1"
  shows "appends h (pre @ closed fs @ new) fs' S (fits fs \<and> can) st (Option.bind (CBB_flush h st) q')"
proof -
  have flush: "appends h (pre @ closed fs) [] S (fits fs) st (CBB_flush h st)"
    using flush_appends [OF assms(1)] assms(3) by (rule appends_frame)
  then show ?thesis
  proof (cases rule: appendsD [case_names fail ok])
    case (fail st1 c)
    have "\<not> ((fits fs \<and> can) \<and> room st (length ((pre @ closed fs @ new) @ layout fs')))"
      using fail(3) room_le [of st "length ((pre @ closed fs @ new) @ layout fs')" "length (pre @ closed fs)"] by auto
    then show ?thesis
      unfolding appends_def fail(1) using fail(2,4,5) assms(4)
      by (intro exI [of _ False] exI [of _ st1]) auto
  next
    case (ok st1 c)
    have "appends h (pre @ closed fs @ new) fs' S can st1 (q st1)"
      using assms(2) ok by blast
    then have "appends h (pre @ closed fs @ new) fs' S can st (q st1)"
      using ok(4) by (intro appends_after [OF _ ok(5) _ owns_linked(1) [OF assms(1)]]) auto
    then show ?thesis
      using ok(1,2) assms(5) by simp
  qed
qed

end
