(* ===== verification/CbbProofs.thy ===== *)
theory CbbProofs
  imports CbbContract
begin

text \<open>
  The contracts of the operations that append to a \<^verbatim>\<open>CBB\<close>, and how they compose: bytes and integers,
  length-prefixed children, ASN.1 identifiers and elements, and the ASN.1 values that a single call writes.
\<close>


text \<open>Reserving space and filling it in.\<close>

lemma owns_written:
  assumes "owns st h pre []" "buffer_ok st'" "written st' = pre'" "same_cells st st'"
  shows "owns st' h pre' []"
  using assms by (simp add: owns_def same_cells_def cbb_get_base_def)

lemma buf_len_owned: "owns st h pre [] \<Longrightarrow> unat (buf_len (base st)) = length pre"
  using length_written [of st] by (simp add: owns_def)

lemma same_cells_trans_write: "same_cells st st1 \<Longrightarrow> same_cells st (write_at k bs st1)"
  by (simp add: same_cells_def)

lemma buffer_add_appends:
  assumes st: "owns st h pre []" and n: "unat n = length new"
    and fail: "\<And>st1. q (None, st1) = Some (False, st1)"
    and ok: "\<And>st1 junk. buffer_ok st1 \<Longrightarrow> written st1 = pre @ junk \<Longrightarrow> length junk = length new \<Longrightarrow>
      q (Some (buf_len (base st)), st1) =
        (if can then Some (True, write_at (length pre) new st1) else fail_with_error h (write_at (length pre) new st1))"
  shows "appends h (pre @ new) [] {} can st (q (cbb_buffer_add (cbb_get_base h st) n st))"
proof -
  have b: "buffer_ok st" "cbb_get_base h st" "written st = pre"
    using st by (simp_all add: owns_def)
  show ?thesis
  proof (cases rule: add_cases [OF b(1), of n, case_names fail ok])
    case (fail st1)
    then show ?thesis
      using assms(3) b n same_cells_frame [OF fail(3)] cell_self [of st h]
      unfolding appends_def by (intro exI [of _ False] exI [of _ st1]) (auto simp: same_cells_def)
  next
    case (ok st1 junk)
    let ?st2 = "write_at (length pre) new st1"
    have junk: "length junk = length new"
      using ok(4) n by simp
    have w: "buffer_ok ?st2" "written ?st2 = pre @ new"
      using write_new [OF ok(2) ok(3)] junk b(3) by simp_all
    have same: "same_cells st ?st2"
      by (rule same_cells_trans_write [OF ok(5)])
    have q: "q (cbb_buffer_add (cbb_get_base h st) n st) = (if can then Some (True, ?st2) else fail_with_error h ?st2)"
      using ok(1) assms(4) [OF ok(2) _ junk] ok(3) b by simp
    show ?thesis
    proof (cases can)
      case True
      then show ?thesis
        using q same same_cells_frame [OF same] owns_written [OF st w same]
        by (intro appends_intro [where st' = ?st2 and c = "child (cells st h)"]) (simp_all add: same_cells_def)
    next
      case False
      then show ?thesis
        using q same same_cells_frame [OF same] b(2) cell_self [of st h]
        by (simp add: fail_with_error_appends same_cells_def cbb_get_base_def)
    qed
  qed
qed

lemma add_space_appends:
  assumes "owns st h pre fs" and "unat n = length new"
    and "\<And>st1. q (None, st1) = Some (False, st1)"
    and "\<And>st1 junk k. buffer_ok st1 \<Longrightarrow> written st1 = (pre @ closed fs) @ junk \<Longrightarrow> length junk = length new \<Longrightarrow>
      unat k = length (pre @ closed fs) \<Longrightarrow>
      q (Some k, st1) = (if can then Some (True, write_at (unat k) new st1) else fail_with_error h (write_at (unat k) new st1))"
  shows "appends h (pre @ closed fs @ new) [] (set (map handle fs)) (fits fs \<and> can) st (Option.bind (CBB_add_space h n st) q)"
proof -
  have "appends h (pre @ closed fs @ new) [] (set (map handle fs)) (fits fs \<and> can) st
      (Option.bind (CBB_flush h st) (\<lambda>(ok, st1). if \<not> ok then Some (False, st1) else q (cbb_buffer_add (cbb_get_base h st1) n st1)))"
  proof (rule after_flush [OF assms(1)])
    fix st1
    assume st1: "owns st1 h (pre @ closed fs) []"
    have "appends h ((pre @ closed fs) @ new) [] {} can st1 (q (cbb_buffer_add (cbb_get_base h st1) n st1))"
      using assms(4) [where k = "buf_len (base st1)"] buf_len_owned [OF st1]
      by (intro buffer_add_appends [OF st1 assms(2,3)]) simp_all
    then show "appends h (pre @ closed fs @ new) [] (set (map handle fs)) can st1 (q (cbb_buffer_add (cbb_get_base h st1) n st1))"
      by (auto intro: appends_frame)
  qed simp_all
  moreover have "Option.bind (CBB_add_space h n st) q =
      Option.bind (CBB_flush h st) (\<lambda>(ok, st1). if \<not> ok then Some (False, st1) else q (cbb_buffer_add (cbb_get_base h st1) n st1))"
    by (cases "CBB_flush h st") (auto simp: CBB_add_space_def assms(3))
  ultimately show ?thesis
    by simp
qed

lemma CBB_add_bytes_appends:
  assumes "owns st h pre fs" and "length bs < 2 ^ 64"
  shows "appends h (pre @ closed fs @ bs) [] (set (map handle fs)) (fits fs) st (CBB_add_bytes h bs st)"
  using add_space_appends [OF assms(1), where n = "of_nat (length bs)" and new = bs and can = True] assms(2)
  unfolding CBB_add_bytes_def by (simp add: unat_of_nat)

lemma CBB_add_zeros_appends:
  assumes "owns st h pre fs"
  shows "appends h (pre @ closed fs @ replicate (unat n) 0) [] (set (map handle fs)) (fits fs) st (CBB_add_zeros h n st)"
  using add_space_appends [OF assms, where n = n and new = "replicate (unat n) 0" and can = True]
  unfolding CBB_add_zeros_def by simp

lemma cbb_add_u_appends:
  assumes "owns st h pre fs" and "n < 2 ^ 64"
  shows "appends h (pre @ closed fs @ be_bytes n v) [] (set (map handle fs)) (fits fs \<and> drop_bit (8 * n) v = 0) st (cbb_add_u h v n st)"
  unfolding cbb_add_u_def
proof (rule add_space_appends [OF assms(1)])
  show "unat (of_nat n :: u64) = length (be_bytes n v)"
    using assms(2) by (simp add: unat_of_nat)
next
  fix st1 junk k
  assume st1: "buffer_ok st1" "written st1 = (pre @ closed fs) @ junk" "length junk = length (be_bytes n v)"
    and k: "unat k = length (pre @ closed fs)"
  have put: "put_be n (unat k) v (buf (base st1)) = (buf (base (write_at (unat k) (be_bytes n v) st1)), drop_bit (8 * n) v)"
    unfolding k using st1(2,3) by (intro put_mid [OF st1(1), of "pre @ closed fs" junk "[]"]) simp_all
  have "st1\<lparr>base := base st1\<lparr>buf := buf (base (write_at (unat k) (be_bytes n v) st1))\<rparr>\<rparr> = write_at (unat k) (be_bytes n v) st1"
    by (simp add: write_at_def)
  then show "(case (Some k, st1) of (out, st1) \<Rightarrow>
      (case out of None \<Rightarrow> Some (False, st1)
       | Some k \<Rightarrow> (case put_be n (unat k) v (buf (base st1)) of (bs, rest) \<Rightarrow>
           let st2 = st1\<lparr>base := (base st1)\<lparr>buf := bs\<rparr>\<rparr>
           in if rest \<noteq> 0 then fail_with_error h st2 else Some (True, st2)))) =
      (if drop_bit (8 * n) v = 0 then Some (True, write_at (unat k) (be_bytes n v) st1)
       else fail_with_error h (write_at (unat k) (be_bytes n v) st1))"
    by (simp add: put)
qed simp

lemma CBB_add_u8_appends:
  "owns st h pre fs \<Longrightarrow> appends h (pre @ closed fs @ [b]) [] (set (map handle fs)) (fits fs) st (CBB_add_u8 h b st)"
proof -
  have "ucast (ucast b :: u64) = b"
    by (rule bit_word_eqI) (simp add: word_bits)
  then have "be_bytes 1 (ucast b :: u64) = [b]"
    by (simp add: be_bytes_def numeral_eq_Suc)
  moreover have "drop_bit 8 (ucast b :: u64) = 0"
    using byte_less [of b] by (simp add: drop_bit_eq_0_iff_unat)
  moreover assume "owns st h pre fs"
  ultimately show ?thesis
    using cbb_add_u_appends [of st h pre fs 1 "ucast b"] by (simp add: CBB_add_u8_def)
qed

subsection \<open>Composition\<close>

lemma appends_and_then:
  assumes "appends h pre fs S can st r"
    and "\<And>st1. owns st1 h pre fs \<Longrightarrow> cbb_frame (insert h S) st st1 \<Longrightarrow> appends h pre' fs' S can' st1 (q st1)"
    and "length (pre @ layout fs) \<le> length (pre' @ layout fs')" and "h < next_local st"
  shows "appends h pre' fs' S (can \<and> can') st (and_then r q)"
  using assms(1)
proof (cases rule: appendsD [case_names fail ok])
  case (fail st1 c)
  have "\<not> ((can \<and> can') \<and> room st (length (pre' @ layout fs')))"
    using fail(3) room_le [OF _ assms(3)] by auto
  then show ?thesis
    using fail unfolding appends_def and_then_def by (intro exI [of _ False] exI [of _ st1]) auto
next
  case (ok st1 c)
  have "appends h pre' fs' S can' st1 (q st1)"
    using assms(2) ok by blast
  then have "appends h pre' fs' S can' st (q st1)"
    using ok(4) by (intro appends_after [OF _ ok(5) _ assms(4)]) auto
  then show ?thesis
    using ok(1,2) by (simp add: and_then_def)
qed

lemma add_each_appends:
  "owns st h pre [] \<Longrightarrow> appends h (pre @ bs) [] {} True st (add_each h bs st)"
proof (induction bs arbitrary: st pre)
  case Nil
  then show ?case
    by (intro appends_intro [where st' = st and c = "child (cells st h)"]) simp_all
next
  case (Cons b bs)
  have "appends h (pre @ [b]) [] {} True st (CBB_add_u8 h b st)"
    using CBB_add_u8_appends [OF Cons.prems] by simp
  then have "appends h (pre @ b # bs) [] {} (True \<and> True) st (and_then (CBB_add_u8 h b st) (add_each h bs))"
  proof (rule appends_and_then)
    fix st1
    assume "owns st1 h (pre @ [b]) []"
    from Cons.IH [OF this] show "appends h (pre @ b # bs) [] {} True st1 (add_each h bs st1)"
      by simp
  qed (use Cons.prems in \<open>simp_all add: owns_def\<close>)
  then show ?case
    by simp
qed

text \<open>Opening a child. Its structure must not be one of those in use.\<close>

lemma cbb_add_child_appends:
  assumes st: "owns st h pre []" and k: "k \<noteq> h" "k < next_local st"
    and kind: "len_len = of_nat (prefix_len kd)" "prefix_len kd \<le> 3" "is_asn1 \<longleftrightarrow> kd = Asn1"
  shows "appends h pre [Pending k kd []] {k} True st (cbb_add_child h k len_len is_asn1 st)"
proof -
  let ?n = "prefix_len kd"
  have b: "buffer_ok st" "cbb_get_base h st" "written st = pre" "child (cells st h) = None" "h < next_local st"
    using st by (simp_all add: owns_def)
  have ul: "unat len_len = ?n" "unat (ucast len_len :: u64) = ?n"
    using kind(1,2) by (simp_all add: unat_of_nat)
  have assert: "\<not> (child (cells st h) \<noteq> None \<or> is_asn1 \<and> len_len \<noteq> 1 \<or> \<not> cbb_get_base h st)"
    using b kind by auto
  show ?thesis
  proof (cases rule: add_cases [OF b(1), of "ucast len_len", case_names fail ok])
    case (fail st1)
    then have "cbb_add_child h k len_len is_asn1 st = Some (False, st1)"
      using assert b(2) by (simp add: cbb_add_child_def)
    then show ?thesis
      using fail b ul same_cells_frame [OF fail(3)] cell_self [of st h]
      unfolding appends_def by (intro exI [of _ False] exI [of _ st1]) (auto simp: same_cells_def)
  next
    case (ok st1 junk)
    let ?st2 = "write_at (length pre) (replicate ?n 0) st1"
    let ?st3 = "set_cell k (CBB_zero\<lparr>is_child := True, has_base := True, offset := buf_len (base st),
      pending_len_len := len_len, pending_is_asn1 := is_asn1\<rparr>) ?st2"
    let ?st4 = "set_cell h ((cells ?st3 h)\<lparr>child := Some k\<rparr>) ?st3"
    have r: "cbb_add_child h k len_len is_asn1 st = Some (True, ?st4)"
      using assert ok(1) b(2) ul buf_len_owned [OF st] by (simp add: cbb_add_child_def Let_def)
    have w: "buffer_ok ?st2" "written ?st2 = pre @ replicate ?n 0"
      using write_new [OF ok(2,3)] ok(4) ul b(3) by simp_all
    have cells: "cells st1 = cells st" "next_local st1 = next_local st"
      using ok(5) by (simp_all add: same_cells_def)
    have "buf_len (base st) = of_nat (length pre)"
      using buf_len_written [OF b(1)] b(3) by simp
    then have "owns ?st4 h pre [Pending k kd []]"
      using w k b cells kind by (auto simp: owns_def child_cell_def cbb_get_base_def CBB_zero_def)
    moreover have "cbb_frame (insert h {k}) st ?st4"
      using ok(5) by (simp add: cbb_frame_def same_cells_def)
    ultimately show ?thesis
      using k cells by (intro appends_intro [OF r, where c = "Some k"]) simp_all
  qed
qed

lemma length_prefixed_appends:
  assumes st: "owns st h pre fs" and k: "k \<noteq> h" "k < next_local st" and n: "n \<le> 3"
  shows "appends h (pre @ closed fs) [Pending k (Fixed n) []] (insert k (set (map handle fs))) (fits fs) st
    (cbb_add_length_prefixed h k (of_nat n) st)"
proof -
  have "appends h (pre @ closed fs) [] (insert k (set (map handle fs))) (fits fs) st (CBB_flush h st)"
    by (rule appends_frame [OF flush_appends [OF st]]) auto
  then have "appends h (pre @ closed fs) [Pending k (Fixed n) []] (insert k (set (map handle fs))) (fits fs \<and> True) st
      (and_then (CBB_flush h st) (cbb_add_child h k (of_nat n) False))"
  proof (rule appends_and_then)
    fix st1
    assume "owns st1 h (pre @ closed fs) []" "cbb_frame (insert h (insert k (set (map handle fs)))) st st1"
    then have "appends h (pre @ closed fs) [Pending k (Fixed n) []] {k} True st1 (cbb_add_child h k (of_nat n) False st1)"
      using k n by (intro cbb_add_child_appends) (auto simp: cbb_frame_def)
    then show "appends h (pre @ closed fs) [Pending k (Fixed n) []] (insert k (set (map handle fs))) True st1
        (cbb_add_child h k (of_nat n) False st1)"
      by (rule appends_frame) auto
  qed (use st in \<open>simp_all add: owns_def\<close>)
  then show ?thesis
    by (simp add: cbb_add_length_prefixed_def)
qed

subsection \<open>ASN.1\<close>

lemma base128_len: "unat v < 128 ^ n \<Longrightarrow> base128_len n v = (if v = 0 then 0 else length (base128_digits (unat v)))"
proof (induction n arbitrary: v)
  case 0
  then show ?case
    by (simp add: unat_eq_zero)
next
  case (Suc n)
  have u: "unat (drop_bit 7 v) = unat v div 128"
    by (simp add: unat_drop_bit_div)
  have IH: "base128_len n (drop_bit 7 v) = (if drop_bit 7 v = 0 then 0 else length (base128_digits (unat v div 128)))"
    using Suc.IH [of "drop_bit 7 v"] Suc.prems by (simp add: u less_mult_imp_div_less mult.commute)
  have "drop_bit 7 v = 0 \<longleftrightarrow> unat v < 128"
    by (simp add: drop_bit_eq_0_iff_unat)
  then show ?case
    using IH by (subst base128_digits.simps) (simp add: word_gt_0)
qed

definition base128_byte_at :: "u64 \<Rightarrow> nat \<Rightarrow> byte" where
  "base128_byte_at v i = (let b = (ucast (drop_bit (7 * i) v) :: byte) AND 0x7f in if i \<noteq> 0 then b OR 0x80 else b)"

lemma base128_byte_at: "base128_byte_at v i = of_nat (unat v div 128 ^ i mod 128 + (if i \<noteq> 0 then 128 else 0))"
proof -
  have low: "unat ((ucast (drop_bit (7 * i) v) :: byte) AND 0x7f) = unat v div 128 ^ i mod 128"
  proof -
    have "unat (ucast (drop_bit (7 * i) v) :: byte) = unat (drop_bit (7 * i) v) mod 256"
      by (simp add: unsigned_ucast_eq unsigned_take_bit_eq take_bit_eq_mod)
    then have "unat ((ucast (drop_bit (7 * i) v) :: byte) AND 0x7f) = unat (drop_bit (7 * i) v) mod 128"
      by (simp add: byte_low mod_mod_cancel)
    then show ?thesis
      by (simp add: unat_drop_bit_div power_mult)
  qed
  have or: "(b AND 0x7f) OR 0x80 = (b AND 0x7f) + 0x80" for b :: byte
    by (rule disjunctive_add_eq_or [symmetric]) (simp add: and.assoc)
  have "(ucast (drop_bit (7 * i) v) :: byte) AND 0x7f = of_nat (unat v div 128 ^ i mod 128)"
    unfolding low [symmetric] by simp
  then show ?thesis
    unfolding base128_byte_at_def Let_def or by (cases "i = 0") simp_all
qed

lemma rev_upt_Suc: "rev [0..<Suc n] = map Suc (rev [0..<n]) @ [0]"
  by (simp add: upt_conv_Cons map_Suc_upt rev_map [symmetric] del: upt_Suc)

lemma base128_digits_nth: "base128_digits n = map (\<lambda>i. n div 128 ^ i mod 128) (rev [0..<length (base128_digits n)])"
proof (induction n rule: base128_digits.induct)
  case (1 n)
  show ?case
  proof (cases "n < 128")
    case True
    then show ?thesis
      by (simp add: base128_digits.simps)
  next
    case False
    have d: "base128_digits n = base128_digits (n div 128) @ [n mod 128]"
      using False by (subst base128_digits.simps) simp
    have "n div 128 div 128 ^ i = n div 128 ^ Suc i" for i
      by (simp add: div_mult2_eq)
    then show ?thesis
      using 1 [OF False] by (simp only: d length_append list.size One_nat_def add_Suc_right add_0_right rev_upt_Suc)
        (simp add: o_def)
  qed
qed

lemma base128_code_snoc: "base128_code (ds @ [d]) = map (\<lambda>d. of_nat (d + 128)) ds @ [of_nat d]"
proof (induction ds)
  case (Cons e ds)
  then show ?case
    by (cases ds) simp_all
qed simp

lemma add_base128_integer_eq: "add_base128_integer h v = add_each h (base128 v)"
proof -
  let ?d = "base128_digits (unat v)"
  obtain n where n: "length ?d = Suc n"
    using base128_digits_props(1) [of "unat v"] by (cases ?d) auto
  have len: "(if base128_len 10 v = 0 then 1 else base128_len 10 v) = length ?d"
    using base128_len [of v 10] unat_u64_less [of v] n by (auto simp: base128_digits.simps [of 0])
  have "map (base128_byte_at v) (rev [0..<Suc n]) = base128 v"
    unfolding base128_def by (subst base128_digits_nth)
      (simp only: n rev_upt_Suc map_append list.map base128_code_snoc, simp add: base128_byte_at o_def)
  then show ?thesis
    using len n by (simp add: add_base128_integer_def base128_byte_at_def [abs_def] Let_def)
qed

lemma CBB_add_asn1_appends:
  assumes st: "owns st h pre fs" and k: "k \<noteq> h" "k < next_local st"
  shows "appends h (pre @ closed fs @ tag_code t) [Pending k Asn1 []] (insert k (set (map handle fs))) (fits fs) st
    (CBB_add_asn1 h k t st)"
proof -
  let ?S = "insert k (set (map handle fs))" and ?pre = "pre @ closed fs"
  have flush: "appends h ?pre [] ?S (fits fs) st (CBB_flush h st)"
    by (rule appends_frame [OF flush_appends [OF st]]) auto
  have tag: "appends h (?pre @ tag_code t) [] ?S True st1
      (if t AND CBS_ASN1_TAG_NUMBER_MASK \<ge> 0x1f
       then and_then (CBB_add_u8 h ((ucast (drop_bit 24 t) AND 0xe0) OR 0x1f) st1) (add_base128_integer h (ucast (t AND CBS_ASN1_TAG_NUMBER_MASK)))
       else CBB_add_u8 h ((ucast (drop_bit 24 t) AND 0xe0) OR ucast (t AND CBS_ASN1_TAG_NUMBER_MASK)) st1)"
    if st1: "owns st1 h ?pre []" for st1
  proof -
    have many: "and_then (CBB_add_u8 h b st1) (add_base128_integer h v) = add_each h (b # base128 v) st1" for b v
      by (simp add: add_base128_integer_eq)
    have one: "add_each h [b] st1 = CBB_add_u8 h b st1" for b
      by (cases "CBB_add_u8 h b st1") (auto simp: and_then_def)
    have "(if t AND CBS_ASN1_TAG_NUMBER_MASK \<ge> 0x1f
       then and_then (CBB_add_u8 h ((ucast (drop_bit 24 t) AND 0xe0) OR 0x1f) st1) (add_base128_integer h (ucast (t AND CBS_ASN1_TAG_NUMBER_MASK)))
       else CBB_add_u8 h ((ucast (drop_bit 24 t) AND 0xe0) OR ucast (t AND CBS_ASN1_TAG_NUMBER_MASK)) st1) = add_each h (tag_code t) st1"
      unfolding tag_code_def tag_class_def [symmetric] tag_number_def [symmetric]
      by (cases "tag_number t < 0x1f") (auto simp: many one not_less not_le [symmetric] simp del: add_each.simps not_le)
    then show ?thesis
      using appends_frame [OF add_each_appends [OF st1]] by auto
  qed
  have "appends h (?pre @ tag_code t) [Pending k Asn1 []] ?S (fits fs \<and> (True \<and> True)) st (CBB_add_asn1 h k t st)"
    unfolding CBB_add_asn1_def Let_def
  proof (rule appends_and_then [OF flush], rule appends_and_then [OF tag])
    fix st1 st2
    assume "cbb_frame (insert h ?S) st st1" "owns st2 h (?pre @ tag_code t) []" "cbb_frame (insert h ?S) st1 st2"
    then have "appends h (?pre @ tag_code t) [Pending k Asn1 []] {k} True st2 (cbb_add_child h k 1 True st2)"
      using k by (intro cbb_add_child_appends) (auto simp: cbb_frame_def)
    then show "appends h (?pre @ tag_code t) [Pending k Asn1 []] ?S True st2 (cbb_add_child h k 1 True st2)"
      by (rule appends_frame) auto
  qed (use st in \<open>auto simp: owns_def\<close>)
  then show ?thesis
    by simp
qed

text \<open>An operation on the innermost structure in use, seen from its parent.\<close>

lemma owns_child:
  "owns st h pre (f # fs) \<Longrightarrow> owns st (handle f) (pre @ replicate (prefix_len (kind f)) 0 @ contents f) fs"
  by (auto simp: owns_def cbb_get_base_def child_cell_def ac_simps)

lemma owns_parent:
  assumes st: "owns st h pre (f # fs)" and child: "owns st' (handle f) (pre @ replicate (prefix_len (kind f)) 0 @ c') fs'"
    and cell: "cells st' (handle f) = (cells st (handle f))\<lparr>child := x\<rparr>"
    and h: "cells st' h = cells st h" "h \<notin> set (map handle fs')" "h < next_local st'"
  shows "owns st' h pre (Pending (handle f) (kind f) c' # fs')"
  using st child cell h by (auto simp: owns_def child_cell_def cbb_get_base_def ac_simps)

lemma via_child:
  assumes st: "owns st h pre (f # fs)"
    and r: "appends (handle f) (pre @ replicate (prefix_len (kind f)) 0 @ c') fs' S can st r"
    and h: "h \<notin> S" "h \<notin> set (map handle fs')"
  shows "appends h pre (Pending (handle f) (kind f) c' # fs') (insert (handle f) S) can st r"
proof -
  have d: "h \<noteq> handle f" "h < next_local st"
    using st by (auto simp: owns_def)
  have f: "cbb_frame (insert h (insert (handle f) S)) st st'" if "cbb_frame (insert (handle f) S) st st'" for st'
    using that by (rule cbb_frame_mono) auto
  have cell: "cells st' h = cells st h" if "cbb_frame (insert (handle f) S) st st'" for st'
    using that d h by (auto simp: cbb_frame_def)
  from r show ?thesis
  proof (cases rule: appendsD [case_names fail ok])
    case (fail st' c)
    then show ?thesis
      using f [OF fail(5)] cell [OF fail(5)] cell_self [of st h]
      unfolding appends_def by (intro exI [of _ False] exI [of _ st']) auto
  next
    case (ok st' c)
    have "h < next_local st'"
      using ok(5) d(2) by (simp add: cbb_frame_def)
    from owns_parent [OF st ok(3,4) cell [OF ok(5)] h(2) this] show ?thesis
      using ok(1,2) f [OF ok(5)] cell [OF ok(5)]
      by (intro appends_intro [where st' = st' and c = "child (cells st h)"]) simp_all
  qed
qed

lemma with_local_appends:
  assumes st: "owns st h pre fs"
    and f: "\<And>st1. owns st1 h pre fs \<Longrightarrow> next_local st1 = Suc (next_local st) \<Longrightarrow>
      appends h pre' fs' (insert (next_local st) S) can st1 (f (next_local st) st1)"
  shows "appends h pre' fs' S can st (with_local f st)"
proof -
  let ?st1 = "st\<lparr>next_local := Suc (next_local st)\<rparr>"
  have same: "linked ?st1 x pos gs = linked st x pos gs" for x pos gs
    by (rule linked_cong) simp_all
  have "owns ?st1 h pre fs"
    using st by (auto simp: owns_def buffer_ok_def written_def cbb_get_base_def same)
  from f [OF this] obtain ok st' c where r: "with_local f st = Some (ok, st')" "\<not> ok \<longrightarrow> cbb_error (base st')"
      "ok \<longrightarrow> can \<and> owns st' h pre' fs'" "cells st' h = (cells st h)\<lparr>child := c\<rparr>"
      "cbb_frame (insert h (insert (next_local st) S)) ?st1 st'" "can \<and> room ?st1 (length (pre' @ layout fs')) \<longrightarrow> ok"
    by (auto simp: appends_def with_local_def)
  have "cbb_frame (insert h S) st st'"
    using r(5) by (auto simp: cbb_frame_def room_def)
  moreover have "can \<and> room st (length (pre' @ layout fs')) \<longrightarrow> ok"
    using r(6) by (simp add: room_def)
  ultimately show ?thesis
    using r(1-4) unfolding appends_def by (intro exI [of _ ok] exI [of _ st']) auto
qed

lemma or_error_appends:
  assumes st: "owns st h pre0 fs0" and r: "appends h pre fs' S can st r"
  shows "appends h pre fs' S can st (or_error h r)"
  using r
proof (cases rule: appendsD [case_names fail ok])
  case (fail st' c)
  have "cbb_get_base h st'"
    using st fail(4) by (simp add: owns_def cbb_get_base_def)
  then show ?thesis
    using fail by (auto simp: or_error_def intro!: fail_with_error_appends)
next
  case (ok st' c)
  then show ?thesis
    by (intro appends_intro [where st' = st' and c = c]) (simp_all add: or_error_def)
qed

text \<open>The pattern of the functions that add one ASN.1 element: open a child, fill it, close it.\<close>

lemma element_appends:
  assumes st: "owns st h pre fs" and k: "k \<noteq> h" "k < next_local st" "k \<notin> set (map handle fs)"
    and fill: "\<And>st1 pre'. owns st1 k pre' [] \<Longrightarrow> appends k (pre' @ bs) [] {} can st1 (q st1)"
  shows "appends h (pre @ closed fs @ tag_code t) [Pending k Asn1 bs] (insert k (set (map handle fs))) (fits fs \<and> can) st
      (and_then (CBB_add_asn1 h k t st) q)"
proof (rule appends_and_then [OF CBB_add_asn1_appends [OF st k(1,2)]])
  fix st1
  assume st1: "owns st1 h (pre @ closed fs @ tag_code t) [Pending k Asn1 []]"
  have "appends k ((pre @ closed fs @ tag_code t) @ replicate (prefix_len Asn1) 0 @ bs) [] {} can st1 (q st1)"
    using fill [OF owns_child [OF st1, simplified]] by simp
  from via_child [OF st1, simplified, OF this [simplified]]
  have "appends h (pre @ closed fs @ tag_code t) [Pending k Asn1 bs] {k} can st1 (q st1)"
    by simp
  then show "appends h (pre @ closed fs @ tag_code t) [Pending k Asn1 bs] (insert k (set (map handle fs))) can st1 (q st1)"
    by (rule appends_frame) auto
qed (use st in \<open>simp_all add: owns_def\<close>)

lemma closing_appends:
  assumes "owns st h pre fs" and "k \<notin> set (map handle fs)"
    and r: "appends h (pre @ closed fs @ tag_code t) [Pending k Asn1 bs] (insert k (set (map handle fs))) (fits fs \<and> can) st r"
    and len: "length bs < 2 ^ 32 - 1"
  shows "appends h (pre @ closed fs @ der (t, bs)) [] (insert k (set (map handle fs))) (fits fs \<and> can) st (and_then r (CBB_flush h))"
proof -
  let ?S = "insert k (set (map handle fs))"
  have "appends h (pre @ closed fs @ der (t, bs)) [] ?S ((fits fs \<and> can) \<and> True) st (and_then r (CBB_flush h))"
  proof (rule appends_and_then [OF r])
    fix st1
    assume "owns st1 h (pre @ closed fs @ tag_code t) [Pending k Asn1 bs]"
    from flush_appends [OF this] have "appends h (pre @ closed fs @ der (t, bs)) [] {k} True st1 (CBB_flush h st1)"
      using len by (simp add: der_def)
    then show "appends h (pre @ closed fs @ der (t, bs)) [] ?S True st1 (CBB_flush h st1)"
      by (rule appends_frame) auto
  qed (use assms(1) len length_prefix_code(1) [of Asn1 "length bs"] in \<open>simp_all add: owns_def der_def\<close>)
  then show ?thesis
    by simp
qed

lemma fresh_local: "owns st h pre fs \<Longrightarrow> next_local st \<noteq> h" "owns st h pre fs \<Longrightarrow> next_local st \<notin> set (map handle fs)"
  by (fastforce simp: owns_def)+

lemma local_element_appends:
  assumes st: "owns st h pre fs" and len: "length bs < 2 ^ 32 - 1"
    and fill: "\<And>k st1 pre'. owns st1 k pre' [] \<Longrightarrow> appends k (pre' @ bs) [] {} can st1 (q k st1)"
  shows "appends h (pre @ closed fs @ der (t, bs)) [] (set (map handle fs)) (fits fs \<and> can) st
      (with_local (\<lambda>k st. and_then (or_error h (and_then (CBB_add_asn1 h k t st) (q k))) (CBB_flush h)) st)"
    and "appends h (pre @ closed fs @ der (t, bs)) [] (set (map handle fs)) (fits fs \<and> can) st
      (with_local (\<lambda>k st. or_error h (and_then (and_then (CBB_add_asn1 h k t st) (q k)) (CBB_flush h))) st)"
proof -
  let ?k = "next_local st"
  have opened: "appends h (pre @ closed fs @ tag_code t) [Pending ?k Asn1 bs] (insert ?k (set (map handle fs))) (fits fs \<and> can) st1
      (and_then (CBB_add_asn1 h ?k t st1) (q ?k))"
    if "owns st1 h pre fs" "next_local st1 = Suc ?k" for st1
    using fresh_local [OF st] that by (intro element_appends fill) auto
  show "appends h (pre @ closed fs @ der (t, bs)) [] (set (map handle fs)) (fits fs \<and> can) st
      (with_local (\<lambda>k st. and_then (or_error h (and_then (CBB_add_asn1 h k t st) (q k))) (CBB_flush h)) st)"
    using fresh_local(2) [OF st] len
    by (intro with_local_appends [OF st] closing_appends or_error_appends opened) simp_all
  show "appends h (pre @ closed fs @ der (t, bs)) [] (set (map handle fs)) (fits fs \<and> can) st
      (with_local (\<lambda>k st. or_error h (and_then (and_then (CBB_add_asn1 h k t st) (q k)) (CBB_flush h))) st)"
    using fresh_local(2) [OF st] len
    by (intro with_local_appends [OF st] or_error_appends closing_appends opened) simp_all
qed

text \<open>The bytes of the integers.\<close>

lemma bytes_of_word_snoc: "bytes_of_word (Suc n) w = bytes_of_word n w @ [ucast (drop_bit (8 * n) w)]"
proof (induction n arbitrary: w)
  case (Suc n)
  show ?case
    by (subst bytes_of_word.simps(2), subst Suc.IH) (simp add: ac_simps)
qed simp

lemma be_bytes_Suc: "be_bytes (Suc n) v = ucast (drop_bit (8 * n) v) # be_bytes n v"
  by (simp only: be_bytes_def bytes_of_word_snoc) simp

lemma uint64_bytes_started: "uint64_bytes n v True = be_bytes n v"
  by (induction n) (simp_all add: be_bytes_Suc Let_def, simp add: be_bytes_def)

lemma be_value_be_bytes:
  assumes "unat v < 2 ^ (8 * n)" and "n \<le> 8"
  shows "be_value (be_bytes n (v :: u64)) = unat v"
proof -
  have "be_value (be_bytes n v) < 2 ^ (8 * n)" "(2 :: nat) ^ (8 * n) \<le> 2 ^ 64"
    using be_value_less [of "be_bytes n v"] power_increasing [of "8 * n" 64 "2 :: nat"] assms(2) by simp_all
  then have "unat (of_nat (be_value (be_bytes n v)) :: u64) = be_value (be_bytes n v)"
    by (intro unat_of_nat_u64) linarith
  moreover have "of_nat (be_value (be_bytes n v)) = v"
    using word_of_bytes_value [of "be_bytes n v"] word_of_bytes_small [OF assms(1)] by (simp add: be_bytes_def)
  ultimately show ?thesis
    by simp
qed

lemma uint64_bytes_eq: "unat v < 2 ^ (8 * n) \<Longrightarrow> n \<le> 8 \<Longrightarrow> uint64_bytes n v False = integer_bytes (int (unat v))"
proof (induction n)
  case 0
  then show ?case
    by (simp add: integer_bytes.simps)
next
  case (Suc n)
  let ?b = "ucast (drop_bit (8 * n) v) :: byte"
  have ub: "unat ?b = unat v div 2 ^ (8 * n)"
    using Suc.prems(1) by (subst unat_ucast_narrow) (simp_all add: unat_drop_bit_div less_mult_imp_div_less power_add)
  show ?case
  proof (cases "?b = 0")
    case True
    then have "unat v < 2 ^ (8 * n)"
      using ub by (simp add: div_eq_0_iff)
    then show ?thesis
      using Suc.IH Suc.prems(2) True by (simp add: Let_def)
  next
    case False
    let ?bs = "(if ?b AND 0x80 \<noteq> 0 then [0] else []) @ be_bytes (Suc n) v"
    have r: "uint64_bytes (Suc n) v False = ?bs"
      using False by (simp add: Let_def uint64_bytes_started be_bytes_Suc)
    have val: "be_value (be_bytes (Suc n) v) = unat v"
      by (rule be_value_be_bytes [OF Suc.prems])
    then have "be_value ?bs = unat v"
      by (simp add: be_value_append)
    moreover have "unat (hd ?bs) < 128"
      by (simp add: be_bytes_Suc byte_high_iff)
    ultimately have "be_signed ?bs = int (unat v)"
      by (simp add: be_signed_def)
    moreover have "minimal_integer ?bs"
      using False by (auto simp: minimal_integer_def be_bytes_Suc byte_high_iff nth_Cons')
    ultimately show ?thesis
      using integer_bytes_unique [of ?bs] r by simp
  qed
qed

lemma CBB_add_asn1_uint64_with_tag_appends:
  assumes st: "owns st h pre fs"
  shows "appends h (pre @ closed fs @ der (t, integer_bytes (int (unat v)))) [] (set (map handle fs)) (fits fs) st
    (CBB_add_asn1_uint64_with_tag h v t st)"
proof -
  have bytes: "uint64_bytes 8 v False = integer_bytes (int (unat v))"
    using unat_u64_less [of v] by (intro uint64_bytes_eq) simp_all
  have "int (unat v) < 2 ^ 64"
    using of_nat_less_iff [of "unat v" "2 ^ 64", where 'a = int] unat_u64_less [of v] by simp
  then have "length (integer_bytes (int (unat v))) \<le> Suc 8"
    by (intro integer_bytes_length) (auto intro: order_trans [of _ 0])
  then have "length (integer_bytes (int (unat v))) < 2 ^ 32 - 1"
    by simp
  from local_element_appends(1) [OF st this, where q = "\<lambda>k. add_each k (integer_bytes (int (unat v)))" and can = True and t = t]
  show ?thesis
    using add_each_appends by (simp add: CBB_add_asn1_uint64_with_tag_def bytes)
qed

lemma CBB_add_asn1_uint64_appends:
  "owns st h pre fs \<Longrightarrow>
   appends h (pre @ closed fs @ der_uint64 v) [] (set (map handle fs)) (fits fs) st (CBB_add_asn1_uint64 h v st)"
  unfolding CBB_add_asn1_uint64_def der_uint64_def by (rule CBB_add_asn1_uint64_with_tag_appends)

lemma CBB_add_asn1_octet_string_appends:
  assumes st: "owns st h pre fs" and len: "length bs < 2 ^ 32 - 1"
  shows "appends h (pre @ closed fs @ der (CBS_ASN1_OCTETSTRING, bs)) [] (set (map handle fs)) (fits fs) st
    (CBB_add_asn1_octet_string h bs st)"
proof -
  have "appends k (pre' @ bs) [] {} True st1 (CBB_add_bytes k bs st1)" if "owns st1 k pre' []" for k st1 pre'
    using CBB_add_bytes_appends [OF that] len by simp
  from local_element_appends(2) [OF st len, where q = "\<lambda>k. CBB_add_bytes k bs" and can = True, OF this] show ?thesis
    by (simp add: CBB_add_asn1_octet_string_def)
qed

lemma CBB_add_asn1_bool_appends:
  assumes st: "owns st h pre fs"
  shows "appends h (pre @ closed fs @ der_bool v) [] (set (map handle fs)) (fits fs) st (CBB_add_asn1_bool h v st)"
proof -
  let ?b = "if v then 0xff else 0 :: byte"
  have "appends k (pre' @ [?b]) [] {} True st1 (CBB_add_u8 k ?b st1)" if "owns st1 k pre' []" for k st1 pre'
    using CBB_add_u8_appends [OF that] by simp
  from local_element_appends(2) [OF st _ this, where t = CBS_ASN1_BOOLEAN] show ?thesis
    by (simp add: CBB_add_asn1_bool_def der_bool_def)
qed

text \<open>Negative integers: the leading bytes that only repeat the sign are dropped.\<close>

definition down_from :: "nat \<Rightarrow> byte list \<Rightarrow> byte list" where
  "down_from s bytes = map ((!) bytes) (rev [0..<Suc s])"

lemma down_from_Suc: "down_from (Suc s) bytes = bytes ! Suc s # down_from s bytes"
  by (simp add: down_from_def)

lemma down_from_hd: "down_from s bytes = bytes ! s # map ((!) bytes) (rev [0..<s])"
  by (simp add: down_from_def)

lemma be_signed_drop:
  assumes "128 \<le> unat b"
  shows "be_signed (0xff # b # bs) = be_signed (b # bs)"
  using be_value_append [of "[0xff]" "b # bs"] assms by (simp add: be_signed_def power_add)

lemma int64_start:
  "128 \<le> unat (bytes ! s) \<Longrightarrow>
   be_signed (down_from (int64_start s bytes) bytes) = be_signed (down_from s bytes) \<and>
   minimal_integer (down_from (int64_start s bytes) bytes)"
proof (induction s bytes rule: int64_start.induct)
  case (1 bytes)
  then show ?case
    by (simp add: minimal_integer_def down_from_def)
next
  case (2 s bytes)
  show ?case
  proof (cases "bytes ! Suc s = 0xff \<and> bytes ! s AND 0x80 \<noteq> 0")
    case True
    then have "128 \<le> unat (bytes ! s)"
      by (simp add: byte_high_iff)
    then show ?thesis
      using 2(1) [OF True] True be_signed_drop [of "bytes ! s"] by (simp add: down_from_Suc down_from_hd [of s])
  next
    case False
    then show ?thesis
      using 2(2) by (auto simp: down_from_Suc down_from_hd [of s] minimal_integer_def byte_high_iff)
  qed
qed

lemma down_from_7: "down_from 7 (bytes_of_word 8 v) = be_bytes 8 (v :: u64)"
proof -
  have "down_from 7 (bytes_of_word 8 v) = rev (map ((!) (bytes_of_word 8 v)) [0..<length (bytes_of_word 8 v)])"
    by (simp add: down_from_def rev_map)
  then show ?thesis
    by (simp only: map_nth be_bytes_def)
qed

lemma be_signed_be_bytes: "be_signed (be_bytes 8 (v :: u64)) = sint v"
proof -
  let ?bs = "be_bytes 8 v"
  have len: "length ?bs = 8" "?bs \<noteq> []"
    by (simp, metis length_be_bytes list.size(3) zero_neq_numeral)
  have "of_int (be_signed ?bs) = CRYPTO_load_u64_be ?bs"
    using load_be_signed [OF len(2)] len(1) by simp
  also have "\<dots> = v"
    using load_be [OF len(1)] be_value_be_bytes [of v 8] unat_u64_less [of v] by simp
  finally show ?thesis
    using sint_of_int_64 [of "be_signed ?bs"] be_signed_range [OF len(2)] len(1) by simp
qed

lemma CBB_add_asn1_int64_appends:
  assumes st: "owns st h pre fs"
  shows "appends h (pre @ closed fs @ der_int64 v) [] (set (map handle fs)) (fits fs) st (CBB_add_asn1_int64 h v st)"
proof (cases "0 \<le> sint v")
  case True
  moreover have "sint v < 2 ^ 64"
    using sint_less [of v] by simp
  ultimately have "sint v = int (unat v)"
    using uint_sint [of v] by (simp add: take_bit_int_eq_self)
  then show ?thesis
    using CBB_add_asn1_uint64_with_tag_appends [OF st, of CBS_ASN1_INTEGER v] True
    by (simp only: CBB_add_asn1_int64_def CBB_add_asn1_int64_with_tag_def der_int64_def if_True)
next
  case False
  let ?bytes = "bytes_of_word 8 v"
  let ?bs = "down_from (int64_start 7 ?bytes) ?bytes"
  have "be_signed (be_bytes 8 v) < 0"
    using False by (simp add: be_signed_be_bytes)
  then have "128 \<le> unat (?bytes ! 7)"
    using be_signed_nonneg [of "be_bytes 8 v"] down_from_hd [of 7 ?bytes] unfolding down_from_7 by fastforce
  from int64_start [OF this] have "integer_bytes (sint v) = ?bs"
    using integer_bytes_unique [of ?bs] by (simp add: down_from_7 be_signed_be_bytes)
  moreover have "length (integer_bytes (sint v)) \<le> Suc 7"
    using sint_greater_eq [of v] sint_less [of v] by (intro integer_bytes_length) simp_all
  ultimately have bs: "integer_bytes (sint v) = ?bs" "length ?bs < 2 ^ 32 - 1"
    by simp_all
  from local_element_appends(1) [OF st bs(2) add_each_appends, of CBS_ASN1_INTEGER] False show ?thesis
    by (simp add: CBB_add_asn1_int64_def CBB_add_asn1_int64_with_tag_def der_int64_def bs(1) down_from_def Let_def
        del: upt_Suc rev_append)
qed

end
