(* ===== verification/CbbBuild.thy ===== *)
theory CbbBuild
  imports CbbProofs
begin

text \<open>
  Clients of the builder. A message is a tree of bytes, length-prefixed parts and ASN.1 elements: writing
  it part by part and finishing the builder yields exactly its encoding. The operations that have a
  reader in \<^verbatim>\<open>cbs.c\<close> are interpretations of the locale \<^verbatim>\<open>wire_format\<close>: what they write is read back. Last,
  what happens after an error.
\<close>

section \<open>Building a message\<close>

text \<open>
  A message as a tree: bytes, a length-prefixed part, an ASN.1 element. The client writes it part by
  part and relies on the builder to close each child when its parent is used again.
\<close>

datatype item = Bytes "byte list" | Prefixed nat "item list" | Element CBS_ASN1_TAG "item list"

fun part_bytes :: "item \<Rightarrow> byte list" and items_bytes :: "item list \<Rightarrow> byte list" where
  "part_bytes (Bytes bs) = bs"
| "part_bytes (Prefixed n is) = (let c = items_bytes is in be_bytes n (of_nat (length c) :: u64) @ c)"
| "part_bytes (Element t is) = der (t, items_bytes is)"
| "items_bytes [] = []"
| "items_bytes (i # is) = part_bytes i @ items_bytes is"

fun item_fits :: "item \<Rightarrow> bool" and items_fit :: "item list \<Rightarrow> bool" where
  "item_fits (Bytes bs) \<longleftrightarrow> length bs < 2 ^ 64"
| "item_fits (Prefixed n is) \<longleftrightarrow> n \<le> 3 \<and> items_fit is \<and> length (items_bytes is) < 2 ^ (8 * n)"
| "item_fits (Element t is) \<longleftrightarrow> items_fit is \<and> length (items_bytes is) < 2 ^ 32 - 1"
| "items_fit [] \<longleftrightarrow> True"
| "items_fit (i # is) \<longleftrightarrow> item_fits i \<and> items_fit is"

fun write_item :: "nat \<Rightarrow> item \<Rightarrow> builder \<Rightarrow> cbb_result" and write_items :: "nat \<Rightarrow> item list \<Rightarrow> builder \<Rightarrow> cbb_result" where
  "write_item h (Bytes bs) st = CBB_add_bytes h bs st"
| "write_item h (Prefixed n is) st = with_local (\<lambda>k st. and_then (cbb_add_length_prefixed h k (of_nat n) st) (write_items k is)) st"
| "write_item h (Element t is) st = with_local (\<lambda>k st. and_then (CBB_add_asn1 h k t st) (write_items k is)) st"
| "write_items h [] st = Some (True, st)"
| "write_items h (i # is) st = and_then (write_item h i st) (write_items h is)"

text \<open>
  The result of writing \<^verbatim>\<open>new\<close> to \<^verbatim>\<open>h\<close>, of which the last part may be in children that are still open.
\<close>

definition cbb_writes :: "nat \<Rightarrow> byte list \<Rightarrow> byte list \<Rightarrow> nat set \<Rightarrow> builder \<Rightarrow> cbb_result \<Rightarrow> bool" where
  "cbb_writes h pre new S st r \<longleftrightarrow> (\<exists>ok st'. r = Some (ok, st') \<and> (\<not> ok \<longrightarrow> cbb_error (base st')) \<and>
     (ok \<longrightarrow> (\<exists>c fs. owns st' h (pre @ c) fs \<and> c @ closed fs = new \<and> fits fs \<and>
        set (map handle fs) \<subseteq> S \<union> {next_local st..})) \<and>
     (\<exists>c. cells st' h = (cells st h)\<lparr>child := c\<rparr>) \<and> cbb_frame (insert h S) st st' \<and>
     (room st (length (pre @ new)) \<longrightarrow> ok))"

lemma writesD:
  assumes "cbb_writes h pre new S st r"
  obtains (fail) st' x where "r = Some (False, st')" "cbb_error (base st')" "\<not> room st (length (pre @ new))"
      "cells st' h = (cells st h)\<lparr>child := x\<rparr>" "cbb_frame (insert h S) st st'"
  | (ok) st' x c fs where "r = Some (True, st')" "owns st' h (pre @ c) fs" "c @ closed fs = new" "fits fs"
      "set (map handle fs) \<subseteq> S \<union> {next_local st..}"
      "cells st' h = (cells st h)\<lparr>child := x\<rparr>" "cbb_frame (insert h S) st st'"
proof -
  obtain b st' x where r: "r = Some (b, st')" "\<not> b \<longrightarrow> cbb_error (base st')"
      "b \<longrightarrow> (\<exists>c fs. owns st' h (pre @ c) fs \<and> c @ closed fs = new \<and> fits fs \<and> set (map handle fs) \<subseteq> S \<union> {next_local st..})"
      "cells st' h = (cells st h)\<lparr>child := x\<rparr>" "cbb_frame (insert h S) st st'" "room st (length (pre @ new)) \<longrightarrow> b"
    using assms unfolding cbb_writes_def by blast
  show thesis
  proof (cases b)
    case True
    then obtain c fs where "owns st' h (pre @ c) fs" "c @ closed fs = new" "fits fs" "set (map handle fs) \<subseteq> S \<union> {next_local st..}"
      using r(3) by blast
    with True r show thesis
      by (intro that(2)) auto
  next
    case False
    with r show thesis
      by (intro that(1)) auto
  qed
qed

lemma writes_fail:
  assumes "r = Some (False, st')" "cbb_error (base st')" "\<not> room st (length (pre @ new))"
    "cells st' h = (cells st h)\<lparr>child := x\<rparr>" "cbb_frame (insert h S) st st'"
  shows "cbb_writes h pre new S st r"
  using assms unfolding cbb_writes_def by (intro exI [of _ False] exI [of _ st']) auto

lemma writes_ok:
  assumes "r = Some (True, st')" "owns st' h (pre @ c) fs" "c @ closed fs = new" "fits fs"
    "set (map handle fs) \<subseteq> S \<union> {next_local st..}"
    "cells st' h = (cells st h)\<lparr>child := x\<rparr>" "cbb_frame (insert h S) st st'"
  shows "cbb_writes h pre new S st r"
  using assms unfolding cbb_writes_def by (intro exI [of _ True] exI [of _ st']) auto

lemma appends_writes:
  assumes "appends h (pre @ new) [] S True st r"
  shows "cbb_writes h pre new S st r"
  using assms
proof (cases rule: appendsD [case_names fail ok])
  case (fail st' c)
  then show ?thesis
    by (intro writes_fail [where st' = st' and x = c]) simp_all
next
  case (ok st' c)
  then show ?thesis
    by (intro writes_ok [where st' = st' and x = c and c = new and fs = "[]"]) simp_all
qed

text \<open>What is written to a child, seen from the parent that opened it.\<close>

lemma writes_via_child:
  assumes st: "owns st h pre [Pending k kd []]"
    and r: "cbb_writes k (pre @ replicate (prefix_len kd) 0) new {} st r" and fit: "prefix_fits kd (length new)"
  shows "cbb_writes h pre (prefix_code kd (length new) @ new) {k} st r"
proof -
  have d: "h \<noteq> k" "h < next_local st" "k < next_local st"
    using st by (auto simp: owns_def)
  have f: "cbb_frame (insert h {k}) st st'" if "cbb_frame (insert k {}) st st'" for st'
    using that by (rule cbb_frame_mono) auto
  have cell: "cells st' h = cells st h" if "cbb_frame (insert k {}) st st'" for st'
    using that d by (auto simp: cbb_frame_def)
  from r show ?thesis
  proof (cases rule: writesD [case_names fail ok])
    case (fail st' x)
    have "length ((pre @ replicate (prefix_len kd) 0) @ new) \<le> length (pre @ prefix_code kd (length new) @ new)"
      using length_prefix_code(1) [OF fit] by simp
    then have "\<not> room st (length (pre @ prefix_code kd (length new) @ new))"
      using fail(3) room_le by blast
    then show ?thesis
      using fail f [OF fail(5)] cell [OF fail(5)]
      by (intro writes_fail [where st' = st' and x = "child (cells st h)"]) simp_all
  next
    case (ok st' x c fs)
    have "h \<notin> set (map handle fs)"
      using ok(5) d(2) by auto
    moreover have "h < next_local st'"
      using ok(7) d(2) by (simp add: cbb_frame_def)
    ultimately have "owns st' h pre (Pending k kd c # fs)"
      using owns_parent [OF st _ _ cell [OF ok(7)], of c fs x] ok(2,6) by simp
    then show ?thesis
      using ok d fit f [OF ok(7)] cell [OF ok(7)]
      by (intro writes_ok [where st' = st' and x = "child (cells st h)" and c = "[]" and fs = "Pending k kd c # fs"])
        (auto simp: Let_def)
  qed
qed

lemma writes_after:
  assumes "cbb_writes h pre new T st1 r" "cbb_frame (insert h S) st st1" "cells st1 h = (cells st h)\<lparr>child := x\<rparr>"
    and "h < next_local st" "T \<subseteq> S \<union> {next_local st..}"
  shows "cbb_writes h pre new S st r"
proof -
  have f: "cbb_frame (insert h S) st st'" if "cbb_frame (insert h T) st1 st'" for st'
    by (rule cbb_frame_trans [OF assms(2) that]) (use assms(5) in auto)
  have n: "next_local st \<le> next_local st1"
    using assms(2) by (simp add: cbb_frame_def)
  from assms(1) show ?thesis
  proof (cases rule: writesD [case_names fail ok])
    case (fail st' y)
    have "\<not> room st (length (pre @ new))"
      using fail(3) assms(2) by (auto simp: cbb_frame_def)
    then show ?thesis
      using fail assms(3) f [OF fail(5)] by (intro writes_fail [where st' = st' and x = y]) simp_all
  next
    case (ok st' y c fs)
    have "set (map handle fs) \<subseteq> S \<union> {next_local st..}"
      using ok(5) assms(5) n by (fastforce simp: subset_iff)
    then show ?thesis
      using ok assms(3) f [OF ok(7)] by (intro writes_ok [where st' = st' and x = y]) simp_all
  qed
qed

lemma writes_shift:
  assumes "cbb_writes h (pre @ a) new S st r"
  shows "cbb_writes h pre (a @ new) S st r"
  using assms
proof (cases rule: writesD [case_names fail ok])
  case (fail st' x)
  then show ?thesis
    by (intro writes_fail [where st' = st' and x = x]) simp_all
next
  case (ok st' x c fs)
  then show ?thesis
    by (intro writes_ok [where st' = st' and x = x and c = "a @ c" and fs = fs]) simp_all
qed

lemma appends_then_writes:
  assumes "appends h pre' fs' S True st r"
    and "\<And>st1. owns st1 h pre' fs' \<Longrightarrow> cbb_frame (insert h S) st st1 \<Longrightarrow> cbb_writes h pre new S st1 (q st1)"
    and "length (pre' @ layout fs') \<le> length (pre @ new)" and "h < next_local st"
  shows "cbb_writes h pre new S st (and_then r q)"
  using assms(1)
proof (cases rule: appendsD [case_names fail ok])
  case (fail st1 c)
  have "\<not> room st (length (pre @ new))"
    using fail(3) room_le [OF _ assms(3)] by auto
  then show ?thesis
    using fail by (intro writes_fail [where st' = st1 and x = c]) (simp_all add: and_then_def)
next
  case (ok st1 c)
  have "cbb_writes h pre new S st (q st1)"
    by (rule writes_after [OF assms(2) [OF ok(3,5)] ok(5) ok(4) assms(4)]) auto
  then show ?thesis
    using ok(1) by (simp add: and_then_def)
qed

lemma writes_then_writes:
  assumes "cbb_writes h pre new1 S st r" and "h < next_local st"
    and "\<And>st1 c fs. owns st1 h (pre @ c) fs \<Longrightarrow> c @ closed fs = new1 \<Longrightarrow> fits fs \<Longrightarrow>
      cbb_writes h (pre @ c) (closed fs @ new2) (set (map handle fs)) st1 (q st1)"
  shows "cbb_writes h pre (new1 @ new2) S st (and_then r q)"
  using assms(1)
proof (cases rule: writesD [case_names fail ok])
  case (fail st1 x)
  have "\<not> room st (length (pre @ new1 @ new2))"
    using fail(3) room_le [of st "length (pre @ new1 @ new2)" "length (pre @ new1)"] by auto
  then show ?thesis
    using fail by (intro writes_fail [where st' = st1 and x = x]) (simp_all add: and_then_def)
next
  case (ok st1 x c fs)
  have "cbb_writes h pre (new1 @ new2) (set (map handle fs)) st1 (q st1)"
    using writes_shift [OF assms(3) [OF ok(2-4)]] unfolding ok(3) [symmetric] by simp
  from writes_after [OF this ok(7,6) assms(2) ok(5)]
  have "cbb_writes h pre (new1 @ new2) S st (q st1)" .
  then show ?thesis
    using ok(1) by (simp add: and_then_def)
qed

lemma with_local_writes:
  assumes st: "owns st h pre fs"
    and f: "\<And>st1. owns st1 h pre fs \<Longrightarrow> next_local st1 = Suc (next_local st) \<Longrightarrow>
      cbb_writes h pre' new (insert (next_local st) S) st1 (f (next_local st) st1)"
  shows "cbb_writes h pre' new S st (with_local f st)"
proof -
  let ?st1 = "st\<lparr>next_local := Suc (next_local st)\<rparr>"
  have same: "linked ?st1 x pos gs = linked st x pos gs" for x pos gs
    by (rule linked_cong) simp_all
  have st1: "owns ?st1 h pre fs"
    using st by (auto simp: owns_def buffer_ok_def written_def cbb_get_base_def same)
  have "cbb_writes h pre' new (insert (next_local st) S) ?st1 (with_local f st)"
    using f [OF st1] by (simp add: with_local_def)
  moreover have "cbb_frame (insert h S) st ?st1"
    by (simp add: cbb_frame_def room_def)
  ultimately show ?thesis
    by (rule writes_after [where x = "child (cells st h)"]) (use st in \<open>auto simp: owns_def\<close>)
qed

lemma write_items_writes:
  "owns st h pre fs \<Longrightarrow> fits fs \<Longrightarrow> item_fits i \<Longrightarrow> cbb_writes h pre (closed fs @ part_bytes i) (set (map handle fs)) st (write_item h i st)"
  "owns st h pre fs \<Longrightarrow> fits fs \<Longrightarrow> items_fit is \<Longrightarrow> cbb_writes h pre (closed fs @ items_bytes is) (set (map handle fs)) st (write_items h is st)"
proof (induction h i st and h "is" st arbitrary: pre fs and pre fs rule: write_item_write_items.induct)
  case (1 h bs st)
  then show ?case
    using CBB_add_bytes_appends [OF 1(1), of bs] by (intro appends_writes) simp
next
  case (2 h n "is" st)
  let ?k = "next_local st" and ?c = "items_bytes is" and ?S = "set (map handle fs)"
  have fit: "n \<le> 3" "items_fit is" "prefix_fits (Fixed n) (length ?c)"
    using 2(4) by simp_all
  have "cbb_writes h pre (closed fs @ part_bytes (Prefixed n is)) (insert ?k ?S) st1
      (and_then (cbb_add_length_prefixed h ?k (of_nat n) st1) (write_items ?k is))"
    if st1: "owns st1 h pre fs" "next_local st1 = Suc ?k" for st1
  proof (rule appends_then_writes)
    show "appends h (pre @ closed fs) [Pending ?k (Fixed n) []] (insert ?k ?S) True st1 (cbb_add_length_prefixed h ?k (of_nat n) st1)"
      using length_prefixed_appends [OF st1(1), of ?k n] fresh_local [OF 2(2)] st1(2) fit(1) 2(3) by simp
    fix st2
    assume st2: "owns st2 h (pre @ closed fs) [Pending ?k (Fixed n) []]"
    have "owns st2 ?k ((pre @ closed fs) @ replicate n 0) []"
      using owns_child [OF st2] by simp
    from 2(1) [OF this _ fit(2)] have "cbb_writes ?k ((pre @ closed fs) @ replicate n 0) ?c {} st2 (write_items ?k is st2)"
      by simp
    then have "cbb_writes h (pre @ closed fs) (prefix_code (Fixed n) (length ?c) @ ?c) {?k} st2 (write_items ?k is st2)"
      by (intro writes_via_child [OF st2 _ fit(3)]) simp
    then have "cbb_writes h pre (closed fs @ part_bytes (Prefixed n is)) {?k} st2 (write_items ?k is st2)"
      using writes_shift by (fastforce simp: Let_def)
    then show "cbb_writes h pre (closed fs @ part_bytes (Prefixed n is)) (insert ?k ?S) st2 (write_items ?k is st2)"
      using owns_linked(1) [OF st2] by (intro writes_after [where S = "insert ?k ?S" and x = "child (cells st2 h)"]) auto
  qed (use st1 in \<open>simp_all add: owns_def Let_def\<close>)
  from with_local_writes [OF 2(2), where f = "\<lambda>k st. and_then (cbb_add_length_prefixed h k (of_nat n) st) (write_items k is)", OF this]
  show ?case
    by simp
next
  case (3 h t "is" st)
  let ?k = "next_local st" and ?c = "items_bytes is" and ?S = "set (map handle fs)"
  have fit: "items_fit is" "prefix_fits Asn1 (length ?c)"
    using 3(4) by simp_all
  have "cbb_writes h pre (closed fs @ part_bytes (Element t is)) (insert ?k ?S) st1
      (and_then (CBB_add_asn1 h ?k t st1) (write_items ?k is))"
    if st1: "owns st1 h pre fs" "next_local st1 = Suc ?k" for st1
  proof (rule appends_then_writes)
    show "appends h (pre @ closed fs @ tag_code t) [Pending ?k Asn1 []] (insert ?k ?S) True st1 (CBB_add_asn1 h ?k t st1)"
      using CBB_add_asn1_appends [OF st1(1), of ?k t] fresh_local [OF 3(2)] st1(2) 3(3) by simp
    fix st2
    assume st2: "owns st2 h (pre @ closed fs @ tag_code t) [Pending ?k Asn1 []]"
    have "owns st2 ?k ((pre @ closed fs @ tag_code t) @ [0]) []"
      using owns_child [OF st2] by simp
    from 3(1) [OF this _ fit(1)] have "cbb_writes ?k ((pre @ closed fs @ tag_code t) @ [0]) ?c {} st2 (write_items ?k is st2)"
      by simp
    then have "cbb_writes h (pre @ closed fs @ tag_code t) (prefix_code Asn1 (length ?c) @ ?c) {?k} st2 (write_items ?k is st2)"
      by (intro writes_via_child [OF st2 _ fit(2)]) simp
    then have "cbb_writes h pre (closed fs @ part_bytes (Element t is)) {?k} st2 (write_items ?k is st2)"
      using writes_shift [of h pre "closed fs @ tag_code t"] by (simp add: der_def)
    then show "cbb_writes h pre (closed fs @ part_bytes (Element t is)) (insert ?k ?S) st2 (write_items ?k is st2)"
      using owns_linked(1) [OF st2] by (intro writes_after [where S = "insert ?k ?S" and x = "child (cells st2 h)"]) auto
  qed (use st1 length_prefix_code(1) [OF fit(2)] in \<open>simp_all add: owns_def der_def\<close>)
  from with_local_writes [OF 3(2), where f = "\<lambda>k st. and_then (CBB_add_asn1 h k t st) (write_items k is)", OF this]
  show ?case
    by simp
next
  case (4 h st)
  then show ?case
    by (intro writes_ok [where st' = st and x = "child (cells st h)" and c = "[]" and fs = fs]) simp_all
next
  case (5 h i "is" st)
  have "cbb_writes h pre ((closed fs @ part_bytes i) @ items_bytes is) (set (map handle fs)) st
      (and_then (write_item h i st) (write_items h is))"
  proof (rule writes_then_writes)
    show "cbb_writes h pre (closed fs @ part_bytes i) (set (map handle fs)) st (write_item h i st)"
      using 5 by simp
    show "h < next_local st"
      using 5(3) by (simp add: owns_def)
    show "cbb_writes h (pre @ c) (closed fs1 @ items_bytes is) (set (map handle fs1)) st1 (write_items h is st1)"
      if "owns st1 h (pre @ c) fs1" "fits fs1" for st1 c fs1
      using 5(2) [OF that] 5(5) by simp
  qed
  then show ?case
    by simp
qed

text \<open>A finished builder hands out exactly the message.\<close>

lemma CBB_finish_appends:
  assumes st: "owns st h pre fs" and top: "\<not> is_child (cells st h)"
  shows "\<exists>r st'. CBB_finish h st = Some (r, st') \<and> (r = None \<or> r = Some (pre @ closed fs) \<and> fits fs) \<and>
    (fits fs \<and> room st (length (pre @ closed fs)) \<longrightarrow> r \<noteq> None)"
  using flush_appends [OF st]
proof (cases rule: appendsD [case_names fail ok])
  case (fail st' c)
  then show ?thesis
    using top by (auto simp: CBB_finish_def)
next
  case (ok st' c)
  have "written st' = pre @ closed fs"
    using ok(3) by (simp add: owns_def)
  then show ?thesis
    using ok top by (simp add: CBB_finish_def written_def)
qed

subsection \<open>A new builder\<close>

definition no_builder :: "(nat \<Rightarrow> byte list option) \<Rightarrow> builder" where
  "no_builder alloc = \<lparr>base = \<lparr>buf = [], buf_len = 0, cap = 0, can_resize = False, cbb_error = False\<rparr>,
     cells = (\<lambda>_. CBB_zero), next_local = 1, cbb_allocs = alloc\<rparr>"

lemma init_owns:
  assumes "CBB_init 0 n (no_builder alloc) = (True, st)"
  shows "owns st 0 [] []" "\<not> is_child (cells st 0)" "(\<forall>i. alloc i \<noteq> None) \<Longrightarrow> k < 2 ^ 64 \<Longrightarrow> room st k"
  using assms
  by (auto simp: CBB_init_def OPENSSL_malloc_def zero_top_def cbb_init_def no_builder_def CBB_zero_def owns_def buffer_ok_def
      written_def cbb_get_base_def room_def word_gt_0 split: option.splits if_splits)

lemma init_fails: "CBB_init 0 n (no_builder alloc) = (False, st) \<Longrightarrow> alloc 0 = None"
  by (auto simp: CBB_init_def OPENSSL_malloc_def zero_top_def no_builder_def split: option.splits if_splits)

lemma init_fixed_owns:
  assumes "length bs < 2 ^ 64" and "CBB_init_fixed 0 bs (no_builder alloc) = (ok, st)"
  shows "ok" "owns st 0 [] []" "\<not> is_child (cells st 0)" "k \<le> length bs \<Longrightarrow> room st k"
  using assms
  by (auto simp: CBB_init_fixed_def zero_top_def cbb_init_def no_builder_def CBB_zero_def owns_def buffer_ok_def
      written_def cbb_get_base_def room_def unat_of_nat)

lemma finish_writes:
  assumes "cbb_writes 0 [] new {} st r" and "\<not> is_child (cells st 0)"
  shows "\<exists>out st'. Option.bind r (\<lambda>(ok, st1). if ok then CBB_finish 0 st1 else Some (None, st1)) = Some (out, st') \<and>
    (out = None \<or> out = Some new) \<and> (room st (length new) \<longrightarrow> out \<noteq> None)"
  using assms(1)
proof (cases rule: writesD [case_names fail ok])
  case (ok st1 x c fs)
  have top: "\<not> is_child (cells st1 0)"
    using assms(2) ok(6) by simp
  have "room st n \<longrightarrow> room st1 n" for n
    using ok(7) by (simp add: cbb_frame_def)
  then show ?thesis
    using CBB_finish_appends [OF ok(2) top] ok(1,3,4) by auto
qed simp

text \<open>A client: initialise a builder, write to it, finish. The result is the message, or no message.\<close>

definition build :: "size_t \<Rightarrow> (builder \<Rightarrow> cbb_result) \<Rightarrow> (nat \<Rightarrow> byte list option) \<Rightarrow> byte list option option" where
  "build initial_capacity w alloc =
     (case CBB_init 0 initial_capacity (no_builder alloc) of
        (False, st) \<Rightarrow> Some None
      | (True, st) \<Rightarrow> map_option fst (Option.bind (w st) (\<lambda>(ok, st1). if ok then CBB_finish 0 st1 else Some (None, st1))))"

definition build_fixed :: "byte list \<Rightarrow> (builder \<Rightarrow> cbb_result) \<Rightarrow> byte list option option" where
  "build_fixed bs w =
     (case CBB_init_fixed 0 bs (no_builder (\<lambda>_. None)) of
        (False, st) \<Rightarrow> Some None
      | (True, st) \<Rightarrow> map_option fst (Option.bind (w st) (\<lambda>(ok, st1). if ok then CBB_finish 0 st1 else Some (None, st1))))"

lemma build_writes:
  assumes w: "\<And>st. owns st 0 [] [] \<Longrightarrow> cbb_writes 0 [] new {} st (w st)"
  shows "build n w alloc = Some None \<or> build n w alloc = Some (Some new)"
    and "(\<forall>i. alloc i \<noteq> None) \<Longrightarrow> length new < 2 ^ 64 \<Longrightarrow> build n w alloc = Some (Some new)"
proof -
  have "(build n w alloc = Some None \<or> build n w alloc = Some (Some new)) \<and>
      ((\<forall>i. alloc i \<noteq> None) \<longrightarrow> length new < 2 ^ 64 \<longrightarrow> build n w alloc = Some (Some new))"
  proof (cases "fst (CBB_init 0 n (no_builder alloc))")
    case True
    then obtain st where st: "CBB_init 0 n (no_builder alloc) = (True, st)"
      by (metis prod.collapse)
    note init = init_owns [OF st]
    from finish_writes [OF w [OF init(1)] init(2)] init(3) show ?thesis
      unfolding build_def st by auto
  next
    case False
    then obtain st where st: "CBB_init 0 n (no_builder alloc) = (False, st)"
      by (metis prod.collapse)
    have "\<not> (\<forall>i. alloc i \<noteq> None)"
      using init_fails [OF st] by blast
    then show ?thesis
      unfolding build_def st prod.case bool.case by blast
  qed
  then show "build n w alloc = Some None \<or> build n w alloc = Some (Some new)"
    "(\<forall>i. alloc i \<noteq> None) \<Longrightarrow> length new < 2 ^ 64 \<Longrightarrow> build n w alloc = Some (Some new)"
    by auto
qed

lemma build_fixed_writes:
  assumes w: "\<And>st. owns st 0 [] [] \<Longrightarrow> cbb_writes 0 [] new {} st (w st)" and len: "length bs < 2 ^ 64"
  shows "build_fixed bs w = Some None \<or> build_fixed bs w = Some (Some new)"
    and "length new \<le> length bs \<Longrightarrow> build_fixed bs w = Some (Some new)"
proof -
  have "(build_fixed bs w = Some None \<or> build_fixed bs w = Some (Some new)) \<and>
      (length new \<le> length bs \<longrightarrow> build_fixed bs w = Some (Some new))"
  proof (cases "CBB_init_fixed 0 bs (no_builder (\<lambda>_. None))")
    case (Pair ok st)
    note init = init_fixed_owns [OF len Pair]
    from finish_writes [OF w [OF init(2)] init(3)] init(1,4) show ?thesis
      unfolding build_fixed_def Pair by auto
  qed
  then show "build_fixed bs w = Some None \<or> build_fixed bs w = Some (Some new)"
    "length new \<le> length bs \<Longrightarrow> build_fixed bs w = Some (Some new)"
    by auto
qed

lemma build_items:
  assumes "items_fit is"
  shows "build n (write_items 0 is) alloc = Some None \<or> build n (write_items 0 is) alloc = Some (Some (items_bytes is))"
    and "(\<forall>i. alloc i \<noteq> None) \<Longrightarrow> length (items_bytes is) < 2 ^ 64 \<Longrightarrow>
      build n (write_items 0 is) alloc = Some (Some (items_bytes is))"
    and "length bs < 2 ^ 64 \<Longrightarrow> length (items_bytes is) \<le> length bs \<Longrightarrow>
      build_fixed bs (write_items 0 is) = Some (Some (items_bytes is))"
  using build_writes [of "items_bytes is" "write_items 0 is"] build_fixed_writes [of "items_bytes is" "write_items 0 is"]
    write_items_writes(2) [OF _ _ assms, of _ 0 "[]" "[]"] by auto

section \<open>Writing and reading back\<close>

fun add_all :: "(nat \<Rightarrow> 'a \<Rightarrow> builder \<Rightarrow> cbb_result) \<Rightarrow> nat \<Rightarrow> 'a list \<Rightarrow> builder \<Rightarrow> cbb_result" where
  "add_all add h [] st = Some (True, st)"
| "add_all add h (x # xs) st = and_then (add h x st) (add_all add h xs)"

fun get_all :: "'a reader \<Rightarrow> nat \<Rightarrow> 'a list reader" where
  "get_all dec 0 = succeed []"
| "get_all dec (Suc n) = bind_reader dec (\<lambda>x. map_reader ((#) x) (get_all dec n))"

text \<open>
  A format of the wire: a codec, and the operation of the builder that writes it. What a sequence of
  calls writes, the same number of calls of the reader read back.
\<close>

locale wire_format = codec enc dec valid for enc :: "'a \<Rightarrow> byte list" and dec and valid +
  fixes add :: "nat \<Rightarrow> 'a \<Rightarrow> builder \<Rightarrow> cbb_result"
  assumes add_appends: "owns st h pre fs \<Longrightarrow> fits fs \<Longrightarrow> valid x \<Longrightarrow>
    appends h (pre @ closed fs @ enc x) [] (set (map handle fs)) True st (add h x st)"
begin

lemma add_all_writes:
  "owns st h pre fs \<Longrightarrow> fits fs \<Longrightarrow> list_all valid xs \<Longrightarrow>
   cbb_writes h pre (closed fs @ concat (map enc xs)) (set (map handle fs)) st (add_all add h xs st)"
proof (induction xs arbitrary: st pre fs)
  case Nil
  then show ?case
    by (intro writes_ok [where st' = st and x = "child (cells st h)" and c = "[]" and fs = fs]) simp_all
next
  case (Cons x xs)
  have "cbb_writes h pre ((closed fs @ enc x) @ concat (map enc xs)) (set (map handle fs)) st
      (and_then (add h x st) (add_all add h xs))"
  proof (rule writes_then_writes)
    show "cbb_writes h pre (closed fs @ enc x) (set (map handle fs)) st (add h x st)"
      using add_appends [OF Cons.prems(1,2)] Cons.prems(3) by (intro appends_writes) simp
    show "h < next_local st"
      using Cons.prems(1) by (simp add: owns_def)
    show "cbb_writes h (pre @ c) (closed fs1 @ concat (map enc xs)) (set (map handle fs1)) st1 (add_all add h xs st1)"
      if "owns st1 h (pre @ c) fs1" "fits fs1" for st1 c fs1
      using Cons.IH [OF that] Cons.prems(3) by simp
  qed
  then show ?case
    by simp
qed

lemma get_all_enc: "list_all valid xs \<Longrightarrow> get_all dec (length xs) (concat (map enc xs) @ rest) = (Some xs, rest)"
  by (induction xs) (auto simp: succeed_def map_reader_Some_iff bind_enc)

lemma build_get_all:
  assumes "list_all valid xs" and "build n (add_all add 0 xs) alloc = Some (Some bs)"
  shows "get_all dec (length xs) (bs @ rest) = (Some xs, rest)"
  using build_writes(1) [of "concat (map enc xs)" "add_all add 0 xs" n alloc] add_all_writes [of _ 0 "[]" "[]", OF _ _ assms(1)]
    get_all_enc [OF assms(1)] assms(2) by auto

lemma build_succeeds:
  assumes "list_all valid xs" and "\<forall>i. alloc i \<noteq> None" and "length (concat (map enc xs)) < 2 ^ 64"
  shows "build n (add_all add 0 xs) alloc = Some (Some (concat (map enc xs)))"
  using build_writes(2) [of "concat (map enc xs)" "add_all add 0 xs" alloc n] add_all_writes [of _ 0 "[]" "[]", OF _ _ assms(1)]
    assms(2,3) by auto

end

lemma appends_fits: "fits fs \<Longrightarrow> appends h pre fs' S (fits fs) st r \<Longrightarrow> appends h pre fs' S True st r"
  by simp

lemma be_bytes_ucast:
  assumes "8 * n \<le> LENGTH('a)" "LENGTH('a) \<le> LENGTH('b)"
  shows "be_bytes n (ucast (v :: 'a::len word) :: 'b::len word) = be_bytes n v"
  using assms(1)
proof (induction n)
  case 0
  then show ?case
    by (simp add: be_bytes_def)
next
  case (Suc n)
  have "(ucast (drop_bit (8 * n) (ucast v :: 'b word)) :: byte) = ucast (drop_bit (8 * n) v)"
    by (rule bit_word_eqI) (use Suc.prems assms(2) in \<open>auto simp: bit_simps\<close>)
  then show ?case
    using Suc by (simp add: be_bytes_def bytes_of_word_snoc del: bytes_of_word.simps(2))
qed

text \<open>Adding an integer that is smaller than the parameter of \<^verbatim>\<open>cbb_add_u\<close>.\<close>

lemma cbb_add_u_wire:
  fixes v :: "'a::len word"
  assumes "owns st h pre fs" "fits fs" "unat v < 2 ^ (8 * n)" "n \<le> 8" "8 * n \<le> LENGTH('a)" "LENGTH('a) \<le> 64"
  shows "appends h (pre @ closed fs @ be_bytes n v) [] (set (map handle fs)) True st (cbb_add_u h (ucast v) n st)"
proof -
  have "drop_bit (8 * n) (ucast v :: u64) = 0"
    using assms(3) power_increasing [of "8 * n" 64 "2 :: nat"] assms(4)
    by (subst drop_bit_eq_0_iff_unat, subst unat_ucast_narrow) auto
  moreover have "be_bytes n (ucast v :: u64) = be_bytes n v"
    using assms(5,6) by (intro be_bytes_ucast) simp_all
  ultimately show ?thesis
    using cbb_add_u_appends [OF assms(1), of n "ucast v"] assms(2,4) by simp
qed

lemma add_each_open:
  assumes "owns st h pre fs" "fits fs" "bs \<noteq> []"
  shows "appends h (pre @ closed fs @ bs) [] (set (map handle fs)) True st (add_each h bs st)"
proof (cases bs)
  case (Cons b bs')
  have "appends h (pre @ closed fs @ bs) [] (set (map handle fs)) (True \<and> True) st (and_then (CBB_add_u8 h b st) (add_each h bs'))"
  proof (rule appends_and_then)
    show "appends h (pre @ closed fs @ [b]) [] (set (map handle fs)) True st (CBB_add_u8 h b st)"
      by (rule appends_fits [OF assms(2) CBB_add_u8_appends [OF assms(1)]])
    show "appends h (pre @ closed fs @ bs) [] (set (map handle fs)) True st1 (add_each h bs' st1)"
      if "owns st1 h (pre @ closed fs @ [b]) []" for st1
      using appends_frame [OF add_each_appends [OF that, of bs'], of "set (map handle fs)"] Cons by simp
    show "length ((pre @ closed fs @ [b]) @ layout []) \<le> length ((pre @ closed fs @ bs) @ layout [])"
      using Cons by simp
    show "h < next_local st"
      using owns_linked(1) [OF assms(1)] .
  qed
  then show ?thesis
    using Cons by simp
qed (use assms in simp)

interpretation w8: wire_format "\<lambda>v. [v]" CBS_get_u8 "\<lambda>v. True" CBB_add_u8
  by unfold_locales (rule appends_fits, assumption, rule CBB_add_u8_appends)

interpretation w16: wire_format "be_bytes 2" CBS_get_u16 "\<lambda>v. True" CBB_add_u16
  unfolding CBB_add_u16_def by unfold_locales (rule cbb_add_u_wire, simp_all add: all_words_small)

interpretation w24: wire_format "be_bytes 3" CBS_get_u24 "\<lambda>v. unat v < 2 ^ 24" CBB_add_u24
  unfolding CBB_add_u24_def by unfold_locales (rule cbb_add_u_wire, simp_all)

interpretation w32: wire_format "be_bytes 4" CBS_get_u32 "\<lambda>v. True" CBB_add_u32
  unfolding CBB_add_u32_def by unfold_locales (rule cbb_add_u_wire, simp_all add: all_words_small)

interpretation w64: wire_format "be_bytes 8" CBS_get_u64 "\<lambda>v. True" CBB_add_u64
proof unfold_locales
  show "appends h (pre @ closed fs @ be_bytes 8 v) [] (set (map handle fs)) True st (CBB_add_u64 h v st)"
    if "owns st h pre fs" "fits fs" for st h pre fs and v
    using cbb_add_u_wire [OF that, of v 8] by (simp add: CBB_add_u64_def all_words_small)
qed

lemma le_be: "LENGTH('a) = 8 * n \<Longrightarrow> bytes_of_word n v = be_bytes n (word_of_bytes (rev (bytes_of_word n v)) :: 'a::len word)"
  by (simp add: be_le)

interpretation w16le: wire_format "bytes_of_word 2" CBS_get_u16le "\<lambda>v. True" CBB_add_u16le
proof unfold_locales
  show "appends h (pre @ closed fs @ bytes_of_word 2 v) [] (set (map handle fs)) True st (CBB_add_u16le h v st)"
    if "owns st h pre fs" "fits fs" for st h pre fs and v
    using w16.add_appends [OF that, of "CRYPTO_bswap2 v"] by (simp add: CBB_add_u16le_def CRYPTO_bswap2_def be_le)
qed

interpretation w32le: wire_format "bytes_of_word 4" CBS_get_u32le "\<lambda>v. True" CBB_add_u32le
proof unfold_locales
  show "appends h (pre @ closed fs @ bytes_of_word 4 v) [] (set (map handle fs)) True st (CBB_add_u32le h v st)"
    if "owns st h pre fs" "fits fs" for st h pre fs and v
    using w32.add_appends [OF that, of "CRYPTO_bswap4 v"] by (simp add: CBB_add_u32le_def CRYPTO_bswap4_def be_le)
qed

interpretation w64le: wire_format "bytes_of_word 8" CBS_get_u64le "\<lambda>v. True" CBB_add_u64le
proof unfold_locales
  show "appends h (pre @ closed fs @ bytes_of_word 8 v) [] (set (map handle fs)) True st (CBB_add_u64le h v st)"
    if "owns st h pre fs" "fits fs" for st h pre fs and v
    using w64.add_appends [OF that, of "CRYPTO_bswap8 v"] by (simp add: CBB_add_u64le_def CRYPTO_bswap8_def be_le)
qed

interpretation w_base128: wire_format base128 parse_base128_integer "\<lambda>v. True" add_base128_integer
proof unfold_locales
  show "appends h (pre @ closed fs @ base128 v) [] (set (map handle fs)) True st (add_base128_integer h v st)"
    if "owns st h pre fs" "fits fs" for st h pre fs and v
  proof -
    have "length (base128_digits (unat v)) \<noteq> 0"
      using base128_digits_props [of "unat v"] by simp
    then have "base128 v \<noteq> []"
      unfolding base128_def by (metis length_base128_code list.size(3))
    with that show ?thesis
      unfolding add_base128_integer_eq by (rule add_each_open)
  qed
qed

interpretation w_uint64: wire_format der_uint64 CBS_get_asn1_uint64 "\<lambda>v. True" CBB_add_asn1_uint64
  by unfold_locales (rule appends_fits, assumption, rule CBB_add_asn1_uint64_appends)

interpretation w_int64: wire_format der_int64 CBS_get_asn1_int64 "\<lambda>v. True" CBB_add_asn1_int64
  by unfold_locales (rule appends_fits, assumption, rule CBB_add_asn1_int64_appends)

interpretation w_bool: wire_format der_bool CBS_get_asn1_bool "\<lambda>v. True" CBB_add_asn1_bool
  by unfold_locales (rule appends_fits, assumption, rule CBB_add_asn1_bool_appends)

section \<open>Errors\<close>

text \<open>
  The calls of a client that does not look at the results: the operations in any order, on any
  \<^verbatim>\<open>CBB\<close> of the tree.
\<close>

inductive builder_step :: "builder \<Rightarrow> builder \<Rightarrow> bool" where
  flush: "CBB_flush h st = Some (ok, st') \<Longrightarrow> builder_step st st'"
| add_bytes: "CBB_add_bytes h bs st = Some (ok, st') \<Longrightarrow> builder_step st st'"
| add_zeros: "CBB_add_zeros h n st = Some (ok, st') \<Longrightarrow> builder_step st st'"
| add_u: "cbb_add_u h v n st = Some (ok, st') \<Longrightarrow> builder_step st st'"
| add_space: "CBB_add_space h n st = Some (k, st') \<Longrightarrow> builder_step st st'"
| reserve: "CBB_reserve h n st = Some (k, st') \<Longrightarrow> builder_step st st'"
| did_write: "CBB_did_write h n st = Some (ok, st') \<Longrightarrow> builder_step st st'"
| fill: "builder_step st (write_at k bs st)"
| open_prefixed: "cbb_add_length_prefixed h c n st = Some (ok, st') \<Longrightarrow> builder_step st st'"
| open_asn1: "CBB_add_asn1 h c t st = Some (ok, st') \<Longrightarrow> builder_step st st'"
| discard: "CBB_discard_child h st = Some st' \<Longrightarrow> builder_step st st'"
| add_uint64: "CBB_add_asn1_uint64_with_tag h v t st = Some (ok, st') \<Longrightarrow> builder_step st st'"
| add_int64: "CBB_add_asn1_int64_with_tag h v t st = Some (ok, st') \<Longrightarrow> builder_step st st'"
| add_octets: "CBB_add_asn1_octet_string h bs st = Some (ok, st') \<Longrightarrow> builder_step st st'"
| add_bool: "CBB_add_asn1_bool h b st = Some (ok, st') \<Longrightarrow> builder_step st st'"

lemma error_flush: "cbb_error (base st) \<Longrightarrow> CBB_flush h st = Some (False, st)"
  by (subst CBB_flush.simps) simp

lemma and_then_fails [simp]: "and_then (Some (False, st)) q = Some (False, st)"
  by (simp add: and_then_def)

lemma fail_with_error_error: "fail_with_error h st = Some (ok, st') \<Longrightarrow> cbb_error (base st')"
  by (auto simp: fail_with_error_def cbb_on_error_def set_cell_def set_error_def split: if_splits)

lemma or_error_error: "or_error h (Some (False, st)) = Some (ok, st') \<Longrightarrow> cbb_error (base st')"
  by (simp add: or_error_def fail_with_error_error)

lemma error_add_asn1: "cbb_error (base st) \<Longrightarrow> CBB_add_asn1 h c t st = Some (False, st)"
  by (simp add: CBB_add_asn1_def error_flush)

lemma error_add_space: "cbb_error (base st) \<Longrightarrow> CBB_add_space h n st = Some (None, st)"
  by (simp add: CBB_add_space_def error_flush)

lemma and_then_error:
  "and_then (or_error h (Some (False, st))) q = Some (ok, st') \<Longrightarrow> cbb_error (base st')"
  using fail_with_error_error
  by (auto simp: or_error_def and_then_def fail_with_error_def cbb_on_error_def set_cell_def set_error_def split: if_splits)

lemma error_uint64_with_tag:
  "cbb_error (base st) \<Longrightarrow> CBB_add_asn1_uint64_with_tag h v t st = Some (ok, st') \<Longrightarrow> cbb_error (base st')"
  by (auto simp: CBB_add_asn1_uint64_with_tag_def with_local_def error_add_asn1 dest: and_then_error)

lemma error_step: "builder_step st st' \<Longrightarrow> cbb_error (base st) \<Longrightarrow> cbb_error (base st')"
proof (induction rule: builder_step.induct)
  case (did_write h n st ok st')
  then show ?case
    by (auto simp: CBB_did_write_def Let_def split: if_splits)
next
  case (fill st k bs)
  then show ?case
    by (simp add: write_at_def)
next
  case (discard h st st')
  then show ?case
    by (auto simp: CBB_discard_child_def set_cell_def Let_def split: option.splits if_splits)
next
  case (add_int64 h v t st ok st')
  then show ?case
    by (auto simp: CBB_add_asn1_int64_with_tag_def with_local_def Let_def error_add_asn1
        dest: and_then_error error_uint64_with_tag split: if_splits)
qed (auto simp: error_flush error_add_space error_add_asn1 CBB_add_bytes_def CBB_add_zeros_def cbb_add_u_def CBB_reserve_def
    cbb_add_length_prefixed_def CBB_add_asn1_octet_string_def CBB_add_asn1_bool_def with_local_def
    dest: or_error_error error_uint64_with_tag)

lemma error_steps: "builder_step\<^sup>*\<^sup>* st st' \<Longrightarrow> cbb_error (base st) \<Longrightarrow> cbb_error (base st')"
  by (induction rule: rtranclp_induct) (auto intro: error_step)

lemma error_finish: "cbb_error (base st) \<Longrightarrow> CBB_finish h st = Some (None, st)"
  by (simp add: CBB_finish_def error_flush)

text \<open>
  A child whose parent was used again has lost its base pointer. Adding bytes or integers to it fails,
  but the operations that report an error on \<^verbatim>\<open>h\<close> themselves dereference the null pointer.
\<close>

lemma stale_flush: "\<not> cbb_get_base h st \<Longrightarrow> CBB_flush h st = Some (False, st)"
  by (subst CBB_flush.simps) simp

lemma stale_local: "cbb_get_base h (st\<lparr>next_local := n\<rparr>) = cbb_get_base h st"
  by (simp add: cbb_get_base_def)

lemma stale_child:
  assumes "\<not> cbb_get_base h st"
  shows "CBB_add_u8 h b st = Some (False, st)" "CBB_add_bytes h bs st = Some (False, st)"
    "CBB_add_asn1_bool h v st = None" "CBB_add_asn1_octet_string h bs st = None"
    "CBB_add_asn1_uint64 h n st = None" "CBB_add_asn1_int64 h n st = None"
  using assms stale_flush [of h "st\<lparr>next_local := Suc (next_local st)\<rparr>"]
  by (simp_all add: CBB_add_u8_def cbb_add_u_def CBB_add_bytes_def CBB_add_space_def stale_flush CBB_add_asn1_bool_def
      CBB_add_asn1_octet_string_def CBB_add_asn1_uint64_def CBB_add_asn1_uint64_with_tag_def CBB_add_asn1_int64_def
      CBB_add_asn1_int64_with_tag_def CBB_add_asn1_def with_local_def or_error_def fail_with_error_def cbb_on_error_def
      and_then_def stale_local Let_def)

text \<open>Discarding the open child takes back what was written since it was opened.\<close>

lemma discard_drops:
  assumes "owns st h pre (f # fs)"
  shows "\<exists>st'. CBB_discard_child h st = Some st' \<and> owns st' h pre []"
proof -
  let ?st1 = "st\<lparr>base := (base st)\<lparr>buf_len := of_nat (length pre)\<rparr>\<rparr>"
  from assms have c: "child (cells st h) = Some (handle f)" "offset (cells st (handle f)) = of_nat (length pre)"
      "is_child (cells st (handle f))" "cbb_get_base h st" "handle f \<noteq> h" "h < next_local st"
      and b: "buffer_ok st" "written st = pre @ layout (f # fs)"
    by (auto simp: owns_def child_cell_def)
  have len: "length pre \<le> unat (buf_len (base st))"
    using length_written [OF b(1)] b(2) by simp
  then have n: "unat (of_nat (length pre) :: size_t) = length pre"
    using unat_u64_less [of "buf_len (base st)"] by (simp add: unat_of_nat)
  have "take (length pre) (written st) = pre"
    using b(2) by simp
  then have "written ?st1 = pre"
    using len n by (simp add: written_def min_def)
  moreover have "buffer_ok ?st1"
    using b(1) len n by (simp add: buffer_ok_def word_le_nat_alt)
  ultimately show ?thesis
    using c by (simp add: CBB_discard_child_def owns_def Let_def cbb_get_base_def set_cell_def buffer_ok_def written_def)
qed

declare CBB_flush.simps [code]

text \<open>A child whose parent was flushed.\<close>

definition stale_builder :: builder where
  "stale_builder = (case CBB_add_u8_length_prefixed 0 1 (snd (CBB_init_fixed 0 [0, 0, 0] (no_builder (\<lambda>_. None)))) of
     Some (_, st) \<Rightarrow> (case CBB_flush 0 st of Some (_, st1) \<Rightarrow> st1 | None \<Rightarrow> st) | None \<Rightarrow> no_builder (\<lambda>_. None))"

end
