(* ===== verification/Asn1Oid.thy ===== *)
theory Asn1Oid
  imports CbbBuild
begin

text \<open>
  The text form of an OBJECT IDENTIFIER: \<^verbatim>\<open>CBB_add_asn1_oid_from_text\<close> (\<^verbatim>\<open>cbb.c\<close>) writes the DER contents of an
  identifier in dotted decimal notation, \<^verbatim>\<open>CBS_asn1_oid_to_text\<close> (\<^verbatim>\<open>cbs.c\<close>) goes back.
\<close>

section \<open>The code\<close>

definition parse_dotted_decimal :: "u64 reader" where
  "parse_dotted_decimal =
     bind_reader CBS_get_u64_decimal (\<lambda>out cbs.
       case CBS_get_u8 cbs of
         (None, cbs') \<Rightarrow> (Some out, cbs')
       | (Some dot, cbs') \<Rightarrow> (if dot = 0x2E \<and> CBS_len cbs' > 0 then Some out else None, cbs'))"

text \<open>The loop over the remaining components; the fuel is the length of the text.\<close>

fun oid_components :: "nat \<Rightarrow> nat \<Rightarrow> cbs \<Rightarrow> builder \<Rightarrow> cbb_result" where
  "oid_components 0 h cbs st = Some (cbs = [], st)"
| "oid_components (Suc fuel) h cbs st =
     (if cbs = [] then Some (True, st)
      else
        (case parse_dotted_decimal cbs of
           (None, cbs') \<Rightarrow> Some (False, st)
         | (Some a, cbs') \<Rightarrow> and_then (add_base128_integer h a st) (oid_components fuel h cbs')))"

definition CBB_add_asn1_oid_from_text :: "nat \<Rightarrow> byte list \<Rightarrow> builder \<Rightarrow> cbb_result" where
  "CBB_add_asn1_oid_from_text h txt st =
     and_then (CBB_flush h st) (\<lambda>st1.
       case parse_dotted_decimal txt of
         (None, _) \<Rightarrow> Some (False, st1)
       | (Some a, cbs1) \<Rightarrow>
           (case parse_dotted_decimal cbs1 of
              (None, _) \<Rightarrow> Some (False, st1)
            | (Some b, cbs2) \<Rightarrow>
                if a > 2 \<or> (a < 2 \<and> b > 39) \<or> b > UINT64_MAX - 80 then Some (False, st1)
                else and_then (add_base128_integer h (40 * a + b) st1) (oid_components (length cbs2) h cbs2)))"

text \<open>The digits that \<^verbatim>\<open>snprintf\<close> writes for \<^verbatim>\<open>%llu\<close>.\<close>

fun decimal :: "nat \<Rightarrow> byte list" where
  "decimal n = (if n < 10 then [of_nat (0x30 + n)] else decimal (n div 10) @ [of_nat (0x30 + n mod 10)])"

declare decimal.simps [simp del]

definition add_decimal :: "nat \<Rightarrow> u64 \<Rightarrow> builder \<Rightarrow> cbb_result" where
  "add_decimal out v = CBB_add_bytes out (decimal (unat v))"

fun oid_text_loop :: "nat \<Rightarrow> nat \<Rightarrow> cbs \<Rightarrow> builder \<Rightarrow> cbb_result" where
  "oid_text_loop 0 h copy st = Some (copy = [], st)"
| "oid_text_loop (Suc fuel) h copy st =
     (if copy = [] then Some (True, st)
      else
        (case parse_base128_integer copy of
           (None, _) \<Rightarrow> Some (False, st)
         | (Some v, copy') \<Rightarrow>
             and_then (and_then (CBB_add_u8 h 0x2E st) (add_decimal h v)) (oid_text_loop fuel h copy')))"

text \<open>The text with its NUL, or \<^verbatim>\<open>None\<close> for a null pointer; \<^verbatim>\<open>build\<close> is \<^verbatim>\<open>CBB_init\<close>, the calls, \<^verbatim>\<open>CBB_finish\<close>.\<close>

definition CBS_asn1_oid_to_text :: "cbs \<Rightarrow> (nat \<Rightarrow> byte list option) \<Rightarrow> byte list option option" where
  "CBS_asn1_oid_to_text cbs =
     build 32 (\<lambda>st.
       case parse_base128_integer cbs of
         (None, _) \<Rightarrow> Some (False, st)
       | (Some v, copy) \<Rightarrow>
           and_then
             (and_then
                (if v \<ge> 80 then and_then (CBB_add_bytes 0 [0x32, 0x2E] st) (add_decimal 0 (v - 80))
                 else and_then (and_then (add_decimal 0 (v div 40) st) (CBB_add_u8 0 0x2E)) (add_decimal 0 (v mod 40)))
                (oid_text_loop (length copy) 0 copy))
             (CBB_add_u8 0 0))"

section \<open>Decimal numbers\<close>

definition dec_value :: "nat \<Rightarrow> byte list \<Rightarrow> nat" where
  "dec_value = foldl (\<lambda>a c. a * 10 + (unat c - 0x30))"

lemma dec_value_simps [simp]:
  "dec_value a [] = a" "dec_value a (c # cs) = dec_value (a * 10 + (unat c - 0x30)) cs"
  "dec_value a (cs @ ds) = dec_value (dec_value a cs) ds"
  by (simp_all add: dec_value_def)

lemma dec_value_mono: "a \<le> dec_value a cs"
proof (induction cs arbitrary: a)
  case (Cons c cs)
  have "a \<le> a * 10 + (unat c - 0x30)"
    by simp
  also have "\<dots> \<le> dec_value a (c # cs)"
    using Cons by simp
  finally show ?case .
qed simp

lemma digit_iff: "OPENSSL_isdigit c \<longleftrightarrow> 0x30 \<le> unat c \<and> unat c \<le> 0x39"
  by (simp add: OPENSSL_isdigit_def word_le_nat_alt)

lemma digit_value: "OPENSSL_isdigit c \<Longrightarrow> unat c - 0x30 < 10"
  unfolding digit_iff by linarith

lemma of_nat_digit: "d < 10 \<Longrightarrow> unat (of_nat (0x30 + d) :: byte) = 0x30 + d" "d < 10 \<Longrightarrow> OPENSSL_isdigit (of_nat (0x30 + d))"
  by (simp_all add: digit_iff unat_of_nat del: of_nat_add)

text \<open>A number of the text: digits, no leading zero.\<close>

definition is_number :: "byte list \<Rightarrow> bool" where
  "is_number cs \<longleftrightarrow> cs \<noteq> [] \<and> list_all OPENSSL_isdigit cs \<and> (hd cs = 0x30 \<longrightarrow> length cs = 1)"

lemma decimal_number: "is_number (decimal n) \<and> dec_value 0 (decimal n) = n \<and> (hd (decimal n) = 0x30 \<longleftrightarrow> n = 0)"
proof (induction n rule: decimal.induct)
  case (1 n)
  show ?case
  proof (cases "n < 10")
    case True
    have "(of_nat (0x30 + n) :: byte) = 0x30 \<longleftrightarrow> n = 0"
      using of_nat_digit(1) [OF True] by (simp add: word_unat_eq_iff del: of_nat_add)
    then show ?thesis
      using True of_nat_digit [OF True] by (subst (1 2 3) decimal.simps) (simp add: is_number_def del: of_nat_add)
  next
    case False
    have "n mod 10 < 10"
      by simp
    from of_nat_digit [OF this] show ?thesis
      using False 1 [OF False] by (subst (1 2 3) decimal.simps) (auto simp: is_number_def simp del: of_nat_add)
  qed
qed

lemma number_unique: "is_number cs \<Longrightarrow> decimal (dec_value 0 cs) = cs"
proof (induction cs rule: rev_induct)
  case (snoc c cs)
  have c: "0x30 \<le> unat c" "unat c \<le> 0x39"
    using snoc.prems by (simp_all add: is_number_def digit_iff)
  then have c': "of_nat (0x30 + (unat c - 0x30)) = c" "unat c - 0x30 < 10"
    by (simp_all del: of_nat_add)
  show ?case
  proof (cases "cs = []")
    case True
    then show ?thesis
      using c c' by (subst decimal.simps) (simp del: of_nat_add)
  next
    case False
    then have cs: "is_number cs" "hd cs \<noteq> 0x30"
      using snoc.prems by (auto simp: is_number_def)
    have IH: "decimal (dec_value 0 cs) = cs"
      by (rule snoc.IH [OF cs(1)])
    then have "dec_value 0 cs \<noteq> 0"
      using cs(2) decimal_number [of "dec_value 0 cs"] by simp
    moreover have "(n * 10 + d) div 10 = n" "(n * 10 + d) mod 10 = d" if "d < 10" for n d :: nat
      using that by simp_all
    ultimately show ?thesis
      using IH c' by (subst decimal.simps) simp
  qed
qed (simp add: is_number_def)

text \<open>The loop of \<^verbatim>\<open>CBS_get_u64_decimal\<close> after a first digit that is not zero.\<close>

definition no_digit :: "cbs \<Rightarrow> bool" where
  "no_digit cbs \<longleftrightarrow> (case cbs of [] \<Rightarrow> True | c # _ \<Rightarrow> \<not> OPENSSL_isdigit c)"

lemma decimal_step:
  assumes c: "OPENSSL_isdigit c"
  shows "(v > UINT64_MAX div 10 \<or> v * 10 > UINT64_MAX - ucast (c - 0x30)) \<longleftrightarrow> 2 ^ 64 \<le> unat v * 10 + (unat c - 0x30)"
    and "unat v * 10 + (unat c - 0x30) < 2 ^ 64 \<Longrightarrow> unat (v * 10 + ucast (c - 0x30)) = unat v * 10 + (unat c - 0x30)"
proof -
  have sub: "unat (c - 0x30) = unat c - 0x30"
    using c by (simp add: digit_iff unat_sub word_le_nat_alt)
  then have d: "unat (ucast (c - 0x30) :: u64) = unat c - 0x30" "unat c - 0x30 \<le> 9"
    using c digit_value [OF c] sub by (simp_all add: unat_ucast_widths)
  have m: "unat (UINT64_MAX div 10) = 1844674407370955161" "unat (UINT64_MAX - ucast (c - 0x30)) = 18446744073709551615 - (unat c - 0x30)"
    using d by (simp_all add: UINT64_MAX_def unat_div unat_sub word_le_nat_alt)
  have v10: "unat (v * 10) = unat v * 10" if "unat v \<le> 1844674407370955161"
    using that by (simp add: unat_word_ariths)
  show "(v > UINT64_MAX div 10 \<or> v * 10 > UINT64_MAX - ucast (c - 0x30)) \<longleftrightarrow> 2 ^ 64 \<le> unat v * 10 + (unat c - 0x30)"
  proof (cases "unat v \<le> 1844674407370955161")
    case True
    then show ?thesis
      using d(2) by (auto simp: word_less_nat_alt m v10)
  next
    case False
    then show ?thesis
      by (auto simp: word_less_nat_alt m)
  qed
  show "unat (v * 10 + ucast (c - 0x30)) = unat v * 10 + (unat c - 0x30)" if "unat v * 10 + (unat c - 0x30) < 2 ^ 64"
    using that by (simp add: unat_word_ariths d(1) sub mod_mult_left_eq mod_add_left_eq)
qed

lemma dec_value_less: "dec_value a cs < n \<Longrightarrow> a < n"
  using dec_value_mono [of a cs] by simp

lemma no_digit_Cons [simp]: "no_digit []" "no_digit (c # cs) \<longleftrightarrow> \<not> OPENSSL_isdigit c"
  by (simp_all add: no_digit_def)

lemma decimal_loop:
  "v \<noteq> 0 \<Longrightarrow> u64_decimal_loop v True cbs = (Some w, rest) \<longleftrightarrow>
   (\<exists>ds. cbs = ds @ rest \<and> list_all OPENSSL_isdigit ds \<and> no_digit rest \<and> unat w = dec_value (unat v) ds)"
proof (induction cbs arbitrary: v)
  case Nil
  then show ?case
    by (auto simp: word_unat_eq_iff)
next
  case (Cons c cbs)
  show ?case
  proof (cases "OPENSSL_isdigit c")
    case False
    then have "(\<exists>ds. c # cbs = ds @ rest \<and> list_all OPENSSL_isdigit ds \<and> no_digit rest \<and> unat w = dec_value (unat v) ds) \<longleftrightarrow>
        rest = c # cbs \<and> w = v"
      by (auto simp: Cons_eq_append_conv word_unat_eq_iff)
    then show ?thesis
      using False Cons.prems by auto
  next
    case c: True
    note step = decimal_step [OF c, of v]
    let ?n = "unat v * 10 + (unat c - 0x30)"
    have ex: "(\<exists>ds. c # cbs = ds @ rest \<and> list_all OPENSSL_isdigit ds \<and> no_digit rest \<and> unat w = dec_value (unat v) ds) \<longleftrightarrow>
        (\<exists>ds. cbs = ds @ rest \<and> list_all OPENSSL_isdigit ds \<and> no_digit rest \<and> unat w = dec_value ?n ds)"
      using c by (auto simp: Cons_eq_append_conv)
    show ?thesis
    proof (cases "?n < 2 ^ 64")
      case True
      then have v': "unat (v * 10 + ucast (c - 0x30)) = ?n"
        using step(2) by simp
      moreover have "?n \<noteq> 0"
        using Cons.prems by (simp add: unat_eq_zero)
      ultimately have "v * 10 + ucast (c - 0x30) \<noteq> 0"
        by (metis unat_0)
      from Cons.IH [OF this] show ?thesis
        using True step(1) c Cons.prems unfolding ex v' by simp
    next
      case False
      have "\<not> (\<exists>ds. unat w = dec_value ?n ds)"
        using False dec_value_mono [of ?n] unat_u64_less [of w] by (metis le_trans not_le)
      then show ?thesis
        using False step(1) c Cons.prems unfolding ex by auto
    qed
  qed
qed

lemma decimal_iff:
  "CBS_get_u64_decimal cbs = (Some v, rest) \<longleftrightarrow> cbs = decimal (unat v) @ rest \<and> no_digit rest"
proof -
  have *: "CBS_get_u64_decimal cbs = (Some v, rest) \<longleftrightarrow>
    (\<exists>ds. cbs = ds @ rest \<and> is_number ds \<and> no_digit rest \<and> unat v = dec_value 0 ds)"
  proof (cases cbs)
    case Nil
    then show ?thesis
      by (simp add: CBS_get_u64_decimal_def is_number_def)
  next
    case (Cons c cs)
    show ?thesis
    proof (cases "OPENSSL_isdigit c")
      case False
      then show ?thesis
        unfolding Cons by (auto simp: CBS_get_u64_decimal_def is_number_def Cons_eq_append_conv)
    next
      case c: True
      note step = decimal_step [OF c, of 0]
      have small: "unat c - 0x30 < 2 ^ 64"
        using digit_value [OF c] by simp
      show ?thesis
      proof (cases "c = 0x30")
        case True
        have "CBS_get_u64_decimal (c # cs) = (Some v, rest) \<longleftrightarrow> v = 0 \<and> rest = cs \<and> no_digit cs"
          using True c by (cases cs) (auto simp: CBS_get_u64_decimal_def UINT64_MAX_def)
        moreover have "(\<exists>ds. c # cs = ds @ rest \<and> is_number ds \<and> no_digit rest \<and> unat v = dec_value 0 ds) \<longleftrightarrow> v = 0 \<and> rest = cs \<and> no_digit cs"
          using True c by (auto simp: is_number_def Cons_eq_append_conv length_Suc_conv word_unat_eq_iff)
        ultimately show ?thesis
          unfolding Cons by simp
      next
        case False
        let ?v = "0 * 10 + ucast (c - 0x30) :: u64"
        have v: "unat ?v = unat c - 0x30" "unat c - 0x30 \<noteq> 0"
          using step(2) small c False by (auto simp: digit_iff word_unat_eq_iff)
        then have "?v \<noteq> 0"
          by (metis unat_0)
        from decimal_loop [OF this, of cs v rest]
        have "CBS_get_u64_decimal (c # cs) = (Some v, rest) \<longleftrightarrow>
            (\<exists>ds. cs = ds @ rest \<and> list_all OPENSSL_isdigit ds \<and> no_digit rest \<and> unat v = dec_value (unat ?v) ds)"
          using step(1) small c by (simp add: CBS_get_u64_decimal_def)
        moreover have "(\<exists>ds. c # cs = ds @ rest \<and> is_number ds \<and> no_digit rest \<and> unat v = dec_value 0 ds) \<longleftrightarrow>
            (\<exists>ds. cs = ds @ rest \<and> list_all OPENSSL_isdigit ds \<and> no_digit rest \<and> unat v = dec_value (unat ?v) ds)"
          unfolding v(1) using False c by (auto simp: is_number_def Cons_eq_append_conv)
        ultimately show ?thesis
          unfolding Cons by simp
      qed
    qed
  qed
  also have "\<dots> \<longleftrightarrow> cbs = decimal (unat v) @ rest \<and> no_digit rest"
    using number_unique decimal_number by auto
  finally show ?thesis .
qed

section \<open>Identifiers\<close>

text \<open>An identifier is the list of its components; in the text they are separated by dots.\<close>

fun dotted :: "u64 list \<Rightarrow> byte list" where
  "dotted [] = []"
| "dotted (v # vs) = decimal (unat v) @ concat (map (\<lambda>w. 0x2E # decimal (unat w)) vs)"

lemma decimal_not_Nil [simp]: "decimal n \<noteq> []"
  using decimal_number [of n] by (simp add: is_number_def)

lemma length_decimal: "length (decimal n) \<le> max 1 n"
proof (induction n rule: decimal.induct)
  case (1 n)
  then show ?case
    by (subst decimal.simps) auto
qed

lemma dot_no_digit [simp]: "\<not> OPENSSL_isdigit 0x2E"
  by (simp add: OPENSSL_isdigit_def)

lemma CBS_len_pos [simp]: "length cbs < 2 ^ 64 \<Longrightarrow> CBS_len cbs > 0 \<longleftrightarrow> cbs \<noteq> []"
  by (simp add: CBS_len_def word_less_nat_alt unat_of_nat)

lemma parse_dotted_iff:
  "length cbs < 2 ^ 64 \<Longrightarrow> parse_dotted_decimal cbs = (Some v, rest) \<longleftrightarrow>
   cbs = decimal (unat v) @ (if rest = [] then [] else 0x2E # rest)"
proof
  assume len: "length cbs < 2 ^ 64" and "parse_dotted_decimal cbs = (Some v, rest)"
  then obtain x mid where x: "CBS_get_u64_decimal cbs = (Some x, mid)"
      and mid: "(case CBS_get_u8 mid of (None, cbs') \<Rightarrow> (Some x, cbs')
        | (Some dot, cbs') \<Rightarrow> (if dot = 0x2E \<and> CBS_len cbs' > 0 then Some x else None, cbs')) = (Some v, rest)"
    unfolding parse_dotted_decimal_def by (blast dest: bind_reader_SomeD)
  from x have "cbs = decimal (unat x) @ mid"
    by (simp add: decimal_iff)
  with mid len show "cbs = decimal (unat v) @ (if rest = [] then [] else 0x2E # rest)"
    by (cases mid) (auto split: if_splits)
next
  assume len: "length cbs < 2 ^ 64" and cbs: "cbs = decimal (unat v) @ (if rest = [] then [] else 0x2E # rest)"
  then have "CBS_get_u64_decimal cbs = (Some v, if rest = [] then [] else 0x2E # rest)"
    by (simp add: decimal_iff)
  then show "parse_dotted_decimal cbs = (Some v, rest)"
    using len cbs by (auto simp: parse_dotted_decimal_def bind_reader_def split: if_splits)
qed

lemma dotted_Nil_iff [simp]: "dotted vs = [] \<longleftrightarrow> vs = []" "[] = dotted vs \<longleftrightarrow> vs = []"
  by (cases vs; simp)+

lemma dotted_Cons: "dotted (v # vs) = decimal (unat v) @ (if dotted vs = [] then [] else 0x2E # dotted vs)"
  by (cases vs) simp_all

lemma parse_dotted:
  "length (dotted (v # vs)) < 2 ^ 64 \<Longrightarrow> parse_dotted_decimal (dotted (v # vs)) = (Some v, dotted vs)"
  by (simp only: parse_dotted_iff dotted_Cons)

lemma parse_dotted_rest:
  assumes "parse_dotted_decimal cbs = (Some v, rest)" and "length cbs < 2 ^ 64"
  shows "length rest < length cbs" "cbs = dotted (v # vs) \<longleftrightarrow> rest = dotted vs"
  using assms by (auto simp: parse_dotted_iff dotted_Cons simp del: dotted.simps(2) split: if_splits)

text \<open>The components after the first two.\<close>

lemma oid_components_dotted:
  "length (dotted vs) < 2 ^ 64 \<Longrightarrow> length (dotted vs) \<le> fuel \<Longrightarrow>
   oid_components fuel h (dotted vs) st = add_all add_base128_integer h vs st"
proof (induction fuel arbitrary: vs st)
  case (Suc fuel)
  show ?case
  proof (cases vs)
    case (Cons v ws)
    have p: "parse_dotted_decimal (dotted (v # ws)) = (Some v, dotted ws)"
      using Suc.prems Cons by (intro parse_dotted) simp
    then have "oid_components fuel h (dotted ws) st1 = add_all add_base128_integer h ws st1" for st1
      using Suc.prems Cons parse_dotted_rest(1) [OF p] by (intro Suc.IH) simp_all
    then have "oid_components fuel h (dotted ws) = add_all add_base128_integer h ws"
      by (rule ext)
    then show ?thesis
      unfolding Cons by (simp add: p del: dotted.simps(2))
  qed simp
qed simp

lemma add_base128_appends:
  "owns st h pre fs \<Longrightarrow> fits fs \<Longrightarrow>
   appends h (pre @ closed fs @ base128 v) [] (set (map handle fs)) True st (add_base128_integer h v st)"
  by (rule w_base128.add_appends) simp_all

lemma oid_components_rejects:
  "\<nexists>vs. cbs = dotted vs \<Longrightarrow> length cbs < 2 ^ 64 \<Longrightarrow> length cbs \<le> fuel \<Longrightarrow> owns st h pre fs \<Longrightarrow> fits fs \<Longrightarrow>
   \<exists>st'. oid_components fuel h cbs st = Some (False, st')"
proof (induction fuel arbitrary: cbs st pre fs)
  case (Suc fuel)
  then have ne: "cbs \<noteq> []"
    by (metis dotted.simps(1))
  show ?case
  proof (cases "parse_dotted_decimal cbs")
    case (Pair r rest)
    show ?thesis
    proof (cases r)
      case (Some v)
      note rest = parse_dotted_rest [OF Pair [unfolded Some] Suc.prems(2)]
      have none: "\<nexists>vs. rest = dotted vs"
        using Suc.prems(1) rest(2) by blast
      have "\<exists>st'. and_then (add_base128_integer h v st) (oid_components fuel h rest) = Some (False, st')"
        using add_base128_appends [OF Suc.prems(4,5), of v]
      proof (cases rule: appendsD [case_names fail ok])
        case (ok st1 c)
        then show ?thesis
          using Suc.IH [OF none _ _ ok(3)] rest(1) Suc.prems(2,3) by (simp add: and_then_def)
      qed (simp add: and_then_def)
      then show ?thesis
        using ne Pair Some by simp
    qed (use ne Pair in simp)
  qed
qed (metis dotted.simps(1) le_zero_eq length_0_conv)

text \<open>Whole identifiers.\<close>

fun oid_ok :: "u64 list \<Rightarrow> bool" where
  "oid_ok (a # b # vs) \<longleftrightarrow> a \<le> 2 \<and> (a < 2 \<longrightarrow> b \<le> 39) \<and> b \<le> UINT64_MAX - 80"
| "oid_ok _ \<longleftrightarrow> False"

fun oid_arcs :: "u64 list \<Rightarrow> u64 list" where
  "oid_arcs (a # b # vs) = (40 * a + b) # vs"
| "oid_arcs vs = vs"

lemma add_all_Cons: "add_all add h (x # xs) = (\<lambda>st. and_then (add h x st) (add_all add h xs))"
  by (rule ext) simp

lemma oid_from_text_dotted:
  assumes "oid_ok vs" and len: "length (dotted vs) < 2 ^ 64"
  shows "CBB_add_asn1_oid_from_text h (dotted vs) st = and_then (CBB_flush h st) (add_all add_base128_integer h (oid_arcs vs))"
proof -
  from assms(1) obtain a b ws where vs: "vs = a # b # ws" "a \<le> 2" "a < 2 \<longrightarrow> b \<le> 39" "b \<le> UINT64_MAX - 80"
    by (cases vs rule: oid_ok.cases) auto
  have p1: "parse_dotted_decimal (dotted vs) = (Some a, dotted (b # ws))"
    using len unfolding vs(1) by (rule parse_dotted)
  note len1 = parse_dotted_rest(1) [OF p1 len]
  have p2: "parse_dotted_decimal (dotted (b # ws)) = (Some b, dotted ws)"
    using len1 len by (intro parse_dotted) simp
  have len2: "length (dotted ws) < 2 ^ 64"
    using parse_dotted_rest(1) [OF p2] len1 len by simp
  have bounds: "\<not> (a > 2 \<or> (a < 2 \<and> b > 39) \<or> b > UINT64_MAX - 80)"
    using vs(2-4) by auto
  have "oid_components (length (dotted ws)) h (dotted ws) = add_all add_base128_integer h ws"
    using oid_components_dotted [OF len2 order_refl] by (intro ext)
  then show ?thesis
    unfolding CBB_add_asn1_oid_from_text_def p1 prod.case option.case p2 if_not_P [OF bounds]
    by (simp add: vs(1) add_all_Cons)
qed

lemma oid_from_text_rejects:
  assumes none: "\<nexists>vs. oid_ok vs \<and> txt = dotted vs" and len: "length txt < 2 ^ 64" and st: "owns st h pre fs"
  shows "\<exists>st'. CBB_add_asn1_oid_from_text h txt st = Some (False, st')"
  using flush_appends [OF st]
proof (cases rule: appendsD [case_names fail ok])
  case (ok st1 c)
  show ?thesis
  proof (cases "\<exists>a b cbs1 cbs2. parse_dotted_decimal txt = (Some a, cbs1) \<and> parse_dotted_decimal cbs1 = (Some b, cbs2)")
    case True
    then obtain a b cbs1 cbs2 where p: "parse_dotted_decimal txt = (Some a, cbs1)" "parse_dotted_decimal cbs1 = (Some b, cbs2)"
      by blast
    note p1 = parse_dotted_rest [OF p(1) len]
    have len1: "length cbs1 < 2 ^ 64"
      using p1(1) len by simp
    note p2 = parse_dotted_rest [OF p(2) len1]
    have "\<exists>st'. and_then (add_base128_integer h (40 * a + b) st1) (oid_components (length cbs2) h cbs2) = Some (False, st')"
      if ok1: "a \<le> 2" "a < 2 \<longrightarrow> b \<le> 39" "b \<le> UINT64_MAX - 80"
    proof -
      have "\<nexists>ws. cbs2 = dotted ws"
      proof
        assume "\<exists>ws. cbs2 = dotted ws"
        then obtain ws where "txt = dotted (a # b # ws)"
          using p1(2) p2(2) by blast
        then show False
          using none ok1 by (metis oid_ok.simps(1))
      qed
      note rejects = oid_components_rejects [OF this _ order_refl]
      show ?thesis
        using add_base128_appends [OF ok(3), of "40 * a + b", simplified]
      proof (cases rule: appendsD [case_names fail ok])
        case (ok st2 c')
        then show ?thesis
          using rejects [OF _ ok(3)] p2(1) len1 by (simp add: and_then_def)
      qed simp
    qed
    then show ?thesis
      unfolding CBB_add_asn1_oid_from_text_def ok(1) using p by (auto simp: and_then_def not_less)
  next
    case False
    then show ?thesis
      unfolding CBB_add_asn1_oid_from_text_def ok(1) by (auto simp: and_then_def split: prod.split option.split)
  qed
qed (simp add: CBB_add_asn1_oid_from_text_def)

section \<open>From the text and back\<close>

definition oid_der :: "u64 list \<Rightarrow> byte list" where
  "oid_der vs = concat (map base128 (oid_arcs vs))"

lemma oid_from_text_writes:
  assumes "oid_ok vs" and "length (dotted vs) < 2 ^ 64" and st: "owns st h pre fs" and fit: "fits fs"
  shows "cbb_writes h pre (closed fs @ oid_der vs) (set (map handle fs)) st (CBB_add_asn1_oid_from_text h (dotted vs) st)"
  unfolding oid_from_text_dotted [OF assms(1,2)]
proof (rule writes_then_writes)
  show "cbb_writes h pre (closed fs) (set (map handle fs)) st (CBB_flush h st)"
    using flush_appends [OF st] fit by (intro appends_writes) simp
  show "h < next_local st"
    using st by (simp add: owns_def)
  show "cbb_writes h (pre @ c) (closed fs1 @ oid_der vs) (set (map handle fs1)) st1 (add_all add_base128_integer h (oid_arcs vs) st1)"
    if "owns st1 h (pre @ c) fs1" "fits fs1" for st1 c fs1
    unfolding oid_der_def by (rule w_base128.add_all_writes [OF that]) (simp add: list_all_iff)
qed

text \<open>The text of an identifier, as a piece per call of the builder.\<close>

lemma bytes_writes:
  "owns st h pre fs \<Longrightarrow> fits fs \<Longrightarrow> length bs < 2 ^ 64 \<Longrightarrow>
   cbb_writes h pre (closed fs @ bs) (set (map handle fs)) st (CBB_add_bytes h bs st)"
  using CBB_add_bytes_appends [of st h pre fs bs] by (intro appends_writes) simp

lemma length_decimal_unat: "length (decimal (unat (v :: u64))) < 2 ^ 64"
  using length_decimal [of "unat v"] unat_u64_less [of v] by (auto simp: max_def split: if_splits)

lemma decimal_writes:
  "owns st h pre fs \<Longrightarrow> fits fs \<Longrightarrow> cbb_writes h pre (closed fs @ decimal (unat v)) (set (map handle fs)) st (add_decimal h v st)"
  unfolding add_decimal_def by (rule bytes_writes [OF _ _ length_decimal_unat])

lemma u8_writes: "owns st h pre fs \<Longrightarrow> fits fs \<Longrightarrow> cbb_writes h pre (closed fs @ [b]) (set (map handle fs)) st (CBB_add_u8 h b st)"
  using w8.add_appends by (intro appends_writes) simp

text \<open>One call after another.\<close>

lemma writes_seq:
  assumes "cbb_writes h pre (closed fs @ new1) (set (map handle fs)) st r" and "h < next_local st"
    and "\<And>st1 pre1 fs1. owns st1 h pre1 fs1 \<Longrightarrow> fits fs1 \<Longrightarrow> cbb_writes h pre1 (closed fs1 @ new2) (set (map handle fs1)) st1 (q st1)"
  shows "cbb_writes h pre (closed fs @ new1 @ new2) (set (map handle fs)) st (and_then r q)"
  using writes_then_writes [OF assms(1,2), of new2 q] assms(3) by simp

lemma owns_next: "owns st h pre fs \<Longrightarrow> h < next_local st"
  by (simp add: owns_def)

lemma base128_not_Nil [simp]: "base128 v \<noteq> []"
  using base128.dec_alone [of v] by (auto simp: parse_base128_integer_def)

lemma length_base128_pos: "0 < length (base128 v)"
  by simp

lemma oid_text_loop_writes:
  "length (concat (map base128 vs)) \<le> fuel \<Longrightarrow> owns st h pre fs \<Longrightarrow> fits fs \<Longrightarrow>
   cbb_writes h pre (closed fs @ concat (map (\<lambda>v. 0x2E # decimal (unat v)) vs)) (set (map handle fs)) st
     (oid_text_loop fuel h (concat (map base128 vs)) st)"
proof (induction fuel arbitrary: vs st pre fs)
  case 0
  then have "vs = []"
    by (cases vs) auto
  then show ?case
    using 0 by (intro writes_ok [where st' = st and x = "child (cells st h)" and c = "[]" and fs = fs]) simp_all
next
  case (Suc fuel)
  note st = Suc.prems(2) and fit = Suc.prems(3)
  show ?case
  proof (cases vs)
    case Nil
    then show ?thesis
      using st fit by (intro writes_ok [where st' = st and x = "child (cells st h)" and c = "[]" and fs = fs]) simp_all
  next
    case (Cons v ws)
    have "length (base128 v) + length (concat (map base128 ws)) \<le> Suc fuel"
      using Suc.prems(1) unfolding Cons by simp
    then have len: "length (concat (map base128 ws)) \<le> fuel"
      using length_base128_pos [of v] by linarith
    have "cbb_writes h pre (closed fs @ ([0x2E] @ decimal (unat v)) @ concat (map (\<lambda>v. 0x2E # decimal (unat v)) ws)) (set (map handle fs)) st
        (and_then (and_then (CBB_add_u8 h 0x2E st) (add_decimal h v)) (oid_text_loop fuel h (concat (map base128 ws))))"
      by (intro writes_seq u8_writes decimal_writes Suc.IH st fit len owns_next [OF st])
    then show ?thesis
      unfolding Cons by (simp add: base128.dec_enc)
  qed
qed

lemma oid_text_loop_rejects:
  "\<nexists>vs. copy = concat (map base128 vs) \<Longrightarrow> length copy \<le> fuel \<Longrightarrow> owns st h pre fs \<Longrightarrow> fits fs \<Longrightarrow>
   \<exists>st'. oid_text_loop fuel h copy st = Some (False, st')"
proof (induction fuel arbitrary: copy st pre fs)
  case 0
  then show ?case
    by (metis concat.simps(1) le_zero_eq length_0_conv list.simps(8))
next
  case (Suc fuel)
  have ne: "copy \<noteq> []"
    using Suc.prems(1) by (metis concat.simps(1) list.simps(8))
  show ?case
  proof (cases "parse_base128_integer copy")
    case (Pair r rest)
    show ?thesis
    proof (cases r)
      case None
      then show ?thesis
        using ne Pair by simp
    next
      case (Some v)
      then have copy: "copy = base128 v @ rest"
        using base128.enc_dec Pair by blast
      with Suc.prems(2) have "length (base128 v) + length rest \<le> Suc fuel"
        by simp
      then have len: "length rest \<le> fuel"
        using length_base128_pos [of v] by linarith
      have none: "\<nexists>vs. rest = concat (map base128 vs)"
        using Suc.prems(1) copy by (metis concat.simps(2) list.simps(9))
      have "cbb_writes h pre (closed fs @ [0x2E] @ decimal (unat v)) (set (map handle fs)) st
          (and_then (CBB_add_u8 h 0x2E st) (add_decimal h v))"
        by (intro writes_seq u8_writes decimal_writes Suc.prems owns_next [OF Suc.prems(3)])
      then have "\<exists>st'. and_then (and_then (CBB_add_u8 h 0x2E st) (add_decimal h v)) (oid_text_loop fuel h rest) = Some (False, st')"
      proof (cases rule: writesD [case_names fail ok])
        case (ok st1 x c fs1)
        then show ?thesis
          using Suc.IH [OF none len ok(2,4)] by (simp add: and_then_def)
      qed simp
      then show ?thesis
        using ne Pair Some by simp
    qed
  qed
qed

text \<open>The two components of the first arc.\<close>

definition oid_split :: "u64 \<Rightarrow> u64 list" where
  "oid_split v = (if v \<ge> 80 then [2, v - 80] else [v div 40, v mod 40])"

lemma oid_split:
  "oid_ok (oid_split v @ vs)" "oid_arcs (oid_split v @ vs) = v # vs"
proof -
  have "oid_ok (oid_split v @ vs) \<and> oid_arcs (oid_split v @ vs) = v # vs"
  proof (cases "v \<ge> 80")
    case True
    then have "unat (v - 80) = unat v - 80"
      by (simp add: unat_sub)
    then show ?thesis
      using True unat_u64_less [of v] by (simp add: oid_split_def UINT64_MAX_def word_le_nat_alt word_less_nat_alt)
  next
    case False
    have d: "unat (v div 40) = unat v div 40" "unat (v mod 40) = unat v mod 40"
      by (simp_all add: unat_div unat_mod)
    have "unat v < 80"
      using False by (simp add: word_le_nat_alt not_le)
    then have "unat v div 40 < 2"
      by (simp add: less_mult_imp_div_less)
    moreover have "unat v mod 40 \<le> 39"
      using mod_less_divisor [of 40 "unat v"] by linarith
    moreover from this have "unat v mod 40 \<le> 18446744073709551535"
      by linarith
    moreover have "40 * (v div 40) + v mod 40 = v"
      by (rule mult_div_mod_eq)
    ultimately show ?thesis
      using False by (simp add: oid_split_def UINT64_MAX_def word_le_nat_alt word_less_nat_alt d)
  qed
  then show "oid_ok (oid_split v @ vs)" "oid_arcs (oid_split v @ vs) = v # vs"
    by blast+
qed

lemma oid_split_arcs: "oid_ok ns \<Longrightarrow> oid_split (hd (oid_arcs ns)) @ tl (oid_arcs ns) = ns"
proof (cases ns rule: oid_ok.cases)
  case (1 a b ws)
  assume ok: "oid_ok ns"
  then have b: "unat b \<le> 18446744073709551535" "unat a \<le> 2" "unat a < 2 \<Longrightarrow> unat b \<le> 39"
    by (simp_all add: 1 UINT64_MAX_def word_le_nat_alt word_less_nat_alt)
  then have v: "unat (40 * a + b) = 40 * unat a + unat b"
    by (simp add: unat_word_ariths)
  show ?thesis
  proof (cases "unat a = 2")
    case True
    then have "a = 2"
      by (simp add: word_unat_eq_iff)
    then show ?thesis
      using v by (simp add: 1 oid_split_def word_le_nat_alt)
  next
    case False
    then have "unat b \<le> 39" "unat a < 2"
      using b by simp_all
    then have "(40 * a + b) div 40 = a" "(40 * a + b) mod 40 = b" "\<not> 80 \<le> 40 * a + b"
      by (simp_all add: word_unat_eq_iff unat_div unat_mod v word_le_nat_alt)
    then show ?thesis
      by (simp add: 1 oid_split_def)
  qed
qed simp_all

lemma dotted_split:
  "dotted (oid_split v @ vs) = decimal (unat (if v \<ge> 80 then 2 else v div 40)) @ [0x2E] @
     decimal (unat (if v \<ge> 80 then v - 80 else v mod 40)) @ concat (map (\<lambda>v. 0x2E # decimal (unat v)) vs)"
  by (simp add: oid_split_def)

text \<open>What \<^verbatim>\<open>CBS_asn1_oid_to_text\<close> writes for the first arc.\<close>

definition oid_head :: "nat \<Rightarrow> u64 \<Rightarrow> builder \<Rightarrow> cbb_result" where
  "oid_head h v st =
     (if v \<ge> 80 then and_then (CBB_add_bytes h [0x32, 0x2E] st) (add_decimal h (v - 80))
      else and_then (and_then (add_decimal h (v div 40) st) (CBB_add_u8 h 0x2E)) (add_decimal h (v mod 40)))"

lemma oid_head_writes:
  assumes st: "owns st h pre fs" "fits fs"
  shows "cbb_writes h pre (closed fs @ dotted (oid_split v)) (set (map handle fs)) st (oid_head h v st)"
proof (cases "v \<ge> 80")
  case True
  have "cbb_writes h pre (closed fs @ [0x32, 0x2E] @ decimal (unat (v - 80))) (set (map handle fs)) st
      (and_then (CBB_add_bytes h [0x32, 0x2E] st) (add_decimal h (v - 80)))"
    by (intro writes_seq bytes_writes decimal_writes st owns_next [OF st(1)]) simp_all
  moreover have "dotted (oid_split v) = [0x32, 0x2E] @ decimal (unat (v - 80))"
    using True by (simp add: oid_split_def decimal.simps [of 2])
  ultimately show ?thesis
    using True by (simp add: oid_head_def del: append.simps)
next
  case False
  have "cbb_writes h pre (closed fs @ (decimal (unat (v div 40)) @ [0x2E]) @ decimal (unat (v mod 40))) (set (map handle fs)) st
      (and_then (and_then (add_decimal h (v div 40) st) (CBB_add_u8 h 0x2E)) (add_decimal h (v mod 40)))"
    by (intro writes_seq decimal_writes u8_writes st owns_next [OF st(1)])
  moreover have "dotted (oid_split v) = (decimal (unat (v div 40)) @ [0x2E]) @ decimal (unat (v mod 40))"
    using False by (simp add: oid_split_def)
  ultimately show ?thesis
    using False by (simp add: oid_head_def)
qed

definition oid_text_calls :: "u64 \<Rightarrow> cbs \<Rightarrow> builder \<Rightarrow> cbb_result" where
  "oid_text_calls v copy st = and_then (and_then (oid_head 0 v st) (oid_text_loop (length copy) 0 copy)) (CBB_add_u8 0 0)"

lemma oid_to_text_eq:
  "CBS_asn1_oid_to_text cbs = build 32 (\<lambda>st. case parse_base128_integer cbs of (None, _) \<Rightarrow> Some (False, st)
     | (Some v, copy) \<Rightarrow> oid_text_calls v copy st)"
  unfolding CBS_asn1_oid_to_text_def oid_text_calls_def oid_head_def ..

lemma dotted_append: "vs \<noteq> [] \<Longrightarrow> dotted (vs @ ws) = dotted vs @ concat (map (\<lambda>v. 0x2E # decimal (unat v)) ws)"
  by (cases vs) simp_all

lemma oid_text_calls_writes:
  assumes st: "owns st 0 [] []"
  shows "cbb_writes 0 [] (dotted (oid_split v @ vs) @ [0]) {} st (oid_text_calls v (concat (map base128 vs)) st)"
proof -
  have "cbb_writes 0 [] (closed [] @ (dotted (oid_split v) @ concat (map (\<lambda>v. 0x2E # decimal (unat v)) vs)) @ [0])
      (set (map handle [])) st (oid_text_calls v (concat (map base128 vs)) st)"
    unfolding oid_text_calls_def
    by (intro writes_seq u8_writes oid_text_loop_writes oid_head_writes order_refl st owns_next [OF st]) simp_all
  moreover have "oid_split v \<noteq> []"
    by (simp add: oid_split_def)
  ultimately show ?thesis
    by (simp add: dotted_append)
qed

lemma oid_to_text:
  "CBS_asn1_oid_to_text (concat (map base128 (v # vs))) alloc = Some None \<or>
   CBS_asn1_oid_to_text (concat (map base128 (v # vs))) alloc = Some (Some (dotted (oid_split v @ vs) @ [0]))"
  "(\<forall>i. alloc i \<noteq> None) \<Longrightarrow> length (dotted (oid_split v @ vs)) < 2 ^ 64 - 1 \<Longrightarrow>
   CBS_asn1_oid_to_text (concat (map base128 (v # vs))) alloc = Some (Some (dotted (oid_split v @ vs) @ [0]))"
proof -
  have eq: "CBS_asn1_oid_to_text (concat (map base128 (v # vs))) = build 32 (oid_text_calls v (concat (map base128 vs)))"
    by (simp add: oid_to_text_eq base128.dec_enc)
  note w = oid_text_calls_writes
  show "CBS_asn1_oid_to_text (concat (map base128 (v # vs))) alloc = Some None \<or>
      CBS_asn1_oid_to_text (concat (map base128 (v # vs))) alloc = Some (Some (dotted (oid_split v @ vs) @ [0]))"
    unfolding eq by (rule build_writes(1) [OF w])
  show "CBS_asn1_oid_to_text (concat (map base128 (v # vs))) alloc = Some (Some (dotted (oid_split v @ vs) @ [0]))"
    if "\<forall>i. alloc i \<noteq> None" "length (dotted (oid_split v @ vs)) < 2 ^ 64 - 1"
  proof -
    have "length (dotted (oid_split v @ vs) @ [0]) < 2 ^ 64"
      using that(2) by (simp only: length_append list.size)
    from build_writes(2) [OF w that(1) this] show ?thesis
      unfolding eq .
  qed
qed

lemma build_fails:
  assumes "\<And>st. owns st 0 [] [] \<Longrightarrow> \<exists>st'. w st = Some (False, st')"
  shows "build n w alloc = Some None"
proof (cases "CBB_init 0 n (no_builder alloc)")
  case (Pair ok st)
  show ?thesis
  proof (cases ok)
    case True
    with Pair have "CBB_init 0 n (no_builder alloc) = (True, st)"
      by simp
    from assms [OF init_owns(1) [OF this]] obtain st' where "w st = Some (False, st')"
      by blast
    then show ?thesis
      using Pair True by (simp add: build_def)
  qed (use Pair in \<open>simp add: build_def\<close>)
qed

lemma oid_to_text_rejects:
  assumes none: "\<nexists>v vs. cbs = concat (map base128 (v # vs))"
  shows "CBS_asn1_oid_to_text cbs alloc = Some None"
  unfolding oid_to_text_eq
proof (rule build_fails)
  fix st
  assume st: "owns st 0 [] []"
  show "\<exists>st'. (case parse_base128_integer cbs of (None, _) \<Rightarrow> Some (False, st) | (Some v, copy) \<Rightarrow> oid_text_calls v copy st) = Some (False, st')"
  proof (cases "parse_base128_integer cbs")
    case (Pair r copy)
    show ?thesis
    proof (cases r)
      case (Some v)
      then have "cbs = base128 v @ copy"
        using base128.enc_dec Pair by blast
      then have none': "\<nexists>vs. copy = concat (map base128 vs)"
        using none by auto
      have "cbb_writes 0 [] (closed [] @ dotted (oid_split v)) (set (map handle [])) st (oid_head 0 v st)"
        by (rule oid_head_writes [OF st]) simp
      then have "\<exists>st'. oid_text_calls v copy st = Some (False, st')"
      proof (cases rule: writesD [case_names fail ok])
        case (ok st1 x c fs1)
        then show ?thesis
          using oid_text_loop_rejects [OF none' order_refl ok(2,4)] by (auto simp: oid_text_calls_def and_then_def)
      qed (simp add: oid_text_calls_def)
      then show ?thesis
        using Pair Some by simp
    qed (use Pair in simp)
  qed
qed

text \<open>The text of an identifier that was made from its text, and the identifier of its text.\<close>

lemma oid_text_der_text:
  assumes der: "build n (CBB_add_asn1_oid_from_text 0 txt) alloc = Some (Some bs)" and len: "length txt < 2 ^ 64 - 1"
  shows "CBS_asn1_oid_to_text bs alloc' = Some None \<or> CBS_asn1_oid_to_text bs alloc' = Some (Some (txt @ [0]))"
    and "(\<forall>i. alloc' i \<noteq> None) \<Longrightarrow> CBS_asn1_oid_to_text bs alloc' = Some (Some (txt @ [0]))"
proof -
  have len64: "length txt < 2 ^ 64"
    using len by linarith
  obtain ns where ns: "oid_ok ns" "txt = dotted ns"
  proof (rule ccontr)
    assume "\<not> thesis"
    with that have "\<nexists>ns. oid_ok ns \<and> txt = dotted ns"
      by blast
    from build_fails [OF oid_from_text_rejects [OF this len64], where n = n and alloc = alloc] der show False
      by simp
  qed
  have "cbb_writes 0 [] (oid_der ns) {} st (CBB_add_asn1_oid_from_text 0 txt st)" if "owns st 0 [] []" for st
    using oid_from_text_writes [OF ns(1) _ that] len64 unfolding ns(2) by simp
  from build_writes(1) [of "oid_der ns" "CBB_add_asn1_oid_from_text 0 txt" n alloc, OF this] der
  have bs: "bs = concat (map base128 (oid_arcs ns))"
    by (simp add: oid_der_def)
  obtain v vs where arcs: "oid_arcs ns = v # vs"
    using ns(1) by (cases ns rule: oid_ok.cases) auto
  have t: "dotted (oid_split v @ vs) = txt"
    using oid_split_arcs [OF ns(1)] by (simp add: arcs ns(2))
  show "CBS_asn1_oid_to_text bs alloc' = Some None \<or> CBS_asn1_oid_to_text bs alloc' = Some (Some (txt @ [0]))"
    using oid_to_text(1) [of v vs alloc'] unfolding bs arcs t .
  show "CBS_asn1_oid_to_text bs alloc' = Some (Some (txt @ [0]))" if "\<forall>i. alloc' i \<noteq> None"
    using oid_to_text(2) [of alloc' v vs] that len unfolding bs arcs t by blast
qed

lemma oid_der_text_der:
  assumes shown: "CBS_asn1_oid_to_text bs alloc = Some (Some (txt @ [0]))" and len: "length txt < 2 ^ 64"
  shows "build n (CBB_add_asn1_oid_from_text 0 txt) alloc' = Some None \<or> build n (CBB_add_asn1_oid_from_text 0 txt) alloc' = Some (Some bs)"
    and "(\<forall>i. alloc' i \<noteq> None) \<Longrightarrow> length bs < 2 ^ 64 \<Longrightarrow> build n (CBB_add_asn1_oid_from_text 0 txt) alloc' = Some (Some bs)"
proof -
  obtain v vs where bs: "bs = concat (map base128 (v # vs))"
    using oid_to_text_rejects [of bs alloc] shown by auto
  with oid_to_text(1) [of v vs alloc] shown have t: "txt = dotted (oid_split v @ vs)"
    by simp
  note ok = oid_split [of v vs]
  have w: "cbb_writes 0 [] bs {} st (CBB_add_asn1_oid_from_text 0 txt st)" if "owns st 0 [] []" for st
    using oid_from_text_writes [OF ok(1) _ that] len unfolding t oid_der_def ok(2) bs by simp
  show "build n (CBB_add_asn1_oid_from_text 0 txt) alloc' = Some None \<or> build n (CBB_add_asn1_oid_from_text 0 txt) alloc' = Some (Some bs)"
    by (rule build_writes(1) [OF w])
  show "build n (CBB_add_asn1_oid_from_text 0 txt) alloc' = Some (Some bs)" if "\<forall>i. alloc' i \<noteq> None" "length bs < 2 ^ 64"
    by (rule build_writes(2) [OF w that])
qed

lemma length_base128_digits: "n < 128 ^ k \<Longrightarrow> 0 < k \<Longrightarrow> length (base128_digits n) \<le> k"
proof (induction k arbitrary: n)
  case (Suc k)
  show ?case
  proof (cases "n < 128")
    case True
    then show ?thesis
      by (simp add: base128_digits.simps [of n])
  next
    case False
    then have "0 < k"
      using Suc.prems(1) by (cases k) simp_all
    moreover have "n div 128 < 128 ^ k"
      using Suc.prems(1) by (simp add: less_mult_imp_div_less mult.commute)
    ultimately show ?thesis
      using Suc.IH [of "n div 128"] False by (simp add: base128_digits.simps [of n])
  qed
qed simp

lemma length_base128: "length (base128 v) \<le> 10"
proof -
  have "unat v < 128 ^ 10"
    using unat_u64_less [of v] by simp
  then show ?thesis
    using length_base128_digits [of "unat v" 10] length_base128_code [of "base128_digits (unat v)"] by (simp add: base128_def)
qed

lemma length_oid_der: "oid_ok vs \<Longrightarrow> length (oid_der vs) \<le> 10 * length (dotted vs)"
proof -
  have arcs: "length (concat (map base128 ws)) \<le> 10 * length ws" for ws
  proof (induction ws)
    case (Cons w ws)
    then show ?case
      using length_base128 [of w] by simp
  qed simp
  assume "oid_ok vs"
  then have "length (oid_arcs vs) \<le> length vs"
    by (cases vs rule: oid_ok.cases) simp_all
  moreover have "length vs \<le> length (dotted vs)"
  proof (cases vs)
    case (Cons v ws)
    have "length ws \<le> length (concat (map (\<lambda>v. 0x2E # decimal (unat v)) ws))"
      by (induction ws) simp_all
    moreover have "0 < length (decimal (unat v))"
      by simp
    ultimately show ?thesis
      unfolding Cons by (simp add: Suc_le_eq [symmetric])
  qed simp
  ultimately show ?thesis
    using arcs [of "oid_arcs vs"] by (simp add: oid_der_def)
qed

text \<open>The operation on a new builder of which no allocation fails.\<close>

lemma oid_from_text_iff:
  assumes "length txt < 2 ^ 60" and "\<forall>i. alloc i \<noteq> None"
  shows "build n (CBB_add_asn1_oid_from_text 0 txt) alloc = Some (Some bs) \<longleftrightarrow> (\<exists>vs. oid_ok vs \<and> txt = dotted vs \<and> bs = oid_der vs)"
proof -
  have len: "length txt < 2 ^ 64"
    using assms(1) by simp
  have exact: "build n (CBB_add_asn1_oid_from_text 0 txt) alloc = Some (Some (oid_der vs))" if vs: "oid_ok vs" "txt = dotted vs" for vs
  proof (rule build_writes(2) [OF _ assms(2)])
    show "cbb_writes 0 [] (oid_der vs) {} st (CBB_add_asn1_oid_from_text 0 txt st)" if "owns st 0 [] []" for st
      using oid_from_text_writes [OF vs(1) _ that] len by (simp add: vs(2))
    show "length (oid_der vs) < 2 ^ 64"
      using length_oid_der [OF vs(1)] assms(1) by (simp add: vs(2))
  qed
  show ?thesis
  proof (cases "\<exists>vs. oid_ok vs \<and> txt = dotted vs")
    case True
    then obtain vs where vs: "oid_ok vs" "txt = dotted vs"
      by blast
    then show ?thesis
      using exact by (metis option.inject)
  next
    case False
    then have "build n (CBB_add_asn1_oid_from_text 0 txt) alloc = Some None"
      by (intro build_fails oid_from_text_rejects [OF _ len])
    then show ?thesis
      using False by auto
  qed
qed

end
