(* ===== verification/PosixTime.thy ===== *)
theory PosixTime
  imports Prelude "HOL-Library.Signed_Division"
begin

text \<open>
  Calendar time without time zones (\<^verbatim>\<open>crypto/asn1/posix_time.c\<close>). The C integers are \<^verbatim>\<open>int64_t\<close> and \<^verbatim>\<open>int\<close>;
  dates and times are checked before any arithmetic, so that the values stay far from the limits, and
  are integers of unbounded size here. Where an addition could overflow (\<^verbatim>\<open>OPENSSL_gmtime_adj\<close>) the result
  is checked against the 64-bit limits, and \<^verbatim>\<open>None\<close> stands for the overflow. Division rounds towards zero
  as in C (\<^verbatim>\<open>sdiv\<close>, \<^verbatim>\<open>smod\<close>).
\<close>

section \<open>The code\<close>

record tm =
  tm_sec :: int
  tm_min :: int
  tm_hour :: int
  tm_mday :: int
  tm_mon :: int
  tm_year :: int
  tm_wday :: int
  tm_yday :: int
  tm_isdst :: int

definition INT_MIN32 :: int where "INT_MIN32 = - 2147483648"
definition INT_MAX32 :: int where "INT_MAX32 = 2147483647"
definition INT64_MIN :: int where "INT64_MIN = - 9223372036854775808"
definition INT64_MAX :: int where "INT64_MAX = 9223372036854775807"

definition SECS_PER_HOUR :: int where "SECS_PER_HOUR = 60 * 60"
definition SECS_PER_DAY :: int where "SECS_PER_DAY = 24 * SECS_PER_HOUR"
definition MIN_POSIX_TIME :: int where "MIN_POSIX_TIME = - 62167219200"
definition MAX_POSIX_TIME :: int where "MAX_POSIX_TIME = 253402300799"

definition is_valid_date :: "int \<Rightarrow> int \<Rightarrow> int \<Rightarrow> bool" where
  "is_valid_date year month day \<longleftrightarrow>
     (if day < 1 \<or> month < 1 \<or> year < 0 \<or> year > 9999 then False
      else if month \<in> {1, 3, 5, 7, 8, 10, 12} then day > 0 \<and> day \<le> 31
      else if month \<in> {4, 6, 9, 11} then day > 0 \<and> day \<le> 30
      else if month = 2 then
        (if (year smod 4 = 0 \<and> year smod 100 \<noteq> 0) \<or> year smod 400 = 0 then day > 0 \<and> day \<le> 29
         else day > 0 \<and> day \<le> 28)
      else False)"

definition is_valid_time :: "int \<Rightarrow> int \<Rightarrow> int \<Rightarrow> bool" where
  "is_valid_time hours minutes seconds \<longleftrightarrow>
     \<not> (hours < 0 \<or> minutes < 0 \<or> seconds < 0 \<or> hours > 23 \<or> minutes > 59 \<or> seconds > 59)"

definition is_valid_posix_time :: "int \<Rightarrow> bool" where
  "is_valid_posix_time time \<longleftrightarrow> MIN_POSIX_TIME \<le> time \<and> time \<le> MAX_POSIX_TIME"

definition posix_time_from_utc :: "int \<Rightarrow> int \<Rightarrow> int \<Rightarrow> int \<Rightarrow> int \<Rightarrow> int \<Rightarrow> int option" where
  "posix_time_from_utc year0 month day hours minutes seconds =
     (if \<not> is_valid_date year0 month day \<or> \<not> is_valid_time hours minutes seconds then None
      else
        (let year = (if month \<le> 2 then year0 - 1 else year0);
             era = (if year \<ge> 0 then year else year - 399) sdiv 400;
             year_of_era = year - era * 400;
             day_of_year = (153 * (if month > 2 then month - 3 else month + 9) + 2) sdiv 5 + day - 1;
             day_of_era = year_of_era * 365 + year_of_era sdiv 4 - year_of_era sdiv 100 + day_of_year;
             posix_days = era * 146097 + day_of_era - 719468
         in Some (posix_days * SECS_PER_DAY + hours * SECS_PER_HOUR + minutes * 60 + seconds)))"

text \<open>The result: year, month, day, hours, minutes, seconds.\<close>

definition utc_from_posix_time :: "int \<Rightarrow> (int \<times> int \<times> int \<times> int \<times> int \<times> int) option" where
  "utc_from_posix_time time =
     (if \<not> is_valid_posix_time time then None
      else
        (let days0 = time sdiv SECS_PER_DAY;
             leftover0 = time smod SECS_PER_DAY;
             (days1, leftover_seconds) = (if leftover0 < 0 then (days0 - 1, leftover0 + SECS_PER_DAY) else (days0, leftover0));
             days = days1 + 719468;
             era = (if days > 0 then days else days - 146096) sdiv 146097;
             day_of_era = days - era * 146097;
             year_of_era = (day_of_era - day_of_era sdiv 1460 + day_of_era sdiv 36524 - day_of_era sdiv 146096) sdiv 365;
             year0 = year_of_era + era * 400;
             day_of_year = day_of_era - (365 * year_of_era + year_of_era sdiv 4 - year_of_era sdiv 100);
             month_of_year = (5 * day_of_year + 2) sdiv 153;
             month = (if month_of_year < 10 then month_of_year + 3 else month_of_year - 9);
             year = (if month \<le> 2 then year0 + 1 else year0);
             day = day_of_year - (153 * month_of_year + 2) sdiv 5 + 1;
             hours = leftover_seconds sdiv SECS_PER_HOUR;
             rest = leftover_seconds smod SECS_PER_HOUR
         in Some (year, month, day, hours, rest sdiv 60, rest smod 60)))"

definition OPENSSL_tm_to_posix :: "tm \<Rightarrow> int option" where
  "OPENSSL_tm_to_posix t =
     posix_time_from_utc (tm_year t + 1900) (tm_mon t + 1) (tm_mday t) (tm_hour t) (tm_min t) (tm_sec t)"

definition OPENSSL_posix_to_tm :: "int \<Rightarrow> tm option" where
  "OPENSSL_posix_to_tm time =
     (case utc_from_posix_time time of
        None \<Rightarrow> None
      | Some (year, month, day, hours, minutes, seconds) \<Rightarrow>
          Some \<lparr>tm_sec = seconds, tm_min = minutes, tm_hour = hours, tm_mday = day, tm_mon = month - 1,
            tm_year = year - 1900, tm_wday = 0, tm_yday = 0, tm_isdst = 0\<rparr>)"

text \<open>\<^verbatim>\<open>time_t\<close> is 64 bits wide on the platform, so that the check for 32 bits never applies.\<close>

definition OPENSSL_timegm :: "tm \<Rightarrow> int option" where
  "OPENSSL_timegm t = OPENSSL_tm_to_posix t"

definition OPENSSL_gmtime :: "int \<Rightarrow> tm option" where
  "OPENSSL_gmtime time = OPENSSL_posix_to_tm time"

definition add_int64 :: "int \<Rightarrow> int \<Rightarrow> int option" where
  "add_int64 a b = (if INT64_MIN \<le> a + b \<and> a + b \<le> INT64_MAX then Some (a + b) else None)"

text \<open>The result \<^verbatim>\<open>Some None\<close> is the return value zero; \<^verbatim>\<open>None\<close> is a signed overflow.\<close>

definition OPENSSL_gmtime_adj :: "tm \<Rightarrow> int \<Rightarrow> int \<Rightarrow> tm option option" where
  "OPENSSL_gmtime_adj t offset_day offset_sec =
     (case OPENSSL_tm_to_posix t of
        None \<Rightarrow> Some None
      | Some posix0 \<Rightarrow>
          Option.bind (add_int64 posix0 (offset_day * SECS_PER_DAY)) (\<lambda>posix_time.
            if posix_time > 0 \<and> offset_sec > INT64_MAX - posix_time then Some None
            else if posix_time < 0 \<and> offset_sec < INT64_MIN - posix_time then Some None
            else map_option OPENSSL_posix_to_tm (add_int64 posix_time offset_sec)))"

text \<open>The result: days and seconds.\<close>

definition OPENSSL_gmtime_diff :: "tm \<Rightarrow> tm \<Rightarrow> (int \<times> int) option" where
  "OPENSSL_gmtime_diff tm_from tm_to =
     (case OPENSSL_tm_to_posix tm_to of
        None \<Rightarrow> None
      | Some time_to \<Rightarrow>
          (case OPENSSL_tm_to_posix tm_from of
             None \<Rightarrow> None
           | Some time_from \<Rightarrow>
               let timediff = time_to - time_from
               in Some (timediff sdiv SECS_PER_DAY, timediff smod SECS_PER_DAY)))"

section \<open>The calendar\<close>

text \<open>The Gregorian calendar: the number of days since the first day of the year 0.\<close>

definition leap_year :: "int \<Rightarrow> bool" where
  "leap_year y \<longleftrightarrow> (4 dvd y \<and> \<not> 100 dvd y) \<or> 400 dvd y"

definition days_in_month :: "int \<Rightarrow> int \<Rightarrow> int" where
  "days_in_month y m = (if m = 2 then (if leap_year y then 29 else 28) else if m \<in> {4, 6, 9, 11} then 30 else 31)"

primrec days_before_year :: "nat \<Rightarrow> int" where
  "days_before_year 0 = 0"
| "days_before_year (Suc y) = days_before_year y + (if leap_year (int y) then 366 else 365)"

definition days_before_month :: "int \<Rightarrow> int \<Rightarrow> int" where
  "days_before_month y m = sum_list (map (days_in_month y) [1..m - 1])"

definition day_number :: "int \<Rightarrow> int \<Rightarrow> int \<Rightarrow> int" where
  "day_number y m d = days_before_year (nat y) + days_before_month y m + (d - 1)"

text \<open>The seconds since 1970; that day has number 719528.\<close>

definition posix_seconds :: "int \<Rightarrow> int \<Rightarrow> int \<Rightarrow> int \<Rightarrow> int \<Rightarrow> int \<Rightarrow> int" where
  "posix_seconds y m d hours minutes seconds =
     ((day_number y m d - day_number 1970 1 1) * 24 + hours) * 3600 + minutes * 60 + seconds"

end
