(* ===== verification/Calendar.thy ===== *)
theory Calendar
  imports PosixTime
begin

text \<open>
  The conversions of \<^verbatim>\<open>posix_time.c\<close> are the Gregorian calendar, in both directions and for every second of the
  years 0 to 9999. From a date to seconds the closed formula of the code is compared with the sum over
  years and months. From seconds to a date the code guesses the year of an era of 400 years by a
  division: the guess is monotonic and right on the first and the last day of each of the 400 years.
\<close>

section \<open>Years\<close>

lemma div_pred: "0 < b \<Longrightarrow> n div b = (n - 1) div b + of_bool (b dvd n)" for n b :: int
proof -
  assume b: "0 < b"
  show ?thesis
  proof (cases "b dvd n")
    case True
    then obtain q where n: "n = b * q" ..
    have "(n - 1) div b = q - 1"
      using b by (intro int_div_pos_eq [of _ _ _ "b - 1"]) (simp_all add: n algebra_simps)
    then show ?thesis
      using b n by simp
  next
    case False
    then have "1 \<le> n mod b" "n mod b < b"
      using b pos_mod_sign [of b n] by (auto simp: dvd_eq_mod_eq_0 le_less)
    then have "(n - 1) div b = n div b"
      by (intro int_div_pos_eq [of _ _ _ "n mod b - 1"]) (simp_all add: algebra_simps)
    then show ?thesis
      using False by simp
  qed
qed

lemma days_before_year_eq:
  "days_before_year n = 365 * int n + (int n + 3) div 4 - (int n + 99) div 100 + (int n + 399) div 400"
proof (induction n)
  case (Suc n)
  have step: "(int n + 4) div 4 = (int n + 3) div 4 + of_bool (4 dvd int n)"
    "(int n + 100) div 100 = (int n + 99) div 100 + of_bool (100 dvd int n)"
    "(int n + 400) div 400 = (int n + 399) div 400 + of_bool (400 dvd int n)"
    by (subst div_pred; simp add: algebra_simps del: div_add_self2)+
  have "100 dvd int n \<Longrightarrow> 4 dvd int n" "400 dvd int n \<Longrightarrow> 100 dvd int n"
    by presburger+
  then have "(if leap_year (int n) then 366 else 365 :: int) = 365 + of_bool (4 dvd int n) - of_bool (100 dvd int n) + of_bool (400 dvd int n)"
    by (auto simp: leap_year_def)
  moreover have "int (Suc n) + 3 = int n + 4" "int (Suc n) + 99 = int n + 100" "int (Suc n) + 399 = int n + 400"
    by simp_all
  ultimately show ?case
    unfolding days_before_year.simps Suc.IH step [symmetric] by (simp only: step) simp
qed simp

lemma month_cases:
  assumes "1 \<le> m" "m \<le> (12 :: int)"
  shows "m = 1 \<or> m = 2 \<or> m = 3 \<or> m = 4 \<or> m = 5 \<or> m = 6 \<or> m = 7 \<or> m = 8 \<or> m = 9 \<or> m = 10 \<or> m = 11 \<or> m = 12"
  using assms by presburger

lemma smod_pos [simp]: "0 \<le> a \<Longrightarrow> 0 < b \<Longrightarrow> a smod b = a mod b" for a b :: int
  by (cases "a = 0") (auto simp: signed_modulo_int_def)

lemma sdiv_pos [simp]: "0 \<le> a \<Longrightarrow> 0 < b \<Longrightarrow> a sdiv b = a div b" for a b :: int
  by (cases "a = 0") (auto simp: signed_divide_int_def)

lemma is_valid_date_eq:
  "is_valid_date y m d \<longleftrightarrow> 0 \<le> y \<and> y \<le> 9999 \<and> 1 \<le> m \<and> m \<le> 12 \<and> 1 \<le> d \<and> d \<le> days_in_month y m"
proof -
  have "m \<in> {1, 3, 5, 7, 8, 10, 12} \<or> m \<in> {4, 6, 9, 11} \<or> m = 2" if "1 \<le> m" "m \<le> 12"
    using month_cases [OF that] by auto
  then show ?thesis
    by (auto simp: is_valid_date_def days_in_month_def leap_year_def dvd_eq_mod_eq_0 split: if_splits)
qed

lemma days_before_month_eq:
  "1 \<le> m \<Longrightarrow> m \<le> 12 \<Longrightarrow> days_before_month y m =
     (if m \<le> 2 then 31 * (m - 1) else (153 * (m - 3) + 2) div 5 + (if leap_year y then 60 else 59))"
proof -
  assume "1 \<le> m" "m \<le> 12"
  then show ?thesis
    by (elim month_cases [elim_format] disjE) (simp_all add: days_before_month_def days_in_month_def upto.simps)
qed

section \<open>From dates to seconds\<close>

lemma floor_era: "(if 0 \<le> y then y else y - 399) sdiv 400 = y div 400" if "-1 \<le> y" for y :: int
  using that by (cases "0 \<le> y") (auto simp: order_antisym_conv)

lemma floor_400:
  "(y - y div 400 * 400) div 4 = y div 4 - y div 400 * 100" "(y - y div 400 * 400) div 100 = y div 100 - y div 400 * 4"
  "0 \<le> y - y div 400 * 400" for y :: int
proof -
  have "y - y div 400 * 400 = y + 4 * (- (y div 400) * 100)" "y - y div 400 * 400 = y + 100 * (- (y div 400) * 4)"
    by simp_all
  then show "(y - y div 400 * 400) div 4 = y div 4 - y div 400 * 100" "(y - y div 400 * 400) div 100 = y div 100 - y div 400 * 4"
    by (simp_all only: div_mult_self2)
  show "0 \<le> y - y div 400 * 400"
    by (simp add: minus_div_mult_eq_mod)
qed

lemma days_before_year_floor:
  assumes "0 \<le> y"
  shows "days_before_year (nat y) = 365 * y + (y - 1) div 4 - (y - 1) div 100 + (y - 1) div 400 + 1"
proof -
  have "(y + 3) div 4 = (y - 1) div 4 + 1" "(y + 99) div 100 = (y - 1) div 100 + 1" "(y + 399) div 400 = (y - 1) div 400 + 1"
    using div_add_self2 [of 4 "y - 1"] div_add_self2 [of 100 "y - 1"] div_add_self2 [of 400 "y - 1"] by (simp_all add: algebra_simps)
  then show ?thesis
    using assms by (simp add: days_before_year_eq)
qed

text \<open>The closed formula of the code, for a year that starts in March.\<close>

lemma march_year:
  assumes "0 \<le> y" and "1 \<le> m" "m \<le> 12"
  defines "y' \<equiv> if m \<le> 2 then y - 1 else y"
  shows "day_number y m d = 365 * y' + y' div 4 - y' div 100 + y' div 400 +
    (153 * (if m > 2 then m - 3 else m + 9) + 2) div 5 + d - 1 + 60"
proof (cases "m \<le> 2")
  case True
  then have "m = 1 \<or> m = 2"
    using assms by auto
  then show ?thesis
    using assms(1) by (auto simp: day_number_def days_before_year_floor days_before_month_eq y'_def)
next
  case False
  have "100 dvd y \<Longrightarrow> 4 dvd y" "400 dvd y \<Longrightarrow> 100 dvd y"
    by presburger+
  then have "(if leap_year y then 60 else 59 :: int) = 59 + of_bool (4 dvd y) - of_bool (100 dvd y) + of_bool (400 dvd y)"
    by (auto simp: leap_year_def)
  then show ?thesis
    using False assms div_pred [of 4 y] div_pred [of 100 y] div_pred [of 400 y]
    by (simp add: day_number_def days_before_year_floor days_before_month_eq)
qed

lemma epoch: "day_number 1970 1 1 = 719528"
  by (simp add: march_year)

lemma posix_time_from_utc_eq:
  "posix_time_from_utc y m d hours minutes seconds =
     (if is_valid_date y m d \<and> is_valid_time hours minutes seconds then Some (posix_seconds y m d hours minutes seconds) else None)"
proof (cases "is_valid_date y m d \<and> is_valid_time hours minutes seconds")
  case True
  let ?y = "if m \<le> 2 then y - 1 else y" and ?m = "if m > 2 then m - 3 else m + 9"
  have m: "0 \<le> y" "1 \<le> m" "m \<le> 12" and y: "- 1 \<le> ?y" "0 \<le> ?m"
    using True by (auto simp: is_valid_date_eq)
  have "(if 0 \<le> ?y then ?y else ?y - 399) sdiv 400 = ?y div 400" "(153 * ?m + 2) sdiv 5 = (153 * ?m + 2) div 5"
    using y by (intro floor_era sdiv_pos; simp)+
  then have "posix_time_from_utc y m d hours minutes seconds =
      Some ((?y div 400 * 146097 + ((?y - ?y div 400 * 400) * 365 + (?y - ?y div 400 * 400) div 4 - (?y - ?y div 400 * 400) div 100 +
        ((153 * ?m + 2) div 5 + d - 1)) - 719468) * SECS_PER_DAY + hours * SECS_PER_HOUR + minutes * 60 + seconds)"
    using True floor_400(3) [of ?y] by (simp add: posix_time_from_utc_def Let_def del: if_split)
  also have "\<dots> = Some (posix_seconds y m d hours minutes seconds)"
    unfolding floor_400 posix_seconds_def epoch march_year [OF m] SECS_PER_DAY_def SECS_PER_HOUR_def
    by (simp add: algebra_simps del: if_split)
  finally show ?thesis
    using True by simp
qed (auto simp: posix_time_from_utc_def)

section \<open>From seconds to dates\<close>

text \<open>
  Within an era of 400 years that start in March: the first day of a year, the year of a day as the code
  computes it, and the month and day of a day of the year. The tables have 400 and 366 entries and are
  checked by evaluation; between two entries the code's function of the day is monotonic.
\<close>

definition year_start :: "int \<Rightarrow> int" where
  "year_start k = (if k = 400 then 146097 else 365 * k + k div 4 - k div 100)"

definition year_of_day :: "int \<Rightarrow> int" where
  "year_of_day doe = (doe - doe div 1460 + doe div 36524 - doe div 146096) div 365"

lemma list_all_upto: "list_all P [a..b] \<Longrightarrow> a \<le> k \<Longrightarrow> k \<le> b \<Longrightarrow> P k" for k :: int
  by (simp add: list_all_iff)

lemma year_table:
  assumes "0 \<le> k" "k < 400"
  shows "year_of_day (year_start k) = k" "year_of_day (year_start (k + 1) - 1) = k"
    "year_start (k + 1) = year_start k + (if leap_year (k + 1) then 366 else 365)"
proof -
  have "list_all (\<lambda>k. year_of_day (year_start k) = k \<and> year_of_day (year_start (k + 1) - 1) = k \<and>
      year_start (k + 1) = year_start k + (if leap_year (k + 1) then 366 else 365)) [0..399]"
    by code_simp
  from list_all_upto [OF this, of k] assms have "0 \<le> k \<longrightarrow> k \<le> 399 \<longrightarrow> year_of_day (year_start k) = k \<and>
      year_of_day (year_start (k + 1) - 1) = k \<and> year_start (k + 1) = year_start k + (if leap_year (k + 1) then 366 else 365)"
    by blast
  moreover have "k \<le> 399"
    using assms(2) by simp
  ultimately show "year_of_day (year_start k) = k" "year_of_day (year_start (k + 1) - 1) = k"
      "year_start (k + 1) = year_start k + (if leap_year (k + 1) then 366 else 365)"
    using assms(1) by blast+
qed

lemma year_of_day_mono:
  assumes "0 \<le> a" "a \<le> b" "b < 146097"
  shows "year_of_day a \<le> year_of_day b"
proof -
  let ?g = "\<lambda>d :: int. d - d div 1460 + d div 36524 - d div 146096"
  have step: "?g d \<le> ?g (d + 1)" if "0 \<le> d" "d < 146096" for d
  proof -
    have "(d + 1) div 1460 = d div 1460 + of_bool (1460 dvd d + 1)" "(d + 1) div 146096 = d div 146096 + of_bool (146096 dvd d + 1)"
      using div_pred [of 1460 "d + 1"] div_pred [of 146096 "d + 1"] by simp_all
    moreover have "d + 1 = 146096" if "146096 dvd d + 1"
      using that zdvd_imp_le [OF that] \<open>0 \<le> d\<close> \<open>d < 146096\<close> by simp
    moreover have "d div 36524 \<le> (d + 1) div 36524"
      by (rule zdiv_mono1) simp_all
    ultimately show ?thesis
      by (auto simp: of_bool_def split: if_splits)
  qed
  have "a \<le> b \<longrightarrow> b < 146097 \<longrightarrow> ?g a \<le> ?g b"
  using assms(2)
  proof (induction b rule: int_ge_induct)
    case (step b)
    then show ?case
      using \<open>\<And>d. 0 \<le> d \<Longrightarrow> d < 146096 \<Longrightarrow> ?g d \<le> ?g (d + 1)\<close> [of b] assms(1) by (auto intro: order_trans)
  qed simp
  then show ?thesis
    using assms unfolding year_of_day_def by (intro zdiv_mono1) auto
qed

lemma year_start_bounds:
  assumes "0 \<le> k" "k < 400"
  shows "0 \<le> year_start k" "year_start (k + 1) \<le> 146097"
proof -
  have "k div 100 \<le> k" "0 \<le> k div 4"
    using assms(1) div_le_dividend [of "nat k" 100] by (simp_all add: zdiv_int)
  then show "0 \<le> year_start k"
    using assms by (simp add: year_start_def)
  have "(k + 1) div 4 \<le> 100" "0 \<le> (k + 1) div 100"
    using assms zdiv_mono1 [of "k + 1" 400 4] by simp_all
  then show "year_start (k + 1) \<le> 146097"
    using assms by (auto simp: year_start_def)
qed

lemma year_of_day_eq:
  assumes k: "0 \<le> k" "k < 400" and doe: "year_start k \<le> doe" "doe < year_start (k + 1)"
  shows "year_of_day doe = k"
  using year_of_day_mono [OF year_start_bounds(1) [OF k] doe(1)] year_of_day_mono [of doe "year_start (k + 1) - 1"]
    year_table(1,2) [OF k] doe year_start_bounds [OF k]
  by fastforce

lemma year_exists:
  assumes "0 \<le> doe" "doe < 146097"
  obtains k where "0 \<le> k" "k < 400" "year_start k \<le> doe" "doe < year_start (k + 1)"
proof -
  have "doe < year_start (int n) \<Longrightarrow> \<exists>k < n. year_start (int k) \<le> doe \<and> doe < year_start (int k + 1)" for n
  proof (induction n)
    case (Suc n)
    then show ?case
      by (cases "doe < year_start (int n)") (auto simp: add.commute intro: less_SucI)
  qed (use assms(1) in \<open>simp add: year_start_def\<close>)
  from this [of 400] obtain k where "k < 400" "year_start (int k) \<le> doe" "doe < year_start (int k + 1)"
    using assms(2) by (auto simp: year_start_def)
  then show thesis
    by (intro that [of "int k"]) simp_all
qed

definition month_of_day :: "int \<Rightarrow> int" where
  "month_of_day doy = (let mp = (5 * doy + 2) div 153 in if mp < 10 then mp + 3 else mp - 9)"

definition day_of_day :: "int \<Rightarrow> int" where
  "day_of_day doy = doy - (153 * ((5 * doy + 2) div 153) + 2) div 5 + 1"

definition march_day :: "int \<Rightarrow> int \<Rightarrow> int" where
  "march_day m d = (153 * (if m > 2 then m - 3 else m + 9) + 2) div 5 + d - 1"

definition longest_month :: "int \<Rightarrow> int" where
  "longest_month m = (if m = 2 then 29 else if m \<in> {4, 6, 9, 11} then 30 else 31)"

lemma day_table:
  assumes "0 \<le> doy" "doy < 366"
  shows "1 \<le> month_of_day doy" "month_of_day doy \<le> 12" "1 \<le> day_of_day doy" "day_of_day doy \<le> longest_month (month_of_day doy)"
    "march_day (month_of_day doy) (day_of_day doy) = doy"
    "month_of_day doy = 2 \<and> day_of_day doy = 29 \<longleftrightarrow> doy = 365"
    "month_of_day doy \<le> 2 \<longleftrightarrow> 306 \<le> doy"
proof -
  have "list_all (\<lambda>doy. 1 \<le> month_of_day doy \<and> month_of_day doy \<le> 12 \<and> 1 \<le> day_of_day doy \<and>
      day_of_day doy \<le> longest_month (month_of_day doy) \<and> march_day (month_of_day doy) (day_of_day doy) = doy \<and>
      (month_of_day doy = 2 \<and> day_of_day doy = 29 \<longleftrightarrow> doy = 365) \<and> (month_of_day doy \<le> 2 \<longleftrightarrow> 306 \<le> doy)) [0..365]"
    by code_simp
  from list_all_upto [OF this, of doy] assms show "1 \<le> month_of_day doy" "month_of_day doy \<le> 12" "1 \<le> day_of_day doy" "day_of_day doy \<le> longest_month (month_of_day doy)"
    "march_day (month_of_day doy) (day_of_day doy) = doy"
    "month_of_day doy = 2 \<and> day_of_day doy = 29 \<longleftrightarrow> doy = 365"
    "month_of_day doy \<le> 2 \<longleftrightarrow> 306 \<le> doy"
    by simp_all
qed

lemma march_day_table:
  assumes "1 \<le> m" "m \<le> 12" "1 \<le> d" "d \<le> longest_month m"
  shows "month_of_day (march_day m d) = m" "day_of_day (march_day m d) = d" "0 \<le> march_day m d" "march_day m d \<le> 365"
    "march_day m d = 365 \<longrightarrow> m = 2 \<and> d = 29"
proof -
  have "list_all (\<lambda>m. list_all (\<lambda>d. month_of_day (march_day m d) = m \<and> day_of_day (march_day m d) = d \<and>
      0 \<le> march_day m d \<and> march_day m d \<le> 365 \<and> (march_day m d = 365 \<longrightarrow> m = 2 \<and> d = 29)) [1..longest_month m]) [1..12]"
    by code_simp
  from list_all_upto [OF list_all_upto [OF this, of m], of d] assms
  show "month_of_day (march_day m d) = m" "day_of_day (march_day m d) = d" "0 \<le> march_day m d" "march_day m d \<le> 365"
      "march_day m d = 365 \<longrightarrow> m = 2 \<and> d = 29"
    by simp_all
qed

text \<open>The date of a day counted from March 1 of the year 0.\<close>

definition civil :: "int \<Rightarrow> int \<times> int \<times> int" where
  "civil days =
     (let era = days div 146097; doe = days mod 146097; yoe = year_of_day doe; doy = doe - year_start yoe; m = month_of_day doy
      in (yoe + era * 400 + (if m \<le> 2 then 1 else 0), m, day_of_day doy))"

definition march_days :: "int \<Rightarrow> int" where
  "march_days y = 365 * y + y div 4 - y div 100 + y div 400"

lemma march_days_era: "0 \<le> k \<Longrightarrow> k < 400 \<Longrightarrow> march_days (k + e * 400) = e * 146097 + year_start k"
proof -
  assume k: "0 \<le> k" "k < 400"
  have "(k + e * 400) div 4 = k div 4 + e * 100" "(k + e * 400) div 100 = k div 100 + e * 4" "(k + e * 400) div 400 = e"
    using div_mult_self2 [of 4 k "e * 100"] div_mult_self2 [of 100 k "e * 4"] k by (simp_all add: algebra_simps)
  then show ?thesis
    using k by (simp add: march_days_def year_start_def)
qed

lemma leap_era: "leap_year (y + e * 400) = leap_year y"
proof -
  have "e * 400 = 4 * (e * 100)" "e * 400 = 100 * (e * 4)"
    by simp_all
  then show ?thesis
    unfolding leap_year_def by (metis dvd_add_left_iff dvd_triv_left dvd_triv_right)
qed

lemma civil_days:
  assumes "civil days = (y, m, d)"
  shows "1 \<le> m" "m \<le> 12" "1 \<le> d" "d \<le> days_in_month y m"
    "march_days (if m \<le> 2 then y - 1 else y) + march_day m d = days"
    "- 60 \<le> days \<Longrightarrow> 0 \<le> y" "days \<le> 3652364 \<Longrightarrow> y \<le> 9999"
proof -
  let ?e = "days div 146097" and ?doe = "days mod 146097"
  have doe: "0 \<le> ?doe" "?doe < 146097"
    by simp_all
  then obtain k where k: "0 \<le> k" "k < 400" "year_start k \<le> ?doe" "?doe < year_start (k + 1)"
    by (rule year_exists)
  define doy where "doy = ?doe - year_start k"
  have y: "y = k + ?e * 400 + (if m \<le> 2 then 1 else 0)" and m: "m = month_of_day doy" and d: "d = day_of_day doy"
    using assms year_of_day_eq [OF k] by (auto simp: civil_def Let_def doy_def)
  have doy: "0 \<le> doy" "doy < 366" "doy = 365 \<Longrightarrow> leap_year (k + 1)"
    using k year_table(3) [OF k(1,2)] by (auto simp: doy_def split: if_splits)
  note t = day_table [OF doy(1,2), folded m d]
  show "1 \<le> m" "m \<le> 12" "1 \<le> d"
    using t by simp_all
  have "leap_year y" if "m = 2" "d = 29"
    using t(6) that doy(3) leap_era [of "k + 1" ?e] y by (simp add: ac_simps)
  then show "d \<le> days_in_month y m"
    using t(4) by (cases "d = 29") (auto simp: days_in_month_def longest_month_def split: if_splits)
  have "(if m \<le> 2 then y - 1 else y) = k + ?e * 400"
    using y by simp
  then show "march_days (if m \<le> 2 then y - 1 else y) + march_day m d = days"
    using t(5) march_days_era [OF k(1,2), of ?e] by (simp add: doy_def)
  have split: "days = ?e * 146097 + ?doe"
    by simp
  have last_year: "year_of_day 145731 = 399"
    by (simp add: year_of_day_def)
  have late: "k = 399 \<longleftrightarrow> 145731 \<le> ?doe"
  proof
    assume "145731 \<le> ?doe"
    then show "k = 399"
      using year_of_day_mono [OF _ \<open>145731 \<le> ?doe\<close> doe(2)] year_of_day_eq [OF k] k(2) last_year by simp
  qed (use k(3) in \<open>simp add: year_start_def\<close>)
  have jan: "k = 399 \<Longrightarrow> m \<le> 2 \<longleftrightarrow> 146037 \<le> ?doe"
    using t(7) by (simp add: doy_def year_start_def)
  show "0 \<le> y" if "- 60 \<le> days"
  proof -
    have "- 1 \<le> ?e" "?e = - 1 \<Longrightarrow> 146037 \<le> ?doe"
      using that split doe by linarith+
    then show ?thesis
      using y k late jan by (cases "?e = - 1") auto
  qed
  show "y \<le> 9999" if "days \<le> 3652364"
  proof -
    have "?e \<le> 24" "?e = 24 \<Longrightarrow> ?doe \<le> 146036"
      using that split doe by linarith+
    then show ?thesis
      using y k late jan by (cases "?e = 24"; cases "k = 399") auto
  qed
qed

lemma days_civil:
  assumes "1 \<le> m" "m \<le> 12" "1 \<le> d" "d \<le> days_in_month y m"
  shows "civil (march_days (if m \<le> 2 then y - 1 else y) + march_day m d) = (y, m, d)"
proof -
  let ?y = "if m \<le> 2 then y - 1 else y" and ?doy = "march_day m d"
  let ?e = "?y div 400" and ?k = "?y mod 400"
  have k: "0 \<le> ?k" "?k < 400" "?y = ?k + ?e * 400"
    by simp_all
  have "d \<le> longest_month m"
    using assms(4) by (auto simp: days_in_month_def longest_month_def split: if_splits)
  note t = march_day_table [OF assms(1-3) this]
  have "leap_year (?k + 1)" if "?doy = 365"
  proof -
    have "m = 2" "d = 29"
      using t(5) that by simp_all
    then show ?thesis
      using assms(4) leap_era [of "?k + 1" ?e] by (simp add: days_in_month_def split: if_splits)
  qed
  then have "?doy < (if leap_year (?k + 1) then 366 else 365)"
    using t(4) by (cases "?doy = 365") auto
  then have doe: "year_start ?k \<le> year_start ?k + ?doy" "year_start ?k + ?doy < year_start (?k + 1)"
    using t(3) year_table(3) [OF k(1,2)] by simp_all
  define doe where "doe = year_start ?k + ?doy"
  have "0 \<le> doe" "doe < 146097"
    using year_start_bounds [OF k(1,2)] doe t(3) by (simp_all add: doe_def)
  moreover have "march_days ?y + ?doy = 146097 * ?e + doe"
    using march_days_era [OF k(1,2), of ?e] unfolding k(3) [symmetric] by (simp add: doe_def)
  ultimately have D: "(march_days ?y + ?doy) div 146097 = ?e" "(march_days ?y + ?doy) mod 146097 = doe"
    by (auto intro: int_div_pos_eq int_mod_pos_eq)
  have "year_of_day doe = ?k"
    using year_of_day_eq [OF k(1,2) doe] by (simp add: doe_def)
  moreover have "?k + ?e * 400 + (if m \<le> 2 then 1 else 0) = y"
    unfolding k(3) [symmetric] by simp
  ultimately show ?thesis
    unfolding civil_def D Let_def by (simp add: doe_def t(1,2) del: if_split)
qed

section \<open>The round trip\<close>

lemma day_number_march:
  "0 \<le> y \<Longrightarrow> 1 \<le> m \<Longrightarrow> m \<le> 12 \<Longrightarrow>
   day_number y m d = march_days (if m \<le> 2 then y - 1 else y) + march_day m d + 60"
  by (simp add: march_year march_days_def march_day_def)

lemma truncated_day:
  "(if t smod SECS_PER_DAY < 0 then (t sdiv SECS_PER_DAY - 1, t smod SECS_PER_DAY + SECS_PER_DAY)
    else (t sdiv SECS_PER_DAY, t smod SECS_PER_DAY)) = (t div 86400, t mod 86400)"
proof (cases "0 \<le> t \<or> 86400 dvd t")
  case True
  then show ?thesis
    by (auto simp: SECS_PER_DAY_def SECS_PER_HOUR_def signed_divide_int_eq_divide_int signed_modulo_int_eq_modulo_int sgn_if)
next
  case False
  then have "0 < t mod 86400" "t mod 86400 < 86400"
    using pos_mod_sign [of 86400 t] by (auto simp: dvd_eq_mod_eq_0 le_less)
  with False show ?thesis
    by (auto simp: SECS_PER_DAY_def SECS_PER_HOUR_def signed_divide_int_eq_divide_int signed_modulo_int_eq_modulo_int sgn_if)
qed

lemma floor_era_days: "(if 0 < n then n else n - 146096) sdiv 146097 = n div 146097" if "- 146096 \<le> n" for n :: int
proof (cases "0 < n")
  case False
  then have "n div 146097 = (if n = 0 then 0 else - 1)"
    using that by (auto intro: int_div_pos_eq [of _ _ _ "n + 146097"])
  then show ?thesis
    using False that by (auto simp: signed_divide_int_def div_eq_0_iff)
qed simp

lemma utc_from_posix_time_eq:
  assumes "is_valid_posix_time t"
  shows "utc_from_posix_time t =
    (case civil (t div 86400 + 719468) of (y, m, d) \<Rightarrow>
      Some (y, m, d, t mod 86400 div 3600, t mod 3600 div 60, t mod 60))"
proof -
  let ?days = "t div 86400 + 719468"
  let ?doe = "?days mod 146097"
  have range: "- 60 \<le> ?days"
    using assms zdiv_mono1 [of "- 62167219200" t 86400] by (simp add: is_valid_posix_time_def MIN_POSIX_TIME_def)
  then have era: "(if 0 < ?days then ?days else ?days - 146096) sdiv 146097 = ?days div 146097"
    by (intro floor_era_days) simp
  have doe: "?days - ?days div 146097 * 146097 = ?doe" "0 \<le> ?doe" "?doe < 146097"
    by (simp_all add: minus_div_mult_eq_mod)
  from doe(2,3) obtain k where k: "0 \<le> k" "k < 400" "year_start k \<le> ?doe" "?doe < year_start (k + 1)"
    by (rule year_exists)
  have yoe: "year_of_day ?doe = k"
    by (rule year_of_day_eq [OF k])
  have "0 \<le> ?doe - ?doe div 1460 + ?doe div 36524 - ?doe div 146096"
  proof -
    have "?doe div 1460 * 1460 \<le> ?doe" "?doe div 146096 * 146096 \<le> ?doe" "0 \<le> ?doe div 36524" "0 \<le> ?doe div 146096" "0 \<le> ?doe div 1460"
      using doe(2) by (simp_all add: div_mult_mod_eq flip: minus_mod_eq_div_mult)
    then show ?thesis
      by linarith
  qed
  then have code_yoe: "(?doe - ?doe sdiv 1460 + ?doe sdiv 36524 - ?doe sdiv 146096) sdiv 365 = k"
    using sdiv_pos [of _ 365] yoe unfolding year_of_day_def by (simp only: sdiv_pos doe(2) zero_less_numeral)
  define doy where "doy = ?doe - year_start k"
  have doy: "0 \<le> doy"
    using k by (simp add: doy_def)
  have code_doy: "?doe - (365 * k + k sdiv 4 - k sdiv 100) = doy"
    using k by (simp add: doy_def year_start_def)
  have mp: "(5 * doy + 2) sdiv 153 = (5 * doy + 2) div 153" "0 \<le> (5 * doy + 2) div 153"
      "(153 * ((5 * doy + 2) div 153) + 2) sdiv 5 = (153 * ((5 * doy + 2) div 153) + 2) div 5"
    using doy by simp_all
  have sec: "t mod 86400 sdiv 3600 = t mod 86400 div 3600" "t mod 86400 smod 3600 = t mod 3600"
      "t mod 3600 sdiv 60 = t mod 3600 div 60" "t mod 3600 smod 60 = t mod 60"
    using mod_mod_cancel [of 3600 86400 t] mod_mod_cancel [of 60 3600 t] by simp_all
  have "civil ?days = (k + ?days div 146097 * 400 + (if month_of_day doy \<le> 2 then 1 else 0), month_of_day doy, day_of_day doy)"
    by (simp add: civil_def yoe Let_def doy_def)
  moreover have "(if (5 * doy + 2) div 153 < 10 then (5 * doy + 2) div 153 + 3 else (5 * doy + 2) div 153 - 9) = month_of_day doy"
    by (simp add: month_of_day_def Let_def)
  ultimately show ?thesis
    using assms unfolding utc_from_posix_time_def truncated_day prod.case Let_def era doe(1) code_yoe code_doy mp
    by (simp add: SECS_PER_HOUR_def sec day_of_day_def)
qed

lemma seconds_split: "t = ((t div 86400 * 24 + t mod 86400 div 3600) * 3600 + t mod 3600 div 60 * 60 + t mod 60)" for t :: int
proof -
  have "t mod 86400 mod 3600 = t mod 3600" "t mod 3600 mod 60 = t mod 60"
    by (simp_all add: mod_mod_cancel)
  then show ?thesis
    using div_mult_mod_eq [of t 86400] div_mult_mod_eq [of "t mod 86400" 3600] div_mult_mod_eq [of "t mod 3600" 60]
    by (simp only: distrib_right mult.assoc)
qed

lemma utc_posix:
  assumes "utc_from_posix_time t = Some (y, m, d, hours, minutes, seconds)"
  shows "is_valid_date y m d" "is_valid_time hours minutes seconds" "posix_seconds y m d hours minutes seconds = t"
proof -
  have t: "is_valid_posix_time t"
  proof (rule ccontr)
    assume "\<not> is_valid_posix_time t"
    then show False
      using assms by (simp only: utc_from_posix_time_def if_True not_False_eq_True) simp
  qed
  let ?days = "t div 86400 + 719468"
  have range: "- 60 \<le> ?days" "?days \<le> 3652364"
    using t zdiv_mono1 [of "- 62167219200" t 86400] zdiv_mono1 [of t 253402300799 86400]
    by (simp_all add: is_valid_posix_time_def MIN_POSIX_TIME_def MAX_POSIX_TIME_def)
  have c: "civil ?days = (y, m, d)" and s: "hours = t mod 86400 div 3600" "minutes = t mod 3600 div 60" "seconds = t mod 60"
    using assms unfolding utc_from_posix_time_eq [OF t] by (auto split: prod.splits)
  note cd = civil_days [OF c]
  show "is_valid_date y m d"
    using cd range by (simp add: is_valid_date_eq)
  have "t mod 86400 div 3600 \<le> 86399 div 3600" "t mod 3600 div 60 \<le> 3599 div 60"
    by (intro zdiv_mono1; simp)+
  moreover have "0 \<le> t mod 86400 div 3600" "0 \<le> t mod 3600 div 60" "0 \<le> t mod 60" "t mod 60 \<le> 59"
    using pos_mod_bound [of 60 t] by (simp_all add: pos_imp_zdiv_nonneg_iff)
  ultimately show "is_valid_time hours minutes seconds"
    by (simp add: is_valid_time_def s not_less)
  have "day_number y m d = ?days + 60"
    using cd(5) day_number_march [OF cd(6) [OF range(1)] cd(1,2)] by simp
  then show "posix_seconds y m d hours minutes seconds = t"
    unfolding posix_seconds_def epoch s using seconds_split [of t] by simp
qed

lemma march_days_range:
  assumes "0 \<le> y" "y \<le> 9998"
  shows "0 \<le> march_days y \<and> march_days y \<le> 3651999"
proof -
  have arith: "0 \<le> 365 * y + b - a + c \<and> 365 * y + b - a + c \<le> 3651999"
    if "100 * a + r = y" "4 * b + s = y" "400 * c + u = y" "0 \<le> r" "r < 100" "0 \<le> s" "s < 4" "0 \<le> u" "u < 400"
    for a b c r s u :: int
  proof -
    have "0 \<le> b" "0 \<le> c"
      using that assms(1) by linarith+
    then show ?thesis
      using that assms by (intro conjI; linarith)
  qed
  show ?thesis
    unfolding march_days_def
    by (rule arith [of _ "y mod 100" _ "y mod 4" _ "y mod 400"]) (simp_all add: mult_div_mod_eq)
qed

lemma day_range:
  assumes "is_valid_date y m d"
  shows "- 60 \<le> day_number y m d - 60" "day_number y m d - 60 \<le> 3652364"
proof -
  have d: "0 \<le> y" "y \<le> 9999" "1 \<le> m" "m \<le> 12" "1 \<le> d" "d \<le> longest_month m"
    using assms by (auto simp: is_valid_date_eq days_in_month_def longest_month_def split: if_splits)
  note t = march_day_table [OF d(3-6)]
  have jan: "m \<le> 2 \<longleftrightarrow> 306 \<le> march_day m d"
    using day_table(7) [of "march_day m d"] t(1,3,4) by simp
  define y' where "y' = (if m \<le> 2 then y - 1 else y)"
  have "- 60 \<le> march_days y' + march_day m d \<and> march_days y' + march_day m d \<le> 3652364"
  proof -
    consider "y' = - 1" "m \<le> 2" | "0 \<le> y'" "y' \<le> 9998" | "y' = 9999" "\<not> m \<le> 2"
      using d(1,2) by (fastforce simp: y'_def split: if_splits)
    then show ?thesis
    proof cases
      case 1
      then show ?thesis
        using jan t(4) by (simp add: march_days_def)
    next
      case 2
      then show ?thesis
        using march_days_range [OF 2] t(3,4) by auto
    next
      case 3
      then show ?thesis
        using jan t(3) by (simp add: march_days_def)
    qed
  qed
  then show "- 60 \<le> day_number y m d - 60" "day_number y m d - 60 \<le> 3652364"
    using day_number_march [OF d(1,3,4), of d] by (simp_all add: y'_def)
qed

lemma posix_utc:
  assumes date: "is_valid_date y m d" and time: "is_valid_time hours minutes seconds"
  shows "is_valid_posix_time (posix_seconds y m d hours minutes seconds)"
    and "utc_from_posix_time (posix_seconds y m d hours minutes seconds) = Some (y, m, d, hours, minutes, seconds)"
proof -
  let ?t = "posix_seconds y m d hours minutes seconds" and ?D = "day_number y m d - 60"
  have s: "0 \<le> seconds" "seconds < 60" "0 \<le> minutes" "minutes < 60" "0 \<le> hours" "hours < 24"
    using time by (auto simp: is_valid_time_def)
  let ?r = "(hours * 60 + minutes) * 60 + seconds"
  have r: "0 \<le> ?r" "?r < 86400" and t: "?t = 86400 * (?D - 719468) + ?r"
    using s by (simp_all add: posix_seconds_def epoch algebra_simps)
  show valid: "is_valid_posix_time ?t"
    using day_range [OF date] r unfolding t by (simp add: is_valid_posix_time_def MIN_POSIX_TIME_def MAX_POSIX_TIME_def)
  have day: "?t div 86400 = ?D - 719468" and rest: "?t mod 86400 = ?r"
    by (rule int_div_pos_eq [OF t r], rule int_mod_pos_eq [OF t r])
  let ?ms = "minutes * 60 + seconds"
  have ms: "0 \<le> ?ms" "?ms < 3600" "?r = 3600 * hours + ?ms" "?ms = 60 * minutes + seconds"
    using s by simp_all
  have split: "?r div 3600 = hours" "?r mod 3600 = ?ms" "?ms div 60 = minutes" "?ms mod 60 = seconds"
    by (rule int_div_pos_eq [OF ms(3,1,2)], rule int_mod_pos_eq [OF ms(3,1,2)],
      rule int_div_pos_eq [OF ms(4) s(1,2)], rule int_mod_pos_eq [OF ms(4) s(1,2)])
  have t3600: "?t mod 3600 = ?ms"
    using mod_mod_cancel [of 3600 86400 ?t] split(2) unfolding rest by simp
  have t60: "?t mod 60 = seconds"
    using mod_mod_cancel [of 60 3600 ?t] split(4) unfolding t3600 by simp
  have "civil ?D = (y, m, d)"
    using date day_number_march [of y m d] days_civil [of m d y] by (simp add: is_valid_date_eq)
  then show "utc_from_posix_time ?t = Some (y, m, d, hours, minutes, seconds)"
    unfolding utc_from_posix_time_eq [OF valid] day rest t3600 t60 split by simp
qed

section \<open>Operations on calendar times\<close>

definition tm_valid :: "tm \<Rightarrow> bool" where
  "tm_valid t \<longleftrightarrow> is_valid_date (tm_year t + 1900) (tm_mon t + 1) (tm_mday t) \<and> is_valid_time (tm_hour t) (tm_min t) (tm_sec t)"

definition tm_seconds :: "tm \<Rightarrow> int" where
  "tm_seconds t = posix_seconds (tm_year t + 1900) (tm_mon t + 1) (tm_mday t) (tm_hour t) (tm_min t) (tm_sec t)"

text \<open>The fields that a calendar time in this range determines; the others are cleared.\<close>

definition tm_clean :: "tm \<Rightarrow> tm" where
  "tm_clean t = t\<lparr>tm_wday := 0, tm_yday := 0, tm_isdst := 0\<rparr>"

lemma tm_to_posix_eq: "OPENSSL_tm_to_posix t = (if tm_valid t then Some (tm_seconds t) else None)"
  by (simp add: OPENSSL_tm_to_posix_def posix_time_from_utc_eq tm_valid_def tm_seconds_def)

lemma tm_seconds_range: "tm_valid t \<Longrightarrow> is_valid_posix_time (tm_seconds t)"
  by (simp add: tm_valid_def tm_seconds_def posix_utc(1))

lemma posix_to_tm_seconds: "tm_valid t \<Longrightarrow> OPENSSL_posix_to_tm (tm_seconds t) = Some (tm_clean t)"
  by (simp add: OPENSSL_posix_to_tm_def tm_valid_def tm_seconds_def posix_utc(2) tm_clean_def)

lemma posix_to_tm_Some:
  assumes "OPENSSL_posix_to_tm s = Some t"
  shows "tm_valid t" "tm_seconds t = s" "tm_clean t = t"
proof -
  obtain y m d hours minutes seconds where u: "utc_from_posix_time s = Some (y, m, d, hours, minutes, seconds)"
    and t: "t = \<lparr>tm_sec = seconds, tm_min = minutes, tm_hour = hours, tm_mday = d, tm_mon = m - 1,
      tm_year = y - 1900, tm_wday = 0, tm_yday = 0, tm_isdst = 0\<rparr>"
    using assms by (auto simp: OPENSSL_posix_to_tm_def split: option.splits)
  show "tm_valid t" "tm_seconds t = s" "tm_clean t = t"
    using utc_posix [OF u] by (simp_all add: t tm_valid_def tm_seconds_def tm_clean_def)
qed

lemma posix_to_tm_None: "OPENSSL_posix_to_tm s = None \<longleftrightarrow> \<not> is_valid_posix_time s"
proof (cases "is_valid_posix_time s")
  case True
  then show ?thesis
    by (simp add: OPENSSL_posix_to_tm_def utc_from_posix_time_eq split: prod.split)
qed (simp add: OPENSSL_posix_to_tm_def utc_from_posix_time_def)

lemma gmtime_adj_eq:
  assumes "INT_MIN32 \<le> offset_day" "offset_day \<le> INT_MAX32" "INT64_MIN \<le> offset_sec" "offset_sec \<le> INT64_MAX"
  shows "OPENSSL_gmtime_adj t offset_day offset_sec =
    Some (if tm_valid t then OPENSSL_posix_to_tm (tm_seconds t + offset_day * 86400 + offset_sec) else None)"
proof (cases "tm_valid t")
  case True
  let ?p = "tm_seconds t + offset_day * 86400"
  have range: "- 62167219200 \<le> tm_seconds t" "tm_seconds t \<le> 253402300799"
    using tm_seconds_range [OF True] by (simp_all add: is_valid_posix_time_def MIN_POSIX_TIME_def MAX_POSIX_TIME_def)
  then have first: "add_int64 (tm_seconds t) (offset_day * SECS_PER_DAY) = Some ?p"
    using assms by (simp add: add_int64_def INT64_MIN_def INT64_MAX_def INT_MIN32_def INT_MAX32_def SECS_PER_DAY_def SECS_PER_HOUR_def)
  have big: "OPENSSL_posix_to_tm (?p + offset_sec) = None" if "?p + offset_sec > INT64_MAX \<or> ?p + offset_sec < INT64_MIN"
    using that by (auto simp: posix_to_tm_None is_valid_posix_time_def MIN_POSIX_TIME_def MAX_POSIX_TIME_def INT64_MIN_def INT64_MAX_def)
  show ?thesis
    using True first big assms(3,4)
    by (auto simp: OPENSSL_gmtime_adj_def tm_to_posix_eq add_int64_def)
qed (simp add: OPENSSL_gmtime_adj_def tm_to_posix_eq)

lemma gmtime_diff_eq:
  "OPENSSL_gmtime_diff t u = (if tm_valid t \<and> tm_valid u then
     Some ((tm_seconds u - tm_seconds t) sdiv 86400, (tm_seconds u - tm_seconds t) smod 86400) else None)"
  by (auto simp: OPENSSL_gmtime_diff_def tm_to_posix_eq Let_def SECS_PER_DAY_def SECS_PER_HOUR_def)

lemma div_mod_iff: "0 < b \<Longrightarrow> a div b = d \<and> a mod b = s \<longleftrightarrow> a = d * b + s \<and> 0 \<le> s \<and> s < b" for a b :: int
  using div_mult_mod_eq [of a b] by (auto intro: int_div_pos_eq [of _ _ _ s] int_mod_pos_eq [of _ _ d] simp: mult.commute)

lemma mult_signs: "0 < b \<Longrightarrow> d < 0 \<Longrightarrow> d * b \<le> - b" "0 < b \<Longrightarrow> 0 < d \<Longrightarrow> b \<le> d * b" for b d :: int
  using mult_right_mono [of d "- 1" b] mult_right_mono [of 1 d b] by simp_all

text \<open>Division that rounds towards zero: the quotient and the rest have the same sign.\<close>

lemma sdiv_smod_iff:
  fixes a b :: int
  assumes b: "0 < b"
  shows "a sdiv b = d \<and> a smod b = s \<longleftrightarrow> a = d * b + s \<and> \<bar>s\<bar> < b \<and> (0 \<le> d \<and> 0 \<le> s \<or> d \<le> 0 \<and> s \<le> 0)"
proof (cases "0 \<le> a")
  case True
  have "a = d * b + s \<and> 0 \<le> s \<and> s < b \<longleftrightarrow> a = d * b + s \<and> \<bar>s\<bar> < b \<and> (0 \<le> d \<and> 0 \<le> s \<or> d \<le> 0 \<and> s \<le> 0)"
    using True b mult_signs [OF b, of d] by (cases d "0 :: int" rule: linorder_cases) auto
  then show ?thesis
    using True b div_mod_iff [OF b, of a d s] by simp
next
  case False
  obtain q where q: "d < 0 \<Longrightarrow> q \<le> - b" "0 < d \<Longrightarrow> b \<le> q" "d * b = q" "- d * b = - q"
    using mult_signs [OF b, of d] by auto
  from False have neg: "a sdiv b = - ((- a) div b)" "a smod b = - ((- a) mod b)"
    using b by (simp_all add: signed_divide_int_def signed_modulo_int_def)
  have "a sdiv b = d \<and> a smod b = s \<longleftrightarrow> (- a) div b = - d \<and> (- a) mod b = - s"
    unfolding neg by linarith
  also have "\<dots> \<longleftrightarrow> - a = - d * b + - s \<and> 0 \<le> - s \<and> - s < b"
    by (rule div_mod_iff [OF b])
  also have "\<dots> \<longleftrightarrow> a = d * b + s \<and> \<bar>s\<bar> < b \<and> (0 \<le> d \<and> 0 \<le> s \<or> d \<le> 0 \<and> s \<le> 0)"
    using False b q(1,2) unfolding q(3,4) by (cases d "0 :: int" rule: linorder_cases) (use q(3) in auto)
  finally show ?thesis .
qed

lemma gmtime_diff_iff:
  "OPENSSL_gmtime_diff t u = Some (d, s) \<longleftrightarrow> tm_valid t \<and> tm_valid u \<and> tm_seconds u - tm_seconds t = d * 86400 + s \<and>
   \<bar>s\<bar> < 86400 \<and> (0 \<le> d \<and> 0 \<le> s \<or> d \<le> 0 \<and> s \<le> 0)"
  using sdiv_smod_iff [of 86400 "tm_seconds u - tm_seconds t" d s] by (auto simp: gmtime_diff_eq)

end
