(* ===== verification/Asn1Time.thy ===== *)
theory Asn1Time
  imports Der Calendar
begin

text \<open>
  The time parsers of \<^verbatim>\<open>cbs.c\<close> (lines 755 to 911): GeneralizedTime and UTCTime as in RFC 5280, with an
  optional time zone offset. The output structure is an argument and a part of the result (\<^verbatim>\<open>None\<close> for a
  null pointer); what \<^verbatim>\<open>None\<close> stands for in the result as a whole is the overflow in \<^verbatim>\<open>OPENSSL_gmtime_adj\<close>,
  which never happens.
\<close>

section \<open>The code\<close>

definition cbs_get_two_digits :: "int reader" where
  "cbs_get_two_digits =
     bind_reader CBS_get_u8 (\<lambda>first_digit.
       if \<not> OPENSSL_isdigit first_digit then reject
       else bind_reader CBS_get_u8 (\<lambda>second_digit.
         if \<not> OPENSSL_isdigit second_digit then reject
         else succeed ((uint first_digit - 0x30) * 10 + (uint second_digit - 0x30))))"

definition is_valid_day :: "int \<Rightarrow> int \<Rightarrow> int \<Rightarrow> bool" where
  "is_valid_day year month day \<longleftrightarrow>
     (if day < 1 then False
      else if month \<in> {1, 3, 5, 7, 8, 10, 12} then day \<le> 31
      else if month \<in> {4, 6, 9, 11} then day \<le> 30
      else if month = 2 then
        (if (year smod 4 = 0 \<and> year smod 100 \<noteq> 0) \<or> year smod 400 = 0 then day \<le> 29 else day \<le> 28)
      else False)"

definition rfc5280_year :: "bool \<Rightarrow> int reader" where
  "rfc5280_year is_gentime =
     (if is_gentime then
        bind_reader cbs_get_two_digits (\<lambda>tmp. let year = tmp * 100 in
          bind_reader cbs_get_two_digits (\<lambda>tmp. succeed (year + tmp)))
      else
        bind_reader cbs_get_two_digits (\<lambda>tmp.
          let year = 1900 + tmp; year' = (if year < 1950 then year + 100 else year)
          in if year' \<ge> 2050 then reject else succeed year'))"

text \<open>The time zone: its sign, then the offset in seconds.\<close>

definition rfc5280_offset :: "bool \<Rightarrow> int \<Rightarrow> int reader" where
  "rfc5280_offset allow_timezone_offset offset_sign =
     (if offset_sign \<noteq> 0 then
        (if \<not> allow_timezone_offset then reject
         else bind_reader cbs_get_two_digits (\<lambda>offset_hours.
           if offset_hours > 23 then reject
           else bind_reader cbs_get_two_digits (\<lambda>offset_minutes.
             if offset_minutes > 59 then reject
             else succeed (offset_sign * (offset_hours * 3600 + offset_minutes * 60)))))
      else succeed 0)"

definition rfc5280_zone :: "bool \<Rightarrow> int reader" where
  "rfc5280_zone allow_timezone_offset =
     bind_reader CBS_get_u8 (\<lambda>tz.
       if tz = 0x5A then rfc5280_offset allow_timezone_offset 0
       else if tz = 0x2B then rfc5280_offset allow_timezone_offset 1
       else if tz = 0x2D then rfc5280_offset allow_timezone_offset (- 1)
       else reject)"

text \<open>The fields, up to the check that nothing follows.\<close>

definition rfc5280_fields :: "bool \<Rightarrow> bool \<Rightarrow> (int \<times> int \<times> int \<times> int \<times> int \<times> int \<times> int) reader" where
  "rfc5280_fields is_gentime allow_timezone_offset =
     bind_reader (rfc5280_year is_gentime) (\<lambda>year.
     bind_reader cbs_get_two_digits (\<lambda>month. if month < 1 \<or> month > 12 then reject else
     bind_reader cbs_get_two_digits (\<lambda>day. if \<not> is_valid_day year month day then reject else
     bind_reader cbs_get_two_digits (\<lambda>hour. if hour > 23 then reject else
     bind_reader cbs_get_two_digits (\<lambda>mins. if mins > 59 then reject else
     bind_reader cbs_get_two_digits (\<lambda>sec. if sec > 59 then reject else
     bind_reader (rfc5280_zone allow_timezone_offset) (\<lambda>offset_seconds cbs.
       if CBS_len cbs \<noteq> 0 then (None, cbs) else (Some (year, month, day, hour, mins, sec, offset_seconds), cbs))))))))"

definition CBS_parse_rfc5280_time_internal :: "cbs \<Rightarrow> bool \<Rightarrow> bool \<Rightarrow> tm option \<Rightarrow> (bool \<times> tm option) option" where
  "CBS_parse_rfc5280_time_internal cbs is_gentime allow_timezone_offset out_tm =
     (case fst (rfc5280_fields is_gentime allow_timezone_offset cbs) of
        None \<Rightarrow> Some (False, out_tm)
      | Some (year, month, day, hour, mins, sec, offset_seconds) \<Rightarrow>
          (case out_tm of
             None \<Rightarrow> Some (True, None)
           | Some t \<Rightarrow>
               let t1 = t\<lparr>tm_year := year - 1900, tm_mon := month - 1, tm_mday := day, tm_hour := hour, tm_min := mins, tm_sec := sec\<rparr>
               in if offset_seconds \<noteq> 0 then
                    (case OPENSSL_gmtime_adj t1 0 offset_seconds of
                       None \<Rightarrow> None
                     | Some None \<Rightarrow> Some (False, Some t1)
                     | Some (Some t2) \<Rightarrow> Some (True, Some t2))
                  else Some (True, Some t1)))"

definition CBS_parse_generalized_time :: "cbs \<Rightarrow> tm option \<Rightarrow> bool \<Rightarrow> (bool \<times> tm option) option" where
  "CBS_parse_generalized_time cbs out_tm allow_timezone_offset =
     CBS_parse_rfc5280_time_internal cbs True allow_timezone_offset out_tm"

definition CBS_parse_utc_time :: "cbs \<Rightarrow> tm option \<Rightarrow> bool \<Rightarrow> (bool \<times> tm option) option" where
  "CBS_parse_utc_time cbs out_tm allow_timezone_offset =
     CBS_parse_rfc5280_time_internal cbs False allow_timezone_offset out_tm"

section \<open>The text of a time\<close>

definition two_digits :: "int \<Rightarrow> byte list" where
  "two_digits n = [of_int (0x30 + n div 10), of_int (0x30 + n mod 10)]"

lemma bind_reader_Some_iff:
  "bind_reader p f cbs = (Some y, rest) \<longleftrightarrow> (\<exists>x mid. p cbs = (Some x, mid) \<and> f x mid = (Some y, rest))"
  by (auto simp: bind_reader_def split: option.splits prod.splits)

lemma reader_simps [simp]: "succeed x cbs = (Some y, rest) \<longleftrightarrow> x = y \<and> cbs = rest" "reject cbs \<noteq> (Some y, rest)"
  by (auto simp: succeed_def reject_def)

lemma isdigit_iff: "OPENSSL_isdigit c \<longleftrightarrow> 0x30 \<le> uint c \<and> uint c \<le> 0x39"
  by (simp add: OPENSSL_isdigit_def word_le_def)

lemma uint_byte: "0 \<le> k \<Longrightarrow> k < 256 \<Longrightarrow> uint (of_int k :: byte) = k"
  by (simp add: uint_word_of_int)

interpretation two_digits: codec two_digits cbs_get_two_digits "\<lambda>n. 0 \<le> n \<and> n \<le> 99"
proof
  fix n :: int and rest
  assume n: "0 \<le> n \<and> n \<le> 99"
  have "n div 10 \<le> 99 div 10"
    using n by (intro zdiv_mono1) simp_all
  then have u: "uint (of_int (0x30 + n div 10) :: byte) = 0x30 + n div 10" "uint (of_int (0x30 + n mod 10) :: byte) = 0x30 + n mod 10"
    using n pos_mod_bound [of 10 n] by (intro uint_byte; simp add: pos_imp_zdiv_nonneg_iff)+
  then show "cbs_get_two_digits (two_digits n @ rest) = (Some n, rest)"
    using n \<open>n div 10 \<le> 99 div 10\<close> pos_mod_bound [of 10 n]
    unfolding cbs_get_two_digits_def two_digits_def
    by (simp add: bind_reader_def isdigit_iff u pos_imp_zdiv_nonneg_iff succeed_def del: of_int_add)
next
  fix cbs n rest
  assume "cbs_get_two_digits cbs = (Some n, rest)"
  then obtain a b where ab: "cbs = a # b # rest" "OPENSSL_isdigit a" "OPENSSL_isdigit b" "n = (uint a - 0x30) * 10 + (uint b - 0x30)"
    by (auto simp: cbs_get_two_digits_def bind_reader_Some_iff u8.dec_iff split: if_splits)
  have "0x30 + n div 10 = uint a" "0x30 + n mod 10 = uint b"
    using ab(2-4) int_div_pos_eq [of n 10 "uint a - 0x30" "uint b - 0x30"] int_mod_pos_eq [of n 10 "uint a - 0x30" "uint b - 0x30"]
    by (simp_all add: isdigit_iff)
  then show "(0 \<le> n \<and> n \<le> 99) \<and> cbs = two_digits n @ rest"
    using ab by (simp add: two_digits_def isdigit_iff)
qed

definition year_text :: "bool \<Rightarrow> int \<Rightarrow> byte list" where
  "year_text is_gentime y = (if is_gentime then two_digits (y div 100) else []) @ two_digits (y mod 100)"

definition year_range :: "bool \<Rightarrow> int \<Rightarrow> bool" where
  "year_range is_gentime y \<longleftrightarrow> (if is_gentime then 0 \<le> y \<and> y \<le> 9999 else 1950 \<le> y \<and> y \<le> 2049)"

lemma hundreds: "0 \<le> y \<Longrightarrow> y \<le> 9999 \<Longrightarrow> 0 \<le> y div 100 \<and> y div 100 \<le> 99" for y :: int
  using zdiv_mono1 [of y 9999 100] by (simp add: pos_imp_zdiv_nonneg_iff)

interpretation rfc5280_year: codec "year_text is_gentime" "rfc5280_year is_gentime" "year_range is_gentime" for is_gentime
proof
  fix y rest
  assume y: "year_range is_gentime y"
  show "rfc5280_year is_gentime (year_text is_gentime y @ rest) = (Some y, rest)"
  proof (cases is_gentime)
    case True
    then show ?thesis
      using y hundreds [of y] pos_mod_bound [of 100 y]
      by (simp add: rfc5280_year_def year_text_def year_range_def bind_reader_def two_digits.dec_enc succeed_def)
  next
    case False
    then have "y mod 100 = (if y < 2000 then y - 1900 else y - 2000)"
      using y by (auto simp: year_range_def intro: int_mod_pos_eq [of _ _ 19] int_mod_pos_eq [of _ _ 20])
    then show ?thesis
      using y False
      by (auto simp: rfc5280_year_def year_text_def year_range_def bind_reader_def two_digits.dec_enc succeed_def)
  qed
next
  fix cbs y rest
  assume r: "rfc5280_year is_gentime cbs = (Some y, rest)"
  show "year_range is_gentime y \<and> cbs = year_text is_gentime y @ rest"
  proof (cases is_gentime)
    case True
    then obtain a b where ab: "0 \<le> a" "a \<le> 99" "0 \<le> b" "b \<le> 99" "cbs = two_digits a @ two_digits b @ rest" "y = a * 100 + b"
      using r by (auto simp: rfc5280_year_def bind_reader_Some_iff two_digits.dec_iff)
    then have "y div 100 = a" "y mod 100 = b"
      by (auto intro: int_div_pos_eq [of _ _ _ b] int_mod_pos_eq [of _ _ a])
    then show ?thesis
      using True ab by (simp add: year_range_def year_text_def)
  next
    case False
    then obtain a where a: "0 \<le> a" "a \<le> 99" "cbs = two_digits a @ rest" "y = (if a < 50 then 2000 + a else 1900 + a)" "y < 2050"
      using r by (fastforce simp: rfc5280_year_def bind_reader_Some_iff two_digits.dec_iff Let_def split: if_splits)
    then have "y mod 100 = a"
      by (auto intro: int_mod_pos_eq [of _ _ 19] int_mod_pos_eq [of _ _ 20])
    then show ?thesis
      using False a by (auto simp: year_range_def year_text_def)
  qed
qed

text \<open>A time zone: \<^verbatim>\<open>None\<close> for \<^verbatim>\<open>Z\<close>, or east (\<^verbatim>\<open>+\<close>) or west (\<^verbatim>\<open>-\<close>) of Greenwich by hours and minutes.\<close>

type_synonym zone = "(bool \<times> int \<times> int) option"

fun zone_text :: "zone \<Rightarrow> byte list" where
  "zone_text None = [0x5A]"
| "zone_text (Some (east, h, m)) = (if east then 0x2B else 0x2D) # two_digits h @ two_digits m"

fun zone_seconds :: "zone \<Rightarrow> int" where
  "zone_seconds None = 0"
| "zone_seconds (Some (east, h, m)) = (if east then 1 else - 1) * (h * 3600 + m * 60)"

fun zone_valid :: "bool \<Rightarrow> zone \<Rightarrow> bool" where
  "zone_valid allow None \<longleftrightarrow> True"
| "zone_valid allow (Some (east, h, m)) \<longleftrightarrow> allow \<and> 0 \<le> h \<and> h \<le> 23 \<and> 0 \<le> m \<and> m \<le> 59"

lemma guard_iff: "(if b then reject else p) cbs = (Some y, rest) \<longleftrightarrow> \<not> b \<and> p cbs = (Some y, rest)"
  by simp

lemma offset_iff:
  assumes "sign \<noteq> 0"
  shows "rfc5280_offset allow sign cbs = (Some off, rest) \<longleftrightarrow>
   allow \<and> (\<exists>h m. 0 \<le> h \<and> h \<le> 23 \<and> 0 \<le> m \<and> m \<le> 59 \<and> off = sign * (h * 3600 + m * 60) \<and> cbs = two_digits h @ two_digits m @ rest)"
    (is "?L \<longleftrightarrow> ?R")
proof
  assume ?L
  then show ?R
    using assms unfolding rfc5280_offset_def bind_reader_Some_iff two_digits.dec_iff guard_iff reader_simps
    by (simp add: bind_reader_Some_iff two_digits.dec_iff guard_iff split: if_splits) (metis append_assoc not_less)
next
  assume ?R
  then show ?L
    using assms by (auto simp: rfc5280_offset_def bind_reader_def two_digits.dec_enc succeed_def)
qed

lemma zone_ex:
  "(\<exists>z :: zone. P z) \<longleftrightarrow> P None \<or> (\<exists>h m. P (Some (True, h, m))) \<or> (\<exists>h m. P (Some (False, h, m)))"
  by (metis (full_types) option.exhaust prod.exhaust)

lemma zone_iff:
  "rfc5280_zone allow cbs = (Some off, rest) \<longleftrightarrow> (\<exists>z. zone_valid allow z \<and> off = zone_seconds z \<and> cbs = zone_text z @ rest)"
proof (cases cbs)
  case Nil
  then show ?thesis
    by (simp add: rfc5280_zone_def bind_reader_Some_iff u8.dec_iff zone_ex)
next
  case (Cons tz mid)
  have "rfc5280_zone allow (tz # mid) = (if tz = 0x5A then rfc5280_offset allow 0 mid else if tz = 0x2B then rfc5280_offset allow 1 mid
      else if tz = 0x2D then rfc5280_offset allow (- 1) mid else (None, mid))"
    by (simp add: rfc5280_zone_def bind_reader_def reject_def)
  moreover have "rfc5280_offset allow 0 mid = (Some off, rest) \<longleftrightarrow> off = 0 \<and> mid = rest"
    by (auto simp: rfc5280_offset_def)
  ultimately show ?thesis
    unfolding Cons zone_ex by (auto simp: offset_iff)
qed

text \<open>The text of a time, as the parsers accept it.\<close>

definition time_text :: "bool \<Rightarrow> int \<Rightarrow> int \<Rightarrow> int \<Rightarrow> int \<Rightarrow> int \<Rightarrow> int \<Rightarrow> zone \<Rightarrow> byte list" where
  "time_text is_gentime y m d hour mins sec z =
     year_text is_gentime y @ two_digits m @ two_digits d @ two_digits hour @ two_digits mins @ two_digits sec @ zone_text z"

lemma is_valid_day_eq: "is_valid_day y m d \<and> 0 \<le> y \<and> y \<le> 9999 \<and> 1 \<le> m \<longleftrightarrow> is_valid_date y m d"
  by (auto simp: is_valid_day_def is_valid_date_def)

lemma year_range: "year_range is_gentime y \<Longrightarrow> 0 \<le> y \<and> y \<le> 9999"
  by (auto simp: year_range_def split: if_splits)

lemma date_digits: "is_valid_date y m d \<Longrightarrow> 1 \<le> m \<and> m \<le> 12 \<and> 1 \<le> d \<and> d \<le> 31"
  by (auto simp: is_valid_date_def split: if_splits)

lemma fields_iff:
  assumes "length cbs < 2 ^ 64"
  shows "fst (rfc5280_fields is_gentime allow cbs) = Some (y, m, d, hour, mins, sec, off) \<longleftrightarrow>
    (\<exists>z. year_range is_gentime y \<and> is_valid_date y m d \<and> is_valid_time hour mins sec \<and> zone_valid allow z \<and> off = zone_seconds z \<and>
      cbs = time_text is_gentime y m d hour mins sec z)"
proof
  assume "fst (rfc5280_fields is_gentime allow cbs) = Some (y, m, d, hour, mins, sec, off)"
  then obtain rest where "rfc5280_fields is_gentime allow cbs = (Some (y, m, d, hour, mins, sec, off), rest)"
    by (metis prod.collapse)
  then obtain c1 where c1: "year_range is_gentime y" "cbs = year_text is_gentime y @ two_digits m @ two_digits d @ two_digits hour @
      two_digits mins @ two_digits sec @ c1" "rfc5280_zone allow c1 = (Some off, rest)" "CBS_len rest = 0"
    and v: "1 \<le> m" "m \<le> 12" "is_valid_day y m d" "0 \<le> hour" "hour \<le> 23" "0 \<le> mins" "mins \<le> 59" "0 \<le> sec" "sec \<le> 59"
    by (fastforce simp: rfc5280_fields_def bind_reader_Some_iff two_digits.dec_iff rfc5280_year.dec_iff split: if_splits)
  from c1(3) obtain z where z: "zone_valid allow z" "off = zone_seconds z" "c1 = zone_text z @ rest"
    by (auto simp: zone_iff)
  have "length rest < 2 ^ 64"
    using assms c1(2) z(3) by simp
  then have "rest = []"
    using c1(4) of_nat_u64_eq_0_iff [of "length rest"] by (simp add: CBS_len_def)
  then show "\<exists>z. year_range is_gentime y \<and> is_valid_date y m d \<and> is_valid_time hour mins sec \<and> zone_valid allow z \<and>
      off = zone_seconds z \<and> cbs = time_text is_gentime y m d hour mins sec z"
    using c1(1,2) z v year_range [OF c1(1)] is_valid_day_eq [of y m d]
    by (intro exI [of _ z]) (simp add: is_valid_time_def time_text_def)
next
  assume "\<exists>z. year_range is_gentime y \<and> is_valid_date y m d \<and> is_valid_time hour mins sec \<and> zone_valid allow z \<and>
      off = zone_seconds z \<and> cbs = time_text is_gentime y m d hour mins sec z"
  then obtain z where z: "year_range is_gentime y" "is_valid_date y m d" "is_valid_time hour mins sec" "zone_valid allow z"
      "off = zone_seconds z" "cbs = time_text is_gentime y m d hour mins sec z"
    by blast
  have "rfc5280_zone allow (zone_text z @ []) = (Some off, [])"
    using z(4,5) by (subst zone_iff) blast
  then show "fst (rfc5280_fields is_gentime allow cbs) = Some (y, m, d, hour, mins, sec, off)"
    using z(1-3) date_digits [OF z(2)] is_valid_day_eq [of y m d]
    by (simp add: z(6) time_text_def rfc5280_fields_def bind_reader_def two_digits.dec_enc rfc5280_year.dec_enc is_valid_time_def CBS_len_def)
qed

section \<open>What the parsers compute\<close>

definition tm_of :: "tm \<Rightarrow> int \<Rightarrow> int \<Rightarrow> int \<Rightarrow> int \<Rightarrow> int \<Rightarrow> int \<Rightarrow> tm" where
  "tm_of t y m d hour mins sec =
     t\<lparr>tm_year := y - 1900, tm_mon := m - 1, tm_mday := d, tm_hour := hour, tm_min := mins, tm_sec := sec\<rparr>"

lemma tm_of_valid:
  "is_valid_date y m d \<Longrightarrow> is_valid_time hour mins sec \<Longrightarrow> tm_valid (tm_of t y m d hour mins sec)"
  "tm_seconds (tm_of t y m d hour mins sec) = posix_seconds y m d hour mins sec"
  by (simp_all add: tm_of_def tm_valid_def tm_seconds_def)

lemma zone_seconds_range: "zone_valid allow z \<Longrightarrow> \<bar>zone_seconds z\<bar> \<le> 86340"
  by (cases "(allow, z)" rule: zone_valid.cases) auto

lemma adj_eq:
  assumes "is_valid_date y m d" "is_valid_time hour mins sec" "zone_valid allow z"
  shows "OPENSSL_gmtime_adj (tm_of t y m d hour mins sec) 0 (zone_seconds z) =
    Some (OPENSSL_posix_to_tm (posix_seconds y m d hour mins sec + zone_seconds z))"
  using gmtime_adj_eq [of 0 "zone_seconds z" "tm_of t y m d hour mins sec"] zone_seconds_range [OF assms(3)] assms(1,2)
  by (simp add: tm_of_valid INT_MIN32_def INT_MAX32_def INT64_MIN_def INT64_MAX_def)

text \<open>Every case of the parser: the text is malformed, it has no offset, or it has one.\<close>

lemma parse_time_cases:
  assumes "length cbs < 2 ^ 64"
  obtains (malformed) "\<And>out_tm. CBS_parse_rfc5280_time_internal cbs is_gentime allow out_tm = Some (False, out_tm)"
      "\<nexists>y m d hour mins sec z. year_range is_gentime y \<and> is_valid_date y m d \<and> is_valid_time hour mins sec \<and>
        zone_valid allow z \<and> cbs = time_text is_gentime y m d hour mins sec z"
  | (time) y m d hour mins sec z where "year_range is_gentime y" "is_valid_date y m d" "is_valid_time hour mins sec" "zone_valid allow z"
      "cbs = time_text is_gentime y m d hour mins sec z"
      "\<And>t. CBS_parse_rfc5280_time_internal cbs is_gentime allow (Some t) =
        (if zone_seconds z = 0 then Some (True, Some (tm_of t y m d hour mins sec))
         else (case OPENSSL_posix_to_tm (posix_seconds y m d hour mins sec + zone_seconds z) of
             None \<Rightarrow> Some (False, Some (tm_of t y m d hour mins sec))
           | Some u \<Rightarrow> Some (True, Some u)))"
      "CBS_parse_rfc5280_time_internal cbs is_gentime allow None = Some (True, None)"
proof (cases "fst (rfc5280_fields is_gentime allow cbs)")
  case None
  have "\<nexists>y m d hour mins sec z. year_range is_gentime y \<and> is_valid_date y m d \<and> is_valid_time hour mins sec \<and>
      zone_valid allow z \<and> cbs = time_text is_gentime y m d hour mins sec z"
    using fields_iff [OF assms] None by (metis option.distinct(1))
  moreover have "CBS_parse_rfc5280_time_internal cbs is_gentime allow out_tm = Some (False, out_tm)" for out_tm
    by (simp add: CBS_parse_rfc5280_time_internal_def None)
  ultimately show thesis
    by (intro malformed)
next
  case (Some r)
  then obtain y m d hour mins sec off where r: "fst (rfc5280_fields is_gentime allow cbs) = Some (y, m, d, hour, mins, sec, off)"
    by (cases r) auto
  then obtain z where z: "year_range is_gentime y" "is_valid_date y m d" "is_valid_time hour mins sec" "zone_valid allow z"
    "off = zone_seconds z" "cbs = time_text is_gentime y m d hour mins sec z"
    using fields_iff [OF assms] by blast
  have parse: "CBS_parse_rfc5280_time_internal cbs is_gentime allow (Some t) =
      (if zone_seconds z = 0 then Some (True, Some (tm_of t y m d hour mins sec))
       else (case OPENSSL_posix_to_tm (posix_seconds y m d hour mins sec + zone_seconds z) of
           None \<Rightarrow> Some (False, Some (tm_of t y m d hour mins sec))
         | Some u \<Rightarrow> Some (True, Some u)))" for t
    using adj_eq [OF z(2-4), of t] z(5) by (simp add: CBS_parse_rfc5280_time_internal_def r tm_of_def Let_def split: option.split)
  moreover have "CBS_parse_rfc5280_time_internal cbs is_gentime allow None = Some (True, None)"
    by (simp add: CBS_parse_rfc5280_time_internal_def r)
  ultimately show thesis
    using z by (intro time)
qed

lemma length_time_text: "length (time_text is_gentime y m d hour mins sec z) \<le> 19"
  by (cases z) (auto simp: time_text_def year_text_def two_digits_def split: prod.split)

lemma parse_time_text:
  assumes "year_range is_gentime y" "is_valid_date y m d" "is_valid_time hour mins sec" "zone_valid allow z"
  shows "CBS_parse_rfc5280_time_internal (time_text is_gentime y m d hour mins sec z) is_gentime allow (Some t) =
    (if zone_seconds z = 0 then Some (True, Some (tm_of t y m d hour mins sec))
     else (case OPENSSL_posix_to_tm (posix_seconds y m d hour mins sec + zone_seconds z) of
         None \<Rightarrow> Some (False, Some (tm_of t y m d hour mins sec))
       | Some u \<Rightarrow> Some (True, Some u)))"
proof -
  have "length (time_text is_gentime y m d hour mins sec z) < 2 ^ 64"
    using length_time_text [of is_gentime y m d hour mins sec z] by simp
  then have "fst (rfc5280_fields is_gentime allow (time_text is_gentime y m d hour mins sec z)) =
      Some (y, m, d, hour, mins, sec, zone_seconds z)"
    using fields_iff assms by blast
  then show ?thesis
    using adj_eq [OF assms(2-4), of t] by (simp add: CBS_parse_rfc5280_time_internal_def tm_of_def Let_def split: option.split)
qed

lemma zone_None: "zone_valid False z \<longleftrightarrow> z = None"
  by (cases z) auto

lemma parse_time_iff:
  assumes "length cbs < 2 ^ 64"
  shows "CBS_parse_rfc5280_time_internal cbs is_gentime False (Some t) = Some (True, Some u) \<longleftrightarrow>
    (\<exists>y m d hour mins sec. year_range is_gentime y \<and> is_valid_date y m d \<and> is_valid_time hour mins sec \<and>
      cbs = time_text is_gentime y m d hour mins sec None \<and> u = tm_of t y m d hour mins sec)"
  using assms
proof (cases rule: parse_time_cases [where is_gentime = is_gentime and allow = False])
  case malformed
  then show ?thesis
    by (auto simp: zone_None) metis
next
  case (time y m d hour mins sec z)
  then have z: "z = None"
    by (simp add: zone_None)
  show ?thesis
  proof
    assume "CBS_parse_rfc5280_time_internal cbs is_gentime False (Some t) = Some (True, Some u)"
    then have "u = tm_of t y m d hour mins sec"
      using time(6) z by simp
    then show "\<exists>y m d hour mins sec. year_range is_gentime y \<and> is_valid_date y m d \<and> is_valid_time hour mins sec \<and>
        cbs = time_text is_gentime y m d hour mins sec None \<and> u = tm_of t y m d hour mins sec"
      using time(1-3,5) z by blast
  next
    assume "\<exists>y m d hour mins sec. year_range is_gentime y \<and> is_valid_date y m d \<and> is_valid_time hour mins sec \<and>
        cbs = time_text is_gentime y m d hour mins sec None \<and> u = tm_of t y m d hour mins sec"
    then obtain y m d hour mins sec where "year_range is_gentime y" "is_valid_date y m d" "is_valid_time hour mins sec"
        "cbs = time_text is_gentime y m d hour mins sec None" "u = tm_of t y m d hour mins sec"
      by blast
    then show "CBS_parse_rfc5280_time_internal cbs is_gentime False (Some t) = Some (True, Some u)"
      using parse_time_text [of is_gentime y m d hour mins sec False None t] by simp
  qed
qed

lemma date_year: "is_valid_date y m d \<Longrightarrow> year_range True y"
  by (auto simp: is_valid_date_def year_range_def split: if_splits)

lemma utc_year: "year_range False y \<longleftrightarrow> 1950 \<le> y \<and> y \<le> 2049"
  by (simp add: year_range_def)

end
