(* ===== verification/Unicode.thy ===== *)
theory Unicode
  imports CbbBuild
begin

text \<open>
  Text (\<^verbatim>\<open>bytestring/unicode.c\<close>): readers and writers of code points in UTF-8, Latin-1, UCS-2 and UTF-32, as
  used for ASN.1 strings. UTF-8 is specified by arithmetic on the code point.
\<close>

section \<open>The code\<close>

definition is_valid_code_point :: "u32 \<Rightarrow> bool" where
  "is_valid_code_point v \<longleftrightarrow>
     \<not> (v > 0x10ffff \<or> v AND 0xfffe = 0xfffe \<or> (v \<ge> 0xfdd0 \<and> v \<le> 0xfdef) \<or> (v \<ge> 0xd800 \<and> v \<le> 0xdfff))"

definition BOTTOM_BITS :: "nat \<Rightarrow> byte" where
  "BOTTOM_BITS n = ucast (push_bit n 1 - 1 :: u32)"

definition TOP_BITS :: "nat \<Rightarrow> byte" where
  "TOP_BITS n = NOT (BOTTOM_BITS (8 - n))"

text \<open>The continuation bytes.\<close>

fun utf8_tail :: "nat \<Rightarrow> u32 \<Rightarrow> u32 reader" where
  "utf8_tail 0 v = succeed v"
| "utf8_tail (Suc n) v =
     bind_reader CBS_get_u8 (\<lambda>c.
       if c AND TOP_BITS 2 \<noteq> TOP_BITS 1 then reject
       else utf8_tail n (push_bit 6 v OR ucast (c AND BOTTOM_BITS 6)))"

definition utf8_multi :: "nat \<Rightarrow> u32 \<Rightarrow> u32 \<Rightarrow> u32 reader" where
  "utf8_multi len v lower_bound =
     bind_reader (utf8_tail len v) (\<lambda>v. if \<not> is_valid_code_point v \<or> v < lower_bound then reject else succeed v)"

definition CBS_get_utf8 :: "u32 reader" where
  "CBS_get_utf8 =
     bind_reader CBS_get_u8 (\<lambda>c.
       if c \<le> 0x7f then succeed (ucast c)
       else if c AND TOP_BITS 3 = TOP_BITS 2 then utf8_multi 1 (ucast (c AND BOTTOM_BITS 5)) 0x80
       else if c AND TOP_BITS 4 = TOP_BITS 3 then utf8_multi 2 (ucast (c AND BOTTOM_BITS 4)) 0x800
       else if c AND TOP_BITS 5 = TOP_BITS 4 then utf8_multi 3 (ucast (c AND BOTTOM_BITS 3)) 0x10000
       else reject)"

definition CBS_get_latin1 :: "u32 reader" where
  "CBS_get_latin1 = map_reader ucast CBS_get_u8"

definition CBS_get_ucs2_be :: "u32 reader" where
  "CBS_get_ucs2_be = bind_reader CBS_get_u16 (\<lambda>c. if \<not> is_valid_code_point (ucast c) then reject else succeed (ucast c))"

definition CBS_get_utf32_be :: "u32 reader" where
  "CBS_get_utf32_be = bind_reader CBS_get_u32 (\<lambda>out. if is_valid_code_point out then succeed out else reject)"

definition CBB_get_utf8_len :: "u32 \<Rightarrow> size_t" where
  "CBB_get_utf8_len u = (if u \<le> 0x7f then 1 else if u \<le> 0x7ff then 2 else if u \<le> 0xffff then 3 else 4)"

definition CBB_add_utf8 :: "nat \<Rightarrow> u32 \<Rightarrow> builder \<Rightarrow> cbb_result" where
  "CBB_add_utf8 h u st =
     (if \<not> is_valid_code_point u then Some (False, st)
      else if u \<le> 0x7f then CBB_add_u8 h (ucast u) st
      else if u \<le> 0x7ff then
        and_then (CBB_add_u8 h (ucast (ucast (TOP_BITS 2) OR drop_bit 6 u)) st)
          (CBB_add_u8 h (ucast (ucast (TOP_BITS 1) OR (u AND ucast (BOTTOM_BITS 6)))))
      else if u \<le> 0xffff then
        and_then (and_then (CBB_add_u8 h (ucast (ucast (TOP_BITS 3) OR drop_bit 12 u)) st)
          (CBB_add_u8 h (ucast (ucast (TOP_BITS 1) OR (drop_bit 6 u AND ucast (BOTTOM_BITS 6))))))
          (CBB_add_u8 h (ucast (ucast (TOP_BITS 1) OR (u AND ucast (BOTTOM_BITS 6)))))
      else if u \<le> 0x10ffff then
        and_then (and_then (and_then (CBB_add_u8 h (ucast (ucast (TOP_BITS 4) OR drop_bit 18 u)) st)
          (CBB_add_u8 h (ucast (ucast (TOP_BITS 1) OR (drop_bit 12 u AND ucast (BOTTOM_BITS 6))))))
          (CBB_add_u8 h (ucast (ucast (TOP_BITS 1) OR (drop_bit 6 u AND ucast (BOTTOM_BITS 6))))))
          (CBB_add_u8 h (ucast (ucast (TOP_BITS 1) OR (u AND ucast (BOTTOM_BITS 6)))))
      else Some (False, st))"

definition CBB_add_latin1 :: "nat \<Rightarrow> u32 \<Rightarrow> builder \<Rightarrow> cbb_result" where
  "CBB_add_latin1 h u st = (if u \<le> 0xff then CBB_add_u8 h (ucast u) st else Some (False, st))"

definition CBB_add_ucs2_be :: "nat \<Rightarrow> u32 \<Rightarrow> builder \<Rightarrow> cbb_result" where
  "CBB_add_ucs2_be h u st = (if u \<le> 0xffff \<and> is_valid_code_point u then CBB_add_u16 h (ucast u) st else Some (False, st))"

definition CBB_add_utf32_be :: "nat \<Rightarrow> u32 \<Rightarrow> builder \<Rightarrow> cbb_result" where
  "CBB_add_utf32_be h u st = (if is_valid_code_point u then CBB_add_u32 h u st else Some (False, st))"

section \<open>UTF-8\<close>

text \<open>Six bits a continuation byte, most significant first.\<close>

fun conts :: "nat \<Rightarrow> nat \<Rightarrow> byte list" where
  "conts 0 n = []"
| "conts (Suc k) n = conts k (n div 64) @ [of_nat (0x80 + n mod 64)]"

definition utf8 :: "u32 \<Rightarrow> byte list" where
  "utf8 u =
     (let n = unat u in
      if n < 0x80 then [of_nat n]
      else if n < 0x800 then of_nat (0xC0 + n div 64) # conts 1 n
      else if n < 0x10000 then of_nat (0xE0 + n div 64 ^ 2) # conts 2 n
      else of_nat (0xF0 + n div 64 ^ 3) # conts 3 n)"

lemma TOP_BITS_values [simp]: "TOP_BITS 1 = 0x80" "TOP_BITS (Suc 0) = 0x80" "TOP_BITS 2 = 0xC0" "TOP_BITS 3 = 0xE0" "TOP_BITS 4 = 0xF0" "TOP_BITS 5 = 0xF8"
  and BOTTOM_BITS_values [simp]: "BOTTOM_BITS 3 = 7" "BOTTOM_BITS 4 = 15" "BOTTOM_BITS 5 = 31" "BOTTOM_BITS 6 = 63"
  by (simp_all add: TOP_BITS_def BOTTOM_BITS_def)

text \<open>Masks are division and remainder.\<close>

lemma and_top: "unat (c AND NOT (mask k)) = unat c div 2 ^ k * 2 ^ k" for c :: "'a::len word"
proof -
  have "unat c div 2 ^ k * 2 ^ k \<le> unat c"
    by simp
  then have "unat c div 2 ^ k * 2 ^ k < 2 ^ LENGTH('a)"
    using unsigned_less [of c, where 'a = nat] by (rule le_less_trans)
  moreover have "unat (push_bit k (drop_bit k c)) = unat c div 2 ^ k * 2 ^ k mod 2 ^ LENGTH('a)"
    by (simp only: unsigned_push_bit_eq take_bit_eq_mod) (simp only: unat_drop_bit_div push_bit_eq_mult)
  moreover have "c AND NOT (mask k) = push_bit k (drop_bit k c)"
    by (rule bit_word_eqI) (auto simp: bit_simps)
  ultimately show ?thesis
    by simp
qed

lemma and_bottom: "unat (c AND mask k) = unat c mod 2 ^ k" for c :: "'a::len word"
  by (simp only: take_bit_eq_mask [symmetric] unsigned_take_bit_eq) (simp only: take_bit_eq_mod)

lemma byte_masks:
  "c AND 0xC0 = 0x80 \<longleftrightarrow> unat c div 64 = 2" "c AND 0xE0 = 0xC0 \<longleftrightarrow> unat c div 32 = 6"
  "c AND 0xF0 = 0xE0 \<longleftrightarrow> unat c div 16 = 14" "c AND 0xF8 = 0xF0 \<longleftrightarrow> unat c div 8 = 30"
  for c :: byte
proof -
  have m: "NOT (mask 6) = (0xC0 :: byte)" "NOT (mask 5) = (0xE0 :: byte)" "NOT (mask 4) = (0xF0 :: byte)" "NOT (mask 3) = (0xF8 :: byte)"
    by (simp_all add: mask_eq_exp_minus_1)
  show "c AND 0xC0 = 0x80 \<longleftrightarrow> unat c div 64 = 2" "c AND 0xE0 = 0xC0 \<longleftrightarrow> unat c div 32 = 6"
    "c AND 0xF0 = 0xE0 \<longleftrightarrow> unat c div 16 = 14" "c AND 0xF8 = 0xF0 \<longleftrightarrow> unat c div 8 = 30"
    using and_top [of c 6] and_top [of c 5] and_top [of c 4] and_top [of c 3]
    unfolding m by (simp_all add: word_unat_eq_iff)
qed

lemma low_bits:
  "unat (c AND 63) = unat c mod 64" "unat (c AND 31) = unat c mod 32" "unat (c AND 15) = unat c mod 16" "unat (c AND 7) = unat c mod 8"
  for c :: "'a::len word"
  using and_bottom [of c 6] and_bottom [of c 5] and_bottom [of c 4] and_bottom [of c 3]
  by (simp_all add: mask_eq_exp_minus_1)

lemma shift_or:
  fixes v :: u32
  assumes "unat v < 2 ^ 26"
  shows "unat (push_bit 6 v OR ucast (c AND 63 :: byte)) = unat v * 64 + unat c mod 64"
proof -
  have "c AND 63 = take_bit 6 c"
    by (simp add: take_bit_eq_mask mask_eq_exp_minus_1)
  then have low: "ucast (c AND 63) = (take_bit 6 (ucast c) :: u32)"
    by (simp add: unsigned_take_bit_eq)
  have "push_bit 6 v OR ucast (c AND 63) = push_bit 6 v + ucast (c AND 63)"
    by (rule disjunctive_add_eq_or [symmetric]) (auto intro!: bit_word_eqI simp: low word_bits)
  then show ?thesis
    using assms by (simp add: push_bit_eq_mult unat_word_ariths low_bits)
qed

text \<open>The loop over the continuation bytes.\<close>

abbreviation is_cont :: "byte \<Rightarrow> bool" where
  "is_cont c \<equiv> unat c div 64 = 2"

definition cont_value :: "nat \<Rightarrow> byte list \<Rightarrow> nat" where
  "cont_value = foldl (\<lambda>a c. a * 64 + unat c mod 64)"

lemma cont_value_simps [simp]:
  "cont_value a [] = a" "cont_value a (c # cs) = cont_value (a * 64 + unat c mod 64) cs"
  "cont_value a (cs @ [c]) = cont_value a cs * 64 + unat c mod 64"
  by (simp_all add: cont_value_def)

lemma utf8_tail_iff:
  "(unat v + 1) * 64 ^ n \<le> 2 ^ 32 \<Longrightarrow> utf8_tail n v cbs = (Some w, rest) \<longleftrightarrow>
   (\<exists>bs. cbs = bs @ rest \<and> length bs = n \<and> list_all is_cont bs \<and> unat w = cont_value (unat v) bs)"
proof (induction n arbitrary: v cbs)
  case 0
  then show ?case
    by (auto simp: succeed_def word_unat_eq_iff)
next
  case (Suc n)
  show ?case
  proof (cases cbs)
    case Nil
    then show ?thesis
      by (simp add: bind_reader_def)
  next
    case (Cons c cs)
    have "(unat v + 1) * 64 * 1 \<le> (unat v + 1) * 64 * 64 ^ n"
      by (rule mult_le_mono2) simp
    also have "\<dots> \<le> 2 ^ 32"
      using Suc.prems by (simp only: power_Suc mult.assoc)
    finally have v: "unat v < 2 ^ 26"
      by simp
    let ?v = "push_bit 6 v OR ucast (c AND 63) :: u32"
    have step: "unat ?v = unat v * 64 + unat c mod 64"
      by (rule shift_or [OF v])
    then have "unat ?v + 1 \<le> (unat v + 1) * 64"
      using mod_less_divisor [of 64 "unat c"] by simp
    then have "(unat ?v + 1) * 64 ^ n \<le> (unat v + 1) * 64 * 64 ^ n"
      by (rule mult_le_mono1)
    also have "\<dots> \<le> 2 ^ 32"
      using Suc.prems by (simp only: power_Suc mult.assoc)
    finally have "(unat ?v + 1) * 64 ^ n \<le> 2 ^ 32" .
    note IH = Suc.IH [OF this]
    show ?thesis
    proof (cases "is_cont c")
      case True
      then have "utf8_tail (Suc n) v cbs = utf8_tail n ?v cs"
        by (simp add: Cons byte_masks)
      moreover have "(\<exists>bs. cbs = bs @ rest \<and> length bs = Suc n \<and> list_all is_cont bs \<and> unat w = cont_value (unat v) bs) \<longleftrightarrow>
          (\<exists>bs. cs = bs @ rest \<and> length bs = n \<and> list_all is_cont bs \<and> unat w = cont_value (unat ?v) bs)"
        using True unfolding Cons step by (auto simp: Cons_eq_append_conv)
      ultimately show ?thesis
        by (simp only: IH)
    next
      case False
      then show ?thesis
        by (auto simp: Cons byte_masks reject_def Cons_eq_append_conv)
    qed
  qed
qed

lemma cont_byte: "m < 64 \<Longrightarrow> of_nat (0x80 + m) = c \<longleftrightarrow> is_cont c \<and> unat c mod 64 = m" for c :: byte
proof
  assume m: "m < 64" "of_nat (0x80 + m) = c"
  then have "unat c = 0x80 + m"
    by (auto simp: unat_of_nat simp del: of_nat_add)
  moreover have "(m + 2 * 64) div 64 = 2 \<and> (m + 2 * 64) mod 64 = m"
    using m(1) by (simp only: div_mult_self1 mod_mult_self1) simp
  then have "(128 + m) div 64 = 2 \<and> (128 + m) mod 64 = m"
    by (simp add: add.commute)
  ultimately show "is_cont c \<and> unat c mod 64 = m"
    by simp
next
  assume "m < 64" "is_cont c \<and> unat c mod 64 = m"
  then have "unat c = 0x80 + m"
    using div_mult_mod_eq [of "unat c" 64] by simp
  then show "of_nat (0x80 + m) = c"
    by (metis of_nat_unat ucast_id)
qed

lemma conts_iff:
  "bs = conts k n \<and> n div 64 ^ k = a \<longleftrightarrow> length bs = k \<and> list_all is_cont bs \<and> cont_value a bs = n"
proof (induction k arbitrary: bs n)
  case (Suc k)
  show ?case
  proof (cases bs rule: rev_cases)
    case (snoc cs c)
    have byte: "of_nat (0x80 + n mod 64) = c \<longleftrightarrow> is_cont c \<and> unat c mod 64 = n mod 64"
      by (rule cont_byte) simp
    have "bs = conts (Suc k) n \<and> n div 64 ^ Suc k = a \<longleftrightarrow>
        (cs = conts k (n div 64) \<and> n div 64 div 64 ^ k = a) \<and> is_cont c \<and> unat c mod 64 = n mod 64"
      unfolding snoc by (auto simp: byte [symmetric] div_mult2_eq)
    also have "\<dots> \<longleftrightarrow> (length cs = k \<and> list_all is_cont cs \<and> cont_value a cs = n div 64) \<and> is_cont c \<and> unat c mod 64 = n mod 64"
      unfolding Suc.IH ..
    also have "\<dots> \<longleftrightarrow> length bs = Suc k \<and> list_all is_cont bs \<and> cont_value a bs = n"
      unfolding snoc by auto
    finally show ?thesis .
  qed simp
qed auto

text \<open>A sequence of more than one byte: the lead byte has the upper bits of the code point.\<close>

lemma multi_iff:
  assumes "(unat v + 1) * 64 ^ k \<le> 2 ^ 32"
  shows "utf8_multi k v lower cbs = (Some u, rest) \<longleftrightarrow>
    is_valid_code_point u \<and> lower \<le> u \<and> unat u div 64 ^ k = unat v \<and> cbs = conts k (unat u) @ rest"
proof -
  have "utf8_multi k v lower cbs = (Some u, rest) \<longleftrightarrow> is_valid_code_point u \<and> lower \<le> u \<and> utf8_tail k v cbs = (Some u, rest)"
    by (auto simp: utf8_multi_def bind_reader_def reject_def succeed_def not_less split: option.splits prod.splits)
  also have "utf8_tail k v cbs = (Some u, rest) \<longleftrightarrow> unat u div 64 ^ k = unat v \<and> cbs = conts k (unat u) @ rest"
    unfolding utf8_tail_iff [OF assms] using conts_iff [of _ k "unat u" "unat v"] by metis
  finally show ?thesis by simp
qed

lemma utf8_cases:
  "utf8 u = (if unat u < 0x80 then [of_nat (unat u)]
      else if unat u < 0x800 then of_nat (0xC0 + unat u div 64) # conts 1 (unat u)
      else if unat u < 0x10000 then of_nat (0xE0 + unat u div 64 ^ 2) # conts 2 (unat u)
      else of_nat (0xF0 + unat u div 64 ^ 3) # conts 3 (unat u))"
  by (simp add: utf8_def Let_def)

text \<open>The lead byte \<^verbatim>\<open>x\<close> of a code point \<^verbatim>\<open>n\<close> with upper bits \<^verbatim>\<open>q\<close>.\<close>

lemma div_mod_nat_iff: "0 < b \<Longrightarrow> x div b = a \<and> q = x mod b \<longleftrightarrow> q < b \<and> x = a * b + q" for x :: nat
  using div_mult_mod_eq [of x b] by auto

lemmas lead = div_mod_nat_iff [of 32 _ 6, simplified] div_mod_nat_iff [of 16 _ 14, simplified] div_mod_nat_iff [of 8 _ 30, simplified]

lemma quotient_less:
  "n div 64 < 32 \<longleftrightarrow> n < 0x800" "n div 64 ^ 2 < 16 \<longleftrightarrow> n < 0x10000" "n div 64 ^ 3 < 8 \<longleftrightarrow> n < 0x200000" for n :: nat
  by (simp_all add: div_less_iff_less_mult)

lemma of_nat_byte: "x < 256 \<Longrightarrow> of_nat x = c \<longleftrightarrow> unat c = x" for c :: byte
  by (auto simp: unat_of_nat)

lemma code_point_le: "is_valid_code_point u \<Longrightarrow> unat u \<le> 0x10ffff"
  by (auto simp: is_valid_code_point_def word_le_nat_alt not_less)

lemma utf8_Cons:
  assumes "is_valid_code_point u"
  shows "c # cs = utf8 u @ rest \<longleftrightarrow>
    (unat c < 0x80 \<and> unat u = unat c \<and> cs = rest) \<or>
    (unat c div 32 = 6 \<and> 0x80 \<le> unat u \<and> unat u div 64 = unat c mod 32 \<and> cs = conts 1 (unat u) @ rest) \<or>
    (unat c div 16 = 14 \<and> 0x800 \<le> unat u \<and> unat u div 64 ^ 2 = unat c mod 16 \<and> cs = conts 2 (unat u) @ rest) \<or>
    (unat c div 8 = 30 \<and> 0x10000 \<le> unat u \<and> unat u div 64 ^ 3 = unat c mod 8 \<and> cs = conts 3 (unat u) @ rest)"
proof -
  have u: "unat u \<le> 0x10ffff"
    using assms by (rule code_point_le)
  have lead': "unat c div 32 = 6 \<and> unat u div 64 = unat c mod 32 \<longleftrightarrow> unat u < 0x800 \<and> unat c = 0xC0 + unat u div 64"
    "unat c div 16 = 14 \<and> unat u div 64 ^ 2 = unat c mod 16 \<longleftrightarrow> unat u < 0x10000 \<and> unat c = 0xE0 + unat u div 64 ^ 2"
    "unat c div 8 = 30 \<and> unat u div 64 ^ 3 = unat c mod 8 \<longleftrightarrow> unat c = 0xF0 + unat u div 64 ^ 3"
    using lead [of "unat c"] quotient_less [of "unat u"] u by auto
  consider "unat u < 0x80" | "0x80 \<le> unat u" "unat u < 0x800" | "0x800 \<le> unat u" "unat u < 0x10000" | "0x10000 \<le> unat u"
    by linarith
  then show ?thesis
  proof cases
    case 1
    then have "c # cs = utf8 u @ rest \<longleftrightarrow> unat c = unat u \<and> cs = rest"
      using of_nat_byte [of "unat u" c] by (auto simp: utf8_cases)
    then show ?thesis
      using 1 by auto
  next
    case 2
    then have "c # cs = utf8 u @ rest \<longleftrightarrow> unat c = 0xC0 + unat u div 64 \<and> cs = conts 1 (unat u) @ rest"
      using of_nat_byte [of "0xC0 + unat u div 64" c] quotient_less(1) [of "unat u"] by (auto simp: utf8_cases simp del: of_nat_add)
    moreover have "\<not> unat u < 0x80" "\<not> 0x800 \<le> unat u" "\<not> 0x10000 \<le> unat u"
      using 2 by simp_all
    ultimately show ?thesis
      using 2 lead'(1) by metis
  next
    case 3
    then have "c # cs = utf8 u @ rest \<longleftrightarrow> unat c = 0xE0 + unat u div 64 ^ 2 \<and> cs = conts 2 (unat u) @ rest"
      using of_nat_byte [of "0xE0 + unat u div 64 ^ 2" c] quotient_less(2) [of "unat u"] by (auto simp: utf8_cases simp del: of_nat_add)
    moreover have "\<not> unat u < 0x80" "\<not> unat u < 0x800" "\<not> 0x10000 \<le> unat u"
      using 3 by simp_all
    ultimately show ?thesis
      using 3 lead'(1,2) by metis
  next
    case 4
    then have "c # cs = utf8 u @ rest \<longleftrightarrow> unat c = 0xF0 + unat u div 64 ^ 3 \<and> cs = conts 3 (unat u) @ rest"
      using of_nat_byte [of "0xF0 + unat u div 64 ^ 3" c] quotient_less(3) [of "unat u"] u by (auto simp: utf8_cases simp del: of_nat_add)
    moreover have "\<not> unat u < 0x80" "\<not> unat u < 0x800" "\<not> unat u < 0x10000"
      using 4 by simp_all
    ultimately show ?thesis
      using 4 lead' by metis
  qed
qed

lemma unat_and_less: "unat (u AND v) \<le> unat u" for u v :: "'a::len word"
  by (metis word_and_le2 word_le_nat_alt)

lemma lead_bits:
  "unat (ucast (c AND 31 :: byte) :: u32) = unat c mod 32" "unat (ucast (c AND 15 :: byte) :: u32) = unat c mod 16"
  "unat (ucast (c AND 7 :: byte) :: u32) = unat c mod 8"
  by (simp_all add: low_bits)

lemma get_utf8_Cons:
  "CBS_get_utf8 (c # cs) = (Some u, rest) \<longleftrightarrow> is_valid_code_point u \<and>
    ((unat c < 0x80 \<and> unat u = unat c \<and> cs = rest) \<or>
    (unat c div 32 = 6 \<and> 0x80 \<le> unat u \<and> unat u div 64 = unat c mod 32 \<and> cs = conts 1 (unat u) @ rest) \<or>
    (unat c div 16 = 14 \<and> 0x800 \<le> unat u \<and> unat u div 64 ^ 2 = unat c mod 16 \<and> cs = conts 2 (unat u) @ rest) \<or>
    (unat c div 8 = 30 \<and> 0x10000 \<le> unat u \<and> unat u div 64 ^ 3 = unat c mod 8 \<and> cs = conts 3 (unat u) @ rest))"
proof -
  have g: "CBS_get_utf8 (c # cs) =
      (if unat c < 0x80 then (Some (ucast c), cs)
       else if unat c div 32 = 6 then utf8_multi 1 (ucast (c AND 31)) 0x80 cs
       else if unat c div 16 = 14 then utf8_multi 2 (ucast (c AND 15)) 0x800 cs
       else if unat c div 8 = 30 then utf8_multi 3 (ucast (c AND 7)) 0x10000 cs
       else (None, cs))"
    by (simp add: CBS_get_utf8_def byte_masks word_le_nat_alt reject_def succeed_def less_Suc_eq_le)
  have m: "utf8_multi 1 (ucast (c AND 31)) 0x80 cs = (Some u, rest) \<longleftrightarrow>
      is_valid_code_point u \<and> 0x80 \<le> unat u \<and> unat u div 64 = unat c mod 32 \<and> cs = conts 1 (unat u) @ rest"
    "utf8_multi 2 (ucast (c AND 15)) 0x800 cs = (Some u, rest) \<longleftrightarrow>
      is_valid_code_point u \<and> 0x800 \<le> unat u \<and> unat u div 64 ^ 2 = unat c mod 16 \<and> cs = conts 2 (unat u) @ rest"
    "utf8_multi 3 (ucast (c AND 7)) 0x10000 cs = (Some u, rest) \<longleftrightarrow>
      is_valid_code_point u \<and> 0x10000 \<le> unat u \<and> unat u div 64 ^ 3 = unat c mod 8 \<and> cs = conts 3 (unat u) @ rest"
    using multi_iff [of "ucast (c AND 31)" 1 "0x80" cs u rest] multi_iff [of "ucast (c AND 15)" 2 "0x800" cs u rest]
      multi_iff [of "ucast (c AND 7)" 3 "0x10000" cs u rest]
      mod_less_divisor [of 32 "unat c"] mod_less_divisor [of 16 "unat c"] mod_less_divisor [of 8 "unat c"]
    unfolding lead_bits by (simp_all add: word_le_nat_alt)
  have one: "(Some (ucast c), cs) = (Some u, rest) \<longleftrightarrow> unat u = unat c \<and> cs = rest"
    by (auto simp: word_unat_eq_iff)
  have small: "is_valid_code_point u" if "unat u = unat c" "unat c < 0x80"
  proof -
    have "unat u < 0x80"
      using that by simp
    then have "unat (u AND 0xfffe) < 0x80"
      using unat_and_less [of u "0xfffe"] by simp
    then have "u AND 0xfffe \<noteq> 0xfffe"
      by auto
    then show ?thesis
      using \<open>unat u < 0x80\<close> by (simp add: is_valid_code_point_def word_le_nat_alt word_less_nat_alt)
  qed
  have excl: "unat c < 0x80 \<Longrightarrow> unat c div 32 \<noteq> 6 \<and> unat c div 16 \<noteq> 14 \<and> unat c div 8 \<noteq> 30"
    "unat c div 32 = 6 \<Longrightarrow> unat c div 16 \<noteq> 14 \<and> unat c div 8 \<noteq> 30" "unat c div 16 = 14 \<Longrightarrow> unat c div 8 \<noteq> 30"
    by linarith+
  show ?thesis
    unfolding g using m one small excl by auto
qed

lemma get_utf8_iff:
  "CBS_get_utf8 cbs = (Some u, rest) \<longleftrightarrow> is_valid_code_point u \<and> cbs = utf8 u @ rest"
proof (cases cbs)
  case (Cons c cs)
  show ?thesis
    unfolding Cons get_utf8_Cons using utf8_Cons [of u c cs rest] by argo
qed (simp add: CBS_get_utf8_def bind_reader_def utf8_def Let_def)

section \<open>The writers\<close>

lemma or_bits:
  fixes x y :: u32
  assumes "unat x < 2 ^ k" and "take_bit k y = 0" and "unat y + unat x < 2 ^ 32"
  shows "ucast (y OR x) = (of_nat (unat y + unat x) :: byte)"
proof -
  have "\<not> (bit y n \<and> bit x n)" for n
    using unat_less_imp_bit_less [OF assms(1), of n] assms(2) by (metis bit_0_eq bit_take_bit_iff bot_apply bot_bool_def)
  then have "y AND x = 0"
    by (auto intro!: bit_word_eqI simp: bit_simps)
  then have "y OR x = y + x"
    by (rule disjunctive_add_eq_or [symmetric])
  then have "unat (y OR x) = unat y + unat x"
    using assms(3) by (simp add: unat_word_ariths)
  then show ?thesis
    by (metis of_nat_unat)
qed

lemma cont_bits: "ucast (0x80 OR (w AND 63)) = (of_nat (0x80 + unat w mod 64) :: byte)" for w :: u32
  using or_bits [of "w AND 63" 6 "0x80"] by (simp add: low_bits take_bit_eq_mask mask_eq_exp_minus_1)

lemma lead_or:
  "unat w < 32 \<Longrightarrow> ucast (ucast (0xC0 :: byte) OR w) = (of_nat (0xC0 + unat w) :: byte)"
  "unat w < 16 \<Longrightarrow> ucast (ucast (0xE0 :: byte) OR w) = (of_nat (0xE0 + unat w) :: byte)"
  "unat w < 8 \<Longrightarrow> ucast (ucast (0xF0 :: byte) OR w) = (of_nat (0xF0 + unat w) :: byte)" for w :: u32
  using or_bits [of w 5 "0xC0"] or_bits [of w 4 "0xE0"] or_bits [of w 3 "0xF0"]
  by (simp_all add: take_bit_eq_mask mask_eq_exp_minus_1)

lemma and_then_assoc: "and_then (and_then r p) q = and_then r (\<lambda>st. and_then (p st) q)"
  by (cases r) (auto simp: and_then_def)

lemma and_then_True: "and_then r (\<lambda>st. Some (True, st)) = r"
  by (cases r) (auto simp: and_then_def)

lemma add_each_Cons: "add_each h (b # bs) = (\<lambda>st. and_then (CBB_add_u8 h b st) (add_each h bs))" "add_each h [] = (\<lambda>st. Some (True, st))"
  by (rule ext, simp)+

lemma conts_short:
  "conts 1 n = [of_nat (0x80 + n mod 64)]" "conts 2 n = [of_nat (0x80 + n div 64 mod 64), of_nat (0x80 + n mod 64)]"
  "conts 3 n = [of_nat (0x80 + n div 4096 mod 64), of_nat (0x80 + n div 64 mod 64), of_nat (0x80 + n mod 64)]"
  unfolding numeral_2_eq_2 numeral_3_eq_3 One_nat_def by (simp_all add: div_mult2_eq [symmetric] del: of_nat_add)

lemma length_conts [simp]: "length (conts k n) = k"
  by (induction k arbitrary: n) simp_all

lemma CBB_add_utf8_eq:
  assumes "is_valid_code_point u"
  shows "CBB_add_utf8 h u st = add_each h (utf8 u) st"
proof -
  note u = code_point_le [OF assms]
  have le: "u \<le> 0x7f \<longleftrightarrow> unat u < 0x80" "u \<le> 0x7ff \<longleftrightarrow> unat u < 0x800" "u \<le> 0xffff \<longleftrightarrow> unat u < 0x10000" "u \<le> 0x10ffff"
    using u by (simp_all add: word_le_nat_alt) linarith+
  have q: "unat (drop_bit 6 u) = unat u div 64" "unat (drop_bit 12 u) = unat u div 4096" "unat (drop_bit 18 u) = unat u div 262144"
    by (simp_all add: unat_drop_bit_div)
  consider "unat u < 0x80" | "0x80 \<le> unat u" "unat u < 0x800" | "0x800 \<le> unat u" "unat u < 0x10000" | "0x10000 \<le> unat u"
    by linarith
  then show ?thesis
  proof cases
    case 1
    then show ?thesis
      using assms le by (simp add: CBB_add_utf8_def utf8_cases add_each_Cons and_then_True)
  next
    case 2
    then have "ucast (ucast (0xC0 :: byte) OR drop_bit 6 u) = (of_nat (0xC0 + unat u div 64) :: byte)"
      using lead_or(1) [of "drop_bit 6 u"] quotient_less(1) [of "unat u"] by (simp add: q)
    then show ?thesis
      using 2 assms le by (simp add: CBB_add_utf8_def utf8_cases conts_short cont_bits add_each_Cons and_then_True del: of_nat_add)
  next
    case 3
    then have "ucast (ucast (0xE0 :: byte) OR drop_bit 12 u) = (of_nat (0xE0 + unat u div 64 ^ 2) :: byte)"
      using lead_or(2) [of "drop_bit 12 u"] quotient_less(2) [of "unat u"] by (simp add: q)
    then show ?thesis
      using 3 assms le by (simp add: CBB_add_utf8_def utf8_cases conts_short cont_bits q add_each_Cons and_then_assoc and_then_True del: of_nat_add)
  next
    case 4
    then have "ucast (ucast (0xF0 :: byte) OR drop_bit 18 u) = (of_nat (0xF0 + unat u div 64 ^ 3) :: byte)"
      using lead_or(3) [of "drop_bit 18 u"] quotient_less(3) [of "unat u"] u by (simp add: q)
    then show ?thesis
      using 4 assms le by (simp add: CBB_add_utf8_def utf8_cases conts_short cont_bits q add_each_Cons and_then_assoc and_then_True del: of_nat_add)
  qed
qed

lemma utf8_not_Nil: "utf8 u \<noteq> []"
  by (simp add: utf8_cases)

interpretation w_utf8: wire_format utf8 CBS_get_utf8 is_valid_code_point CBB_add_utf8
proof unfold_locales
  show "CBS_get_utf8 (utf8 u @ rest) = (Some u, rest)" if "is_valid_code_point u" for u rest
    using that get_utf8_iff by blast
  show "is_valid_code_point u \<and> cbs = utf8 u @ rest" if "CBS_get_utf8 cbs = (Some u, rest)" for cbs u rest
    using that get_utf8_iff by blast
  show "appends h (pre @ closed fs @ utf8 u) [] (set (map handle fs)) True st (CBB_add_utf8 h u st)"
    if "owns st h pre fs" "fits fs" "is_valid_code_point u" for st h pre fs u
    unfolding CBB_add_utf8_eq [OF that(3)] by (rule add_each_open [OF that(1,2) utf8_not_Nil])
qed

lemma length_utf8: "is_valid_code_point u \<Longrightarrow> length (utf8 u) = unat (CBB_get_utf8_len u)"
  by (auto simp: utf8_cases CBB_get_utf8_len_def word_le_nat_alt)

section \<open>The other encodings\<close>

lemma narrow_widen: "u \<le> 0xff \<Longrightarrow> ucast (ucast u :: byte) = u" "u \<le> 0xffff \<Longrightarrow> ucast (ucast u :: u16) = u" for u :: u32
  by (simp_all add: word_unat_eq_iff unat_ucast_narrow word_le_nat_alt)

lemma widened: "ucast c \<le> (0xff :: u32)" "ucast (ucast c :: u32) = c" "ucast d \<le> (0xffff :: u32)" "ucast (ucast d :: u32) = d"
  for c :: byte and d :: u16
proof -
  have "unat c < 2 ^ 8" "unat d < 2 ^ 16"
    using unsigned_less [of c, where 'a = nat] unsigned_less [of d, where 'a = nat] by simp_all
  then show "ucast c \<le> (0xff :: u32)" "ucast d \<le> (0xffff :: u32)"
    unfolding word_le_nat_alt unat_ucast_widths by (simp_all del: byte_less)
qed (rule bit_word_eqI; auto simp: bit_simps)+

interpretation w_latin1: wire_format "\<lambda>u. [ucast u]" CBS_get_latin1 "\<lambda>u. u \<le> 0xff" CBB_add_latin1
proof unfold_locales
  show "CBS_get_latin1 ([ucast u] @ rest) = (Some u, rest)" if "u \<le> 0xff" for u rest
    using that narrow_widen(1) by (simp add: CBS_get_latin1_def map_reader_def succeed_def)
  show "u \<le> 0xff \<and> cbs = [ucast u] @ rest" if r: "CBS_get_latin1 cbs = (Some u, rest)" for cbs u rest
  proof -
    obtain c :: byte where "cbs = [c] @ rest" "u = ucast c"
      using r unfolding CBS_get_latin1_def map_reader_Some_iff u8.dec_iff by blast
    then show ?thesis
      using widened(1,2) [of c] by simp
  qed
  show "appends h (pre @ closed fs @ [ucast u]) [] (set (map handle fs)) True st (CBB_add_latin1 h u st)"
    if "owns st h pre fs" "fits fs" "u \<le> 0xff" for st h pre fs u
    using w8.add_appends [OF that(1,2)] that(3) by (simp add: CBB_add_latin1_def)
qed

interpretation w_ucs2: wire_format "\<lambda>u. be_bytes 2 (ucast u :: u16)" CBS_get_ucs2_be "\<lambda>u. u \<le> 0xffff \<and> is_valid_code_point u" CBB_add_ucs2_be
proof unfold_locales
  show "CBS_get_ucs2_be (be_bytes 2 (ucast u :: u16) @ rest) = (Some u, rest)" if "u \<le> 0xffff \<and> is_valid_code_point u" for u rest
    using that narrow_widen(2) by (simp add: CBS_get_ucs2_be_def u16.bind_enc succeed_def)
  show "(u \<le> 0xffff \<and> is_valid_code_point u) \<and> cbs = be_bytes 2 (ucast u :: u16) @ rest" if r: "CBS_get_ucs2_be cbs = (Some u, rest)" for cbs u rest
  proof -
    obtain c :: u16 where "cbs = be_bytes 2 c @ rest" "u = ucast c" "is_valid_code_point u"
      using r by (auto simp: CBS_get_ucs2_be_def succeed_def reject_def u16.dec_iff dest!: bind_reader_SomeD split: if_splits)
    then show ?thesis
      using widened(3,4) [of c] by simp
  qed
  show "appends h (pre @ closed fs @ be_bytes 2 (ucast u :: u16)) [] (set (map handle fs)) True st (CBB_add_ucs2_be h u st)"
    if "owns st h pre fs" "fits fs" "u \<le> 0xffff \<and> is_valid_code_point u" for st h pre fs u
    using w16.add_appends [OF that(1,2)] that(3) by (simp add: CBB_add_ucs2_be_def)
qed

interpretation w_utf32: wire_format "be_bytes 4" CBS_get_utf32_be is_valid_code_point CBB_add_utf32_be
proof unfold_locales
  show "CBS_get_utf32_be (be_bytes 4 u @ rest) = (Some u, rest)" if "is_valid_code_point u" for u rest
    using that by (simp add: CBS_get_utf32_be_def u32.bind_enc succeed_def)
  show "is_valid_code_point u \<and> cbs = be_bytes 4 u @ rest" if "CBS_get_utf32_be cbs = (Some u, rest)" for cbs u rest
    using that by (auto simp: CBS_get_utf32_be_def succeed_def reject_def dest!: bind_reader_SomeD u32.enc_dec split: if_splits)
  show "appends h (pre @ closed fs @ be_bytes 4 u) [] (set (map handle fs)) True st (CBB_add_utf32_be h u st)"
    if "owns st h pre fs" "fits fs" "is_valid_code_point u" for st h pre fs u
    using w32.add_appends [OF that(1,2)] that(3) by (simp add: CBB_add_utf32_be_def)
qed

end
