(* ===== verification/HeapSort.thy ===== *)
theory HeapSort
  imports Main "HOL-Library.Multiset"
begin

text \<open>
  Comparison functions in the style of \<^verbatim>\<open>qsort\<close>, and the algorithms of \<^verbatim>\<open>stack.c\<close> that rely on one, on lists:
  heap sort in place and binary search. The results of a comparison count by their sign only.
\<close>

section \<open>Comparison functions\<close>

locale comparator =
  fixes cmp :: "'a \<Rightarrow> 'a \<Rightarrow> int"
  assumes cmp_swap: "cmp x y < 0 \<longleftrightarrow> 0 < cmp y x"
    and cmp_trans: "cmp x y \<le> 0 \<Longrightarrow> cmp y z \<le> 0 \<Longrightarrow> cmp x z \<le> 0"
begin

lemma cmp_refl [simp]: "cmp x x = 0"
  using cmp_swap [of x x] by linarith

lemma cmp_total: "cmp x y \<le> 0 \<or> cmp y x \<le> 0"
  using cmp_swap [of x y] by auto

lemma not_le_iff: "\<not> cmp x y \<le> 0 \<longleftrightarrow> cmp y x < 0"
  using cmp_swap [of y x] by auto

lemma less_imp_le: "cmp x y < 0 \<Longrightarrow> cmp x y \<le> 0"
  by simp

end

abbreviation ascending :: "('a \<Rightarrow> 'a \<Rightarrow> int) \<Rightarrow> 'a list \<Rightarrow> bool" where
  "ascending cmp \<equiv> sorted_wrt (\<lambda>x y. cmp x y \<le> 0)"

section \<open>The heap\<close>

text \<open>Sifting down the element at \<^verbatim>\<open>i\<close> in the heap of the first \<^verbatim>\<open>n\<close> elements.\<close>

definition larger_child :: "('a \<Rightarrow> 'a \<Rightarrow> int) \<Rightarrow> 'a list \<Rightarrow> nat \<Rightarrow> nat \<Rightarrow> nat" where
  "larger_child cmp xs i n =
     (let left = 2 * i + 1;
          next = (if cmp (xs ! i) (xs ! left) < 0 then left else i)
      in if left + 1 < n \<and> cmp (xs ! next) (xs ! (left + 1)) < 0 then left + 1 else next)"

definition swap :: "nat \<Rightarrow> nat \<Rightarrow> 'a list \<Rightarrow> 'a list" where
  "swap i j xs = xs[i := xs ! j, j := xs ! i]"

lemma larger_child_cases: "larger_child cmp xs i n \<in> {i, 2 * i + 1, 2 * i + 2}"
  by (simp add: larger_child_def Let_def)

function sift :: "('a \<Rightarrow> 'a \<Rightarrow> int) \<Rightarrow> nat \<Rightarrow> nat \<Rightarrow> 'a list \<Rightarrow> 'a list" where
  "sift cmp i n xs =
     (if n \<le> 2 * i + 1 then xs
      else if larger_child cmp xs i n = i then xs
      else sift cmp (larger_child cmp xs i n) n (swap i (larger_child cmp xs i n) xs))"
  by pat_completeness auto
termination
proof (relation "measure (\<lambda>(cmp, i, n, xs). n - i)")
  fix cmp :: "'a \<Rightarrow> 'a \<Rightarrow> int" and i n and xs :: "'a list"
  assume "\<not> n \<le> 2 * i + 1" "larger_child cmp xs i n \<noteq> i"
  then show "((cmp, larger_child cmp xs i n, n, swap i (larger_child cmp xs i n) xs), (cmp, i, n, xs)) \<in> measure (\<lambda>(cmp, i, n, xs). n - i)"
    using larger_child_cases [of cmp xs i n] by auto
qed simp

declare sift.simps [simp del]

fun build_heap :: "('a \<Rightarrow> 'a \<Rightarrow> int) \<Rightarrow> nat \<Rightarrow> nat \<Rightarrow> 'a list \<Rightarrow> 'a list" where
  "build_heap cmp 0 n xs = xs"
| "build_heap cmp (Suc i) n xs = build_heap cmp i n (sift cmp i n xs)"

fun take_maxima :: "('a \<Rightarrow> 'a \<Rightarrow> int) \<Rightarrow> nat \<Rightarrow> 'a list \<Rightarrow> 'a list" where
  "take_maxima cmp 0 xs = xs"
| "take_maxima cmp (Suc i) xs = take_maxima cmp i (sift cmp 0 (Suc i) (swap 0 (Suc i) xs))"

lemma length_swap [simp]: "length (swap i j xs) = length xs"
  by (simp add: swap_def)

lemma mset_swap: "i < length xs \<Longrightarrow> j < length xs \<Longrightarrow> mset (swap i j xs) = mset xs"
  by (simp add: swap_def mset_swap)

lemma nth_swap: "i < length xs \<Longrightarrow> j < length xs \<Longrightarrow> swap i j xs ! k = (if k = j then xs ! i else if k = i then xs ! j else xs ! k)"
  by (auto simp: swap_def nth_list_update)

text \<open>Sifting permutes the first \<^verbatim>\<open>n\<close> elements.\<close>

lemma sift_perm:
  "i < n \<Longrightarrow> n \<le> length xs \<Longrightarrow> length (sift cmp i n xs) = length xs \<and> drop n (sift cmp i n xs) = drop n xs \<and>
   mset (take n (sift cmp i n xs)) = mset (take n xs)"
proof (induction cmp i n xs rule: sift.induct)
  case (1 cmp i n xs)
  show ?case
  proof (cases "n \<le> 2 * i + 1 \<or> larger_child cmp xs i n = i")
    case False
    let ?c = "larger_child cmp xs i n"
    have c: "?c < n"
      using False larger_child_cases [of cmp xs i n] 1(2) by (auto simp: larger_child_def Let_def split: if_splits)
    have "sift cmp i n xs = sift cmp ?c n (swap i ?c xs)"
      using False by (simp add: sift.simps [of cmp i n xs])
    moreover have "take n (swap i ?c xs) = swap i ?c (take n xs)" "drop n (swap i ?c xs) = drop n xs"
      using c 1(2) by (simp_all add: swap_def take_update_swap)
    ultimately show ?thesis
      using 1(1) False c 1(2,3) mset_swap [of i "take n xs" ?c] by simp
  qed (auto simp: sift.simps [of cmp i n xs])
qed

context comparator
begin

text \<open>The heap property of the edges below the parents from \<^verbatim>\<open>k\<close> on.\<close>

definition heap_from :: "nat \<Rightarrow> nat \<Rightarrow> 'a list \<Rightarrow> bool" where
  "heap_from k n xs \<longleftrightarrow> (\<forall>j. 0 < j \<longrightarrow> j < n \<longrightarrow> k \<le> (j - 1) div 2 \<longrightarrow> cmp (xs ! j) (xs ! ((j - 1) div 2)) \<le> 0)"

text \<open>The same with a hole at \<^verbatim>\<open>i\<close>, whose children are below the parent of \<^verbatim>\<open>i\<close>.\<close>

definition heap_hole :: "nat \<Rightarrow> nat \<Rightarrow> nat \<Rightarrow> 'a list \<Rightarrow> bool" where
  "heap_hole i k n xs \<longleftrightarrow>
     (\<forall>j. 0 < j \<longrightarrow> j < n \<longrightarrow> k \<le> (j - 1) div 2 \<longrightarrow> (j - 1) div 2 \<noteq> i \<longrightarrow> cmp (xs ! j) (xs ! ((j - 1) div 2)) \<le> 0) \<and>
     (\<forall>j. 0 < j \<longrightarrow> j < n \<longrightarrow> (j - 1) div 2 = i \<longrightarrow> 0 < i \<longrightarrow> k \<le> (i - 1) div 2 \<longrightarrow> cmp (xs ! j) (xs ! ((i - 1) div 2)) \<le> 0)"

lemma parent_iff: "0 < j \<Longrightarrow> (j - 1) div 2 = i \<longleftrightarrow> j = 2 * i + 1 \<or> j = 2 * i + 2" for i j :: nat
  by (cases j) auto

lemma larger_child:
  assumes "j = i \<or> j = 2 * i + 1 \<or> j = 2 * i + 2 \<and> j < n"
  shows "cmp (xs ! j) (xs ! larger_child cmp xs i n) \<le> 0"
proof -
  let ?l = "2 * i + 1" and ?r = "2 * i + 2"
  define m where "m = (if cmp (xs ! i) (xs ! ?l) < 0 then ?l else i)"
  have m: "cmp (xs ! i) (xs ! m) \<le> 0" "cmp (xs ! ?l) (xs ! m) \<le> 0"
    using not_le_iff [of "xs ! ?l" "xs ! i"] by (auto simp: m_def)
  have c: "larger_child cmp xs i n = (if ?r < n \<and> cmp (xs ! m) (xs ! ?r) < 0 then ?r else m)"
    by (simp add: larger_child_def m_def Let_def)
  show ?thesis
  proof (cases "?r < n \<and> cmp (xs ! m) (xs ! ?r) < 0")
    case True
    then have "cmp (xs ! m) (xs ! ?r) \<le> 0"
      by simp
    with m have "cmp (xs ! i) (xs ! ?r) \<le> 0" "cmp (xs ! ?l) (xs ! ?r) \<le> 0"
      by (blast intro: cmp_trans)+
    then show ?thesis
      using True assms unfolding c by auto
  next
    case False
    then have "?r < n \<Longrightarrow> cmp (xs ! ?r) (xs ! m) \<le> 0"
      using not_le_iff [of "xs ! ?r" "xs ! m"] by blast
    then show ?thesis
      using False assms m unfolding c by auto
  qed
qed

lemma hole_step:
  assumes hole: "heap_hole i k n xs" and i: "k \<le> i" "i < n" "n \<le> length xs" "2 * i + 1 < n"
    and c: "c = larger_child cmp xs i n" "c \<noteq> i"
  shows "heap_hole c k n (swap i c xs)"
proof -
  have cc: "c = 2 * i + 1 \<or> c = 2 * i + 2" "c < n"
    using c larger_child_cases [of cmp xs i n] i(4) by (auto simp: larger_child_def Let_def split: if_splits)
  have nth: "swap i c xs ! j = (if j = c then xs ! i else if j = i then xs ! c else xs ! j)" for j
    using cc i(2,3) by (intro nth_swap) simp_all
  have up: "cmp (xs ! j) (xs ! ((j - 1) div 2)) \<le> 0" if "0 < j" "j < n" "k \<le> (j - 1) div 2" "(j - 1) div 2 \<noteq> i" for j
    using hole that by (simp add: heap_hole_def)
  have grand: "cmp (xs ! c) (xs ! ((i - 1) div 2)) \<le> 0" if "0 < i" "k \<le> (i - 1) div 2"
    using hole that cc parent_iff [of c i] by (auto simp: heap_hole_def)
  have "cmp (swap i c xs ! j) (swap i c xs ! ((j - 1) div 2)) \<le> 0"
    if j: "0 < j" "j < n" "k \<le> (j - 1) div 2" "(j - 1) div 2 \<noteq> c" for j
  proof (cases "(j - 1) div 2 = i")
    case True
    then have "j = i \<or> j = 2 * i + 1 \<or> j = 2 * i + 2 \<and> j < n" "j \<noteq> i"
      using j parent_iff [of j i] by auto
    then show ?thesis
      using larger_child [of j i n xs] larger_child [of i i n xs] True unfolding nth c(1) [symmetric] by simp
  next
    case False
    show ?thesis
    proof (cases "j = i")
      case True
      then show ?thesis
        using grand j False cc unfolding nth by auto
    next
      case False
      have "j \<noteq> c"
        using cc(1) \<open>(j - 1) div 2 \<noteq> i\<close> by auto
      then show ?thesis
        using up [OF j(1-3) \<open>(j - 1) div 2 \<noteq> i\<close>] False j(4) \<open>(j - 1) div 2 \<noteq> i\<close> unfolding nth by simp
    qed
  qed
  moreover have "cmp (swap i c xs ! j) (swap i c xs ! ((c - 1) div 2)) \<le> 0" if j: "0 < j" "j < n" "(j - 1) div 2 = c" for j
  proof -
    have p: "(c - 1) div 2 = i"
      using cc by auto
    have "j \<noteq> c" "j \<noteq> i" "c \<noteq> i" "k \<le> c"
      using j cc i(1) by auto
    then show ?thesis
      using up [OF j(1,2)] j(3) unfolding p nth by simp
  qed
  ultimately show ?thesis
    by (simp add: heap_hole_def)
qed

lemma sift_heap:
  "heap_hole i k n xs \<Longrightarrow> k \<le> i \<Longrightarrow> i < n \<Longrightarrow> n \<le> length xs \<Longrightarrow> heap_from k n (sift cmp i n xs)"
proof (induction "n - i" arbitrary: i xs rule: less_induct)
  case less
  note hole = less.prems(1)
  show ?case
  proof (cases "n \<le> 2 * i + 1")
    case True
    then have "(j - 1) div 2 \<noteq> i" if "0 < j" "j < n" for j
      using that parent_iff [of j i] by auto
    then show ?thesis
      using True hole by (simp add: sift.simps [of cmp i n xs] heap_from_def heap_hole_def)
  next
    case False
    let ?c = "larger_child cmp xs i n"
    show ?thesis
    proof (cases "?c = i")
      case True
      have "cmp (xs ! j) (xs ! i) \<le> 0" if "0 < j" "j < n" "(j - 1) div 2 = i" for j
        using larger_child [of j i n xs] that parent_iff [of j i] by (auto simp: True)
      then show ?thesis
        using True hole by (auto simp: sift.simps [of cmp i n xs] heap_from_def heap_hole_def)
    next
      case c: False
      have "?c < n" "i < ?c"
        using c False larger_child_cases [of cmp xs i n] by (auto simp: larger_child_def Let_def split: if_splits)
      moreover have "heap_hole ?c k n (swap i ?c xs)"
        using False less.prems c by (intro hole_step) simp_all
      ultimately have "heap_from k n (sift cmp ?c n (swap i ?c xs))"
        using less.prems by (intro less.hyps) simp_all
      then show ?thesis
        using False c by (simp add: sift.simps [of cmp i n xs])
    qed
  qed
qed

lemma build_heap:
  "heap_from i n xs \<Longrightarrow> i \<le> n \<Longrightarrow> n \<le> length xs \<Longrightarrow>
   heap_from 0 n (build_heap cmp i n xs) \<and> length (build_heap cmp i n xs) = length xs \<and>
   drop n (build_heap cmp i n xs) = drop n xs \<and> mset (take n (build_heap cmp i n xs)) = mset (take n xs)"
proof (induction i arbitrary: xs)
  case (Suc i)
  have "\<not> (0 < i \<and> i \<le> (i - 1) div 2)"
    by auto
  then have "heap_hole i i n xs"
    using Suc.prems(1) unfolding heap_from_def heap_hole_def by (metis Suc_leI le_neq_implies_less)
  then have "heap_from i n (sift cmp i n xs)"
    using Suc.prems by (intro sift_heap) simp_all
  moreover have "length (sift cmp i n xs) = length xs" "drop n (sift cmp i n xs) = drop n xs"
      "mset (take n (sift cmp i n xs)) = mset (take n xs)"
    using sift_perm [of i n xs cmp] Suc.prems by simp_all
  ultimately show ?case
    using Suc.IH [of "sift cmp i n xs"] Suc.prems by simp
qed simp

lemma heap_max: "heap_from 0 n xs \<Longrightarrow> j < n \<Longrightarrow> cmp (xs ! j) (xs ! 0) \<le> 0"
proof (induction j rule: less_induct)
  case (less j)
  show ?case
  proof (cases "j = 0")
    case False
    then have "cmp (xs ! j) (xs ! ((j - 1) div 2)) \<le> 0"
      using less.prems by (simp add: heap_from_def)
    moreover have "(j - 1) div 2 < j"
      using False by simp
    ultimately show ?thesis
      using less.IH less.prems by (meson cmp_trans less_trans)
  qed simp
qed

text \<open>The maximum of the heap goes to its end; what is behind the heap is sorted and above it.\<close>

lemma take_maxima:
  "heap_from 0 (Suc i) xs \<Longrightarrow> i < length xs \<Longrightarrow> ascending cmp (drop (Suc i) xs) \<Longrightarrow>
   \<forall>x \<in> set (take (Suc i) xs). \<forall>y \<in> set (drop (Suc i) xs). cmp x y \<le> 0 \<Longrightarrow>
   ascending cmp (take_maxima cmp i xs) \<and> mset (take_maxima cmp i xs) = mset xs"
proof (induction i arbitrary: xs)
  case 0
  then have "ascending cmp (take 1 xs @ drop 1 xs)"
    by (cases xs) auto
  then show ?case
    by simp
next
  case (Suc i)
  let ?ys = "swap 0 (Suc i) xs"
  let ?zs = "sift cmp 0 (Suc i) ?ys"
  have len: "0 < length xs" "Suc i < length xs"
    using Suc.prems(2) by auto
  have perm: "length ?zs = length xs" "drop (Suc i) ?zs = drop (Suc i) ?ys" "mset (take (Suc i) ?zs) = mset (take (Suc i) ?ys)"
    using sift_perm [of 0 "Suc i" ?ys cmp] len by simp_all
  have nth: "?ys ! j = (if j = Suc i then xs ! 0 else if j = 0 then xs ! Suc i else xs ! j)" for j
    using len by (intro nth_swap)
  have "heap_hole 0 0 (Suc i) ?ys"
    using Suc.prems(1) unfolding heap_hole_def heap_from_def nth by auto
  then have heap: "heap_from 0 (Suc i) ?zs"
    using len by (intro sift_heap) simp_all
  have dr: "drop (Suc i) ?ys = xs ! 0 # drop (Suc (Suc i)) xs"
    using len nth Cons_nth_drop_Suc [of "Suc i" ?ys] by (simp add: swap_def)
  have tk: "set (take (Suc i) ?ys) \<subseteq> set (take (Suc (Suc i)) xs)" "\<forall>x \<in> set (take (Suc i) ?ys). cmp x (xs ! 0) \<le> 0"
  proof -
    have "\<exists>k < Suc (Suc i). x = xs ! k" if x: "x \<in> set (take (Suc i) ?ys)" for x
    proof -
      obtain j where "j < Suc i" "x = ?ys ! j"
        using x len by (auto simp: in_set_conv_nth)
      then show ?thesis
        unfolding nth by (cases "j = 0") (auto intro: less_SucI)
    qed
    then show "set (take (Suc i) ?ys) \<subseteq> set (take (Suc (Suc i)) xs)" "\<forall>x \<in> set (take (Suc i) ?ys). cmp x (xs ! 0) \<le> 0"
      using heap_max [OF Suc.prems(1)] len by (fastforce simp: in_set_conv_nth)+
  qed
  have "xs ! 0 \<in> set (take (Suc (Suc i)) xs)"
    using len by (cases xs) auto
  then have asc: "ascending cmp (drop (Suc i) ?zs)"
    using Suc.prems(3,4) unfolding perm(2) dr by simp
  have "set (take (Suc i) ?zs) = set (take (Suc i) ?ys)"
    using perm(3) by (metis set_mset_mset)
  then have "\<forall>x \<in> set (take (Suc i) ?zs). \<forall>y \<in> set (drop (Suc i) ?zs). cmp x y \<le> 0"
    using Suc.prems(4) tk unfolding perm(2) dr by auto
  from Suc.IH [OF heap _ asc this] have "ascending cmp (take_maxima cmp i ?zs)" "mset (take_maxima cmp i ?zs) = mset ?zs"
    using len perm(1) by simp_all
  moreover have "mset ?zs = mset xs"
    using perm(2,3) mset_swap [of 0 xs "Suc i"] len by (metis append_take_drop_id mset_append)
  ultimately show ?case
    by simp
qed

lemma heap_sort:
  assumes "2 \<le> n" and "n = length xs"
  shows "ascending cmp (take_maxima cmp (n - 1) (build_heap cmp ((n - 2) div 2 + 1) n xs)) \<and>
    mset (take_maxima cmp (n - 1) (build_heap cmp ((n - 2) div 2 + 1) n xs)) = mset xs"
proof -
  let ?ys = "build_heap cmp ((n - 2) div 2 + 1) n xs"
  have "heap_from ((n - 2) div 2 + 1) n xs"
    unfolding heap_from_def using div_le_mono [of _ "n - 2" 2] by fastforce
  moreover have "(n - 2) div 2 + 1 \<le> n"
    using assms(1) by linarith
  ultimately have "heap_from 0 n ?ys \<and> length ?ys = n \<and> mset (take n ?ys) = mset (take n xs)"
    using build_heap [of "(n - 2) div 2 + 1" n xs] assms(2) by blast
  then have b: "heap_from 0 n ?ys" "length ?ys = n" "mset ?ys = mset xs"
    using assms(2) by (metis order_refl take_all)+
  have "ascending cmp (take_maxima cmp (n - 1) ?ys) \<and> mset (take_maxima cmp (n - 1) ?ys) = mset ?ys"
    using b assms(1) by (intro take_maxima) simp_all
  then show ?thesis
    using b by simp
qed

end

end
