(* ===== verification/Stack.thy ===== *)
theory Stack
  imports Prelude HeapSort
begin

text \<open>
  BoringSSL's stack of pointers (\<^verbatim>\<open>crypto/stack/stack.c\<close>). A stack is a growing array of pointers with a flag
  that says whether it is sorted by its comparison function. Pointers are 64-bit words, 0 is \<^verbatim>\<open>NULL\<close>; a
  comparison function is known by its address too, and the argument \<^verbatim>\<open>call_cmp_func\<close> calls it. A stack that
  is \<^verbatim>\<open>NULL\<close> is \<^verbatim>\<open>None\<close>. The result \<^verbatim>\<open>None\<close> of an operation is an access outside the array or a failed
  assertion. The answers of the allocator are arguments: whether it succeeds, or the words that a block
  holds. The callbacks of the client transform a state of its own.
\<close>

section \<open>The code\<close>

lemma unat_plus_one: "i < n \<Longrightarrow> unat (i + 1) = unat i + 1" for i n :: size_t
  using unat_u64_less [of n] by (simp add: unat_word_ariths word_less_nat_alt)

record stack_st =
  st_num :: size_t
  st_data :: "addr list"
  st_sorted :: bool
  st_num_alloc :: size_t
  st_comp :: addr

type_synonym stack = "stack_st option"

type_synonym cmp_func = "addr \<Rightarrow> addr \<Rightarrow> addr \<Rightarrow> int"

definition kMinSize :: size_t where
  "kMinSize = 4"

text \<open>Reading and writing the array, and \<^verbatim>\<open>OPENSSL_memmove\<close> of \<^verbatim>\<open>n\<close> elements from \<^verbatim>\<open>b\<close> to \<^verbatim>\<open>a\<close>.\<close>

definition fetch :: "addr list \<Rightarrow> size_t \<Rightarrow> addr option" where
  "fetch xs i = (if unat i < length xs then Some (xs ! unat i) else None)"

definition put :: "addr list \<Rightarrow> size_t \<Rightarrow> addr \<Rightarrow> addr list option" where
  "put xs i v = (if unat i < length xs then Some (xs[unat i := v]) else None)"

definition move :: "addr list \<Rightarrow> size_t \<Rightarrow> size_t \<Rightarrow> size_t \<Rightarrow> addr list option" where
  "move xs a b n =
     (if unat a + unat n \<le> length xs \<and> unat b + unat n \<le> length xs
      then Some (take (unat a) xs @ take (unat n) (drop (unat b) xs) @ drop (unat a + unat n) xs)
      else None)"

definition OPENSSL_sk_new :: "bool \<Rightarrow> bool \<Rightarrow> addr \<Rightarrow> stack" where
  "OPENSSL_sk_new zalloc calloc cmp =
     (if \<not> zalloc \<or> \<not> calloc then None
      else Some \<lparr>st_num = 0, st_data = replicate (unat kMinSize) 0, st_sorted = False, st_num_alloc = kMinSize, st_comp = cmp\<rparr>)"

definition OPENSSL_sk_new_null :: "bool \<Rightarrow> bool \<Rightarrow> stack" where
  "OPENSSL_sk_new_null zalloc calloc = OPENSSL_sk_new zalloc calloc 0"

definition OPENSSL_sk_num :: "stack \<Rightarrow> size_t" where
  "OPENSSL_sk_num sk = (case sk of None \<Rightarrow> 0 | Some s \<Rightarrow> st_num s)"

definition OPENSSL_sk_zero :: "stack \<Rightarrow> stack option" where
  "OPENSSL_sk_zero sk =
     (case sk of
        None \<Rightarrow> Some None
      | Some s \<Rightarrow>
          if st_num s = 0 then Some sk
          else if length (st_data s) < unat (st_num s) then None
          else Some (Some (s\<lparr>st_data := replicate (unat (st_num s)) 0 @ drop (unat (st_num s)) (st_data s), st_num := 0, st_sorted := False\<rparr>)))"

definition OPENSSL_sk_value :: "stack \<Rightarrow> size_t \<Rightarrow> addr option" where
  "OPENSSL_sk_value sk i = (case sk of None \<Rightarrow> Some 0 | Some s \<Rightarrow> if i \<ge> st_num s then Some 0 else fetch (st_data s) i)"

definition OPENSSL_sk_set :: "stack \<Rightarrow> size_t \<Rightarrow> addr \<Rightarrow> (addr \<times> stack) option" where
  "OPENSSL_sk_set sk i v =
     (case sk of
        None \<Rightarrow> Some (0, None)
      | Some s \<Rightarrow>
          if i \<ge> st_num s then Some (0, sk)
          else map_option (\<lambda>d. (v, Some (s\<lparr>st_data := d\<rparr>))) (put (st_data s) i v))"

text \<open>The calls of the free function, in order.\<close>

definition OPENSSL_sk_pop_free_ex :: "stack \<Rightarrow> (addr \<Rightarrow> 'u \<Rightarrow> 'u) \<Rightarrow> 'u \<Rightarrow> 'u option" where
  "OPENSSL_sk_pop_free_ex sk call_free_func u =
     (case sk of
        None \<Rightarrow> Some u
      | Some s \<Rightarrow>
          if length (st_data s) < unat (st_num s) then None
          else Some (fold (\<lambda>p u. if p \<noteq> 0 then call_free_func p u else u) (take (unat (st_num s)) (st_data s)) u))"

text \<open>Room for one more element; \<^verbatim>\<open>None\<close> is the return value zero.\<close>

definition sk_grow :: "addr list option \<Rightarrow> stack_st \<Rightarrow> stack_st option" where
  "sk_grow realloc s =
     (if st_num_alloc s \<le> st_num s + 1 then
        (let n0 = push_bit 1 (st_num_alloc s);
             n1 = (if n0 < st_num_alloc s \<or> n0 * 8 div 8 \<noteq> n0 then st_num_alloc s + 1 else n0)
         in if n1 < st_num_alloc s \<or> n1 * 8 div 8 \<noteq> n1 then None
            else map_option (\<lambda>block. s\<lparr>st_data := take (unat n1) (st_data s @ block @ replicate (unat n1) 0), st_num_alloc := n1\<rparr>) realloc)
      else Some s)"

definition OPENSSL_sk_insert :: "addr list option \<Rightarrow> stack \<Rightarrow> addr \<Rightarrow> size_t \<Rightarrow> (size_t \<times> stack) option" where
  "OPENSSL_sk_insert realloc sk p wh =
     (case sk of
        None \<Rightarrow> Some (0, None)
      | Some s \<Rightarrow>
          if st_num s \<ge> INT_MAX then Some (0, sk)
          else
            (case sk_grow realloc s of
               None \<Rightarrow> Some (0, sk)
             | Some s1 \<Rightarrow>
                 map_option (\<lambda>d. (st_num s1 + 1, Some (s1\<lparr>st_data := d, st_num := st_num s1 + 1, st_sorted := False\<rparr>)))
                   (if wh \<ge> st_num s1 then put (st_data s1) (st_num s1) p
                    else Option.bind (move (st_data s1) (wh + 1) wh (st_num s1 - wh)) (\<lambda>d. put d wh p))))"

definition OPENSSL_sk_delete :: "stack \<Rightarrow> size_t \<Rightarrow> (addr \<times> stack) option" where
  "OPENSSL_sk_delete sk wh =
     (case sk of
        None \<Rightarrow> Some (0, None)
      | Some s \<Rightarrow>
          if wh \<ge> st_num s then Some (0, sk)
          else
            Option.bind (fetch (st_data s) wh) (\<lambda>ret.
              map_option (\<lambda>d. (ret, Some (s\<lparr>st_data := d, st_num := st_num s - 1\<rparr>)))
                (if wh \<noteq> st_num s - 1 then move (st_data s) wh (wh + 1) (st_num s - wh - 1) else Some (st_data s))))"

text \<open>The loops that look for the first element with a property. The result \<^verbatim>\<open>Some None\<close> is that there is none.\<close>

function find_index :: "(addr \<Rightarrow> bool) \<Rightarrow> stack_st \<Rightarrow> size_t \<Rightarrow> size_t option option" where
  "find_index P s i =
     (if i < st_num s then
        Option.bind (fetch (st_data s) i) (\<lambda>x. if P x then Some (Some i) else find_index P s (i + 1))
      else Some None)"
  by pat_completeness auto
termination
proof (relation "measure (\<lambda>(P, s, i). unat (st_num s) - unat i)")
  fix P :: "addr \<Rightarrow> bool" and s and i x
  assume "i < st_num s"
  moreover from this have "unat (i + 1) = unat i + 1"
    by (rule unat_plus_one)
  ultimately show "((P, s, i + 1), (P, s, i)) \<in> measure (\<lambda>(P, s, i). unat (st_num s) - unat i)"
    by (simp add: word_less_nat_alt)
qed simp

declare find_index.simps [simp del]

definition OPENSSL_sk_delete_ptr :: "stack \<Rightarrow> addr \<Rightarrow> (addr \<times> stack) option" where
  "OPENSSL_sk_delete_ptr sk p =
     (case sk of
        None \<Rightarrow> Some (0, None)
      | Some s \<Rightarrow>
          Option.bind (find_index (\<lambda>x. x = p) s 0) (\<lambda>r. case r of Some i \<Rightarrow> OPENSSL_sk_delete sk i | None \<Rightarrow> Some (0, sk)))"

text \<open>The elements that the callback wants to keep, and its state.\<close>

fun keep_elements :: "(addr \<Rightarrow> 'u \<Rightarrow> bool \<times> 'u) \<Rightarrow> addr list \<Rightarrow> 'u \<Rightarrow> addr list \<times> 'u" where
  "keep_elements call_func [] u = ([], u)"
| "keep_elements call_func (x # xs) u =
     (let (del, u1) = call_func x u; (ys, u2) = keep_elements call_func xs u1 in (if del then ys else x # ys, u2))"

definition OPENSSL_sk_delete_if :: "stack \<Rightarrow> (addr \<Rightarrow> 'u \<Rightarrow> bool \<times> 'u) \<Rightarrow> 'u \<Rightarrow> (stack \<times> 'u) option" where
  "OPENSSL_sk_delete_if sk call_func u =
     (case sk of
        None \<Rightarrow> Some (None, u)
      | Some s \<Rightarrow>
          if length (st_data s) < unat (st_num s) then None
          else
            (let (ys, u') = keep_elements call_func (take (unat (st_num s)) (st_data s)) u
             in Some (Some (s\<lparr>st_data := ys @ drop (length ys) (st_data s), st_num := of_nat (length ys)\<rparr>), u')))"

definition OPENSSL_sk_is_sorted :: "stack \<Rightarrow> bool" where
  "OPENSSL_sk_is_sorted sk = (case sk of None \<Rightarrow> True | Some s \<Rightarrow> st_sorted s \<or> (st_comp s \<noteq> 0 \<and> st_num s < 2))"

text \<open>The binary search.\<close>

function search :: "(addr \<Rightarrow> int) \<Rightarrow> addr list \<Rightarrow> size_t \<Rightarrow> size_t \<Rightarrow> size_t option option" where
  "search cmp_p xs lo hi =
     (if lo < hi then
        (let mid = lo + (hi - lo - 1) div 2 in
         if \<not> (lo \<le> mid \<and> mid < hi) then None
         else
           Option.bind (fetch xs mid) (\<lambda>x.
             let r = cmp_p x in
             if r > 0 then search cmp_p xs (mid + 1) hi
             else if r < 0 then search cmp_p xs lo mid
             else if hi - lo = 1 then Some (Some mid)
             else if \<not> mid + 1 < hi then None
             else search cmp_p xs lo (mid + 1)))
      else if lo = hi then Some None else None)"
  by pat_completeness auto
termination
proof (relation "measure (\<lambda>(cmp_p, xs, lo, hi). unat hi - unat lo)")
  fix lo hi mid :: size_t
  assume mid: "\<not> \<not> (lo \<le> mid \<and> mid < hi)"
  then have "unat (mid + 1) = unat mid + 1"
    by (intro unat_plus_one [of mid hi]) simp
  with mid show "((cmp_p, xs, mid + 1, hi), (cmp_p, xs, lo, hi)) \<in> measure (\<lambda>(cmp_p, xs, lo, hi). unat hi - unat lo)"
    "((cmp_p, xs, lo, mid), (cmp_p, xs, lo, hi)) \<in> measure (\<lambda>(cmp_p, xs, lo, hi). unat hi - unat lo)"
    "\<not> \<not> mid + 1 < hi \<Longrightarrow> ((cmp_p, xs, lo, mid + 1), (cmp_p, xs, lo, hi)) \<in> measure (\<lambda>(cmp_p, xs, lo, hi). unat hi - unat lo)"
    for cmp_p and xs :: "addr list"
    by (auto simp: word_less_nat_alt word_le_nat_alt)
qed simp

declare search.simps [simp del]

definition OPENSSL_sk_find :: "cmp_func \<Rightarrow> stack \<Rightarrow> addr \<Rightarrow> size_t option option" where
  "OPENSSL_sk_find call_cmp_func sk p =
     (case sk of
        None \<Rightarrow> Some None
      | Some s \<Rightarrow>
          if st_comp s = 0 then find_index (\<lambda>x. x = p) s 0
          else if p = 0 then Some None
          else if \<not> OPENSSL_sk_is_sorted sk then find_index (\<lambda>x. call_cmp_func (st_comp s) p x = 0) s 0
          else search (call_cmp_func (st_comp s) p) (st_data s) 0 (st_num s))"

definition OPENSSL_sk_shift :: "stack \<Rightarrow> (addr \<times> stack) option" where
  "OPENSSL_sk_shift sk =
     (case sk of None \<Rightarrow> Some (0, None) | Some s \<Rightarrow> if st_num s = 0 then Some (0, sk) else OPENSSL_sk_delete sk 0)"

text \<open>The caller reads \<^verbatim>\<open>sk->num\<close> before the null check of \<^verbatim>\<open>OPENSSL_sk_insert\<close>.\<close>

definition OPENSSL_sk_push :: "addr list option \<Rightarrow> stack \<Rightarrow> addr \<Rightarrow> (size_t \<times> stack) option" where
  "OPENSSL_sk_push realloc sk p = (case sk of None \<Rightarrow> None | Some s \<Rightarrow> OPENSSL_sk_insert realloc sk p (st_num s))"

definition OPENSSL_sk_pop :: "stack \<Rightarrow> (addr \<times> stack) option" where
  "OPENSSL_sk_pop sk =
     (case sk of None \<Rightarrow> Some (0, None) | Some s \<Rightarrow> if st_num s = 0 then Some (0, sk) else OPENSSL_sk_delete sk (st_num s - 1))"

text \<open>The new stack.\<close>

definition OPENSSL_sk_dup :: "bool \<Rightarrow> bool \<Rightarrow> stack \<Rightarrow> stack" where
  "OPENSSL_sk_dup zalloc memdup sk = (case sk of None \<Rightarrow> None | Some s \<Rightarrow> if \<not> zalloc \<or> \<not> memdup then None else Some s)"

subsection \<open>Sorting\<close>

definition PTRDIFF_MAX :: size_t where
  "PTRDIFF_MAX = 0x7fffffffffffffff"

definition parent_idx :: "size_t \<Rightarrow> size_t option" where
  "parent_idx idx = (if idx > 0 then Some ((idx - 1) div 2) else None)"

definition left_idx :: "size_t \<Rightarrow> size_t option" where
  "left_idx idx = (if idx \<le> PTRDIFF_MAX then Some (2 * idx + 1) else None)"

text \<open>The largest of the element at \<^verbatim>\<open>i\<close> and its children.\<close>

definition next_idx :: "(addr \<Rightarrow> addr \<Rightarrow> int) \<Rightarrow> addr list \<Rightarrow> size_t \<Rightarrow> size_t \<Rightarrow> size_t \<Rightarrow> size_t option" where
  "next_idx cmp xs i left num =
     Option.bind (fetch xs i) (\<lambda>x. Option.bind (fetch xs left) (\<lambda>l.
       let next = (if cmp x l < 0 then left else i); right = left + 1 in
       if right < num then
         Option.bind (fetch xs next) (\<lambda>y. Option.bind (fetch xs right) (\<lambda>r. Some (if cmp y r < 0 then right else next)))
       else Some next))"

lemma next_idx_cases:
  assumes "next_idx cmp xs i left num = Some next" "left < num"
  shows "next \<in> {i, left, left + 1} \<and> (next = left + 1 \<longrightarrow> next = left \<or> next = i \<or> left + 1 < num)"
  using assms by (auto simp: next_idx_def Let_def split: bind_splits if_splits)

lemma left_idx_unat: "left_idx i = Some left \<Longrightarrow> unat left = 2 * unat i + 1"
  by (auto simp: left_idx_def PTRDIFF_MAX_def word_le_nat_alt unat_word_ariths split: if_splits)

function down_heap_loop :: "(addr \<Rightarrow> addr \<Rightarrow> int) \<Rightarrow> size_t \<Rightarrow> size_t \<Rightarrow> addr list \<Rightarrow> addr list option" where
  "down_heap_loop cmp i num xs =
     Option.bind (left_idx i) (\<lambda>left.
       if left \<ge> num then Some xs
       else
         Option.bind (next_idx cmp xs i left num) (\<lambda>next.
           if i = next then Some xs
           else
             Option.bind (fetch xs i) (\<lambda>tmp. Option.bind (fetch xs next) (\<lambda>y.
               Option.bind (put xs i y) (\<lambda>ys. Option.bind (put ys next tmp) (\<lambda>zs. down_heap_loop cmp next num zs))))))"
  by pat_completeness auto
termination
proof (relation "measure (\<lambda>(cmp, i, num, xs). unat num - unat i)")
  fix cmp :: "addr \<Rightarrow> addr \<Rightarrow> int" and i num :: size_t and xs left "next" tmp y ys zs
  assume left: "left_idx i = Some left" "\<not> num \<le> left" and nxt: "next_idx cmp xs i left num = Some next" "i \<noteq> next"
  have "unat (left + 1) = unat left + 1"
    using left(2) by (intro unat_plus_one [of left num]) simp
  then have "unat i < unat next \<and> unat next < unat num"
    using next_idx_cases [OF nxt(1)] nxt(2) left left_idx_unat [OF left(1)] by (auto simp: word_less_nat_alt not_le)
  then show "((cmp, next, num, zs), (cmp, i, num, xs)) \<in> measure (\<lambda>(cmp, i, num, xs). unat num - unat i)"
    by auto
qed simp

declare down_heap_loop.simps [simp del]

definition down_heap :: "(addr \<Rightarrow> addr \<Rightarrow> int) \<Rightarrow> stack_st \<Rightarrow> size_t \<Rightarrow> size_t \<Rightarrow> stack_st option" where
  "down_heap cmp s i num =
     (if \<not> (i < num \<and> num \<le> st_num s) then None
      else map_option (\<lambda>d. s\<lparr>st_data := d\<rparr>) (down_heap_loop cmp i num (st_data s)))"

text \<open>The loop index wraps around below zero, which ends the first loop.\<close>

function build_loop :: "(addr \<Rightarrow> addr \<Rightarrow> int) \<Rightarrow> size_t \<Rightarrow> stack_st \<Rightarrow> stack_st option" where
  "build_loop cmp i s =
     (if i < st_num s then Option.bind (down_heap cmp s i (st_num s)) (\<lambda>s1. build_loop cmp (i - 1) s1) else Some s)"
  by pat_completeness auto
termination
proof (relation "measure (\<lambda>(cmp, i, s). if i < st_num s then unat i + 1 else 0)")
  fix cmp :: "addr \<Rightarrow> addr \<Rightarrow> int" and i s s1
  assume i: "i < st_num s" and "down_heap cmp s i (st_num s) = Some s1"
  then have num: "st_num s1 = st_num s"
    by (auto simp: down_heap_def)
  show "((cmp, i - 1, s1), (cmp, i, s)) \<in> measure (\<lambda>(cmp, i, s). if i < st_num s then unat i + 1 else 0)"
  proof (cases "i = 0")
    case True
    have "\<not> - 1 < st_num s"
      by (metis word_n1_ge not_le)
    then show ?thesis
      using True i by (simp add: num)
  next
    case False
    then have "unat (i - 1) < unat i"
      using measure_unat by blast
    then show ?thesis
      using i by (simp add: num)
  qed
qed simp

declare build_loop.simps [simp del]

function extract_loop :: "(addr \<Rightarrow> addr \<Rightarrow> int) \<Rightarrow> size_t \<Rightarrow> stack_st \<Rightarrow> stack_st option" where
  "extract_loop cmp i s =
     (if i > 0 then
        Option.bind (fetch (st_data s) 0) (\<lambda>tmp. Option.bind (fetch (st_data s) i) (\<lambda>y.
          Option.bind (put (st_data s) 0 y) (\<lambda>ys. Option.bind (put ys i tmp) (\<lambda>zs.
            Option.bind (down_heap cmp (s\<lparr>st_data := zs\<rparr>) 0 i) (\<lambda>s1. extract_loop cmp (i - 1) s1)))))
      else Some s)"
  by pat_completeness auto
termination
  by (relation "measure (\<lambda>(cmp, i, s). unat i)") (auto simp: measure_unat word_gt_0)

declare extract_loop.simps [simp del]

definition OPENSSL_sk_sort :: "cmp_func \<Rightarrow> stack \<Rightarrow> stack option" where
  "OPENSSL_sk_sort call_cmp_func sk =
     (case sk of
        None \<Rightarrow> Some None
      | Some s \<Rightarrow>
          if st_comp s = 0 \<or> st_sorted s then Some sk
          else
            (let cmp = call_cmp_func (st_comp s) in
             map_option (\<lambda>s1. Some (s1\<lparr>st_sorted := True\<rparr>))
               (if st_num s \<ge> 2 then
                  Option.bind (parent_idx (st_num s - 1)) (\<lambda>i.
                    Option.bind (build_loop cmp i s) (\<lambda>s1. extract_loop cmp (st_num s1 - 1) s1))
                else Some s)))"

text \<open>The stack is not \<^verbatim>\<open>NULL\<close>; the result is the old comparison function too.\<close>

definition OPENSSL_sk_set_cmp_func :: "stack \<Rightarrow> addr \<Rightarrow> (addr \<times> stack) option" where
  "OPENSSL_sk_set_cmp_func sk cmp =
     (case sk of
        None \<Rightarrow> None
      | Some s \<Rightarrow> Some (st_comp s, Some (s\<lparr>st_sorted := (if st_comp s \<noteq> cmp then False else st_sorted s), st_comp := cmp\<rparr>)))"

subsection \<open>Deep copies\<close>

text \<open>
  The copies made so far, newest first, and the rest of the elements. When a copy fails, the copies are freed,
  oldest first.
\<close>

fun copy_elements :: "(addr \<Rightarrow> 'u \<Rightarrow> addr \<times> 'u) \<Rightarrow> (addr \<Rightarrow> 'u \<Rightarrow> 'u) \<Rightarrow> addr list \<Rightarrow> addr list \<Rightarrow> 'u \<Rightarrow> addr list option \<times> 'u" where
  "copy_elements copy_func free_func copies [] u = (Some (rev copies), u)"
| "copy_elements copy_func free_func copies (x # xs) u =
     (if x = 0 then copy_elements copy_func free_func (0 # copies) xs u
      else
        (let (y, u1) = copy_func x u in
         if y = 0 then (None, fold (\<lambda>p u. if p \<noteq> 0 then free_func p u else u) (rev copies) u1)
         else copy_elements copy_func free_func (y # copies) xs u1))"

definition OPENSSL_sk_deep_copy ::
  "bool \<Rightarrow> bool \<Rightarrow> stack \<Rightarrow> (addr \<Rightarrow> 'u \<Rightarrow> addr \<times> 'u) \<Rightarrow> (addr \<Rightarrow> 'u \<Rightarrow> 'u) \<Rightarrow> 'u \<Rightarrow> (stack \<times> 'u) option" where
  "OPENSSL_sk_deep_copy zalloc memdup sk copy_func free_func u =
     (case OPENSSL_sk_dup zalloc memdup sk of
        None \<Rightarrow> Some (None, u)
      | Some s \<Rightarrow>
          if length (st_data s) < unat (st_num s) then None
          else
            (case copy_elements copy_func free_func [] (take (unat (st_num s)) (st_data s)) u of
               (None, u') \<Rightarrow> Some (None, u')
             | (Some ys, u') \<Rightarrow> Some (Some (s\<lparr>st_data := ys @ drop (unat (st_num s)) (st_data s)\<rparr>), u')))"

end
