(* ===== verification/StackProofs.thy ===== *)
theory StackProofs
  imports Stack "HOL-Library.Sublist"
begin

text \<open>
  What the operations of a stack do to the list of its elements, the invariant that keeps every access inside the
  array, and that the flag \<^verbatim>\<open>sorted\<close> is the truth.
\<close>

section \<open>The invariant and the elements\<close>

definition elems :: "stack_st \<Rightarrow> addr list" where
  "elems s = take (unat (st_num s)) (st_data s)"

definition wf_stack :: "stack_st \<Rightarrow> bool" where
  "wf_stack s \<longleftrightarrow> length (st_data s) = unat (st_num_alloc s) \<and> unat (st_num s) < unat (st_num_alloc s) \<and> unat (st_num s) \<le> 2147483647"

lemma wf_stackD:
  assumes "wf_stack s"
  shows "unat (st_num s) < length (st_data s)" "length (elems s) = unat (st_num s)" "unat (st_num s) \<le> 2147483647"
    "st_data s = elems s @ drop (unat (st_num s)) (st_data s)"
  using assms by (simp_all add: wf_stack_def elems_def)

lemma nth_elems: "k < unat (st_num s) \<Longrightarrow> elems s ! k = st_data s ! k"
  by (simp add: elems_def)

lemma unat_of_nat_le: "n \<le> unat m \<Longrightarrow> unat (of_nat n :: size_t) = n" for m :: size_t
  by (rule unat_of_nat_u64) (meson le_less_trans unat_u64_less)

section \<open>Insertion\<close>

text \<open>The fallback for an overflow of the doubled capacity is never needed.\<close>

lemma grow:
  assumes "wf_stack s" "st_num s < INT_MAX"
  shows "sk_grow realloc s =
     (if st_num_alloc s \<le> st_num s + 1 then
        map_option (\<lambda>block. s\<lparr>st_data := take (2 * unat (st_num_alloc s)) (st_data s @ block @ replicate (2 * unat (st_num_alloc s)) 0),
          st_num_alloc := push_bit 1 (st_num_alloc s)\<rparr>) realloc
      else Some s)"
proof (cases "st_num_alloc s \<le> st_num s + 1")
  case True
  let ?n = "st_num_alloc s"
  have "unat ?n \<le> 2147483647"
    using True assms unat_plus_one [OF assms(2)] by (simp add: wf_stack_def word_le_nat_alt word_less_nat_alt INT_MAX_def)
  then have u: "unat (push_bit 1 ?n) = 2 * unat ?n" "unat (push_bit 1 ?n * 8) = 16 * unat ?n"
    by (simp_all add: push_bit_eq_mult unat_word_ariths)
  have "push_bit 1 ?n * 8 div 8 = push_bit 1 ?n" "\<not> push_bit 1 ?n < ?n"
    by (simp_all only: word_less_nat_alt word_unat_eq_iff unat_div u) simp_all
  then show ?thesis
    using True u(1) unfolding sk_grow_def Let_def by simp
qed (simp add: sk_grow_def)

lemma grow_wf:
  assumes "wf_stack s" "st_num s < INT_MAX" "sk_grow realloc s = Some s1"
  shows "wf_stack s1 \<and> unat (st_num s) + 1 < unat (st_num_alloc s1) \<and> elems s1 = elems s \<and> st_num s1 = st_num s \<and>
    st_comp s1 = st_comp s \<and> st_sorted s1 = st_sorted s"
proof (cases "st_num_alloc s \<le> st_num s + 1")
  case True
  have n: "unat (st_num_alloc s) \<le> 2147483647" "unat (st_num_alloc s) = unat (st_num s) + 1"
    using True assms(1,2) unat_plus_one [OF assms(2)] by (simp_all add: wf_stack_def word_le_nat_alt word_less_nat_alt INT_MAX_def)
  then have u: "unat (push_bit 1 (st_num_alloc s)) = 2 * unat (st_num_alloc s)"
    by (simp add: push_bit_eq_mult unat_word_ariths)
  obtain block where "s1 = s\<lparr>st_data := take (2 * unat (st_num_alloc s)) (st_data s @ block @ replicate (2 * unat (st_num_alloc s)) 0),
      st_num_alloc := push_bit 1 (st_num_alloc s)\<rparr>"
    using assms True by (auto simp: grow)
  then show ?thesis
    using assms(1) n u by (simp add: wf_stack_def elems_def)
next
  case False
  then show ?thesis
    using assms unat_plus_one [OF assms(2)] by (auto simp: grow word_le_nat_alt)
qed

lemma insert_ok:
  assumes wf: "wf_stack s" and num: "st_num s < INT_MAX" and "sk_grow realloc s = Some s1"
  shows "\<exists>s'. OPENSSL_sk_insert realloc (Some s) p wh = Some (st_num s + 1, Some s') \<and> wf_stack s' \<and>
    elems s' = take (unat wh) (elems s) @ p # drop (unat wh) (elems s) \<and> st_comp s' = st_comp s \<and> \<not> st_sorted s'"
proof -
  note s1 = grow_wf [OF assms]
  let ?n = "unat (st_num s)"
  have u: "unat (st_num s + 1) = ?n + 1" "?n < 2147483647"
    using num unat_plus_one [OF num] by (simp_all add: word_less_nat_alt INT_MAX_def)
  have len: "?n + 1 < length (st_data s1)" "length (elems s) = ?n"
    using s1 wf_stackD [OF wf] by (auto simp: wf_stack_def)
  have dat: "st_data s1 = elems s @ drop ?n (st_data s1)"
    using s1 by (metis elems_def append_take_drop_id)
  define d where "d = take (unat wh) (elems s) @ p # drop (unat wh) (elems s) @ drop (?n + 1) (st_data s1)"
  have "(if wh \<ge> st_num s1 then put (st_data s1) (st_num s1) p
         else Option.bind (move (st_data s1) (wh + 1) wh (st_num s1 - wh)) (\<lambda>d. put d wh p)) = Some d"
  proof (cases "wh \<ge> st_num s")
    case True
    have "(st_data s1)[?n := p] = take ?n (st_data s1) @ p # drop (Suc ?n) (st_data s1)"
      using len by (simp add: upd_conv_take_nth_drop)
    moreover have "take ?n (st_data s1) = elems s"
      using s1 by (metis elems_def)
    ultimately show ?thesis
      using True s1 len by (simp add: put_def d_def word_le_nat_alt)
  next
    case False
    let ?w = "unat wh"
    have w: "?w < ?n" "unat (wh + 1) = ?w + 1" "unat (st_num s - wh) = ?n - ?w"
      using False unat_plus_one [of wh "st_num s"] by (auto simp: not_le word_less_nat_alt unat_sub_if')
    have "take ?w (st_data s1) = take ?w (elems s)"
      by (subst dat) (use w len in simp)
    moreover have "take (?n - ?w) (drop ?w (st_data s1)) = drop ?w (elems s)"
      by (subst dat) (use w len in simp)
    ultimately have "move (st_data s1) (wh + 1) wh (st_num s1 - wh) =
        Some (take ?w (elems s) @ [st_data s1 ! ?w] @ drop ?w (elems s) @ drop (?n + 1) (st_data s1))"
      using w len s1 take_Suc_conv_app_nth [of ?w "st_data s1"] by (simp add: move_def)
    then show ?thesis
      using False s1 w len by (simp add: put_def d_def list_update_append)
  qed
  moreover have "length (take (unat wh) (elems s) @ p # drop (unat wh) (elems s)) = ?n + 1"
    using len by auto
  then have "take (?n + 1) d = take (unat wh) (elems s) @ p # drop (unat wh) (elems s)"
    unfolding d_def by (metis append.assoc append_Cons append_eq_conv_conj)
  moreover have "length d = length (st_data s1)"
    using len by (auto simp: d_def)
  ultimately show ?thesis
    using num assms(3) s1 u len(1) by (auto simp: OPENSSL_sk_insert_def wf_stack_def elems_def not_le)
qed

lemma insert_contract:
  assumes "wf_stack s"
  shows "\<exists>r s'. OPENSSL_sk_insert realloc (Some s) p wh = Some (r, Some s') \<and> wf_stack s' \<and>
    (if st_num s < INT_MAX \<and> (st_num s + 1 < st_num_alloc s \<or> realloc \<noteq> None)
     then r = st_num s + 1 \<and> elems s' = take (unat wh) (elems s) @ p # drop (unat wh) (elems s) \<and> st_comp s' = st_comp s \<and> \<not> st_sorted s'
     else r = 0 \<and> s' = s)"
proof (cases "st_num s < INT_MAX \<and> (st_num s + 1 < st_num_alloc s \<or> realloc \<noteq> None)")
  case True
  then have "sk_grow realloc s \<noteq> None"
    using assms by (auto simp: grow)
  then show ?thesis
    using True insert_ok [OF assms, of realloc _ p wh] by auto
next
  case False
  then have "st_num s < INT_MAX \<Longrightarrow> sk_grow realloc s = None"
    using assms by (auto simp: grow)
  then show ?thesis
    using False assms by (auto simp: OPENSSL_sk_insert_def not_le)
qed

section \<open>Removal\<close>

lemma delete_contract:
  assumes wf: "wf_stack s"
  shows "if wh < st_num s then
      \<exists>s'. OPENSSL_sk_delete (Some s) wh = Some (elems s ! unat wh, Some s') \<and> wf_stack s' \<and>
        elems s' = take (unat wh) (elems s) @ drop (unat wh + 1) (elems s) \<and> st_comp s' = st_comp s \<and> st_sorted s' = st_sorted s
    else OPENSSL_sk_delete (Some s) wh = Some (0, Some s)"
proof (cases "wh < st_num s")
  case True
  let ?w = "unat wh" and ?n = "unat (st_num s)"
  note D = wf_stackD [OF wf]
  have w: "?w < ?n" "unat (wh + 1) = ?w + 1" "unat (st_num s - 1) = ?n - 1" "unat (st_num s - wh - 1) = ?n - ?w - 1"
    using True unat_plus_one [OF True] by (auto simp: word_less_nat_alt unat_sub_if')
  have "wh \<noteq> st_num s - 1 \<longleftrightarrow> ?w < ?n - 1"
    using w by (auto simp: word_unat_eq_iff)
  define d where "d = (if wh \<noteq> st_num s - 1 then take ?w (st_data s) @ take (?n - ?w - 1) (drop (?w + 1) (st_data s)) @ drop (?n - 1) (st_data s) else st_data s)"
  have "take (?n - 1) d = take ?w (elems s) @ drop (?w + 1) (elems s)"
  proof (cases "wh \<noteq> st_num s - 1")
    case True
    then show ?thesis
      using w D(1) \<open>wh \<noteq> st_num s - 1 \<longleftrightarrow> ?w < ?n - 1\<close> by (auto simp: d_def elems_def drop_take min_def)
  next
    case False
    then have n: "?n - 1 = ?w" and d: "d = st_data s"
      using w(1) \<open>wh \<noteq> st_num s - 1 \<longleftrightarrow> ?w < ?n - 1\<close> by (simp_all only: d_def if_False)
    show ?thesis
      unfolding n d elems_def using w(1) n by simp
  qed
  moreover have "length d = length (st_data s)"
    using w D(1) by (auto simp: d_def)
  moreover have "(if wh \<noteq> st_num s - 1 then move (st_data s) wh (wh + 1) (st_num s - wh - 1) else Some (st_data s)) = Some d"
  proof -
    have "?w + (?n - ?w - 1) = ?n - 1" "?n - 1 \<le> length (st_data s)" "?w + 1 + (?n - ?w - 1) \<le> length (st_data s)"
      using w(1) D(1) by linarith+
    then show ?thesis
      unfolding move_def d_def w(2,4) by (cases "wh = st_num s - 1") (simp_all only: if_True if_False simp_thms)
  qed
  moreover have "fetch (st_data s) wh = Some (elems s ! ?w)"
    using w(1) D(1) by (simp add: fetch_def nth_elems)
  ultimately have "OPENSSL_sk_delete (Some s) wh = Some (elems s ! ?w, Some (s\<lparr>st_data := d, st_num := st_num s - 1\<rparr>))"
    unfolding OPENSSL_sk_delete_def option.case using True by (simp only: not_le [symmetric] if_False Option.bind.simps option.map simp_thms)
  moreover have "take (?n - 1) d = take ?w (elems s) @ drop (?w + 1) (elems s)" "length d = length (st_data s)"
    by fact+
  ultimately show ?thesis
    using True wf w by (auto simp: wf_stack_def elems_def)
next
  case False
  then show ?thesis
    by (auto simp: OPENSSL_sk_delete_def)
qed

text \<open>The index of the first element with a property.\<close>

fun first_index :: "('a \<Rightarrow> bool) \<Rightarrow> 'a list \<Rightarrow> nat option" where
  "first_index P [] = None"
| "first_index P (x # xs) = (if P x then Some 0 else map_option Suc (first_index P xs))"

lemma first_index_Some: "first_index P xs = Some i \<longleftrightarrow> i < length xs \<and> P (xs ! i) \<and> (\<forall>k<i. \<not> P (xs ! k))"
proof (induction xs arbitrary: i)
  case (Cons x xs)
  show ?case
    by (cases i) (auto simp: Cons.IH All_less_Suc2 nth_Cons split: nat.splits)
qed simp

lemma first_index_None: "first_index P xs = None \<longleftrightarrow> (\<forall>k<length xs. \<not> P (xs ! k))"
  by (induction xs) (auto simp: All_less_Suc2)

lemma find_index_from:
  "wf_stack s \<Longrightarrow> unat i \<le> unat (st_num s) \<Longrightarrow>
   find_index P s i = Some (map_option (\<lambda>k. i + of_nat k) (first_index P (drop (unat i) (elems s))))"
proof (induction P s i rule: find_index.induct)
  case (1 P s i)
  note D = wf_stackD [OF 1(2)]
  show ?case
  proof (cases "i < st_num s")
    case True
    then have i: "unat i < unat (st_num s)" "unat (i + 1) = unat i + 1"
      using unat_plus_one [of i "st_num s"] by (simp_all add: word_less_nat_alt)
    then have "drop (unat i) (elems s) = elems s ! unat i # drop (unat (i + 1)) (elems s)"
      using D(2) by (simp add: Cons_nth_drop_Suc)
    moreover have "fetch (st_data s) i = Some (elems s ! unat i)"
      using i(1) D(1) by (simp add: fetch_def nth_elems)
    moreover have "(\<lambda>k. i + 1 + of_nat k) = (\<lambda>k. i + of_nat (Suc k))"
      by (rule ext) simp
    moreover have "\<not> P (elems s ! unat i) \<Longrightarrow>
        find_index P s (i + 1) = Some (map_option (\<lambda>k. i + 1 + of_nat k) (first_index P (drop (unat (i + 1)) (elems s))))"
      using True i 1(1) [of "elems s ! unat i"] 1(2) \<open>fetch (st_data s) i = Some (elems s ! unat i)\<close> by simp
    ultimately show ?thesis
      using True by (simp add: find_index.simps [of P s i] option.map_comp o_def)
  next
    case False
    then show ?thesis
      using 1(3) D(2) by (simp add: find_index.simps [of P s i] word_less_nat_alt)
  qed
qed

lemma find_index: "wf_stack s \<Longrightarrow> find_index P s 0 = Some (map_option of_nat (first_index P (elems s)))"
  using find_index_from [of s 0 P] by simp

lemma delete_ptr_contract:
  assumes "wf_stack s"
  shows "\<exists>s'. OPENSSL_sk_delete_ptr (Some s) p = Some (if p \<in> set (elems s) then p else 0, Some s') \<and> wf_stack s' \<and>
    elems s' = remove1 p (elems s) \<and> st_comp s' = st_comp s \<and> st_sorted s' = st_sorted s"
proof (cases "first_index (\<lambda>x. x = p) (elems s)")
  case None
  then have "p \<notin> set (elems s)"
    by (auto simp: first_index_None in_set_conv_nth)
  then show ?thesis
    using None assms find_index [OF assms, of "\<lambda>x. x = p"] by (simp add: OPENSSL_sk_delete_ptr_def remove1_idem)
next
  case (Some k)
  then have k: "k < length (elems s)" "elems s ! k = p" "\<forall>j<k. elems s ! j \<noteq> p"
    by (auto simp: first_index_Some)
  then have u: "unat (of_nat k :: size_t) = k" "(of_nat k :: size_t) < st_num s"
    using wf_stackD(2) [OF assms] unat_of_nat_le [of k "st_num s"] by (simp_all add: word_less_nat_alt)
  have "elems s = take k (elems s) @ p # drop (k + 1) (elems s)"
    using k(1,2) id_take_nth_drop by force
  moreover have "p \<notin> set (take k (elems s))"
    using k(1,3) by (auto simp: in_set_conv_nth)
  ultimately have "remove1 p (elems s) = take k (elems s) @ drop (k + 1) (elems s)"
    by (metis remove1_append remove1.simps(2))
  moreover have "p \<in> set (elems s)"
    using k by (auto simp: in_set_conv_nth)
  ultimately show ?thesis
    using delete_contract [OF assms, of "of_nat k"] u k Some find_index [OF assms, of "\<lambda>x. x = p"]
    by (simp add: OPENSSL_sk_delete_ptr_def)
qed

lemma keep_elements_length: "keep_elements f xs u = (ys, u') \<Longrightarrow> length ys \<le> length xs"
  by (induction f xs u arbitrary: ys u' rule: keep_elements.induct) (fastforce split: prod.splits if_splits)+

lemma keep_elements_subseq: "keep_elements f xs u = (ys, u') \<Longrightarrow> subseq ys xs"
  by (induction f xs u arbitrary: ys u' rule: keep_elements.induct) (auto split: prod.splits if_splits)

lemma delete_if_contract:
  assumes "wf_stack s" and ks: "keep_elements f (elems s) u = (ys, u')"
  shows "\<exists>s'. OPENSSL_sk_delete_if (Some s) f u = Some (Some s', u') \<and> wf_stack s' \<and> elems s' = ys \<and>
    st_comp s' = st_comp s \<and> st_sorted s' = st_sorted s"
proof -
  note D = wf_stackD [OF assms(1)]
  have "length ys \<le> unat (st_num s)"
    using keep_elements_length [OF ks] D(2) by simp
  then show ?thesis
    using D assms unat_of_nat_le [of "length ys" "st_num s"]
    by (auto simp: OPENSSL_sk_delete_if_def elems_def [symmetric] wf_stack_def) (simp_all add: elems_def)
qed

end
