(* ===== verification/StackSort.thy ===== *)
theory StackSort
  imports StackProofs
begin

text \<open>Heap sort and binary search of a stack: the loops over machine words compute the functions on lists of HeapSort.\<close>

section \<open>The elements behind the heap stay as they are\<close>

lemma swap_append: "i < length xs \<Longrightarrow> j < length xs \<Longrightarrow> swap i j (xs @ ys) = swap i j xs @ ys"
  by (simp add: swap_def nth_append list_update_append)

lemma larger_child_append:
  "2 * i + 1 < n \<Longrightarrow> n \<le> length xs \<Longrightarrow> larger_child cmp (xs @ ys) i n = larger_child cmp xs i n"
  by (auto simp: larger_child_def Let_def nth_append)

lemma larger_child_less: "2 * i + 1 < n \<Longrightarrow> larger_child cmp xs i n < n"
  by (auto simp: larger_child_def Let_def)

lemma sift_append: "n \<le> length xs \<Longrightarrow> sift cmp i n (xs @ ys) = sift cmp i n xs @ ys"
proof (induction cmp i n xs rule: sift.induct)
  case (1 cmp i n xs)
  show ?case
  proof (cases "n \<le> 2 * i + 1")
    case False
    then have "swap i (larger_child cmp xs i n) (xs @ ys) = swap i (larger_child cmp xs i n) xs @ ys"
      using 1(2) larger_child_less [of i n cmp xs] by (intro swap_append) simp_all
    then show ?thesis
      using 1 False by (simp add: sift.simps [of cmp i n] larger_child_append)
  qed (simp add: sift.simps [of cmp i n])
qed

lemma length_sift [simp]: "length (sift cmp i n xs) = length xs"
proof (induction cmp i n xs rule: sift.induct)
  case (1 cmp i n xs)
  then show ?case
    by (simp add: sift.simps [of cmp i n xs])
qed

lemma length_build_heap [simp]: "length (build_heap cmp i n xs) = length xs"
  by (induction i arbitrary: xs) simp_all

lemma build_heap_append: "n \<le> length xs \<Longrightarrow> build_heap cmp i n (xs @ ys) = build_heap cmp i n xs @ ys"
  by (induction i arbitrary: xs) (simp_all add: sift_append)

lemma take_maxima_append: "i < length xs \<Longrightarrow> take_maxima cmp i (xs @ ys) = take_maxima cmp i xs @ ys"
proof (induction i arbitrary: xs)
  case (Suc i)
  then have "swap 0 (Suc i) (xs @ ys) = swap 0 (Suc i) xs @ ys"
    by (intro swap_append) auto
  then show ?case
    using Suc by (simp add: sift_append)
qed simp

lemma length_take_maxima [simp]: "length (take_maxima cmp i xs) = length xs"
  by (induction i arbitrary: xs) simp_all

section \<open>The loops\<close>

lemma next_idx:
  assumes "unat left = 2 * unat i + 1" "left < num" "unat num \<le> length xs"
  shows "\<exists>nxt. next_idx cmp xs i left num = Some nxt \<and> unat nxt = larger_child cmp xs (unat i) (unat num)"
proof -
  have u: "unat (left + 1) = 2 * unat i + 2" "2 * unat i + 1 < unat num"
    using assms unat_plus_one [of left num] by (simp_all add: word_less_nat_alt)
  then show ?thesis
    using assms by (auto simp: next_idx_def larger_child_def fetch_def Let_def word_less_nat_alt)
qed

lemma down_heap_loop:
  "unat num \<le> 2147483647 \<Longrightarrow> i < num \<Longrightarrow> unat num \<le> length xs \<Longrightarrow>
   down_heap_loop cmp i num xs = Some (sift cmp (unat i) (unat num) xs)"
proof (induction cmp i num xs rule: down_heap_loop.induct)
  case (1 cmp i num xs)
  have i: "unat i < unat num"
    using 1(3) by (simp add: word_less_nat_alt)
  then have "left_idx i = Some (2 * i + 1)"
    using 1(2) by (simp add: left_idx_def PTRDIFF_MAX_def word_le_nat_alt)
  then obtain left where left: "left_idx i = Some left" "unat left = 2 * unat i + 1"
    using left_idx_unat by blast
  show ?case
  proof (cases "num \<le> left")
    case True
    then show ?thesis
      using left by (simp add: down_heap_loop.simps [of cmp i num xs] sift.simps [of cmp "unat i" "unat num" xs] word_le_nat_alt)
  next
    case False
    let ?c = "larger_child cmp xs (unat i) (unat num)"
    obtain nxt where n: "next_idx cmp xs i left num = Some nxt" "unat nxt = ?c"
      using next_idx [OF left(2), of num xs cmp] False 1(4) by (auto simp: not_le)
    have lt: "2 * unat i + 1 < unat num" "?c < unat num"
      using False left(2) larger_child_less [of "unat i" "unat num" cmp xs] by (auto simp: not_le word_less_nat_alt)
    have eq: "i = nxt \<longleftrightarrow> ?c = unat i"
      using n(2) by (auto simp: word_unat_eq_iff)
    have ops: "fetch xs i = Some (xs ! unat i)" "fetch xs nxt = Some (xs ! ?c)" "put xs i (xs ! ?c) = Some (xs[unat i := xs ! ?c])"
        "put (xs[unat i := xs ! ?c]) nxt (xs ! unat i) = Some (swap (unat i) ?c xs)"
      using i lt 1(4) n(2) by (simp_all add: fetch_def put_def swap_def)
    have "down_heap_loop cmp i num xs = (if i = nxt then Some xs else down_heap_loop cmp nxt num (swap (unat i) ?c xs))"
      using False by (subst down_heap_loop.simps) (simp add: left n(1) ops)
    moreover have "sift cmp (unat i) (unat num) xs = (if i = nxt then xs else sift cmp ?c (unat num) (swap (unat i) ?c xs))"
      unfolding eq using lt by (subst sift.simps) simp
    moreover have "down_heap_loop cmp nxt num (swap (unat i) ?c xs) = Some (sift cmp (unat nxt) (unat num) (swap (unat i) ?c xs))"
      if "i \<noteq> nxt"
      using 1(2,4) lt n(2) by (intro 1(1) [OF left(1) False n(1) that ops]) (simp_all add: word_less_nat_alt)
    ultimately show ?thesis
      using n(2) by simp
  qed
qed

lemma down_heap:
  assumes "wf_stack s" "i < num" "num \<le> st_num s"
  shows "down_heap cmp s i num = Some (s\<lparr>st_data := sift cmp (unat i) (unat num) (st_data s)\<rparr>)"
  using assms wf_stackD [OF assms(1)] by (simp add: down_heap_def down_heap_loop word_le_nat_alt)

lemma build_loop:
  "wf_stack s \<Longrightarrow> i < st_num s \<Longrightarrow>
   build_loop cmp i s = Some (s\<lparr>st_data := build_heap cmp (unat i + 1) (unat (st_num s)) (st_data s)\<rparr>)"
proof (induction cmp i s rule: build_loop.induct)
  case (1 cmp i s)
  let ?s = "s\<lparr>st_data := sift cmp (unat i) (unat (st_num s)) (st_data s)\<rparr>"
  have d: "down_heap cmp s i (st_num s) = Some ?s"
    using 1(2,3) by (intro down_heap) simp_all
  show ?case
  proof (cases "i = 0")
    case True
    have "\<not> - 1 < st_num s"
      by (metis word_n1_ge not_le)
    then show ?thesis
      using True 1(3) d by (simp add: build_loop.simps [of cmp 0 s] build_loop.simps [of cmp "- 1"])
  next
    case False
    then obtain k where u: "unat i = Suc k" "unat (i - 1) = k"
      using unat_minus_one [of i] by (cases "unat i") (auto simp: unat_eq_0)
    have "wf_stack ?s"
      using 1(2) by (simp add: wf_stack_def)
    moreover have "i - 1 < st_num ?s"
      using 1(3) u by (simp add: word_less_nat_alt)
    ultimately have "build_loop cmp (i - 1) ?s = Some (?s\<lparr>st_data := build_heap cmp (Suc k) (unat (st_num s)) (st_data ?s)\<rparr>)"
      using 1(1) [OF 1(3) d] u by simp
    then show ?thesis
      using 1(3) d u by (simp add: build_loop.simps [of cmp i s])
  qed
qed

lemma extract_loop:
  "wf_stack s \<Longrightarrow> i < st_num s \<Longrightarrow> extract_loop cmp i s = Some (s\<lparr>st_data := take_maxima cmp (unat i) (st_data s)\<rparr>)"
proof (induction "unat i" arbitrary: i s)
  case 0
  then have "i = 0"
    by (simp add: unat_eq_0)
  then show ?case
    by (simp add: extract_loop.simps [of cmp 0 s])
next
  case (Suc k)
  have i: "0 < i" "unat i < unat (st_num s)" "unat (i - 1) = k"
    using Suc(2,4) unat_minus_one [of i] by (cases "i = 0"; auto simp: word_less_nat_alt)+
  note D = wf_stackD [OF Suc(3)]
  let ?s = "s\<lparr>st_data := swap 0 (unat i) (st_data s)\<rparr>"
  let ?t = "s\<lparr>st_data := sift cmp 0 (unat i) (swap 0 (unat i) (st_data s))\<rparr>"
  have wf: "wf_stack ?s" "wf_stack ?t"
    using Suc(3) by (simp_all add: wf_stack_def)
  have d: "down_heap cmp ?s 0 i = Some ?t"
    using down_heap [OF wf(1), of 0 i cmp] i Suc(4) by simp
  have ops: "fetch (st_data s) 0 = Some (st_data s ! 0)" "fetch (st_data s) i = Some (st_data s ! unat i)"
      "put (st_data s) 0 (st_data s ! unat i) = Some ((st_data s)[0 := st_data s ! unat i])"
      "put ((st_data s)[0 := st_data s ! unat i]) i (st_data s ! 0) = Some (swap 0 (unat i) (st_data s))"
    using i D(1) by (auto simp: fetch_def put_def swap_def)
  have "i - 1 < st_num ?t"
    using i Suc(2) by (simp add: word_less_nat_alt)
  then have "extract_loop cmp (i - 1) ?t = Some (?t\<lparr>st_data := take_maxima cmp k (st_data ?t)\<rparr>)"
    using Suc(1) [of "i - 1" ?t] i wf by simp
  then show ?case
    using i(1) ops d by (simp add: extract_loop.simps [of cmp i s] flip: Suc(2))
qed

text \<open>The sorted stack.\<close>

lemma sort_data:
  assumes "wf_stack s" "st_comp s \<noteq> 0" "\<not> st_sorted s" "2 \<le> st_num s"
  shows "OPENSSL_sk_sort call (Some s) =
    (let cmp = call (st_comp s); n = length (elems s)
     in Some (Some (s\<lparr>st_data := take_maxima cmp (n - 1) (build_heap cmp ((n - 2) div 2 + 1) n (elems s)) @ drop n (st_data s), st_sorted := True\<rparr>)))"
proof -
  let ?cmp = "call (st_comp s)" and ?n = "unat (st_num s)"
  note D = wf_stackD [OF assms(1)]
  have n: "2 \<le> ?n"
    using assms(4) by (simp add: word_le_nat_alt)
  have one: "unat (st_num s - 1) = ?n - 1" "0 < st_num s - 1"
    using n by (auto simp: unat_sub_if' word_less_nat_alt)
  then have p: "parent_idx (st_num s - 1) = Some ((st_num s - 1 - 1) div 2)" "unat ((st_num s - 1 - 1) div 2) = (?n - 2) div 2"
    using n by (auto simp: parent_idx_def unat_div unat_sub_if')
  let ?s = "s\<lparr>st_data := build_heap ?cmp ((?n - 2) div 2 + 1) ?n (st_data s)\<rparr>"
  have "build_loop ?cmp ((st_num s - 1 - 1) div 2) s = Some ?s"
    using build_loop [OF assms(1), of "(st_num s - 1 - 1) div 2" ?cmp] n p(2) by (simp add: word_less_nat_alt)
  moreover have "extract_loop ?cmp (st_num s - 1) ?s = Some (?s\<lparr>st_data := take_maxima ?cmp (?n - 1) (st_data ?s)\<rparr>)"
    using extract_loop [of ?s "st_num s - 1" ?cmp] assms(1) one n by (simp add: wf_stack_def word_less_nat_alt)
  moreover have "take_maxima ?cmp (?n - 1) (build_heap ?cmp ((?n - 2) div 2 + 1) ?n (st_data s)) =
      take_maxima ?cmp (?n - 1) (build_heap ?cmp ((?n - 2) div 2 + 1) ?n (elems s)) @ drop ?n (st_data s)"
    using n D(2) by (subst D(4), subst build_heap_append, simp, subst take_maxima_append, simp_all)
  ultimately show ?thesis
    using assms p(1) D(2) by (simp add: OPENSSL_sk_sort_def Let_def)
qed

lemma sort_contract:
  assumes wf: "wf_stack s" and cmp: "st_comp s \<noteq> 0 \<Longrightarrow> comparator (call (st_comp s))"
    and truth: "st_sorted s \<Longrightarrow> ascending (call (st_comp s)) (elems s)"
  shows "\<exists>s'. OPENSSL_sk_sort call (Some s) = Some (Some s') \<and> wf_stack s' \<and> mset (elems s') = mset (elems s) \<and>
    st_comp s' = st_comp s \<and> (st_comp s = 0 \<longrightarrow> s' = s) \<and>
    (st_comp s \<noteq> 0 \<longrightarrow> st_sorted s' \<and> ascending (call (st_comp s)) (elems s'))"
proof (cases "st_comp s = 0 \<or> st_sorted s \<or> st_num s < 2")
  case True
  have "length (elems s) < 2 \<Longrightarrow> ascending (call (st_comp s)) (elems s)"
    by (cases "elems s"; cases "tl (elems s)") auto
  moreover have "length (elems s) < 2 \<longleftrightarrow> st_num s < 2"
    using wf_stackD(2) [OF wf] by (simp add: word_less_nat_alt)
  ultimately show ?thesis
    using True wf truth by (auto simp: OPENSSL_sk_sort_def Let_def wf_stack_def elems_def not_less)
next
  case False
  then have s: "2 \<le> st_num s" "st_comp s \<noteq> 0" "\<not> st_sorted s"
    by auto
  let ?n = "length (elems s)"
  note D = wf_stackD [OF wf]
  have n: "2 \<le> ?n"
    using s(1) D(2) by (simp add: word_le_nat_alt)
  let ?xs = "take_maxima (call (st_comp s)) (?n - 1) (build_heap (call (st_comp s)) ((?n - 2) div 2 + 1) ?n (elems s))"
  have xs: "ascending (call (st_comp s)) ?xs" "mset ?xs = mset (elems s)"
    using comparator.heap_sort [OF cmp [OF s(2)] n refl] by simp_all
  have len: "length ?xs = unat (st_num s)"
    using D(2) by simp
  let ?s = "s\<lparr>st_data := ?xs @ drop ?n (st_data s), st_sorted := True\<rparr>"
  have "OPENSSL_sk_sort call (Some s) = Some (Some ?s)"
    using sort_data [of s call] wf s by (simp add: Let_def)
  moreover have "elems ?s = ?xs"
    using len by (simp add: elems_def)
  moreover have "wf_stack ?s"
    using wf len D(1,2) by (simp add: wf_stack_def)
  ultimately show ?thesis
    using s xs by auto
qed

section \<open>Binary search\<close>

text \<open>A function of the elements that changes from positive over zero to negative, as the comparison with a fixed key does.\<close>

definition falling :: "('a \<Rightarrow> int) \<Rightarrow> 'a list \<Rightarrow> bool" where
  "falling f xs \<longleftrightarrow> (\<forall>j < length xs. \<forall>i \<le> j. (0 < f (xs ! j) \<longrightarrow> 0 < f (xs ! i)) \<and> (f (xs ! i) < 0 \<longrightarrow> f (xs ! j) < 0))"

context comparator
begin

lemma falling:
  assumes "ascending cmp xs"
  shows "falling (cmp p) xs"
proof -
  have "(0 < cmp p (xs ! j) \<longrightarrow> 0 < cmp p (xs ! i)) \<and> (cmp p (xs ! i) < 0 \<longrightarrow> cmp p (xs ! j) < 0)" if "j < length xs" "i \<le> j" for i j
  proof -
    have "cmp (xs ! i) (xs ! j) \<le> 0"
      using assms that by (cases "i = j") (auto simp: sorted_wrt_iff_nth_less)
    then have "cmp p (xs ! i) \<le> 0 \<Longrightarrow> cmp p (xs ! j) \<le> 0" "cmp (xs ! j) p \<le> 0 \<Longrightarrow> cmp (xs ! i) p \<le> 0"
      by (blast intro: cmp_trans)+
    then show ?thesis
      using cmp_swap [of p "xs ! i"] cmp_swap [of p "xs ! j"] cmp_swap [of "xs ! i" p] cmp_swap [of "xs ! j" p] by linarith
  qed
  then show ?thesis
    by (simp add: falling_def)
qed

end

lemma fallingD:
  assumes "falling f xs" "j < length xs" "i \<le> j"
  shows "0 < f (xs ! j) \<Longrightarrow> 0 < f (xs ! i)" "f (xs ! i) < 0 \<Longrightarrow> f (xs ! j) < 0"
  using assms by (auto simp: falling_def)

lemma unat_middle:
  fixes lo hi :: size_t
  assumes "lo < hi"
  defines "mid \<equiv> lo + (hi - lo - 1) div 2"
  shows "unat mid = unat lo + (unat hi - unat lo - 1) div 2" "lo \<le> mid" "mid < hi" "unat (mid + 1) = unat mid + 1"
    "hi - lo = 1 \<longleftrightarrow> unat hi = unat lo + 1"
proof -
  have lt: "unat lo < unat hi" "unat hi < 2 ^ 64"
    using assms(1) unat_u64_less [of hi] by (simp_all add: word_less_nat_alt)
  then have d: "unat (hi - lo) = unat hi - unat lo"
    by (simp add: unat_sub_if')
  then have "unat (hi - lo - 1) = unat hi - unat lo - 1"
    using lt unat_minus_one [of "hi - lo"] by (cases "hi - lo = 0") auto
  then have "unat ((hi - lo - 1) div 2) = (unat hi - unat lo - 1) div 2"
    by (simp add: unat_div)
  then show m: "unat mid = unat lo + (unat hi - unat lo - 1) div 2"
    using lt unfolding mid_def by (simp add: unat_word_ariths)
  then show lm: "lo \<le> mid" "mid < hi"
    using lt by (auto simp: word_le_nat_alt word_less_nat_alt)
  then show "unat (mid + 1) = unat mid + 1"
    by (intro unat_plus_one)
  show "hi - lo = 1 \<longleftrightarrow> unat hi = unat lo + 1"
    using d lt by (auto simp: word_unat_eq_iff)
qed

lemma search:
  "falling f xs \<Longrightarrow> unat lo \<le> unat hi \<Longrightarrow> unat hi \<le> length xs \<Longrightarrow> \<forall>k < unat lo. 0 < f (xs ! k) \<Longrightarrow>
   \<forall>k < length xs. unat hi \<le> k \<longrightarrow> f (xs ! k) < 0 \<or> unat lo < unat hi \<and> f (xs ! (unat hi - 1)) = 0 \<Longrightarrow>
   search f (xs @ ys) lo hi = Some (map_option of_nat (first_index (\<lambda>x. f x = 0) xs))"
proof (induction f "xs @ ys" lo hi rule: search.induct)
  case (1 f lo hi)
  note inv = 1(4-8)
  show ?case
  proof (cases "lo < hi")
    case True
    define mid where "mid = lo + (hi - lo - 1) div 2"
    note m = unat_middle [OF True, folded mid_def]
    let ?m = "unat mid"
    have lt: "unat lo \<le> ?m" "?m < unat hi" "?m < length xs"
      using m(2,3) inv(3) by (auto simp: word_le_nat_alt word_less_nat_alt)
    have x: "fetch (xs @ ys) mid = Some (xs ! ?m)"
      using lt by (simp add: fetch_def nth_append)
    note step = search.simps [of f "xs @ ys" lo hi, folded mid_def, unfolded Let_def]
    consider "0 < f (xs ! ?m)" | "f (xs ! ?m) < 0" | "f (xs ! ?m) = 0" "hi - lo = 1" | "f (xs ! ?m) = 0" "hi - lo \<noteq> 1"
      by linarith
    then show ?thesis
    proof cases
      case pos: 1
      have "\<forall>k < unat (mid + 1). 0 < f (xs ! k)"
        using fallingD(1) [OF inv(1) lt(3) _ pos] m(4) by (simp add: less_Suc_eq_le)
      moreover have "f (xs ! (unat hi - 1)) = 0 \<Longrightarrow> unat (mid + 1) < unat hi"
        using pos lt m(4) by (cases "unat hi - 1 = ?m") auto
      ultimately have "search f (xs @ ys) (mid + 1) hi = Some (map_option of_nat (first_index (\<lambda>x. f x = 0) xs))"
        using lt m inv pos x by (intro 1(1)) (auto simp: mid_def [symmetric])
      then show ?thesis
        using True m x pos by (simp add: step)
    next
      case neg: 2
      have "\<forall>k < length xs. ?m \<le> k \<longrightarrow> f (xs ! k) < 0"
        using fallingD(2) [OF inv(1) _ _ neg] by blast
      moreover have "\<not> 0 < f (xs ! ?m)" "\<not> \<not> (lo \<le> mid \<and> mid < hi)"
        using neg m(2,3) by simp_all
      ultimately have "search f (xs @ ys) lo mid = Some (map_option of_nat (first_index (\<lambda>x. f x = 0) xs))"
        using lt inv(3,4) by (intro 1(2) [OF True mid_def _ x refl _ neg inv(1)]) simp_all
      then show ?thesis
        using True m x neg by (simp add: step)
    next
      case hit: 3
      then have "?m = unat lo"
        using lt m(5) by simp
      moreover from this have "first_index (\<lambda>x. f x = 0) xs = Some ?m"
        using inv(4) hit lt by (auto simp: first_index_Some)
      ultimately show ?thesis
        using True m x hit by (simp add: step word_unat_eq_iff)
    next
      case equal: 4
      have "?m + 1 < unat hi"
        using equal(2) m(1,5) lt by linarith
      then have less: "mid + 1 < hi"
        using m(4) by (simp add: word_less_nat_alt)
      have "search f (xs @ ys) lo (mid + 1) = Some (map_option of_nat (first_index (\<lambda>x. f x = 0) xs))"
        using lt m inv equal x less by (intro 1(3)) (auto simp: mid_def [symmetric])
      then show ?thesis
        using True m x equal less by (simp add: step)
    qed
  next
    case False
    then have "lo = hi"
      using inv(2) by (simp add: word_less_nat_alt word_unat_eq_iff)
    moreover have "\<forall>k < length xs. f (xs ! k) \<noteq> 0"
      using inv(4,5) \<open>lo = hi\<close> by (metis less_irrefl not_le)
    ultimately show ?thesis
      using first_index_None [of "\<lambda>x. f x = 0" xs] by (simp add: search.simps [of f "xs @ ys" hi hi])
  qed
qed

text \<open>What \<^verbatim>\<open>OPENSSL_sk_find\<close> counts as a match.\<close>

definition is_match :: "cmp_func \<Rightarrow> stack_st \<Rightarrow> addr \<Rightarrow> addr \<Rightarrow> bool" where
  "is_match call s p x \<longleftrightarrow> (if st_comp s = 0 then x = p else p \<noteq> 0 \<and> call (st_comp s) p x = 0)"

lemma find_contract:
  assumes wf: "wf_stack s" and cmp: "st_comp s \<noteq> 0 \<Longrightarrow> comparator (call (st_comp s))"
    and truth: "st_sorted s \<Longrightarrow> ascending (call (st_comp s)) (elems s)"
  shows "OPENSSL_sk_find call (Some s) p = Some (map_option of_nat (first_index (is_match call s p) (elems s)))"
proof (cases "st_comp s = 0 \<or> p = 0 \<or> \<not> OPENSSL_sk_is_sorted (Some s)")
  case True
  have "st_comp s \<noteq> 0 \<Longrightarrow> p = 0 \<Longrightarrow> first_index (is_match call s p) (elems s) = None"
    by (simp add: first_index_None is_match_def)
  moreover have "st_comp s \<noteq> 0 \<Longrightarrow> p \<noteq> 0 \<Longrightarrow> is_match call s p = (\<lambda>x. call (st_comp s) p x = 0)"
    "st_comp s = 0 \<Longrightarrow> is_match call s p = (\<lambda>x. x = p)"
    by (simp_all add: is_match_def fun_eq_iff)
  ultimately show ?thesis
    using True find_index [OF wf] by (auto simp: OPENSSL_sk_find_def)
next
  case False
  note D = wf_stackD [OF wf]
  have "length (elems s) < 2 \<Longrightarrow> ascending (call (st_comp s)) (elems s)"
    by (cases "elems s"; cases "tl (elems s)") auto
  moreover have "length (elems s) < 2 \<longleftrightarrow> st_num s < 2"
    using D(2) by (simp add: word_less_nat_alt)
  ultimately have "ascending (call (st_comp s)) (elems s)"
    using False truth by (auto simp: OPENSSL_sk_is_sorted_def)
  then have "falling (call (st_comp s) p) (elems s)"
    using False cmp by (intro comparator.falling) auto
  then have "search (call (st_comp s) p) (elems s @ drop (unat (st_num s)) (st_data s)) 0 (st_num s) =
      Some (map_option of_nat (first_index (\<lambda>x. call (st_comp s) p x = 0) (elems s)))"
    using D(2) by (intro search) auto
  moreover have "is_match call s p = (\<lambda>x. call (st_comp s) p x = 0)"
    using False by (simp add: is_match_def fun_eq_iff)
  ultimately show ?thesis
    using False D(4) by (simp add: OPENSSL_sk_find_def)
qed

end
