(* ===== verification/StackOps.thy ===== *)
theory StackOps
  imports StackSort
begin

text \<open>Sequences of operations of a stack, and the composition of the facts about each of them.\<close>

section \<open>Safety without any law of the comparison\<close>

lemma search_safe: "unat lo \<le> unat hi \<Longrightarrow> unat hi \<le> length xs \<Longrightarrow> search f xs lo hi \<noteq> None"
proof (induction f xs lo hi rule: search.induct)
  case (1 f xs lo hi)
  show ?case
  proof (cases "lo < hi")
    case True
    define mid where "mid = lo + (hi - lo - 1) div 2"
    note m = unat_middle [OF True, folded mid_def]
    note step = search.simps [of f xs lo hi, folded mid_def, unfolded Let_def]
    have lt: "unat lo \<le> unat mid" "unat mid < unat hi"
      using m(2,3) by (auto simp: word_le_nat_alt word_less_nat_alt)
    have x: "fetch xs mid = Some (xs ! unat mid)"
      using lt 1(5) by (simp add: fetch_def)
    have less: "hi - lo \<noteq> 1 \<Longrightarrow> mid + 1 < hi"
      using m(1,4,5) lt by (simp add: word_less_nat_alt)
    have assertion: "\<not> \<not> (lo \<le> mid \<and> mid < hi)"
      using m by simp
    note IH = 1(1-3) [OF True mid_def assertion x refl]
    show ?thesis
      using IH True m x less lt 1(5) by (simp add: step)
  next
    case False
    then have "lo = hi"
      using 1(4) by (simp add: word_less_nat_alt word_unat_eq_iff)
    then show ?thesis
      by (simp add: search.simps [of f xs hi hi])
  qed
qed

lemma find_safe: "wf_stack s \<Longrightarrow> OPENSSL_sk_find call (Some s) p \<noteq> None"
  using wf_stackD(1) [of s] search_safe [of 0 "st_num s" "st_data s"] by (simp add: OPENSSL_sk_find_def find_index)

lemma sort_safe:
  assumes "wf_stack s"
  shows "\<exists>s'. OPENSSL_sk_sort call (Some s) = Some (Some s') \<and> wf_stack s'"
proof (cases "st_comp s = 0 \<or> st_sorted s \<or> st_num s < 2")
  case True
  then show ?thesis
    using assms by (auto simp: OPENSSL_sk_sort_def Let_def wf_stack_def not_less)
next
  case False
  then show ?thesis
    using sort_data [of s call] assms wf_stackD(1,2) [OF assms] by (auto simp: Let_def wf_stack_def)
qed

section \<open>The remaining operations\<close>

lemma set_contract:
  assumes "wf_stack s"
  shows "if i < st_num s then
      \<exists>s'. OPENSSL_sk_set (Some s) i v = Some (v, Some s') \<and> wf_stack s' \<and> elems s' = (elems s)[unat i := v] \<and>
        st_comp s' = st_comp s \<and> st_sorted s' = st_sorted s
    else OPENSSL_sk_set (Some s) i v = Some (0, Some s)"
  using assms wf_stackD(1) [OF assms]
  by (auto simp: OPENSSL_sk_set_def put_def word_less_nat_alt word_le_nat_alt wf_stack_def elems_def take_update_swap)

lemma zero_contract:
  assumes "wf_stack s"
  shows "\<exists>s'. OPENSSL_sk_zero (Some s) = Some (Some s') \<and> wf_stack s' \<and> elems s' = [] \<and> st_comp s' = st_comp s \<and>
    (st_sorted s' \<longrightarrow> s' = s)"
  using assms wf_stackD(1) [OF assms] by (cases "st_num s = 0") (auto simp: OPENSSL_sk_zero_def wf_stack_def elems_def)

lemma value_contract:
  "wf_stack s \<Longrightarrow> OPENSSL_sk_value (Some s) i = Some (if unat i < length (elems s) then elems s ! unat i else 0)"
  using wf_stackD(1,2) [of s] by (auto simp: OPENSSL_sk_value_def fetch_def word_le_nat_alt nth_elems)

lemma new_contract: "\<exists>s. OPENSSL_sk_new True True cmp = Some s \<and> wf_stack s \<and> elems s = [] \<and> \<not> st_sorted s \<and> st_comp s = cmp"
  by (auto simp: OPENSSL_sk_new_def wf_stack_def elems_def kMinSize_def)

section \<open>Sequences of operations\<close>

datatype stack_op =
    Insert addr size_t "addr list option"
  | Push addr "addr list option"
  | Delete size_t
  | Delete_ptr addr
  | Delete_if "addr \<Rightarrow> bool"
  | Set_value size_t addr
  | Zero
  | Shift
  | Pop
  | Sort
  | Set_cmp_func addr

fun run_op :: "cmp_func \<Rightarrow> stack_op \<Rightarrow> stack \<Rightarrow> stack option" where
  "run_op call (Insert p wh realloc) sk = map_option snd (OPENSSL_sk_insert realloc sk p wh)"
| "run_op call (Push p realloc) sk = map_option snd (OPENSSL_sk_push realloc sk p)"
| "run_op call (Delete wh) sk = map_option snd (OPENSSL_sk_delete sk wh)"
| "run_op call (Delete_ptr p) sk = map_option snd (OPENSSL_sk_delete_ptr sk p)"
| "run_op call (Delete_if P) sk = map_option fst (OPENSSL_sk_delete_if sk (\<lambda>x u. (P x, u)) ())"
| "run_op call (Set_value i v) sk = map_option snd (OPENSSL_sk_set sk i v)"
| "run_op call Zero sk = OPENSSL_sk_zero sk"
| "run_op call Shift sk = map_option snd (OPENSSL_sk_shift sk)"
| "run_op call Pop sk = map_option snd (OPENSSL_sk_pop sk)"
| "run_op call Sort sk = OPENSSL_sk_sort call sk"
| "run_op call (Set_cmp_func c) sk = map_option snd (OPENSSL_sk_set_cmp_func sk c)"

fun run_ops :: "cmp_func \<Rightarrow> stack_op list \<Rightarrow> stack \<Rightarrow> stack option" where
  "run_ops call [] sk = Some sk"
| "run_ops call (x # xs) sk = Option.bind (run_op call x sk) (run_ops call xs)"

lemma shift_delete: "OPENSSL_sk_shift (Some s) = OPENSSL_sk_delete (Some s) 0"
  by (simp add: OPENSSL_sk_shift_def OPENSSL_sk_delete_def)

lemma pop_delete: "OPENSSL_sk_pop (Some s) = OPENSSL_sk_delete (Some s) (st_num s - 1)"
  by (auto simp: OPENSSL_sk_pop_def OPENSSL_sk_delete_def)

lemma delete_step:
  assumes "wf_stack s"
  shows "\<exists>r s'. OPENSSL_sk_delete (Some s) wh = Some (r, Some s') \<and> wf_stack s' \<and> subseq (elems s') (elems s) \<and>
    st_comp s' = st_comp s \<and> st_sorted s' = st_sorted s"
proof -
  have "subseq (drop 1 (drop (unat wh) (elems s))) (drop (unat wh) (elems s))"
    by (rule suffix_imp_subseq) (rule suffix_drop)
  then have "subseq (take (unat wh) (elems s) @ drop (unat wh + 1) (elems s)) (take (unat wh) (elems s) @ drop (unat wh) (elems s))"
    by (intro list_emb_append_mono) simp_all
  then show ?thesis
    using delete_contract [OF assms, of wh] assms by (auto split: if_splits)
qed

text \<open>
  One operation keeps the stack well formed. Unless it overwrites an element, a flag \<^verbatim>\<open>sorted\<close> after it was set
  before over a supersequence of the elements, or is the truth.
\<close>

lemma run_op_step:
  assumes "wf_stack s"
  shows "\<exists>s'. run_op call x (Some s) = Some (Some s') \<and> wf_stack s'"
proof (cases x)
  case (Insert p wh realloc)
  then show ?thesis
    using insert_contract [OF assms, of realloc p wh] by auto
next
  case (Push p realloc)
  then show ?thesis
    using insert_contract [OF assms, of realloc p "st_num s"] by (auto simp: OPENSSL_sk_push_def)
next
  case (Set_value i v)
  then show ?thesis
    using set_contract [OF assms, of i v] assms by (auto split: if_splits)
next
  case (Set_cmp_func c)
  then show ?thesis
    using assms by (auto simp: OPENSSL_sk_set_cmp_func_def wf_stack_def)
next
  case (Delete_if P)
  then show ?thesis
    using delete_if_contract [OF assms, of "\<lambda>x u. (P x, u)" "()"]
    by (cases "keep_elements (\<lambda>x u. (P x, u)) (elems s) ()") fastforce
next
  case (Delete_ptr p)
  then show ?thesis
    using delete_ptr_contract [OF assms, of p] by auto
qed (use delete_step [OF assms] zero_contract [OF assms] sort_safe [OF assms, of call] in \<open>fastforce simp: shift_delete pop_delete\<close>)+

lemma run_ops_wf: "wf_stack s \<Longrightarrow> \<exists>s'. run_ops call xs (Some s) = Some (Some s') \<and> wf_stack s'"
proof (induction xs arbitrary: s)
  case (Cons x xs)
  then show ?case
    using run_op_step [OF Cons.prems, of call x] by fastforce
qed simp

definition flag_true :: "cmp_func \<Rightarrow> stack_st \<Rightarrow> bool" where
  "flag_true call s \<longleftrightarrow> (st_sorted s \<longrightarrow> st_comp s \<noteq> 0 \<and> ascending (call (st_comp s)) (elems s))"

lemma ascending_subseq: "ascending cmp ys \<Longrightarrow> subseq xs ys \<Longrightarrow> ascending cmp xs"
  by (rotate_tac, induction rule: list_emb.induct) (auto dest: list_emb_set)

fun overwrites :: "stack_op \<Rightarrow> bool" where
  "overwrites (Set_value i v) = True"
| "overwrites x = False"

lemma subseq_remove1: "subseq (remove1 p xs) xs"
  by (induction xs) auto

lemma flag_true_unsorted: "\<not> st_sorted s \<Longrightarrow> flag_true call s"
  by (simp add: flag_true_def)

lemma flag_true_subseq:
  "flag_true call s \<Longrightarrow> subseq (elems s') (elems s) \<Longrightarrow> st_comp s' = st_comp s \<Longrightarrow> st_sorted s' = st_sorted s \<Longrightarrow> flag_true call s'"
  by (auto simp: flag_true_def intro: ascending_subseq)

lemma flag_delete:
  "wf_stack s \<Longrightarrow> flag_true call s \<Longrightarrow> OPENSSL_sk_delete (Some s) wh = Some (r, Some s') \<Longrightarrow> flag_true call s'"
  using delete_step [of s wh] by (auto intro: flag_true_subseq)

lemma flag_step:
  assumes wf: "wf_stack s" and flag: "flag_true call s" and cmp: "\<And>c. c \<noteq> 0 \<Longrightarrow> comparator (call c)"
    and "\<not> overwrites x" "run_op call x (Some s) = Some (Some s')"
  shows "flag_true call s'"
proof (cases x)
  case (Insert p wh realloc)
  then show ?thesis
    using insert_contract [OF wf, of realloc p wh] flag assms(5) by (auto split: if_splits intro: flag_true_unsorted)
next
  case (Push p realloc)
  then show ?thesis
    using insert_contract [OF wf, of realloc p "st_num s"] flag assms(5)
    by (auto simp: OPENSSL_sk_push_def split: if_splits intro: flag_true_unsorted)
next
  case (Delete_if P)
  then show ?thesis
    using delete_if_contract [OF wf, of "\<lambda>x u. (P x, u)" "()"] keep_elements_subseq [of "\<lambda>x u. (P x, u)" "elems s" "()"] assms(5)
    by (cases "keep_elements (\<lambda>x u. (P x, u)) (elems s) ()") (auto intro: flag_true_subseq [OF flag])
next
  case (Delete_ptr p)
  then show ?thesis
    using delete_ptr_contract [OF wf, of p] assms(5) by (auto intro!: flag_true_subseq [OF flag] simp: subseq_remove1)
next
  case Zero
  then show ?thesis
    using zero_contract [OF wf] assms(5) flag by (cases "st_sorted s'") (auto intro: flag_true_unsorted)
next
  case Sort
  have "st_sorted s \<Longrightarrow> ascending (call (st_comp s)) (elems s)"
    using flag by (simp add: flag_true_def)
  then obtain s1 where "OPENSSL_sk_sort call (Some s) = Some (Some s1)" "st_comp s1 = st_comp s" "st_comp s = 0 \<longrightarrow> s1 = s"
      "st_comp s \<noteq> 0 \<longrightarrow> st_sorted s1 \<and> ascending (call (st_comp s)) (elems s1)"
    using sort_contract [of s call, OF wf cmp] by blast
  then show ?thesis
    using Sort assms(5) flag by (cases "st_comp s = 0") (simp_all add: flag_true_def)
next
  case (Set_cmp_func c)
  then show ?thesis
    using flag assms(5) by (cases "st_comp s = c") (auto simp: OPENSSL_sk_set_cmp_func_def flag_true_def elems_def)
qed (use assms(4,5) in \<open>auto simp: shift_delete pop_delete intro: flag_delete [OF wf flag]\<close>)

lemma run_ops_flag:
  assumes "\<And>c. c \<noteq> 0 \<Longrightarrow> comparator (call c)"
  shows "wf_stack s \<Longrightarrow> flag_true call s \<Longrightarrow> \<forall>x \<in> set xs. \<not> overwrites x \<Longrightarrow>
    \<exists>s'. run_ops call xs (Some s) = Some (Some s') \<and> wf_stack s' \<and> flag_true call s'"
proof (induction xs arbitrary: s)
  case (Cons x xs)
  obtain s1 where "run_op call x (Some s) = Some (Some s1)" "wf_stack s1"
    using run_op_step [OF Cons.prems(1)] by blast
  then show ?case
    using Cons flag_step [OF Cons.prems(1,2) assms] by fastforce
qed simp

section \<open>Refinement\<close>

text \<open>An operation seen from the list of the elements.\<close>

definition view :: "('r \<times> stack) option \<Rightarrow> ('r \<times> addr list option) option" where
  "view = map_option (\<lambda>(r, sk). (r, map_option elems sk))"

definition can_insert :: "addr list option \<Rightarrow> stack_st \<Rightarrow> bool" where
  "can_insert realloc s \<longleftrightarrow> st_num s < INT_MAX \<and> (st_num s + 1 < st_num_alloc s \<or> realloc \<noteq> None)"

lemma view_insert:
  "wf_stack s \<Longrightarrow> view (OPENSSL_sk_insert realloc (Some s) p wh) =
     Some (if can_insert realloc s then (st_num s + 1, Some (take (unat wh) (elems s) @ p # drop (unat wh) (elems s))) else (0, Some (elems s)))"
  using insert_contract [of s realloc p wh] by (auto simp: view_def can_insert_def split: if_splits)

lemma view_push:
  "wf_stack s \<Longrightarrow> view (OPENSSL_sk_push realloc (Some s) p) =
     Some (if can_insert realloc s then (st_num s + 1, Some (elems s @ [p])) else (0, Some (elems s)))"
  using view_insert [of s realloc p "st_num s"] wf_stackD(2) [of s] by (simp add: OPENSSL_sk_push_def)

lemma view_delete:
  assumes "wf_stack s"
  shows "view (OPENSSL_sk_delete (Some s) wh) =
     Some (if unat wh < length (elems s) then (elems s ! unat wh, Some (take (unat wh) (elems s) @ drop (unat wh + 1) (elems s)))
       else (0, Some (elems s)))"
  using delete_contract [OF assms, of wh] wf_stackD(2) [OF assms] by (auto simp: view_def word_less_nat_alt)

lemma view_shift:
  assumes "wf_stack s"
  shows "view (OPENSSL_sk_shift (Some s)) = Some (case elems s of [] \<Rightarrow> (0, Some []) | x # xs \<Rightarrow> (x, Some xs))"
  using view_delete [OF assms, of 0] by (cases "elems s") (simp_all add: shift_delete)

lemma view_pop:
  assumes "wf_stack s"
  shows "view (OPENSSL_sk_pop (Some s)) = Some (if elems s = [] then (0, Some []) else (last (elems s), Some (butlast (elems s))))"
proof (cases "elems s = []")
  case True
  then have "st_num s = 0"
    using wf_stackD(2) [OF assms] by (simp add: unat_eq_0)
  then show ?thesis
    using True by (simp add: OPENSSL_sk_pop_def view_def)
next
  case False
  then have "st_num s \<noteq> 0"
    using wf_stackD(2) [OF assms] by auto
  then have "unat (st_num s - 1) = length (elems s) - 1"
    using wf_stackD(2) [OF assms] by (simp add: unat_minus_one)
  then show ?thesis
    using view_delete [OF assms, of "st_num s - 1"] False by (simp add: pop_delete last_conv_nth butlast_conv_take)
qed

lemma view_delete_ptr:
  "wf_stack s \<Longrightarrow> view (OPENSSL_sk_delete_ptr (Some s) p) = Some (if p \<in> set (elems s) then p else 0, Some (remove1 p (elems s)))"
  using delete_ptr_contract [of s p] by (auto simp: view_def)

lemma view_set:
  "wf_stack s \<Longrightarrow> view (OPENSSL_sk_set (Some s) i v) =
     Some (if unat i < length (elems s) then (v, Some ((elems s)[unat i := v])) else (0, Some (elems s)))"
  using set_contract [of s i v] wf_stackD(2) [of s] by (auto simp: view_def word_less_nat_alt split: if_splits)

section \<open>Deep copies\<close>

text \<open>The client's state is the set of live copies; a copy function returns a fresh one or fails.\<close>

definition fresh_copies :: "(addr \<Rightarrow> addr set \<Rightarrow> addr \<times> addr set) \<Rightarrow> bool" where
  "fresh_copies copy \<longleftrightarrow> (\<forall>x u. case copy x u of (y, u') \<Rightarrow> if y = 0 then u' = u else y \<notin> u \<and> u' = insert y u)"

lemma fold_free: "fold (\<lambda>p u. if p \<noteq> 0 then u - {p} else u) ps u = u - (set ps - {0})" for u :: "addr set"
  by (induction ps arbitrary: u) auto

lemma copy_elements:
  assumes "fresh_copies copy"
  shows "live \<inter> (set copies - {0}) = {} \<Longrightarrow>
    (case copy_elements copy (\<lambda>p u. u - {p}) copies xs (live \<union> (set copies - {0})) of
       (None, live') \<Rightarrow> live' = live
     | (Some ys, live') \<Rightarrow> live \<inter> (set ys - {0}) = {} \<and> live' = live \<union> (set ys - {0}) \<and>
         (\<exists>zs. ys = rev copies @ zs \<and> list_all2 (\<lambda>x y. x = 0 \<longleftrightarrow> y = 0) xs zs))"
proof (induction xs arbitrary: copies)
  case Nil
  then show ?case
    by auto
next
  case (Cons x xs)
  show ?case
  proof (cases "x = 0")
    case True
    have "live \<union> (set (0 # copies) - {0}) = live \<union> (set copies - {0})"
      by auto
    then show ?thesis
      using True Cons.IH [of "0 # copies"] Cons.prems by (auto split: prod.splits option.splits)
  next
    case False
    let ?live = "live \<union> (set copies - {0})"
    obtain y u where y: "copy x ?live = (y, u)"
      by fastforce
    note assms [unfolded fresh_copies_def, THEN spec [of _ x], THEN spec [of _ ?live]]
    then have law: "if y = 0 then u = ?live else y \<notin> ?live \<and> u = insert y ?live"
      unfolding y by (simp only: prod.case)
    show ?thesis
    proof (cases "y = 0")
      case True
      then have "u - (set (rev copies) - {0}) = live"
        using law Cons.prems by auto
      then show ?thesis
        using True y \<open>x \<noteq> 0\<close> by (simp add: fold_free)
    next
      case False
      have "live \<union> (set (y # copies) - {0}) = u" "live \<inter> (set (y # copies) - {0}) = {}"
        using False law Cons.prems by auto
      then show ?thesis
        using False y \<open>x \<noteq> 0\<close> Cons.IH [of "y # copies"] by (auto split: prod.splits option.splits)
    qed
  qed
qed

lemma deep_copy_contract:
  assumes "fresh_copies copy" "wf_stack s"
  shows "\<exists>r live'. OPENSSL_sk_deep_copy zalloc memdup (Some s) copy (\<lambda>p u. u - {p}) live = Some (r, live') \<and>
    (case r of
       None \<Rightarrow> live' = live
     | Some s' \<Rightarrow> wf_stack s' \<and> live' = live \<union> (set (elems s') - {0}) \<and> live \<inter> (set (elems s') - {0}) = {} \<and>
         list_all2 (\<lambda>x y. x = 0 \<longleftrightarrow> y = 0) (elems s) (elems s'))"
proof (cases "zalloc \<and> memdup")
  case True
  note D = wf_stackD [OF assms(2)]
  obtain r live' where c: "copy_elements copy (\<lambda>p u. u - {p}) [] (elems s) live = (r, live')"
    by fastforce
  show ?thesis
  proof (cases r)
    case None
    then show ?thesis
      using True D(1) c copy_elements [OF assms(1), of live "[]" "elems s"]
      by (simp add: OPENSSL_sk_deep_copy_def OPENSSL_sk_dup_def flip: elems_def)
  next
    case (Some ys)
    then have ys: "live' = live \<union> (set ys - {0})" "live \<inter> (set ys - {0}) = {}" "list_all2 (\<lambda>x y. x = 0 \<longleftrightarrow> y = 0) (elems s) ys"
      using c copy_elements [OF assms(1), of live "[]" "elems s"] by auto
    let ?s = "s\<lparr>st_data := ys @ drop (unat (st_num s)) (st_data s)\<rparr>"
    have "length ys = unat (st_num s)"
      using list_all2_lengthD [OF ys(3)] D(2) by simp
    then have "wf_stack ?s" "elems ?s = ys"
      using assms(2) D(1) by (simp_all add: wf_stack_def elems_def)
    moreover have "OPENSSL_sk_deep_copy zalloc memdup (Some s) copy (\<lambda>p u. u - {p}) live = Some (Some ?s, live')"
      using True D(1) c Some by (simp add: OPENSSL_sk_deep_copy_def OPENSSL_sk_dup_def flip: elems_def)
    ultimately show ?thesis
      using ys by auto
  qed
qed (auto simp: OPENSSL_sk_deep_copy_def OPENSSL_sk_dup_def)

end
