(* ===== verification/SetOf.thy ===== *)
theory SetOf
  imports CbbBuild HeapSort
begin

text \<open>
  \<^verbatim>\<open>CBB_flush_asn1_set_of\<close> of \<^verbatim>\<open>cbb.c\<close>, which puts the elements of a SET OF into the order of DER: by their encodings, as
  X.690 says in section 11.6.
\<close>

section \<open>The code\<close>

text \<open>
  \<^verbatim>\<open>memcmp\<close> on two buffers of the same length: the sign says which one is smaller at the first difference.
\<close>

fun OPENSSL_memcmp :: "byte list \<Rightarrow> byte list \<Rightarrow> int" where
  "OPENSSL_memcmp (x # xs) (y # ys) = (if x = y then OPENSSL_memcmp xs ys else uint x - uint y)"
| "OPENSSL_memcmp xs ys = 0"

definition compare_set_of_element :: "cbs \<Rightarrow> cbs \<Rightarrow> int" where
  "compare_set_of_element a b =
     (let a_len = length a; b_len = length b;
          min_len = (if a_len < b_len then a_len else b_len);
          ret = OPENSSL_memcmp (take min_len a) (take min_len b)
      in if ret \<noteq> 0 then ret
         else if a_len = b_len then 0
         else if a_len < b_len then -1 else 1)"

text \<open>
  The C library's \<^verbatim>\<open>qsort\<close>. It is shown below that the order of the elements does not depend on the algorithm.
\<close>

fun insert_sorted :: "('a \<Rightarrow> 'a \<Rightarrow> int) \<Rightarrow> 'a \<Rightarrow> 'a list \<Rightarrow> 'a list" where
  "insert_sorted cmp x [] = [x]"
| "insert_sorted cmp x (y # ys) = (if cmp x y \<le> 0 then x # y # ys else y # insert_sorted cmp x ys)"

definition qsort :: "('a \<Rightarrow> 'a \<Rightarrow> int) \<Rightarrow> 'a list \<Rightarrow> 'a list" where
  "qsort cmp xs = foldr (insert_sorted cmp) xs []"

lemma element_shorter:
  assumes "CBS_get_any_asn1_element cbs = (Some e, rest)"
  shows "length rest < length cbs"
proof -
  obtain el where "cbs = der el @ rest"
    using assms element_iff by blast
  then show ?thesis
    using der_header_len_small(2) [of el] by (simp add: length_der)
qed

text \<open>The loop that counts the children.\<close>

function count_elements :: "cbs \<Rightarrow> nat option" where
  "count_elements cbs =
     (if cbs = [] then Some 0
      else (case CBS_get_any_asn1_element cbs of
              (None, _) \<Rightarrow> None
            | (Some _, rest) \<Rightarrow> map_option Suc (count_elements rest)))"
  by pat_completeness auto
termination
  by (relation "measure length") (auto intro: element_shorter dest: sym)

declare count_elements.simps [simp del]

definition OPENSSL_memdup :: "byte list \<Rightarrow> builder \<Rightarrow> byte list option \<times> builder" where
  "OPENSSL_memdup bs st =
     (if bs = [] then (None, st)
      else (case OPENSSL_malloc (of_nat (length bs)) st of (None, st1) \<Rightarrow> (None, st1) | (Some ret, st1) \<Rightarrow> (Some bs, st1)))"

definition OPENSSL_calloc :: "size_t \<Rightarrow> size_t \<Rightarrow> builder \<Rightarrow> bool \<times> builder" where
  "OPENSSL_calloc num n st =
     (if n \<noteq> 0 \<and> num > 0xffffffffffffffff div n then (False, st)
      else (case OPENSSL_malloc (num * n) st of (r, st1) \<Rightarrow> (r \<noteq> None, st1)))"

text \<open>The children are parsed from a copy of the data and written back in their order; a \<^verbatim>\<open>CBS\<close> has 16 bytes.\<close>

definition sort_children :: "nat \<Rightarrow> size_t \<Rightarrow> byte list \<Rightarrow> builder \<Rightarrow> cbb_result" where
  "sort_children num_children off bs st =
     (let (buf, st1) = OPENSSL_memdup bs st; (children_ok, st2) = OPENSSL_calloc (of_nat num_children) 16 st1 in
      if buf = None \<or> \<not> children_ok then Some (False, st2)
      else
        (case get_all CBS_get_any_asn1_element num_children (the buf) of
           (None, _) \<Rightarrow> Some (False, st2)
         | (Some els, _) \<Rightarrow>
             let out = concat (qsort compare_set_of_element (map el_bytes els)) in
             if length out \<noteq> length bs then None else Some (True, write_at (unat off) out st2)))"

definition CBB_flush_asn1_set_of :: "nat \<Rightarrow> builder \<Rightarrow> cbb_result" where
  "CBB_flush_asn1_set_of h st =
     and_then (CBB_flush h st) (\<lambda>st1.
       Option.bind (CBB_data h st1) (\<lambda>off. Option.bind (CBB_len h st1) (\<lambda>len.
         let bs = take (unat len) (drop (unat off) (buf (base st1))) in
         case count_elements bs of
           None \<Rightarrow> Some (False, st1)
         | Some num_children \<Rightarrow> if num_children < 2 then Some (True, st1) else sort_children num_children off bs st1)))"

section \<open>The order\<close>

lemma compare_simps [simp]:
  "compare_set_of_element [] [] = 0"
  "compare_set_of_element [] (b # bs) = -1"
  "compare_set_of_element (a # as) [] = 1"
  "compare_set_of_element (a # as) (b # bs) = (if a = b then compare_set_of_element as bs else uint a - uint b)"
  by (simp_all add: compare_set_of_element_def Let_def word_uint_eq_iff)

lemma compare_swap: "compare_set_of_element a b < 0 \<longleftrightarrow> 0 < compare_set_of_element b a"
  by (induction a b rule: list_induct2') auto

lemma compare_trans: "compare_set_of_element a b \<le> 0 \<Longrightarrow> compare_set_of_element b c \<le> 0 \<Longrightarrow> compare_set_of_element a c \<le> 0"
proof (induction a arbitrary: b c)
  case Nil
  then show ?case
    by (cases c) auto
next
  case (Cons x a)
  then obtain y b' where "b = y # b'"
    by (cases b) auto
  moreover from this Cons obtain z c' where "c = z # c'"
    by (cases c) auto
  ultimately show ?case
    using Cons by (auto simp: word_uint_eq_iff split: if_splits)
qed

lemma compare_eq_0: "compare_set_of_element a b = 0 \<longleftrightarrow> a = b"
  by (induction a b rule: list_induct2') (auto simp: word_uint_eq_iff)

interpretation set_of: comparator compare_set_of_element
  by unfold_locales (fact compare_swap compare_trans)+

lemma mset_qsort: "mset (qsort cmp xs) = mset xs"
proof -
  have "mset (insert_sorted cmp x ys) = add_mset x (mset ys)" for x ys
    by (induction ys) auto
  then show ?thesis
    by (induction xs) (auto simp: qsort_def)
qed

context comparator
begin

lemma insert_ascending: "ascending cmp ys \<Longrightarrow> ascending cmp (insert_sorted cmp x ys)"
proof (induction ys)
  case (Cons y ys)
  have "set (insert_sorted cmp x ys) = insert x (set ys)"
    by (induction ys) auto
  then show ?case
    using Cons cmp_total [of x y] by (auto intro: cmp_trans)
qed simp

lemma qsort_ascending: "ascending cmp (qsort cmp xs)"
  by (induction xs) (auto simp: qsort_def intro: insert_ascending)

lemma ascending_unique:
  "(\<And>x y. cmp x y = 0 \<Longrightarrow> x = y) \<Longrightarrow> ascending cmp xs \<Longrightarrow> ascending cmp ys \<Longrightarrow> mset xs = mset ys \<Longrightarrow> xs = ys"
proof (induction xs arbitrary: ys)
  case (Cons x xs)
  then obtain y ys' where ys: "ys = y # ys'"
    by (cases ys) auto
  have "x \<in> set ys" "y \<in> set (x # xs)"
    using Cons.prems(4) ys by (metis list.set_intros(1) set_mset_mset)+
  then have "cmp x y \<le> 0" "cmp y x \<le> 0"
    using Cons.prems(2,3) ys by auto
  then have "x = y"
    using Cons.prems(1) cmp_swap [of x y] cmp_swap [of y x] by fastforce
  then show ?case
    using Cons ys by auto
qed auto

end

text \<open>Any sorting algorithm gives the same list.\<close>

lemma qsort_unique:
  "ascending compare_set_of_element ys \<Longrightarrow> mset ys = mset xs \<Longrightarrow> qsort compare_set_of_element xs = ys"
  using set_of.ascending_unique [of "qsort compare_set_of_element xs" ys] set_of.qsort_ascending compare_eq_0
  by (simp add: mset_qsort)

section \<open>Flushing a SET OF\<close>

lemma read_element: "der_valid el \<Longrightarrow> CBS_get_any_asn1_element (der el @ rest) = (Some (der_element el), rest)"
  unfolding element_iff by blast

lemma count_elements_Nil [simp]: "count_elements [] = Some 0"
  by (simp add: count_elements.simps)

lemma count_ders: "list_all der_valid els \<Longrightarrow> count_elements (concat (map der els)) = Some (length els)"
proof (induction els)
  case (Cons el els)
  then have "CBS_get_any_asn1_element (der el @ concat (map der els)) = (Some (der_element el), concat (map der els))"
    by (intro read_element) simp
  moreover have "der el \<noteq> []"
    using length_der [of el] der_header_len_small(2) [of el] by auto
  ultimately show ?case
    using Cons by (simp add: count_elements.simps [of "der el @ concat (map der els)"])
qed simp

lemma get_ders: "list_all der_valid els \<Longrightarrow>
  get_all CBS_get_any_asn1_element (length els) (concat (map der els)) = (Some (map der_element els), [])"
proof (induction els)
  case (Cons el els)
  then have "CBS_get_any_asn1_element (der el @ concat (map der els)) = (Some (der_element el), concat (map der els))"
    by (intro read_element) simp
  then show ?case
    using Cons by (simp add: bind_reader_def map_reader_def succeed_def)
qed (simp add: succeed_def)

lemma bytes_of_elements: "el_bytes \<circ> der_element = der"
  by (simp add: der_element_def fun_eq_iff)

text \<open>The place of the data of a \<^verbatim>\<open>CBB\<close> in the buffer.\<close>

definition data_at :: "nat \<Rightarrow> nat \<Rightarrow> builder \<Rightarrow> bool" where
  "data_at h k st \<longleftrightarrow> (if is_child (cells st h) then k = unat (offset (cells st h)) + unat (pending_len_len (cells st h)) else k = 0)"

lemma data_of:
  assumes st: "owns st h (hdr @ bs) []" and hdr: "data_at h (length hdr) st"
  shows "CBB_data h st = Some (of_nat (length hdr))" "CBB_len h st = Some (of_nat (length bs))"
    "unat (of_nat (length hdr) :: size_t) = length hdr" "unat (of_nat (length bs) :: size_t) = length bs"
    "take (length bs) (drop (length hdr) (buf (base st))) = bs"
proof -
  let ?n = "buf_len (base st)" and ?c = "cells st h"
  have w: "written st = hdr @ bs" "buffer_ok st" "child ?c = None" "cbb_get_base h st"
    using st by (simp_all add: owns_def)
  have n: "unat ?n = length hdr + length bs"
    using length_written [OF w(2)] w(1) by simp
  then have len: "length hdr + length bs < 2 ^ 64"
    using unat_u64_less [of ?n] by simp
  then show u: "unat (of_nat (length hdr) :: size_t) = length hdr" "unat (of_nat (length bs) :: size_t) = length bs"
    by (simp_all add: unat_of_nat_u64)
  have off: "offset ?c + ucast (pending_len_len ?c) = (of_nat (length hdr) :: size_t)" if "is_child ?c"
    unfolding word_unat_eq_iff u using hdr that len by (simp add: data_at_def unat_word_ariths)
  show "CBB_data h st = Some (of_nat (length hdr))"
    using w off hdr by (simp add: CBB_data_def Let_def data_at_def)
  have nw: "?n = of_nat (length hdr) + of_nat (length bs)"
    by (metis n of_nat_add of_nat_unat ucast_id)
  have le: "(of_nat (length hdr) :: size_t) \<le> ?n"
    unfolding word_le_nat_alt u n by simp
  have "?n - offset ?c - ucast (pending_len_len ?c) = of_nat (length bs)" if "is_child ?c"
    using off [OF that] unfolding nw by (simp add: diff_diff_eq)
  moreover have "\<not> is_child ?c \<Longrightarrow> ?n = of_nat (length bs)"
    using hdr nw by (simp add: data_at_def)
  ultimately show "CBB_len h st = Some (of_nat (length bs))"
    using w(3,4) off le unfolding CBB_len_def Let_def by (cases "is_child ?c") (simp_all only: if_True if_False simp_thms)
  have "take (length bs) (drop (length hdr) (buf (base st))) = drop (length hdr) (take (length hdr + length bs) (buf (base st)))"
    by (simp add: drop_take)
  also have "\<dots> = drop (length hdr) (written st)"
    by (simp add: written_def n)
  finally show "take (length bs) (drop (length hdr) (buf (base st))) = bs"
    by (simp add: w(1))
qed

lemma length_concat_qsort: "length (concat (qsort cmp xss)) = length (concat xss)"
proof -
  have "size (mset (map length (qsort cmp xss))) = size (mset (map length xss)) \<and> sum_mset (mset (map length (qsort cmp xss))) = sum_mset (mset (map length xss))"
    by (simp add: mset_qsort)
  then show ?thesis
    by (simp add: length_concat flip: sum_mset_sum_list)
qed

lemma length_ders: "2 * length els \<le> length (concat (map der els))"
proof (induction els)
  case (Cons el els)
  then show ?case
    using length_der [of el] der_header_len_small(2) [of el] by simp
qed simp

definition set_of_contents :: "(CBS_ASN1_TAG \<times> cbs) list \<Rightarrow> byte list" where
  "set_of_contents els = concat (qsort compare_set_of_element (map der els))"

lemma length_set_of_contents: "length (set_of_contents els) = length (concat (map der els))"
  by (simp add: set_of_contents_def length_concat_qsort)

text \<open>Less than 2^60 children, so that the array of \<^verbatim>\<open>CBS\<close>s has a size.\<close>

lemma flush_set_of:
  assumes st: "owns st h (hdr @ concat (map der els)) []" and hdr: "data_at h (length hdr) st"
    and els: "list_all der_valid els" "length els < 2 ^ 60"
  shows "CBB_flush_asn1_set_of h st =
    (let st2 = st\<lparr>cbb_allocs := \<lambda>i. cbb_allocs st (Suc (Suc i))\<rparr>
     in if length els < 2 then Some (True, st)
        else if cbb_allocs st 0 = None \<or> cbb_allocs st 1 = None then Some (False, st2)
        else Some (True, write_at (length hdr) (set_of_contents els) st2))"
proof -
  let ?bs = "concat (map der els)"
  let ?st2 = "st\<lparr>cbb_allocs := \<lambda>i. cbb_allocs st (Suc (Suc i))\<rparr>"
  note D = data_of [OF st hdr]
  have "CBB_flush h st = Some (True, st)"
    using st by (subst CBB_flush.simps) (simp add: owns_def buffer_ok_def)
  then have flush: "CBB_flush_asn1_set_of h st =
      (if length els < 2 then Some (True, st) else sort_children (length els) (of_nat (length hdr)) ?bs st)"
    by (simp add: CBB_flush_asn1_set_of_def and_then_def D Let_def count_ders [OF els(1)])
  show ?thesis
  proof (cases "length els < 2")
    case False
    then have "0 < length ?bs"
      using length_ders [of els] by linarith
    then have "?bs \<noteq> []"
      unfolding length_greater_0_conv .
    then have dup: "OPENSSL_memdup ?bs st = (if cbb_allocs st 0 = None then None else Some ?bs, st\<lparr>cbb_allocs := \<lambda>i. cbb_allocs st (Suc i)\<rparr>)"
      by (auto simp: OPENSSL_memdup_def OPENSSL_malloc_def split: option.split)
    have "unat (of_nat (length els) :: size_t) = length els"
      using els(2) by (intro unat_of_nat_u64) simp
    then have "\<not> 0xffffffffffffffff div 16 < (of_nat (length els) :: size_t)"
      using els(2) by (simp add: word_less_nat_alt unat_div)
    then have calloc: "OPENSSL_calloc (of_nat (length els)) 16 (st\<lparr>cbb_allocs := \<lambda>i. cbb_allocs st (Suc i)\<rparr>) = (cbb_allocs st 1 \<noteq> None, ?st2)"
      by (simp add: OPENSSL_calloc_def OPENSSL_malloc_def)
    have "sort_children (length els) (of_nat (length hdr)) ?bs st =
        (if cbb_allocs st 0 = None \<or> cbb_allocs st 1 = None then Some (False, ?st2)
         else Some (True, write_at (length hdr) (set_of_contents els) ?st2))"
      unfolding sort_children_def dup Let_def prod.case calloc
      by (simp add: get_ders [OF els(1)] bytes_of_elements length_set_of_contents D(3) flip: set_of_contents_def)
    then show ?thesis
      using False flush by (simp add: Let_def)
  qed (simp add: flush Let_def)
qed

lemma set_of_written:
  assumes st: "owns st h (hdr @ concat (map der els)) []"
  shows "owns (write_at (length hdr) (set_of_contents els) (st\<lparr>cbb_allocs := a\<rparr>)) h (hdr @ set_of_contents els) []"
proof -
  let ?st = "st\<lparr>cbb_allocs := a\<rparr>"
  have "buffer_ok ?st" "written ?st = hdr @ concat (map der els)"
    using st by (simp_all add: owns_def buffer_ok_def written_def)
  from write_new [OF this, of "set_of_contents els"] show ?thesis
    using st by (simp add: owns_def set_of_contents_def length_concat_qsort cbb_get_base_def)
qed

section \<open>An allocator that does not fail\<close>

definition plenty :: "builder \<Rightarrow> bool" where
  "plenty st \<longleftrightarrow> (\<forall>i. cbb_allocs st i \<noteq> None)"

definition keeps_plenty :: "('a \<times> builder) option \<Rightarrow> bool" where
  "keeps_plenty r \<longleftrightarrow> (\<forall>x st. r = Some (x, st) \<longrightarrow> plenty st)"

named_theorems plenty_intros

lemma keeps_plenty_simps [simp]: "keeps_plenty None" "keeps_plenty (Some (x, st)) \<longleftrightarrow> plenty st"
  by (simp_all add: keeps_plenty_def)

lemma plenty_simps [simp]:
  "plenty (st\<lparr>base := b\<rparr>) = plenty st" "plenty (st\<lparr>next_local := n\<rparr>) = plenty st" "plenty (set_cell k c st) = plenty st"
  "plenty (set_error st) = plenty st" "plenty (write_at n bs st) = plenty st"
  "plenty st \<Longrightarrow> plenty (st\<lparr>cbb_allocs := \<lambda>i. cbb_allocs st (Suc i)\<rparr>)"
  by (simp_all add: plenty_def set_cell_def set_error_def write_at_def)

lemma plenty_and_then [plenty_intros]: "keeps_plenty r \<Longrightarrow> (\<And>st. plenty st \<Longrightarrow> keeps_plenty (q st)) \<Longrightarrow> keeps_plenty (and_then r q)"
  by (cases r) (auto simp: and_then_def)

lemma plenty_fail [plenty_intros]: "plenty st \<Longrightarrow> keeps_plenty (fail_with_error h st)"
  by (simp add: fail_with_error_def cbb_on_error_def)

lemma plenty_reserve: "cbb_buffer_reserve b n st = (r, st') \<Longrightarrow> plenty st \<Longrightarrow> plenty st'"
  by (auto simp: cbb_buffer_reserve_def OPENSSL_realloc_def OPENSSL_malloc_def Let_def split: if_splits option.splits)

lemma plenty_add: "cbb_buffer_add b n st = (r, st') \<Longrightarrow> plenty st \<Longrightarrow> plenty st'"
  by (auto simp: cbb_buffer_add_def dest: plenty_reserve split: prod.splits option.splits)

lemma plenty_flush_child: "plenty st \<Longrightarrow> keeps_plenty (flush_child h k start st)"
  by (auto simp: flush_child_def flush_prefix_def Let_def dest: plenty_add intro!: plenty_fail split: option.split prod.split bool.split)

lemma plenty_flush [plenty_intros]:
  assumes "plenty st"
  shows "keeps_plenty (CBB_flush h st)"
proof -
  have "plenty st \<longrightarrow> plenty (snd r)" if "CBB_flush h st = Some r" for r
  proof (rule CBB_flush.raw_induct [OF _ that, where P = "\<lambda>h st r. plenty st \<longrightarrow> plenty (snd r)"])
    fix flush h st and y :: "bool \<times> builder"
    assume IH: "\<And>h st y. flush h st = Some y \<Longrightarrow> plenty st \<longrightarrow> plenty (snd y)"
      and body: "(if \<not> cbb_get_base h st \<or> cbb_error (base st) then Some (False, st)
      else
        (case child (cells st h) of
           None \<Rightarrow> Some (True, st)
         | Some k \<Rightarrow>
             if \<not> is_child (cells st k) \<or> \<not> has_base (cells st k) then None
             else
               Option.bind (flush k st) (\<lambda>(ok, st1).
                 let c = cells st k; child_start = offset c + ucast (pending_len_len c) in
                 if \<not> ok \<or> child_start < offset c \<or> buf_len (base st1) < child_start then fail_with_error h st1
                 else flush_child h k child_start st1))) = Some y"
    have "plenty st1 \<Longrightarrow> fail_with_error h st1 = Some y \<Longrightarrow> plenty (snd y)" "plenty st1 \<Longrightarrow> flush_child h k n st1 = Some y \<Longrightarrow> plenty (snd y)" for st1 k n
      using plenty_fail [of st1 h] plenty_flush_child [of st1 h k n] by (cases y; simp add: keeps_plenty_def)+
    note rest = this
    show "plenty st \<longrightarrow> plenty (snd y)"
    proof (cases "\<not> cbb_get_base h st \<or> cbb_error (base st) \<or> child (cells st h) = None")
      case True
      then show ?thesis
        using body by (auto split: if_splits)
    next
      case False
      then obtain k where k: "child (cells st h) = Some k"
        by auto
      then obtain ok st1 where f: "flush k st = Some (ok, st1)"
        using False body by (cases "flush k st") (auto split: if_splits)
      then have "fail_with_error h st1 = Some y \<or> flush_child h k (offset (cells st k) + ucast (pending_len_len (cells st k))) st1 = Some y"
        using False k body by (simp add: Let_def split: if_splits)
      then show ?thesis
        using IH [OF f] rest by auto
    qed
  qed
  then show ?thesis
    using assms by (auto simp: keeps_plenty_def)
qed

lemma plenty_add_space [plenty_intros]:
  assumes "plenty st"
  shows "keeps_plenty (CBB_add_space h n st)"
  using plenty_flush [OF assms, of h] plenty_add
  by (cases "CBB_flush h st") (auto simp: CBB_add_space_def keeps_plenty_def split: if_splits)

lemma plenty_add_bytes [plenty_intros]: "plenty st \<Longrightarrow> keeps_plenty (CBB_add_bytes h bs st)"
  using plenty_add_space [of st h "of_nat (length bs)"]
  by (cases "CBB_add_space h (of_nat (length bs)) st") (auto simp: CBB_add_bytes_def split: option.split)

lemma plenty_add_u8 [plenty_intros]: "plenty st \<Longrightarrow> keeps_plenty (CBB_add_u8 h b st)"
  using plenty_add_space [of st h 1]
  by (cases "CBB_add_space h 1 st") (auto simp: CBB_add_u8_def cbb_add_u_def Let_def intro!: plenty_fail split: option.split prod.split)

lemma plenty_add_each [plenty_intros]: "plenty st \<Longrightarrow> keeps_plenty (add_each h bs st)"
  by (induction bs arbitrary: st) (auto intro: plenty_intros)

lemma plenty_add_child [plenty_intros]: "plenty st \<Longrightarrow> keeps_plenty (cbb_add_child h k n b st)"
  by (auto simp: cbb_add_child_def Let_def dest: plenty_add split: prod.split option.split)

lemma plenty_length_prefixed [plenty_intros]: "plenty st \<Longrightarrow> keeps_plenty (cbb_add_length_prefixed h k n st)"
  unfolding cbb_add_length_prefixed_def by (intro plenty_intros)

lemma plenty_add_asn1 [plenty_intros]: "plenty st \<Longrightarrow> keeps_plenty (CBB_add_asn1 h k t st)"
  unfolding CBB_add_asn1_def add_base128_integer_def Let_def by (auto intro!: plenty_intros)

lemma plenty_with_local [plenty_intros]:
  "(\<And>k st. plenty st \<Longrightarrow> keeps_plenty (f k st)) \<Longrightarrow> plenty st \<Longrightarrow> keeps_plenty (with_local f st)"
  by (simp add: with_local_def)

lemma plenty_write_items [plenty_intros]:
  "plenty st \<Longrightarrow> keeps_plenty (write_item h i st)"
  "plenty st \<Longrightarrow> keeps_plenty (write_items h is st)"
  by (induction h i st and h "is" st rule: write_item_write_items.induct) (auto intro!: plenty_intros simp del: with_local_def)

text \<open>What a flush of a child in use leads to.\<close>

lemma flush_set_of_child:
  assumes st: "owns st h (hdr @ c) fs" "c @ closed fs = concat (map der els)" and hdr: "data_at h (length hdr) st"
    and els: "list_all der_valid els" "length els < 2 ^ 60"
  shows "\<exists>ok st'. CBB_flush_asn1_set_of h st = Some (ok, st') \<and>
    (ok \<longrightarrow> owns st' h (hdr @ set_of_contents els) [] \<and> cbb_frame (insert h (set (map handle fs))) st st' \<and>
      (\<exists>x. cells st' h = (cells st h)\<lparr>child := x\<rparr>)) \<and>
    (fits fs \<and> plenty st \<and> room st (length (hdr @ concat (map der els))) \<longrightarrow> ok)"
  using flush_appends [OF st(1)]
proof (cases rule: appendsD [case_names fail ok])
  case (fail st1 x)
  then show ?thesis
    by (auto simp: CBB_flush_asn1_set_of_def and_then_def st(2))
next
  case (ok st1 x)
  have own: "owns st1 h (hdr @ concat (map der els)) []"
    using ok(3) by (simp add: st(2) [symmetric])
  have dat: "data_at h (length hdr) st1"
    using hdr ok(4) by (simp add: data_at_def)
  have "CBB_flush h st1 = Some (True, st1)"
    using own by (subst CBB_flush.simps) (simp add: owns_def buffer_ok_def)
  then have "CBB_flush_asn1_set_of h st = CBB_flush_asn1_set_of h st1"
    using ok(1) by (simp add: CBB_flush_asn1_set_of_def and_then_def)
  note flush = this [unfolded flush_set_of [OF own dat els] Let_def]
  let ?st2 = "st1\<lparr>cbb_allocs := \<lambda>i. cbb_allocs st1 (Suc (Suc i))\<rparr>"
  let ?st3 = "write_at (length hdr) (set_of_contents els) ?st2"
  consider "length els < 2" | "2 \<le> length els" "cbb_allocs st1 0 = None \<or> cbb_allocs st1 1 = None" |
      "2 \<le> length els" "\<not> (cbb_allocs st1 0 = None \<or> cbb_allocs st1 1 = None)"
    by linarith
  then show ?thesis
  proof cases
    case 1
    then have "set_of_contents els = concat (map der els)"
      by (cases els) (auto simp: set_of_contents_def qsort_def)
    then show ?thesis
      using 1 flush own ok(4,5) by auto
  next
    case 2
    then have "\<not> plenty st1"
      by (auto simp: plenty_def)
    then have "\<not> plenty st"
      using plenty_flush [of st h] ok(1) by auto
    then show ?thesis
      using 2 flush by (intro exI [of _ False]) simp
  next
    case 3
    have "room st1 n \<Longrightarrow> room ?st3 n" for n
      by (auto simp: room_def write_at_def)
    then have "cbb_frame (insert h (set (map handle fs))) st ?st3"
      using ok(5) by (simp add: cbb_frame_def)
    moreover have "CBB_flush_asn1_set_of h st = Some (True, ?st3)"
      using 3 flush by auto
    moreover have "cells ?st3 h = (cells st h)\<lparr>child := x\<rparr>"
      using ok(4) by simp
    ultimately show ?thesis
      using set_of_written [OF own] by blast
  qed
qed

section \<open>A SET OF from start to end\<close>

text \<open>A client that writes a SET OF: its elements, one after another, and the call that puts them in order.\<close>

definition write_set_of :: "nat \<Rightarrow> CBS_ASN1_TAG \<Rightarrow> item list \<Rightarrow> builder \<Rightarrow> cbb_result" where
  "write_set_of h t is = with_local (\<lambda>k st. and_then (and_then (CBB_add_asn1 h k t st) (write_items k is)) (CBB_flush_asn1_set_of k))"

lemma finish_set_of:
  assumes st: "owns st 0 [] []" "\<not> is_child (cells st 0)"
    and "items_fit is" "items_bytes is = concat (map der els)" "length (items_bytes is) < 2 ^ 32 - 1" "list_all der_valid els"
  shows "\<exists>out st'. Option.bind (write_set_of 0 t is st) (\<lambda>(ok, st1). if ok then CBB_finish 0 st1 else Some (None, st1)) = Some (out, st') \<and>
    (out = None \<or> out = Some (der (t, set_of_contents els))) \<and>
    (plenty st \<and> room st (length (der (t, set_of_contents els))) \<longrightarrow> out \<noteq> None)"
proof -
  have len: "length (der (t, set_of_contents els)) = length (tag_code t) + length (der_length (length (items_bytes is))) + length (items_bytes is)"
    "1 \<le> length (der_length (length (items_bytes is)))"
    by (simp_all add: der_def length_set_of_contents assms(4) length_der_length)
  let ?k = "next_local st" and ?st1 = "st\<lparr>next_local := Suc (next_local st)\<rparr>"
  let ?N = "length (der (t, set_of_contents els))"
  have N: "room ?st1 ?N = room st ?N" "length (tag_code t) + 1 + length (items_bytes is) \<le> ?N" "plenty ?st1 = plenty st"
    using len by (simp_all add: room_def)
  have k: "0 < ?k" "?k < next_local ?st1"
    using st by (simp_all add: owns_def)
  have "owns ?st1 0 [] []"
    using st(1) by (auto simp: owns_def buffer_ok_def written_def cbb_get_base_def)
  from CBB_add_asn1_appends [OF this, of ?k t] have "appends 0 (tag_code t) [Pending ?k Asn1 []] {?k} True ?st1 (CBB_add_asn1 0 ?k t ?st1)"
    using k by simp
  then show ?thesis
  proof (cases rule: appendsD [case_names fail ok])
    case (fail st2 x)
    then have "\<not> room st ?N"
      using N room_le [of ?st1 ?N "length (tag_code t) + 1"] by auto
    then show ?thesis
      using fail by (simp add: write_set_of_def with_local_def and_then_def)
  next
    case (ok st2 x)
    note own2 = ok(3) and top2 = ok(4)
    have N2: "room st ?N \<Longrightarrow> room st2 ?N" "plenty st \<Longrightarrow> plenty st2"
      using N ok(5) plenty_add_asn1 [of ?st1 0 ?k t] ok(1) by (simp_all add: cbb_frame_def)
    have k2: "?k < next_local st2"
      using own2 by (simp add: owns_def)
    let ?hdr = "tag_code t @ [0]"
    have child2: "owns st2 ?k ?hdr []"
      using owns_child [OF own2] by simp
    have hdr: "data_at ?k (length ?hdr) st2"
      using own2 length_tag_code(2) [of t] by (simp add: owns_def child_cell_def data_at_def unat_of_nat_u64)
    from write_items_writes(2) [OF child2 _ assms(3)]
    have "cbb_writes ?k ?hdr (items_bytes is) {} st2 (write_items ?k is st2)"
      by simp
    then show ?thesis
    proof (cases rule: writesD [case_names fail ok])
      case (fail st3 x)
      then have "\<not> room st ?N"
        using N(2) N2 room_le [of st2 ?N "length (?hdr @ items_bytes is)"] by auto
      then show ?thesis
        using fail ok by (simp add: write_set_of_def with_local_def and_then_def)
    next
      case (ok st3 y c fs)
      have N3: "room st ?N \<Longrightarrow> room st3 ?N" "plenty st \<Longrightarrow> plenty st3"
        using N2 ok(7) plenty_write_items(2) [of st2 ?k "is"] ok(1) by (simp_all add: cbb_frame_def)
      have hdr3: "data_at ?k (length ?hdr) st3"
        using hdr ok(6) by (simp add: data_at_def)
      have "length els < 2 ^ 60"
        using length_ders [of els] assms(4,5) by simp
      then obtain b st4 where st4: "CBB_flush_asn1_set_of ?k st3 = Some (b, st4)"
          "b \<Longrightarrow> owns st4 ?k (?hdr @ set_of_contents els) []" "b \<Longrightarrow> cbb_frame (insert ?k (set (map handle fs))) st3 st4"
          "b \<Longrightarrow> \<exists>z. cells st4 ?k = (cells st3 ?k)\<lparr>child := z\<rparr>"
          "fits fs \<and> plenty st3 \<and> room st3 (length (?hdr @ concat (map der els))) \<Longrightarrow> b"
        using flush_set_of_child [OF ok(2) _ hdr3 assms(6)] ok(3) assms(4) by auto
      have run: "write_set_of 0 t is st = Some (b, st4)"
        using \<open>CBB_add_asn1 0 ?k t ?st1 = Some (True, st2)\<close> ok(1) st4(1) by (simp add: write_set_of_def with_local_def and_then_def)
      show ?thesis
      proof (cases b)
        case False
        then have "\<not> (plenty st \<and> room st ?N)"
          using st4(5) N(2) N3 room_le [of st3 ?N "length (?hdr @ concat (map der els))"] ok(4) assms(4) by auto
        then show ?thesis
          using False by (simp add: run)
      next
        case True
        have fresh: "0 \<notin> set (map handle fs)" "0 < next_local st3" "0 < next_local st4"
          using ok(5,7) k k2 st4(3) [OF True] by (auto simp: cbb_frame_def)
        then have cell: "cells st4 0 = cells st2 0"
          using ok(7) st4(3) [OF True] k k2 by (simp add: cbb_frame_def)
        obtain z where "cells st4 ?k = (cells st2 ?k)\<lparr>child := z\<rparr>"
          using st4(4) [OF True] ok(6) by auto
        then have "owns st4 0 (tag_code t) [Pending ?k Asn1 (set_of_contents els)]"
          using owns_parent [OF own2, of st4 "set_of_contents els" "[]" z] st4(2) True cell fresh(3) by simp
        moreover have "\<not> is_child (cells st4 0)"
          using st(2) top2 cell by simp
        moreover have "room st ?N \<Longrightarrow> room st4 ?N"
          using N3 st4(3) [OF True] by (simp add: cbb_frame_def)
        moreover have "fits [Pending ?k Asn1 (set_of_contents els)]"
          using assms(4,5) by (simp add: length_set_of_contents)
        ultimately show ?thesis
          using CBB_finish_appends [of st4 0 "tag_code t" "[Pending ?k Asn1 (set_of_contents els)]"] True
          by (auto simp: run der_def Let_def)
      qed
    qed
  qed
qed

lemma build_set_of:
  assumes "items_fit is" "items_bytes is = concat (map der els)" "length (items_bytes is) < 2 ^ 32 - 1" "list_all der_valid els"
  shows "(build n (write_set_of 0 t is) alloc = Some None \<or> build n (write_set_of 0 t is) alloc = Some (Some (der (t, set_of_contents els)))) \<and>
    ((\<forall>i. alloc i \<noteq> None) \<longrightarrow> build n (write_set_of 0 t is) alloc = Some (Some (der (t, set_of_contents els))))"
proof (cases "CBB_init 0 n (no_builder alloc)")
  case (Pair ok st)
  show ?thesis
  proof (cases ok)
    case True
    then have "CBB_init 0 n (no_builder alloc) = (True, st)"
      using Pair by simp
    note init = init_owns [OF this]
    have "length (tag_code t) \<le> 11" "length (der_length (length (items_bytes is))) \<le> 5"
      using length_tag_code(2) [of t] length_octets_range(2) [of "length (items_bytes is)"] by (simp_all add: length_der_length)
    then have "length (der (t, set_of_contents els)) < 2 ^ 64"
      using assms(2,3) by (simp add: der_def length_set_of_contents)
    then have "(\<forall>i. alloc i \<noteq> None) \<Longrightarrow> room st (length (der (t, set_of_contents els)))"
      by (intro init(3)) auto
    moreover have "(\<forall>i. alloc i \<noteq> None) \<Longrightarrow> plenty st"
      using Pair by (auto simp: CBB_init_def OPENSSL_malloc_def zero_top_def cbb_init_def no_builder_def plenty_def split: option.splits if_splits)
    ultimately show ?thesis
      using finish_set_of [OF init(1,2) assms, of t] True unfolding build_def Pair by auto
  next
    case False
    then have "\<not> (\<forall>i. alloc i \<noteq> None)"
      using init_fails [of n alloc st] Pair by auto
    then show ?thesis
      using False unfolding build_def Pair by auto
  qed
qed

end
