(* ===== verification/Lhash.thy ===== *)
theory Lhash
  imports Prelude "HOL-Library.Multiset"
begin

text \<open>
  BoringSSL's hash table (\<^verbatim>\<open>crypto/lhash/lhash.c\<close>): an array of chains that grows and shrinks with the number of
  items, but not while a callback of \<^verbatim>\<open>OPENSSL_lh_doall_arg\<close> runs. Elements are pointers, 0 is \<^verbatim>\<open>NULL\<close>. A chain is the list
  of its items; the address of an item is a number that is not used again, so that an item that was freed is not
  found. A pointer to a \<^verbatim>\<open>next\<close> field (or to an element of \<^verbatim>\<open>buckets\<close>) is the number of the bucket and the number of
  items before it.

  The hash and comparison functions are known by their addresses; the arguments \<^verbatim>\<open>call_hash_func\<close> and \<^verbatim>\<open>call_cmp_func\<close>
  call them. The answers of the allocator are arguments. The result \<^verbatim>\<open>None\<close> is an access outside the array, to a
  freed item, a failed assertion, or a callback that does not return.
\<close>

section \<open>The code\<close>

record lhash_item =
  it_data :: addr
  it_hash :: u32
  it_addr :: nat

record lhash =
  num_items :: size_t
  buckets :: "lhash_item list list"
  num_buckets :: size_t
  callback_depth :: u32
  lh_comp :: addr
  lh_hash :: addr
  next_item :: nat

type_synonym hash_helper = "addr \<Rightarrow> addr \<Rightarrow> u32"
type_synonym cmp_helper = "addr \<Rightarrow> addr \<Rightarrow> addr \<Rightarrow> int"

definition kMinNumBuckets :: size_t where "kMinNumBuckets = 16"

definition kMaxAverageChainLength :: size_t where "kMaxAverageChainLength = 2"

definition kMinAverageChainLength :: size_t where "kMinAverageChainLength = 1"

definition OPENSSL_lh_new :: "bool \<Rightarrow> bool \<Rightarrow> addr \<Rightarrow> addr \<Rightarrow> lhash option" where
  "OPENSSL_lh_new zalloc calloc hash cmp =
     (if \<not> zalloc \<or> \<not> calloc then None
      else Some \<lparr>num_items = 0, buckets = replicate (unat kMinNumBuckets) [], num_buckets = kMinNumBuckets, callback_depth = 0,
             lh_comp = cmp, lh_hash = hash, next_item = 0\<rparr>)"

text \<open>The result is the list of the items that are freed.\<close>

definition OPENSSL_lh_free :: "lhash option \<Rightarrow> nat list option" where
  "OPENSSL_lh_free table =
     (case table of
        None \<Rightarrow> Some []
      | Some lh \<Rightarrow>
          if length (buckets lh) < unat (num_buckets lh) then None
          else Some (map it_addr (concat (take (unat (num_buckets lh)) (buckets lh)))))"

definition OPENSSL_lh_num_items :: "lhash \<Rightarrow> size_t" where
  "OPENSSL_lh_num_items lh = num_items lh"

text \<open>The index of the chain for a hash value, and the position in it of the first element with a property.\<close>

definition bucket_of :: "lhash \<Rightarrow> u32 \<Rightarrow> nat option" where
  "bucket_of lh hash =
     (if num_buckets lh = 0 then None
      else (let i = unat (ucast hash mod num_buckets lh) in if i < length (buckets lh) then Some i else None))"

fun chain_pos :: "(addr \<Rightarrow> bool) \<Rightarrow> lhash_item list \<Rightarrow> nat" where
  "chain_pos P [] = 0"
| "chain_pos P (cur # xs) = (if P (it_data cur) then 0 else Suc (chain_pos P xs))"

definition get_next_ptr_and_hash :: "hash_helper \<Rightarrow> cmp_helper \<Rightarrow> lhash \<Rightarrow> addr \<Rightarrow> (u32 \<times> nat \<times> nat) option" where
  "get_next_ptr_and_hash call_hash_func call_cmp_func lh p =
     (let hash = call_hash_func (lh_hash lh) p
      in map_option (\<lambda>b. (hash, b, chain_pos (\<lambda>x. call_cmp_func (lh_comp lh) x p = 0) (buckets lh ! b))) (bucket_of lh hash))"

definition get_next_ptr_by_key :: "lhash \<Rightarrow> addr \<Rightarrow> u32 \<Rightarrow> (addr \<Rightarrow> addr \<Rightarrow> int) \<Rightarrow> (nat \<times> nat) option" where
  "get_next_ptr_by_key lh key key_hash cmp_key =
     map_option (\<lambda>b. (b, chain_pos (\<lambda>x. cmp_key key x = 0) (buckets lh ! b))) (bucket_of lh key_hash)"

text \<open>The item that a pointer to a \<^verbatim>\<open>next\<close> field points to, if it is not \<^verbatim>\<open>NULL\<close>.\<close>

definition item_at :: "lhash \<Rightarrow> nat \<Rightarrow> nat \<Rightarrow> lhash_item option" where
  "item_at lh b k = (if k < length (buckets lh ! b) then Some (buckets lh ! b ! k) else None)"

definition OPENSSL_lh_retrieve :: "hash_helper \<Rightarrow> cmp_helper \<Rightarrow> lhash \<Rightarrow> addr \<Rightarrow> addr option" where
  "OPENSSL_lh_retrieve call_hash_func call_cmp_func lh p =
     map_option (\<lambda>(_, b, k). case item_at lh b k of None \<Rightarrow> 0 | Some item \<Rightarrow> it_data item)
       (get_next_ptr_and_hash call_hash_func call_cmp_func lh p)"

definition OPENSSL_lh_retrieve_key :: "lhash \<Rightarrow> addr \<Rightarrow> u32 \<Rightarrow> (addr \<Rightarrow> addr \<Rightarrow> int) \<Rightarrow> addr option" where
  "OPENSSL_lh_retrieve_key lh key key_hash cmp_key =
     map_option (\<lambda>(b, k). case item_at lh b k of None \<Rightarrow> 0 | Some item \<Rightarrow> it_data item)
       (get_next_ptr_by_key lh key key_hash cmp_key)"

text \<open>Each item goes to the front of its new chain.\<close>

fun move_items :: "size_t \<Rightarrow> lhash_item list \<Rightarrow> lhash_item list list \<Rightarrow> lhash_item list list option" where
  "move_items n [] new_buckets = Some new_buckets"
| "move_items n (cur # xs) new_buckets =
     (let new_bucket = unat (ucast (it_hash cur) mod n) in
      if new_bucket < length new_buckets then move_items n xs (new_buckets[new_bucket := cur # new_buckets ! new_bucket])
      else None)"

definition lh_rebucket :: "bool \<Rightarrow> lhash \<Rightarrow> size_t \<Rightarrow> lhash option" where
  "lh_rebucket zalloc lh new_num_buckets =
     (let alloc_size = 8 * new_num_buckets in
      if alloc_size div 8 \<noteq> new_num_buckets \<or> \<not> zalloc then Some lh
      else if length (buckets lh) < unat (num_buckets lh) then None
      else
        map_option (\<lambda>bs. lh\<lparr>num_buckets := new_num_buckets, buckets := bs\<rparr>)
          (move_items new_num_buckets (concat (take (unat (num_buckets lh)) (buckets lh))) (replicate (unat new_num_buckets) [])))"

definition lh_maybe_resize :: "bool \<Rightarrow> lhash \<Rightarrow> lhash option" where
  "lh_maybe_resize zalloc lh =
     (if callback_depth lh > 0 then Some lh
      else if \<not> num_buckets lh \<ge> kMinNumBuckets then None
      else
        (let avg_chain_length = num_items lh div num_buckets lh in
         if avg_chain_length > kMaxAverageChainLength then
           (let new_num_buckets = num_buckets lh * 2 in
            if new_num_buckets > num_buckets lh then lh_rebucket zalloc lh new_num_buckets else Some lh)
         else if avg_chain_length < kMinAverageChainLength \<and> num_buckets lh > kMinNumBuckets then
           (let half = num_buckets lh div 2; new_num_buckets = (if half < kMinNumBuckets then kMinNumBuckets else half)
            in lh_rebucket zalloc lh new_num_buckets)
         else Some lh))"

text \<open>The result is the return value, the old element (0 for none) and the table.\<close>

definition OPENSSL_lh_insert ::
  "bool \<Rightarrow> bool \<Rightarrow> hash_helper \<Rightarrow> cmp_helper \<Rightarrow> lhash \<Rightarrow> addr \<Rightarrow> (bool \<times> addr \<times> lhash) option" where
  "OPENSSL_lh_insert malloc zalloc call_hash_func call_cmp_func lh p =
     Option.bind (get_next_ptr_and_hash call_hash_func call_cmp_func lh p) (\<lambda>(hash, b, k).
       case item_at lh b k of
         Some item \<Rightarrow>
           Some (True, it_data item, lh\<lparr>buckets := (buckets lh)[b := (buckets lh ! b)[k := item\<lparr>it_data := p\<rparr>]]\<rparr>)
       | None \<Rightarrow>
           if \<not> malloc then Some (False, 0, lh)
           else
             (let item = \<lparr>it_data = p, it_hash = hash, it_addr = next_item lh\<rparr>;
                  lh1 = lh\<lparr>buckets := (buckets lh)[b := buckets lh ! b @ [item]], num_items := num_items lh + 1,
                    next_item := next_item lh + 1\<rparr>
              in map_option (\<lambda>lh2. (True, 0, lh2)) (lh_maybe_resize zalloc lh1)))"

definition OPENSSL_lh_delete :: "bool \<Rightarrow> hash_helper \<Rightarrow> cmp_helper \<Rightarrow> lhash \<Rightarrow> addr \<Rightarrow> (addr \<times> lhash) option" where
  "OPENSSL_lh_delete zalloc call_hash_func call_cmp_func lh p =
     Option.bind (get_next_ptr_and_hash call_hash_func call_cmp_func lh p) (\<lambda>(_, b, k).
       case item_at lh b k of
         None \<Rightarrow> Some (0, lh)
       | Some item \<Rightarrow>
           (let chain = buckets lh ! b;
                lh1 = lh\<lparr>buckets := (buckets lh)[b := take k chain @ drop (Suc k) chain], num_items := num_items lh - 1\<rparr>
            in map_option (\<lambda>lh2. (it_data item, lh2)) (lh_maybe_resize zalloc lh1)))"

text \<open>
  The loops of \<^verbatim>\<open>OPENSSL_lh_doall_arg\<close>. The callback may use the table, and changes a state of its own. The next item
  is read before the call.
\<close>

type_synonym 'u callback = "addr \<Rightarrow> lhash \<Rightarrow> 'u \<Rightarrow> (lhash \<times> 'u) option"

fun head_addr :: "lhash_item list \<Rightarrow> nat option" where
  "head_addr [] = None"
| "head_addr (x # xs) = Some (it_addr x)"

fun item_and_next :: "nat \<Rightarrow> lhash_item list \<Rightarrow> (lhash_item \<times> nat option) option" where
  "item_and_next a [] = None"
| "item_and_next a (x # xs) = (if it_addr x = a then Some (x, head_addr xs) else item_and_next a xs)"

partial_function (option) visit_chain :: "'u callback \<Rightarrow> nat \<Rightarrow> nat option \<Rightarrow> lhash \<Rightarrow> 'u \<Rightarrow> (lhash \<times> 'u) option" where
  "visit_chain func i cur lh u =
     (case cur of
        None \<Rightarrow> Some (lh, u)
      | Some a \<Rightarrow>
          (case item_and_next a (buckets lh ! i) of
             None \<Rightarrow> None
           | Some (item, nxt) \<Rightarrow> Option.bind (func (it_data item) lh u) (\<lambda>(lh1, u1). visit_chain func i nxt lh1 u1)))"

partial_function (option) visit_buckets :: "'u callback \<Rightarrow> size_t \<Rightarrow> lhash \<Rightarrow> 'u \<Rightarrow> (lhash \<times> 'u) option" where
  "visit_buckets func i lh u =
     (if i < num_buckets lh then
        (if unat i < length (buckets lh) then
           Option.bind (visit_chain func (unat i) (head_addr (buckets lh ! unat i)) lh u)
             (\<lambda>(lh1, u1). visit_buckets func (i + 1) lh1 u1)
         else None)
      else Some (lh, u))"

definition UINT_MAX :: u32 where "UINT_MAX = 0xffffffff"

definition OPENSSL_lh_doall_arg :: "bool \<Rightarrow> lhash option \<Rightarrow> 'u callback \<Rightarrow> 'u \<Rightarrow> (lhash option \<times> 'u) option" where
  "OPENSSL_lh_doall_arg zalloc table func u =
     (case table of
        None \<Rightarrow> Some (None, u)
      | Some lh \<Rightarrow>
          (let lh1 = (if callback_depth lh < UINT_MAX then lh\<lparr>callback_depth := callback_depth lh + 1\<rparr> else lh)
           in Option.bind (visit_buckets func 0 lh1 u) (\<lambda>(lh2, u2).
                let lh3 = (if callback_depth lh2 < UINT_MAX then lh2\<lparr>callback_depth := callback_depth lh2 - 1\<rparr> else lh2)
                in map_option (\<lambda>lh4. (Some lh4, u2)) (lh_maybe_resize zalloc lh3))))"

section \<open>The invariant\<close>

definition lh_items :: "lhash \<Rightarrow> lhash_item list" where
  "lh_items lh = concat (buckets lh)"

definition lh_members :: "lhash \<Rightarrow> addr set" where
  "lh_members lh = it_data ` set (lh_items lh)"

text \<open>Equality is an equivalence, and equal elements have the same hash value.\<close>

definition hash_laws :: "hash_helper \<Rightarrow> cmp_helper \<Rightarrow> bool" where
  "hash_laws call_hash_func call_cmp_func \<longleftrightarrow>
     (\<forall>c x. call_cmp_func c x x = 0) \<and>
     (\<forall>c x y. call_cmp_func c x y = 0 \<longrightarrow> call_cmp_func c y x = 0) \<and>
     (\<forall>c x y z. call_cmp_func c x y = 0 \<longrightarrow> call_cmp_func c y z = 0 \<longrightarrow> call_cmp_func c x z = 0) \<and>
     (\<forall>c h x y. call_cmp_func c x y = 0 \<longrightarrow> call_hash_func h x = call_hash_func h y)"

definition placed :: "lhash \<Rightarrow> bool" where
  "placed lh \<longleftrightarrow> (\<forall>i < length (buckets lh). \<forall>x \<in> set (buckets lh ! i). unat (ucast (it_hash x) mod num_buckets lh) = i)"

definition wf_lhash :: "hash_helper \<Rightarrow> cmp_helper \<Rightarrow> lhash \<Rightarrow> bool" where
  "wf_lhash call_hash_func call_cmp_func lh \<longleftrightarrow>
     length (buckets lh) = unat (num_buckets lh) \<and> kMinNumBuckets \<le> num_buckets lh \<and> placed lh \<and>
     unat (num_items lh) = length (lh_items lh) \<and> distinct (map it_addr (lh_items lh)) \<and>
     (\<forall>x \<in> set (lh_items lh). it_addr x < next_item lh \<and> it_hash x = call_hash_func (lh_hash lh) (it_data x)) \<and>
     (\<forall>x \<in> set (lh_items lh). \<forall>y \<in> set (lh_items lh). call_cmp_func (lh_comp lh) (it_data x) (it_data y) = 0 \<longrightarrow> x = y)"

end
