(* ===== verification/LhashProofs.thy ===== *)
theory LhashProofs
  imports Lhash
begin

text \<open>
  The hash table is a set of pairwise different elements: what each operation does to it, whatever resizing goes
  on, and what a traversal visits when its callback deletes elements.
\<close>

section \<open>Looking up\<close>

lemma wf_lhashD:
  assumes "wf_lhash H C lh"
  shows "length (buckets lh) = unat (num_buckets lh)" "16 \<le> unat (num_buckets lh)" "placed lh"
    "unat (num_items lh) = length (lh_items lh)" "distinct (map it_addr (lh_items lh))"
    "x \<in> set (lh_items lh) \<Longrightarrow> it_hash x = H (lh_hash lh) (it_data x)" "x \<in> set (lh_items lh) \<Longrightarrow> it_addr x < next_item lh"
    "x \<in> set (lh_items lh) \<Longrightarrow> y \<in> set (lh_items lh) \<Longrightarrow> C (lh_comp lh) (it_data x) (it_data y) = 0 \<Longrightarrow> x = y"
  using assms by (auto simp: wf_lhash_def kMinNumBuckets_def word_le_nat_alt)

lemma bucket_of:
  assumes "length (buckets lh) = unat (num_buckets lh)" "16 \<le> unat (num_buckets lh)"
  shows "bucket_of lh h = Some (unat (ucast h mod num_buckets lh))" "unat (ucast h mod num_buckets lh) < length (buckets lh)"
proof -
  have "num_buckets lh \<noteq> 0"
    using assms(2) by auto
  moreover show "unat (ucast h mod num_buckets lh) < length (buckets lh)"
    using assms by (simp add: unat_mod)
  ultimately show "bucket_of lh h = Some (unat (ucast h mod num_buckets lh))"
    by (simp add: bucket_of_def Let_def)
qed

lemma chain_pos_less: "chain_pos P c < length c \<Longrightarrow> P (it_data (c ! chain_pos P c))"
  by (induction P c rule: chain_pos.induct) auto

lemma chain_pos_none: "\<not> chain_pos P c < length c \<Longrightarrow> x \<in> set c \<Longrightarrow> \<not> P (it_data x)"
  by (induction P c rule: chain_pos.induct) (auto split: if_splits)

lemma chain_pos_le: "chain_pos P c \<le> length c"
  by (induction P c rule: chain_pos.induct) auto

lemma in_items: "x \<in> set (lh_items lh) \<longleftrightarrow> (\<exists>i < length (buckets lh). x \<in> set (buckets lh ! i))"
  unfolding lh_items_def by (simp add: set_concat) (metis in_set_conv_nth)

text \<open>The position for an element: where its match is, or the end of its chain when there is none.\<close>

lemma get_next_ptr:
  assumes wf: "wf_lhash H C lh" and laws: "hash_laws H C"
  obtains b k where "get_next_ptr_and_hash H C lh p = Some (H (lh_hash lh) p, b, k)" "b < length (buckets lh)"
    "b = unat (ucast (H (lh_hash lh) p) mod num_buckets lh)"
    "item_at lh b k = None \<Longrightarrow> k = length (buckets lh ! b) \<and> (\<forall>x \<in> set (lh_items lh). C (lh_comp lh) (it_data x) p \<noteq> 0)"
    "\<And>x. item_at lh b k = Some x \<Longrightarrow> k < length (buckets lh ! b) \<and> buckets lh ! b ! k = x \<and> x \<in> set (lh_items lh) \<and> C (lh_comp lh) (it_data x) p = 0"
proof -
  note D = wf_lhashD [OF wf]
  let ?h = "H (lh_hash lh) p"
  define b where "b = unat (ucast ?h mod num_buckets lh)"
  define k where "k = chain_pos (\<lambda>x. C (lh_comp lh) x p = 0) (buckets lh ! b)"
  have b: "bucket_of lh ?h = Some b" "b < length (buckets lh)"
    using bucket_of [OF D(1,2)] by (simp_all add: b_def)
  have none: "C (lh_comp lh) (it_data x) p \<noteq> 0" if pos: "\<not> k < length (buckets lh ! b)" and x: "x \<in> set (lh_items lh)" for x
  proof
    assume eq: "C (lh_comp lh) (it_data x) p = 0"
    obtain i where i: "i < length (buckets lh)" "x \<in> set (buckets lh ! i)"
      using x by (auto simp: in_items)
    have "it_hash x = ?h"
      using D(6) [OF x] laws eq unfolding hash_laws_def by metis
    moreover have "unat (ucast (it_hash x) mod num_buckets lh) = i"
      using i D(3) by (auto simp: placed_def)
    ultimately have "i = b"
      by (simp add: b_def)
    then show False
      using chain_pos_none [of "\<lambda>x. C (lh_comp lh) x p = 0" "buckets lh ! b" x] pos i(2) eq by (simp add: k_def)
  qed
  show thesis
  proof (rule that)
    show "get_next_ptr_and_hash H C lh p = Some (?h, b, k)"
      by (simp add: get_next_ptr_and_hash_def b k_def)
    show "item_at lh b k = None \<Longrightarrow> k = length (buckets lh ! b) \<and> (\<forall>x \<in> set (lh_items lh). C (lh_comp lh) (it_data x) p \<noteq> 0)"
      using none chain_pos_le [of _ "buckets lh ! b"] unfolding item_at_def k_def [symmetric] by (metis k_def le_neq_implies_less option.discI)
    show "item_at lh b k = Some x \<Longrightarrow> k < length (buckets lh ! b) \<and> buckets lh ! b ! k = x \<and> x \<in> set (lh_items lh) \<and> C (lh_comp lh) (it_data x) p = 0" for x
      using b(2) chain_pos_less [of "\<lambda>x. C (lh_comp lh) x p = 0" "buckets lh ! b"]
      by (auto simp: item_at_def in_items k_def split: if_splits)
    show "b < length (buckets lh)"
      by (rule b(2))
  qed (rule b_def)
qed

definition found_or_null :: "cmp_helper \<Rightarrow> lhash \<Rightarrow> addr \<Rightarrow> addr \<Rightarrow> bool" where
  "found_or_null C lh p x \<longleftrightarrow> (x \<in> lh_members lh \<and> C (lh_comp lh) x p = 0 \<or> x = 0 \<and> (\<forall>y \<in> lh_members lh. C (lh_comp lh) y p \<noteq> 0))"

lemma lh_retrieve_contract:
  assumes "wf_lhash H C lh" "hash_laws H C"
  shows "\<exists>x. OPENSSL_lh_retrieve H C lh p = Some x \<and> found_or_null C lh p x"
proof (rule get_next_ptr [OF assms, of p])
  fix b k
  assume "get_next_ptr_and_hash H C lh p = Some (H (lh_hash lh) p, b, k)"
    "item_at lh b k = None \<Longrightarrow> k = length (buckets lh ! b) \<and> (\<forall>x \<in> set (lh_items lh). C (lh_comp lh) (it_data x) p \<noteq> 0)"
    "\<And>x. item_at lh b k = Some x \<Longrightarrow> k < length (buckets lh ! b) \<and> buckets lh ! b ! k = x \<and> x \<in> set (lh_items lh) \<and> C (lh_comp lh) (it_data x) p = 0"
  then show ?thesis
    by (cases "item_at lh b k") (auto simp: OPENSSL_lh_retrieve_def lh_members_def found_or_null_def)
qed

text \<open>A key that selects what the element \<^verbatim>\<open>p\<close> selects finds the same element.\<close>

lemma lh_retrieve_key_eq:
  assumes "key_hash = H (lh_hash lh) p" "\<And>y. cmp_key key y = 0 \<longleftrightarrow> C (lh_comp lh) y p = 0"
  shows "OPENSSL_lh_retrieve_key lh key key_hash cmp_key = OPENSSL_lh_retrieve H C lh p"
  using assms
  by (simp add: OPENSSL_lh_retrieve_key_def OPENSSL_lh_retrieve_def get_next_ptr_by_key_def get_next_ptr_and_hash_def Let_def
      option.map_comp o_def)

text \<open>The counter counts the elements.\<close>

lemma distinct_members:
  assumes wf: "wf_lhash H C lh" and laws: "hash_laws H C"
  shows "distinct (map it_data (lh_items lh))"
proof -
  have "inj_on it_data (set (lh_items lh))"
    using wf_lhashD(8) [OF wf] laws unfolding hash_laws_def inj_on_def by metis
  moreover have "distinct (lh_items lh)"
    using wf_lhashD(5) [OF wf] by (simp only: distinct_map)
  ultimately show ?thesis
    by (simp only: distinct_map)
qed

lemma card_members:
  assumes "wf_lhash H C lh" and "hash_laws H C"
  shows "unat (num_items lh) = card (lh_members lh)"
  using distinct_card [OF distinct_members [OF assms]] wf_lhashD(4) [OF assms(1)] by (simp add: lh_members_def)

section \<open>Changing a chain\<close>

lemma concat_update:
  assumes "b < length bs" "bs ! b = xs @ ys @ zs"
  shows "\<exists>pre post. concat bs = pre @ ys @ post \<and> (\<forall>ys'. concat (bs[b := xs @ ys' @ zs]) = pre @ ys' @ post)"
proof (intro exI conjI allI)
  have "concat bs = concat (take b bs @ bs ! b # drop (Suc b) bs)"
    using id_take_nth_drop [OF assms(1)] by simp
  then show "concat bs = (concat (take b bs) @ xs) @ ys @ zs @ concat (drop (Suc b) bs)"
    by (simp add: assms(2))
  show "concat (bs[b := xs @ ys' @ zs]) = (concat (take b bs) @ xs) @ ys' @ zs @ concat (drop (Suc b) bs)" for ys'
    using assms(1) by (simp add: upd_conv_take_nth_drop)
qed

section \<open>Resizing\<close>

lemma move_items:
  "length bs = unat n \<Longrightarrow> n \<noteq> 0 \<Longrightarrow> \<forall>i < length bs. \<forall>x \<in> set (bs ! i). unat (ucast (it_hash x) mod n) = i \<Longrightarrow>
   \<exists>bs'. move_items n xs bs = Some bs' \<and> length bs' = unat n \<and>
     (\<forall>i < length bs'. \<forall>x \<in> set (bs' ! i). unat (ucast (it_hash x) mod n) = i) \<and> mset (concat bs') = mset xs + mset (concat bs)"
proof (induction n xs bs rule: move_items.induct)
  case (2 n cur xs bs)
  let ?b = "unat (ucast (it_hash cur) mod n)"
  have b: "?b < length bs"
    using 2(2,3) by (simp add: unat_mod unat_gt_0)
  from concat_update [OF this, of "[]" "[]" "bs ! ?b"] obtain pre post
    where c: "concat bs = pre @ post" "\<And>ys'. concat (bs[?b := ys' @ bs ! ?b]) = pre @ ys' @ post"
    by auto
  have "mset (concat (bs[?b := cur # bs ! ?b])) = add_mset cur (mset (concat bs))"
    using c(1) c(2) [of "[cur]"] by simp
  moreover have "\<forall>i < length bs. \<forall>x \<in> set (bs[?b := cur # bs ! ?b] ! i). unat (ucast (it_hash x) mod n) = i"
    using 2(4) b by (auto simp: nth_list_update)
  ultimately have "\<exists>bs'. move_items n xs (bs[?b := cur # bs ! ?b]) = Some bs' \<and> length bs' = unat n \<and>
      (\<forall>i < length bs'. \<forall>x \<in> set (bs' ! i). unat (ucast (it_hash x) mod n) = i) \<and>
      mset (concat bs') = mset xs + add_mset cur (mset (concat bs))"
    using 2(1) [OF refl b, unfolded length_list_update, OF 2(2,3)] by (simp only:)
  then obtain bs' where r: "move_items n xs (bs[?b := cur # bs ! ?b]) = Some bs'" "length bs' = unat n"
      "\<forall>i < length bs'. \<forall>x \<in> set (bs' ! i). unat (ucast (it_hash x) mod n) = i"
      "mset (concat bs') = mset xs + add_mset cur (mset (concat bs))"
    by blast
  have "move_items n (cur # xs) bs = Some bs'"
    using b r(1) by (simp only: move_items.simps Let_def if_True)
  with r(2-) show ?case
    by (intro exI [of _ bs']) (simp only: mset.simps union_mset_add_mset_left union_mset_add_mset_right simp_thms)
qed simp

lemma wf_same_items:
  assumes "wf_lhash H C lh" "mset (lh_items lh') = mset (lh_items lh)" "length (buckets lh') = unat (num_buckets lh')" "kMinNumBuckets \<le> num_buckets lh'"
    "placed lh'" "num_items lh' = num_items lh" "lh_hash lh' = lh_hash lh" "lh_comp lh' = lh_comp lh" "next_item lh' = next_item lh"
  shows "wf_lhash H C lh'"
proof -
  have "set (lh_items lh') = set (lh_items lh)" "length (lh_items lh') = length (lh_items lh)"
    using assms(2) by (metis set_mset_mset, metis size_mset)
  moreover have "distinct (map it_addr (lh_items lh')) = distinct (map it_addr (lh_items lh))"
    using assms(2) by (metis mset_eq_imp_distinct_iff mset_map)
  ultimately show ?thesis
    using assms by (simp add: wf_lhash_def)
qed

definition same_members :: "lhash \<Rightarrow> lhash \<Rightarrow> bool" where
  "same_members lh lh' \<longleftrightarrow> mset (lh_items lh') = mset (lh_items lh) \<and> num_items lh' = num_items lh \<and> callback_depth lh' = callback_depth lh \<and>
     lh_hash lh' = lh_hash lh \<and> lh_comp lh' = lh_comp lh"

lemma rebucket:
  assumes wf: "wf_lhash H C lh" and n: "kMinNumBuckets \<le> n"
  shows "\<exists>lh'. lh_rebucket zalloc lh n = Some lh' \<and> wf_lhash H C lh' \<and> same_members lh lh'"
proof (cases "8 * n div 8 \<noteq> n \<or> \<not> zalloc")
  case True
  then show ?thesis
    using wf by (simp add: lh_rebucket_def Let_def same_members_def)
next
  case False
  note D = wf_lhashD [OF wf]
  have "n \<noteq> 0"
    using n by (auto simp: kMinNumBuckets_def)
  then obtain bs where bs: "move_items n (lh_items lh) (replicate (unat n) []) = Some bs" "length bs = unat n"
      "\<forall>i < length bs. \<forall>x \<in> set (bs ! i). unat (ucast (it_hash x) mod n) = i" "mset (concat bs) = mset (lh_items lh)"
    using move_items [of "replicate (unat n) []" n "lh_items lh"] by auto
  let ?lh = "lh\<lparr>num_buckets := n, buckets := bs\<rparr>"
  have "lh_rebucket zalloc lh n = Some ?lh"
    using False D(1) bs(1) by (simp add: lh_rebucket_def Let_def lh_items_def)
  moreover have "wf_lhash H C ?lh"
    using bs n by (intro wf_same_items [OF wf]) (simp_all add: lh_items_def placed_def)
  ultimately show ?thesis
    using bs(4) by (auto simp: same_members_def lh_items_def)
qed

lemma maybe_resize:
  assumes wf: "wf_lhash H C lh"
  shows "\<exists>lh'. lh_maybe_resize zalloc lh = Some lh' \<and> wf_lhash H C lh' \<and> same_members lh lh' \<and> (callback_depth lh > 0 \<longrightarrow> lh' = lh)"
proof -
  have same: "same_members lh lh"
    by (simp add: same_members_def)
  have min: "kMinNumBuckets \<le> num_buckets lh"
    using wf by (simp add: wf_lhash_def)
  then have "num_buckets lh * 2 > num_buckets lh \<Longrightarrow> kMinNumBuckets \<le> num_buckets lh * 2"
    by (meson less_imp_le order_trans)
  then show ?thesis
    using rebucket [OF wf, of "num_buckets lh * 2" zalloc] rebucket [OF wf, of kMinNumBuckets zalloc] rebucket [OF wf, of "num_buckets lh div 2" zalloc]
      min wf same
    by (auto simp: lh_maybe_resize_def Let_def not_less)
qed

section \<open>Insertion and removal\<close>

lemma placed_update:
  assumes "placed lh" "b < length (buckets lh)" "\<And>x. x \<in> set c \<Longrightarrow> unat (ucast (it_hash x) mod num_buckets lh) = b"
    "buckets lh' = (buckets lh)[b := c]" "num_buckets lh' = num_buckets lh"
  shows "placed lh'"
  using assms by (auto simp: placed_def nth_list_update)

lemma wf_remove:
  assumes wf: "wf_lhash H C lh" and it: "lh_items lh = pre @ it # post" "lh_items lh' = pre @ post" and placed: "placed lh'"
    and same: "length (buckets lh') = length (buckets lh)" "num_buckets lh' = num_buckets lh" "num_items lh' = num_items lh - 1"
      "lh_hash lh' = lh_hash lh" "lh_comp lh' = lh_comp lh" "next_item lh' = next_item lh"
  shows "wf_lhash H C lh'"
proof -
  have "unat (num_items lh) = Suc (length pre + length post)"
    using wf_lhashD(4) [OF wf] it(1) by simp
  then have "unat (num_items lh - 1) = length pre + length post"
    using unat_minus_one [of "num_items lh"] by (cases "num_items lh = 0") auto
  then show ?thesis
    using wf placed same unfolding wf_lhash_def it by auto
qed

lemma wf_put:
  assumes wf: "wf_lhash H C lh'" and laws: "hash_laws H C" and it: "lh_items lh' = pre @ post" "lh_items lh1 = pre @ z # post" and placed: "placed lh1"
    and same: "length (buckets lh1) = length (buckets lh')" "num_buckets lh1 = num_buckets lh'" "unat (num_items lh1) = Suc (length pre + length post)"
      "lh_hash lh1 = lh_hash lh'" "lh_comp lh1 = lh_comp lh'" "next_item lh' \<le> next_item lh1"
    and z: "it_addr z \<notin> it_addr ` set (pre @ post)" "it_addr z < next_item lh1" "it_hash z = H (lh_hash lh') (it_data z)"
      "\<And>x. x \<in> set (pre @ post) \<Longrightarrow> C (lh_comp lh') (it_data x) (it_data z) \<noteq> 0"
  shows "wf_lhash H C lh1"
proof -
  have sym: "C c x y = 0 \<Longrightarrow> C c y x = 0" for c x y
    using laws unfolding hash_laws_def by blast
  have "\<forall>x \<in> set (lh_items lh1). \<forall>y \<in> set (lh_items lh1). C (lh_comp lh1) (it_data x) (it_data y) = 0 \<longrightarrow> x = y"
  proof (intro ballI impI)
    fix x y
    assume "x \<in> set (lh_items lh1)" "y \<in> set (lh_items lh1)" and eq: "C (lh_comp lh1) (it_data x) (it_data y) = 0"
    then have "x = z \<or> x \<in> set (pre @ post)" "y = z \<or> y \<in> set (pre @ post)"
      by (auto simp: it(2))
    then consider "x = z" "y = z" | "x = z" "y \<in> set (pre @ post)" | "x \<in> set (pre @ post)" "y = z"
      | "x \<in> set (pre @ post)" "y \<in> set (pre @ post)"
      by blast
    then show "x = y"
    proof cases
      case 2
      then show ?thesis
        using z(4) [of y] sym [OF eq] same(5) by simp
    next
      case 3
      then show ?thesis
        using z(4) [of x] eq same(5) by simp
    next
      case 4
      then show ?thesis
        using wf_lhashD(8) [OF wf, of x y] eq same(5) it(1) by simp
    qed simp
  qed
  moreover have "distinct (map it_addr (lh_items lh1))"
    using wf_lhashD(5) [OF wf] z(1) unfolding it by auto
  moreover have "\<forall>x \<in> set (lh_items lh1). it_addr x < next_item lh1 \<and> it_hash x = H (lh_hash lh1) (it_data x)"
    using wf_lhashD(6,7) [OF wf] z(2,3) same(6) unfolding it same by fastforce
  ultimately show ?thesis
    using wf placed same by (simp add: wf_lhash_def it)
qed

lemma members_items: "lh_items lh = xs \<Longrightarrow> lh_members lh = it_data ` set xs"
  by (simp add: lh_members_def)

lemma same_members_members: "same_members lh lh' \<Longrightarrow> lh_members lh' = lh_members lh"
  unfolding same_members_def lh_members_def by (metis set_mset_mset)

text \<open>The table without the element equal to \<^verbatim>\<open>p\<close>, before resizing.\<close>

lemma take_out:
  assumes wf: "wf_lhash H C lh" and laws: "hash_laws H C"
    and b: "b < length (buckets lh)" "b = unat (ucast (H (lh_hash lh) p) mod num_buckets lh)"
    and it: "k < length (buckets lh ! b)" "buckets lh ! b ! k = it" "it \<in> set (lh_items lh)" "C (lh_comp lh) (it_data it) p = 0"
  shows "\<exists>pre post. lh_items lh = pre @ it # post \<and>
    (\<forall>ys. concat ((buckets lh)[b := take k (buckets lh ! b) @ ys @ drop (Suc k) (buckets lh ! b)]) = pre @ ys @ post) \<and>
    (\<forall>x \<in> set (pre @ post). C (lh_comp lh) (it_data x) p \<noteq> 0) \<and> it_addr it \<notin> it_addr ` set (pre @ post) \<and>
    it_hash it = H (lh_hash lh) p \<and> (\<forall>x \<in> set (buckets lh ! b). unat (ucast (it_hash x) mod num_buckets lh) = b)"
proof -
  note D = wf_lhashD [OF wf]
  have "buckets lh ! b = take k (buckets lh ! b) @ [it] @ drop (Suc k) (buckets lh ! b)"
    using it(1,2) id_take_nth_drop by fastforce
  from concat_update [OF b(1) this] obtain pre post where c: "lh_items lh = pre @ it # post"
      "\<And>ys. concat ((buckets lh)[b := take k (buckets lh ! b) @ ys @ drop (Suc k) (buckets lh ! b)]) = pre @ ys @ post"
    by (auto simp: lh_items_def)
  have fresh: "it_addr it \<notin> it_addr ` set (pre @ post)"
    using D(5) unfolding c(1) by auto
  have "C (lh_comp lh) (it_data x) p \<noteq> 0" if x: "x \<in> set (pre @ post)" for x
  proof
    assume "C (lh_comp lh) (it_data x) p = 0"
    then have "C (lh_comp lh) (it_data x) (it_data it) = 0"
      using laws it(4) unfolding hash_laws_def by metis
    then have "x = it"
      using D(8) [of x it] x it(3) c(1) by auto
    then show False
      using x fresh by auto
  qed
  moreover have "it_hash it = H (lh_hash lh) p"
    using D(6) [OF it(3)] laws it(4) unfolding hash_laws_def by metis
  moreover have "\<forall>x \<in> set (buckets lh ! b). unat (ucast (it_hash x) mod num_buckets lh) = b"
    using D(3) b(1) by (auto simp: placed_def)
  ultimately show ?thesis
    using c fresh by blast
qed

lemma lh_delete_contract:
  assumes wf: "wf_lhash H C lh" and laws: "hash_laws H C"
  shows "\<exists>old lh'. OPENSSL_lh_delete zalloc H C lh p = Some (old, lh') \<and> wf_lhash H C lh' \<and> found_or_null C lh p old \<and>
    lh_members lh' = {y \<in> lh_members lh. C (lh_comp lh) y p \<noteq> 0} \<and> lh_hash lh' = lh_hash lh \<and> lh_comp lh' = lh_comp lh \<and>
    callback_depth lh' = callback_depth lh"
proof (rule get_next_ptr [OF wf laws, of p])
  fix b k
  assume ptr: "get_next_ptr_and_hash H C lh p = Some (H (lh_hash lh) p, b, k)" and b: "b < length (buckets lh)"
      "b = unat (ucast (H (lh_hash lh) p) mod num_buckets lh)"
    and none: "item_at lh b k = None \<Longrightarrow> k = length (buckets lh ! b) \<and> (\<forall>x \<in> set (lh_items lh). C (lh_comp lh) (it_data x) p \<noteq> 0)"
    and some: "\<And>x. item_at lh b k = Some x \<Longrightarrow> k < length (buckets lh ! b) \<and> buckets lh ! b ! k = x \<and> x \<in> set (lh_items lh) \<and> C (lh_comp lh) (it_data x) p = 0"
  show ?thesis
  proof (cases "item_at lh b k")
    case None
    then show ?thesis
      using ptr none wf by (auto simp: OPENSSL_lh_delete_def lh_members_def found_or_null_def)
  next
    case (Some it)
    note S = some [OF Some]
    obtain pre post where T: "lh_items lh = pre @ it # post"
        "\<And>ys. concat ((buckets lh)[b := take k (buckets lh ! b) @ ys @ drop (Suc k) (buckets lh ! b)]) = pre @ ys @ post"
        "\<forall>x \<in> set (pre @ post). C (lh_comp lh) (it_data x) p \<noteq> 0"
        "\<forall>x \<in> set (buckets lh ! b). unat (ucast (it_hash x) mod num_buckets lh) = b"
      using take_out [OF wf laws b, of k it] S by blast
    define lh1 where "lh1 = lh\<lparr>buckets := (buckets lh)[b := take k (buckets lh ! b) @ drop (Suc k) (buckets lh ! b)], num_items := num_items lh - 1\<rparr>"
    have it1: "lh_items lh1 = pre @ post"
      using T(2) [of "[]"] by (simp add: lh1_def lh_items_def)
    have "placed lh1"
      using T(4) b(1) by (intro placed_update [OF wf_lhashD(3) [OF wf], of b "take k (buckets lh ! b) @ drop (Suc k) (buckets lh ! b)"])
        (auto simp: lh1_def dest: in_set_takeD in_set_dropD)
    then have "wf_lhash H C lh1"
      by (intro wf_remove [OF wf T(1) it1]) (simp_all add: lh1_def)
    from maybe_resize [OF this, of zalloc] obtain lh' where r: "lh_maybe_resize zalloc lh1 = Some lh'" "wf_lhash H C lh'" "same_members lh1 lh'"
      by blast
    have "OPENSSL_lh_delete zalloc H C lh p = Some (it_data it, lh')"
      using ptr Some r(1) by (simp add: OPENSSL_lh_delete_def Let_def lh1_def)
    moreover have "lh_members lh' = {y \<in> lh_members lh. C (lh_comp lh) y p \<noteq> 0}"
      using same_members_members [OF r(3)] T(3) S by (auto simp: members_items [OF T(1)] members_items [OF it1])
    moreover have "lh_hash lh' = lh_hash lh" "lh_comp lh' = lh_comp lh" "callback_depth lh' = callback_depth lh"
      using r(3) by (simp_all add: same_members_def lh1_def)
    ultimately show ?thesis
      using r(2) S by (auto simp: lh_members_def found_or_null_def)
  qed
qed

lemma lh_insert_contract:
  assumes wf: "wf_lhash H C lh" and laws: "hash_laws H C" and room: "unat (num_items lh) + 1 < 2 ^ 64"
  shows "\<exists>ok old lh'. OPENSSL_lh_insert malloc zalloc H C lh p = Some (ok, old, lh') \<and> wf_lhash H C lh' \<and> found_or_null C lh p old \<and>
    lh_hash lh' = lh_hash lh \<and> lh_comp lh' = lh_comp lh \<and> callback_depth lh' = callback_depth lh \<and>
    (ok \<longrightarrow> lh_members lh' = insert p {y \<in> lh_members lh. C (lh_comp lh) y p \<noteq> 0}) \<and>
    (\<not> ok \<longrightarrow> \<not> malloc \<and> lh' = lh \<and> (\<forall>y \<in> lh_members lh. C (lh_comp lh) y p \<noteq> 0))"
proof (rule get_next_ptr [OF wf laws, of p])
  fix b k
  assume ptr: "get_next_ptr_and_hash H C lh p = Some (H (lh_hash lh) p, b, k)" and b: "b < length (buckets lh)"
      "b = unat (ucast (H (lh_hash lh) p) mod num_buckets lh)"
    and none: "item_at lh b k = None \<Longrightarrow> k = length (buckets lh ! b) \<and> (\<forall>x \<in> set (lh_items lh). C (lh_comp lh) (it_data x) p \<noteq> 0)"
    and some: "\<And>x. item_at lh b k = Some x \<Longrightarrow> k < length (buckets lh ! b) \<and> buckets lh ! b ! k = x \<and> x \<in> set (lh_items lh) \<and> C (lh_comp lh) (it_data x) p = 0"
  note D = wf_lhashD [OF wf]
  show ?thesis
  proof (cases "item_at lh b k")
    case None
    note N = none [OF None]
    show ?thesis
    proof (cases malloc)
      case False
      then show ?thesis
        using ptr None N wf by (auto simp: OPENSSL_lh_insert_def lh_members_def found_or_null_def)
    next
      case True
      define z where "z = \<lparr>it_data = p, it_hash = H (lh_hash lh) p, it_addr = next_item lh\<rparr>"
      define lh1 where "lh1 = lh\<lparr>buckets := (buckets lh)[b := buckets lh ! b @ [z]], num_items := num_items lh + 1, next_item := next_item lh + 1\<rparr>"
      obtain pre post where c: "lh_items lh = pre @ post" "lh_items lh1 = pre @ z # post"
        using concat_update [OF b(1), of "buckets lh ! b" "[]" "[]"] by (auto simp: lh_items_def lh1_def)
      have "unat (num_items lh + 1) = Suc (length pre + length post)"
        using D(4) room c(1) by (simp add: unat_word_ariths)
      moreover have "\<forall>x \<in> set (buckets lh ! b). unat (ucast (it_hash x) mod num_buckets lh) = b"
        using D(3) b(1) by (auto simp: placed_def)
      then have "placed lh1"
        using b by (intro placed_update [OF D(3), of b "buckets lh ! b @ [z]"]) (auto simp: lh1_def z_def)
      moreover have "next_item lh \<notin> it_addr ` set (pre @ post)"
        using D(7) c(1) by fastforce
      ultimately have "wf_lhash H C lh1"
        using N c by (intro wf_put [OF wf laws c]) (simp_all add: lh1_def z_def)
      from maybe_resize [OF this, of zalloc] obtain lh' where r: "lh_maybe_resize zalloc lh1 = Some lh'" "wf_lhash H C lh'" "same_members lh1 lh'"
        by blast
      have "OPENSSL_lh_insert malloc zalloc H C lh p = Some (True, 0, lh')"
        using ptr None True r(1) by (simp add: OPENSSL_lh_insert_def Let_def lh1_def z_def)
      moreover have "lh_members lh' = insert p {y \<in> lh_members lh. C (lh_comp lh) y p \<noteq> 0}"
        using N c(1) by (auto simp: same_members_members [OF r(3)] members_items [OF c(1)] members_items [OF c(2)] z_def)
      ultimately show ?thesis
        using r(2,3) N by (auto simp: same_members_def lh1_def found_or_null_def lh_members_def)
    qed
  next
    case (Some it)
    note S = some [OF Some]
    obtain pre post where T: "lh_items lh = pre @ it # post"
        "\<And>ys. concat ((buckets lh)[b := take k (buckets lh ! b) @ ys @ drop (Suc k) (buckets lh ! b)]) = pre @ ys @ post"
        "\<forall>x \<in> set (pre @ post). C (lh_comp lh) (it_data x) p \<noteq> 0" "it_addr it \<notin> it_addr ` set (pre @ post)" "it_hash it = H (lh_hash lh) p"
        "\<forall>x \<in> set (buckets lh ! b). unat (ucast (it_hash x) mod num_buckets lh) = b"
      using take_out [OF wf laws b, of k it] S by blast
    let ?z = "it\<lparr>it_data := p\<rparr>"
    define c where "c ys = take k (buckets lh ! b) @ ys @ drop (Suc k) (buckets lh ! b)" for ys
    define lh0 where "lh0 = lh\<lparr>buckets := (buckets lh)[b := c []], num_items := num_items lh - 1\<rparr>"
    define lh1 where "lh1 = lh\<lparr>buckets := (buckets lh)[b := c [?z]]\<rparr>"
    have it0: "lh_items lh0 = pre @ post" and it1: "lh_items lh1 = pre @ ?z # post"
      using T(2) [of "[]"] T(2) [of "[?z]"] by (simp_all add: lh0_def lh1_def lh_items_def c_def)
    have c: "unat (ucast (it_hash x) mod num_buckets lh) = b" if "x \<in> set (c ys)" "set ys \<subseteq> {?z}" for x ys
      using that T(5,6) b(2) by (auto simp: c_def dest: in_set_takeD in_set_dropD)
    have placed0: "placed lh0"
      using b(1) c [of _ "[]"] by (intro placed_update [OF D(3), of b "c []"]) (simp_all add: lh0_def)
    have placed1: "placed lh1"
      using b(1) c [of _ "[?z]"] by (intro placed_update [OF D(3), of b "c [?z]"]) (simp_all add: lh1_def)
    have "wf_lhash H C lh0"
      by (rule wf_remove [OF wf T(1) it0 placed0]) (simp_all add: lh0_def)
    then have wf1: "wf_lhash H C lh1"
    proof (rule wf_put [OF _ laws it0 it1 placed1])
      show "unat (num_items lh1) = Suc (length pre + length post)"
        using D(4) T(1) by (simp add: lh1_def)
    qed (use D(7) S T(3-5) in \<open>simp_all add: lh0_def lh1_def\<close>)
    have "(buckets lh ! b)[k := ?z] = c [?z]"
      using S by (simp add: c_def upd_conv_take_nth_drop)
    then have "OPENSSL_lh_insert malloc zalloc H C lh p = Some (True, it_data it, lh1)"
      using ptr Some by (simp add: OPENSSL_lh_insert_def Let_def lh1_def)
    moreover have "lh_members lh1 = insert p {y \<in> lh_members lh. C (lh_comp lh) y p \<noteq> 0}"
      using T(3) S by (auto simp: members_items [OF T(1)] members_items [OF it1])
    ultimately show ?thesis
      using wf1 S by (auto simp: lh1_def found_or_null_def lh_members_def)
  qed
qed

lemma lh_new_contract:
  "\<exists>lh. OPENSSL_lh_new True True h c = Some lh \<and> wf_lhash H C lh \<and> lh_members lh = {} \<and> lh_hash lh = h \<and> lh_comp lh = c"
  by (simp add: OPENSSL_lh_new_def wf_lhash_def placed_def lh_items_def lh_members_def kMinNumBuckets_def)

text \<open>Freeing a table frees each of its items once.\<close>

lemma lh_free_contract:
  assumes wf: "wf_lhash H C lh"
  shows "\<exists>freed. OPENSSL_lh_free (Some lh) = Some freed \<and> distinct freed \<and> set freed = it_addr ` set (lh_items lh)"
  using wf_lhashD(1,5) [OF wf] by (simp add: OPENSSL_lh_free_def lh_items_def)

end
