(* ===== verification/LhashVisit.thy ===== *)
theory LhashVisit
  imports LhashProofs
begin

text \<open>
  Traversal of a hash table by \<^verbatim>\<open>OPENSSL_lh_doall_arg\<close>, with a callback that changes a state of its own and may delete
  from the table the element it is called on.
\<close>

section \<open>The callback and what it does to a list\<close>

definition visitor ::
  "hash_helper \<Rightarrow> cmp_helper \<Rightarrow> bool \<Rightarrow> (addr \<Rightarrow> 'u \<Rightarrow> bool \<times> 'u) \<Rightarrow> 'u callback" where
  "visitor H C zalloc step x lh u =
     (let (del, u1) = step x u in
      if del then map_option (\<lambda>(_, lh1). (lh1, u1)) (OPENSSL_lh_delete zalloc H C lh x) else Some (lh, u1))"

fun run_steps :: "(addr \<Rightarrow> 'u \<Rightarrow> bool \<times> 'u) \<Rightarrow> addr list \<Rightarrow> 'u \<Rightarrow> addr list \<times> 'u" where
  "run_steps step [] u = ([], u)"
| "run_steps step (x # xs) u = (let (del, u1) = step x u; (ks, u2) = run_steps step xs u1 in (if del then ks else x # ks, u2))"

lemma run_steps_append:
  "run_steps step (xs @ ys) u = (let (ks, u1) = run_steps step xs u; (ls, u2) = run_steps step ys u1 in (ks @ ls, u2))"
  by (induction xs arbitrary: u) (simp_all add: Let_def split_beta)

section \<open>One deletion\<close>

definition same_shape :: "lhash \<Rightarrow> lhash \<Rightarrow> bool" where
  "same_shape lh lh' \<longleftrightarrow> num_buckets lh' = num_buckets lh \<and> callback_depth lh' = callback_depth lh \<and>
     lh_hash lh' = lh_hash lh \<and> lh_comp lh' = lh_comp lh"

lemma same_shape_refl: "same_shape lh lh"
  by (simp add: same_shape_def)

lemma same_shape_trans: "same_shape a b \<Longrightarrow> same_shape b c \<Longrightarrow> same_shape a c"
  by (simp add: same_shape_def)

lemma distinct_chain:
  assumes "wf_lhash H C lh" "i < length (buckets lh)"
  shows "distinct (map it_addr (buckets lh ! i))"
proof -
  have "concat (buckets lh) = concat (take i (buckets lh) @ buckets lh ! i # drop (Suc i) (buckets lh))"
    using id_take_nth_drop [OF assms(2)] by simp
  then show ?thesis
    using wf_lhashD(5) [OF assms(1)] by (simp add: lh_items_def)
qed

lemma delete_current:
  assumes wf: "wf_lhash H C lh" and laws: "hash_laws H C" and depth: "callback_depth lh > 0"
    and i: "i < length (buckets lh)" "buckets lh ! i = xs @ it # ys"
  shows "\<exists>lh'. OPENSSL_lh_delete zalloc H C lh (it_data it) = Some (it_data it, lh') \<and> wf_lhash H C lh' \<and> same_shape lh lh' \<and>
    buckets lh' = (buckets lh)[i := xs @ ys]"
proof (rule get_next_ptr [OF wf laws, of "it_data it"])
  fix b k
  assume ptr: "get_next_ptr_and_hash H C lh (it_data it) = Some (H (lh_hash lh) (it_data it), b, k)" and b: "b < length (buckets lh)"
      "b = unat (ucast (H (lh_hash lh) (it_data it)) mod num_buckets lh)"
    and none: "item_at lh b k = None \<Longrightarrow> k = length (buckets lh ! b) \<and> (\<forall>x \<in> set (lh_items lh). C (lh_comp lh) (it_data x) (it_data it) \<noteq> 0)"
    and some: "\<And>x. item_at lh b k = Some x \<Longrightarrow>
      k < length (buckets lh ! b) \<and> buckets lh ! b ! k = x \<and> x \<in> set (lh_items lh) \<and> C (lh_comp lh) (it_data x) (it_data it) = 0"
  note D = wf_lhashD [OF wf]
  have it: "it \<in> set (lh_items lh)"
    using i by (auto simp: in_items)
  have "C (lh_comp lh) (it_data it) (it_data it) = 0"
    using laws unfolding hash_laws_def by blast
  then obtain x where x: "item_at lh b k = Some x"
    using none it by (cases "item_at lh b k") auto
  note S = some [OF x]
  have "x = it"
    using D(8) [of x it] S it by blast
  have "unat (ucast (it_hash it) mod num_buckets lh) = i"
    using D(3) i by (simp add: placed_def)
  then have "b = i"
    using D(6) [OF it] b(2) by simp
  have k: "k < length (buckets lh ! i)" "(xs @ it # ys) ! k = (xs @ it # ys) ! length xs"
    using S \<open>x = it\<close> \<open>b = i\<close> i(2) by simp_all
  have "distinct (xs @ it # ys)"
    using distinct_chain [OF wf i(1)] unfolding i(2) by (simp only: distinct_map)
  then have "k = length xs"
    using nth_eq_iff_index_eq [of "xs @ it # ys" k "length xs"] k i(2) by simp
  let ?lh = "lh\<lparr>buckets := (buckets lh)[i := xs @ ys], num_items := num_items lh - 1\<rparr>"
  have "OPENSSL_lh_delete zalloc H C lh (it_data it) = Some (it_data it, ?lh)"
    using ptr x \<open>x = it\<close> \<open>b = i\<close> \<open>k = length xs\<close> i(2) depth
    by (simp add: OPENSSL_lh_delete_def Let_def lh_maybe_resize_def)
  moreover from this have "wf_lhash H C ?lh"
    using lh_delete_contract [OF wf laws, of zalloc "it_data it"] by auto
  ultimately show ?thesis
    by (auto simp: same_shape_def)
qed

section \<open>The loops\<close>

lemma item_and_next: "distinct (map it_addr (xs @ y # ys)) \<Longrightarrow> item_and_next (it_addr y) (xs @ y # ys) = Some (y, head_addr ys)"
  by (induction xs) auto

lemma visit_chain:
  assumes laws: "hash_laws H C"
  shows "wf_lhash H C lh \<Longrightarrow> callback_depth lh > 0 \<Longrightarrow> i < length (buckets lh) \<Longrightarrow> buckets lh ! i = xs @ ys \<Longrightarrow>
    \<exists>lh' ks. visit_chain (visitor H C zalloc step) i (head_addr ys) lh u = Some (lh', snd (run_steps step (map it_data ys) u)) \<and>
      wf_lhash H C lh' \<and> same_shape lh lh' \<and> buckets lh' = (buckets lh)[i := xs @ ks] \<and> map it_data ks = fst (run_steps step (map it_data ys) u)"
proof (induction ys arbitrary: xs lh u)
  case Nil
  then have "(buckets lh)[i := xs] = buckets lh"
    using list_update_id [of "buckets lh" i] by simp
  with Nil show ?case
    by (intro exI [of _ lh] exI [of _ "[]"]) (auto simp: visit_chain.simps same_shape_refl)
next
  case (Cons y ys)
  obtain del u1 where s: "step (it_data y) u = (del, u1)"
    by (cases "step (it_data y) u")
  have step_item: "item_and_next (it_addr y) (buckets lh ! i) = Some (y, head_addr ys)"
    using item_and_next [of xs y ys] distinct_chain [OF Cons(2,4)] Cons(5) by simp
  show ?case
  proof (cases del)
    case True
    from delete_current [OF Cons(2) laws Cons(3,4,5), of zalloc] obtain lh1 where d: "OPENSSL_lh_delete zalloc H C lh (it_data y) = Some (it_data y, lh1)"
        "wf_lhash H C lh1" "same_shape lh lh1" "buckets lh1 = (buckets lh)[i := xs @ ys]"
      by blast
    from Cons.IH [OF d(2), of xs u1] d(3,4) Cons(3,4) obtain lh' ks
      where r: "visit_chain (visitor H C zalloc step) i (head_addr ys) lh1 u1 = Some (lh', snd (run_steps step (map it_data ys) u1))"
        "wf_lhash H C lh'" "same_shape lh1 lh'" "buckets lh' = (buckets lh)[i := xs @ ks]" "map it_data ks = fst (run_steps step (map it_data ys) u1)"
      by (auto simp: same_shape_def)
    have call: "visitor H C zalloc step (it_data y) lh u = Some (lh1, u1)"
      using s d(1) True by (simp add: visitor_def)
    with r show ?thesis
      using step_item s True same_shape_trans [OF d(3) r(3)]
      by (intro exI [of _ lh'] exI [of _ ks]) (simp add: visit_chain.simps [of _ _ "Some (it_addr y)" lh] call split_beta)
  next
    case False
    from Cons.IH [of lh "xs @ [y]" u1] Cons(2-5) obtain lh' ks
      where r: "visit_chain (visitor H C zalloc step) i (head_addr ys) lh u1 = Some (lh', snd (run_steps step (map it_data ys) u1))"
        "wf_lhash H C lh'" "same_shape lh lh'" "buckets lh' = (buckets lh)[i := xs @ y # ks]" "map it_data ks = fst (run_steps step (map it_data ys) u1)"
      by auto
    have call: "visitor H C zalloc step (it_data y) lh u = Some (lh, u1)"
      using s False by (simp add: visitor_def)
    with r show ?thesis
      using step_item s False
      by (intro exI [of _ lh'] exI [of _ "y # ks"]) (simp add: visit_chain.simps [of _ _ "Some (it_addr y)" lh] call split_beta)
  qed
qed

lemma visit_buckets:
  assumes laws: "hash_laws H C"
  shows "wf_lhash H C lh \<Longrightarrow> callback_depth lh > 0 \<Longrightarrow> i \<le> num_buckets lh \<Longrightarrow> n = unat (num_buckets lh) - unat i \<Longrightarrow>
    \<exists>lh'. visit_buckets (visitor H C zalloc step) i lh u = Some (lh', snd (run_steps step (map it_data (concat (drop (unat i) (buckets lh)))) u)) \<and>
      wf_lhash H C lh' \<and> same_shape lh lh' \<and> take (unat i) (buckets lh') = take (unat i) (buckets lh) \<and>
      map it_data (concat (drop (unat i) (buckets lh'))) = fst (run_steps step (map it_data (concat (drop (unat i) (buckets lh)))) u)"
proof (induction n arbitrary: i lh u)
  case 0
  then have "i = num_buckets lh"
    by (simp add: word_le_nat_alt word_unat_eq_iff)
  then show ?case
    using 0(1) wf_lhashD(1) [OF 0(1)]
    by (intro exI [of _ lh]) (simp add: visit_buckets.simps same_shape_refl)
next
  case (Suc n)
  have i: "i < num_buckets lh" "unat i < length (buckets lh)"
    using Suc(5) wf_lhashD(1) [OF Suc(2)] by (simp_all add: word_less_nat_alt)
  have Suc_i: "unat (i + 1) = Suc (unat i)"
    using i(1) unat_u64_less [of "num_buckets lh"] by (simp add: word_less_nat_alt unat_word_ariths)
  let ?c = "buckets lh ! unat i"
  from visit_chain [OF laws Suc(2,3) i(2), of "[]" ?c zalloc step u] obtain lh1 ks
    where v: "visit_chain (visitor H C zalloc step) (unat i) (head_addr ?c) lh u = Some (lh1, snd (run_steps step (map it_data ?c) u))"
      "wf_lhash H C lh1" "same_shape lh lh1" "buckets lh1 = (buckets lh)[unat i := ks]" "map it_data ks = fst (run_steps step (map it_data ?c) u)"
    by auto
  let ?u1 = "snd (run_steps step (map it_data ?c) u)"
  have "i + 1 \<le> num_buckets lh1" "n = unat (num_buckets lh1) - unat (i + 1)" "callback_depth lh1 > 0"
    using i(1) v(3) Suc(3,5) Suc_i by (simp_all add: same_shape_def word_le_nat_alt word_less_nat_alt)
  from Suc.IH [OF v(2) this(3,1,2), of ?u1] obtain lh' where
    r: "visit_buckets (visitor H C zalloc step) (i + 1) lh1 ?u1 =
        Some (lh', snd (run_steps step (map it_data (concat (drop (Suc (unat i)) (buckets lh)))) ?u1))"
      "wf_lhash H C lh'" "same_shape lh1 lh'" "take (Suc (unat i)) (buckets lh') = take (Suc (unat i)) ((buckets lh)[unat i := ks])"
      "map it_data (concat (drop (Suc (unat i)) (buckets lh'))) = fst (run_steps step (map it_data (concat (drop (Suc (unat i)) (buckets lh)))) ?u1)"
    by (auto simp: Suc_i v(4))
  have len: "length (buckets lh') = length (buckets lh)"
    using wf_lhashD(1) [OF r(2)] wf_lhashD(1) [OF Suc(2)] v(3) r(3) by (simp add: same_shape_def)
  have old: "drop (unat i) (buckets lh) = ?c # drop (Suc (unat i)) (buckets lh)"
    using i(2) by (simp add: Cons_nth_drop_Suc)
  have "take (Suc (unat i)) (buckets lh') = take (unat i) (buckets lh) @ [ks]"
    using r(4) i(2) by (simp add: take_Suc_conv_app_nth)
  then have new: "take (unat i) (buckets lh') = take (unat i) (buckets lh)" "drop (unat i) (buckets lh') = ks # drop (Suc (unat i)) (buckets lh')"
    using i(2) len by (simp_all add: take_Suc_conv_app_nth Cons_nth_drop_Suc [symmetric])
  show ?case
    using i v(1) r(1,2,5) v(5) new same_shape_trans [OF v(3) r(3)]
    by (intro exI [of _ lh']) (simp add: visit_buckets.simps [of _ i] old run_steps_append Let_def split_beta)
qed

section \<open>The traversal\<close>

lemma wf_depth: "wf_lhash H C (lh\<lparr>callback_depth := d\<rparr>) = wf_lhash H C lh"
  by (simp add: wf_lhash_def placed_def lh_items_def)

lemma depth_count:
  fixes d :: u32
  defines "e \<equiv> if d < UINT_MAX then d + 1 else d"
  shows "(if e < UINT_MAX then e - 1 else e) = (if d < UINT_MAX - 1 then d else UINT_MAX)"
proof -
  have "d + 1 = UINT_MAX \<or> d + 1 < UINT_MAX" if "d < UINT_MAX"
    using that by (auto simp: UINT_MAX_def word_less_nat_alt unat_word_ariths word_unat_eq_iff)
  moreover have "d < UINT_MAX - 1 \<longleftrightarrow> d < UINT_MAX \<and> d + 1 < UINT_MAX" "d < UINT_MAX \<or> d = UINT_MAX"
    using unat_u32_less [of d] by (auto simp: UINT_MAX_def word_less_nat_alt unat_word_ariths word_unat_eq_iff)
  ultimately show ?thesis
    by (auto simp: e_def)
qed

lemma doall_contract:
  assumes wf: "wf_lhash H C lh" and laws: "hash_laws H C"
  shows "\<exists>lh'. OPENSSL_lh_doall_arg zalloc (Some lh) (visitor H C zalloc step) u =
      Some (Some lh', snd (run_steps step (map it_data (lh_items lh)) u)) \<and>
    wf_lhash H C lh' \<and> lh_members lh' = set (fst (run_steps step (map it_data (lh_items lh)) u)) \<and>
    callback_depth lh' = (if callback_depth lh < UINT_MAX - 1 then callback_depth lh else UINT_MAX)"
proof -
  define lh1 where "lh1 = (if callback_depth lh < UINT_MAX then lh\<lparr>callback_depth := callback_depth lh + 1\<rparr> else lh)"
  have wf1: "wf_lhash H C lh1" and it1: "lh_items lh1 = lh_items lh"
    using wf by (simp_all add: lh1_def wf_depth lh_items_def)
  have d1: "callback_depth lh1 = (if callback_depth lh < UINT_MAX then callback_depth lh + 1 else callback_depth lh)"
    by (simp add: lh1_def)
  have pos: "callback_depth lh1 > 0"
    unfolding d1 by (auto simp: UINT_MAX_def word_less_nat_alt unat_word_ariths)
  from visit_buckets [OF laws wf1 pos, of 0 "unat (num_buckets lh1)" zalloc step u] obtain lh2
    where v: "visit_buckets (visitor H C zalloc step) 0 lh1 u = Some (lh2, snd (run_steps step (map it_data (lh_items lh)) u))"
      "wf_lhash H C lh2" "same_shape lh1 lh2" "map it_data (lh_items lh2) = fst (run_steps step (map it_data (lh_items lh)) u)"
    by (auto simp: it1 lh_items_def [symmetric])
  define lh3 where "lh3 = (if callback_depth lh2 < UINT_MAX then lh2\<lparr>callback_depth := callback_depth lh2 - 1\<rparr> else lh2)"
  have wf3: "wf_lhash H C lh3" and it3: "lh_items lh3 = lh_items lh2"
    using v(2) by (simp_all add: lh3_def wf_depth lh_items_def)
  have d3: "callback_depth lh3 = (if callback_depth lh < UINT_MAX - 1 then callback_depth lh else UINT_MAX)"
    using v(3) depth_count [of "callback_depth lh"] by (auto simp: lh3_def same_shape_def d1)
  from maybe_resize [OF wf3, of zalloc] obtain lh' where r: "lh_maybe_resize zalloc lh3 = Some lh'" "wf_lhash H C lh'" "same_members lh3 lh'"
    by blast
  have "OPENSSL_lh_doall_arg zalloc (Some lh) (visitor H C zalloc step) u = Some (Some lh', snd (run_steps step (map it_data (lh_items lh)) u))"
    using v(1) r(1) by (simp add: OPENSSL_lh_doall_arg_def Let_def flip: lh1_def lh3_def)
  moreover have "lh_members lh' = set (fst (run_steps step (map it_data (lh_items lh)) u))"
    using same_members_members [OF r(3)] v(4) by (simp add: lh_members_def it3 flip: set_map)
  ultimately show ?thesis
    using r(2,3) d3 by (simp add: same_members_def)
qed

end
