(* ===== verification/Ber.thy ===== *)
theory Ber
  imports CbbBuild
begin

text \<open>
  Conversion of BER to DER (\<^verbatim>\<open>crypto/bytestring/ber.c\<close>): a walk that looks for indefinite lengths, lengths that are not
  minimal and constructed strings, and a recursive copy from a \<^verbatim>\<open>CBS\<close> to a \<^verbatim>\<open>CBB\<close> that removes them. The syntax of
  BER is given by trees, and the element reader is shown to read their encodings.
\<close>

unbundle bit_operations_syntax

section \<open>BER elements\<close>

text \<open>A length in one byte or in up to four bytes behind a byte that counts them, in any of the sizes that fit.\<close>

definition ber_length :: "nat \<Rightarrow> byte list \<Rightarrow> bool" where
  "ber_length n lc \<longleftrightarrow> n < 128 \<and> lc = [of_nat n] \<or>
     (\<exists>k. 1 \<le> k \<and> k \<le> 4 \<and> n < 2 ^ (8 * k) \<and> lc = of_nat (128 + k) # be_bytes k (of_nat n :: u64))"

definition definite :: "CBS_ASN1_TAG \<Rightarrow> byte list \<Rightarrow> cbs \<Rightarrow> asn1_element" where
  "definite t lc body = \<lparr>el_bytes = tag_code t @ lc @ body, el_tag = t, el_header_len = of_nat (length (tag_code t) + length lc),
     el_ber_found = (lc \<noteq> der_length (length body)), el_indefinite = False\<rparr>"

definition indefinite :: "CBS_ASN1_TAG \<Rightarrow> asn1_element" where
  "indefinite t = \<lparr>el_bytes = tag_code t @ [0x80], el_tag = t, el_header_len = of_nat (length (tag_code t) + 1),
     el_ber_found = True, el_indefinite = True\<rparr>"

lemma unat_small_sum: "a \<le> 11 \<Longrightarrow> b \<le> 5 \<Longrightarrow> c < 2 ^ 32 \<Longrightarrow> unat (of_nat (a + b + c) :: u64) = a + b + c"
  by (intro unat_of_nat_u64) simp

lemma ber_length_props:
  assumes "ber_length n lc"
  shows "n < 2 ^ 32" "1 \<le> length lc" "length lc \<le> 5"
  using assms
proof -
  have "(2 :: nat) ^ (8 * k) \<le> 2 ^ 32" if "k \<le> 4" for k
    using that by (intro power_increasing) simp_all
  then show "n < 2 ^ 32"
    using assms unfolding ber_length_def by fastforce
qed (use assms in \<open>auto simp: ber_length_def\<close>)

lemma der_ber_length: "n < 2 ^ 32 \<Longrightarrow> ber_length n (der_length n)"
  using length_octets_less [of n] length_octets_range [of n] by (auto simp: ber_length_def der_length_def)

text \<open>Whether a length is minimal, as the code tests it.\<close>

lemma minimal_test:
  assumes k: "1 \<le> k" "k \<le> 4" "n < 2 ^ (8 * k)"
  shows "(of_nat n :: u64) < 128 \<or> drop_bit (unat ((of_nat k - 1) * 8 :: u64)) (of_nat n :: u64) = 0 \<longleftrightarrow>
    of_nat (128 + k) # be_bytes k (of_nat n :: u64) \<noteq> der_length n"
proof -
  have n: "n < 2 ^ 32"
    using k(2,3) power_increasing [of "8 * k" 32 "2 :: nat"] by simp
  then have un: "unat (of_nat n :: u64) = n"
    by (intro unat_of_nat_u64) simp
  have "(of_nat n :: u64) < 128 \<longleftrightarrow> n < 128"
    using un by (simp add: word_less_nat_alt)
  moreover have "drop_bit (unat ((of_nat k - 1) * 8 :: u64)) (of_nat n :: u64) = 0 \<longleftrightarrow> n div 2 ^ (8 * (k - 1)) = 0"
    by (simp only: shift_amount [OF k(1,2)] drop_bit_eq_0_iff_unat un div_eq_0_iff) simp
  moreover have "of_nat (128 + k) # be_bytes k (of_nat n :: u64) = der_length n \<longleftrightarrow> 128 \<le> n \<and> length_octets n = k"
  proof -
    have "k = length_octets n" if "be_bytes k (of_nat n :: u64) = be_bytes (length_octets n) (of_nat n)"
      using arg_cong [OF that, of length] by simp
    moreover have "be_bytes k (of_nat n :: u64) \<noteq> []"
      using k(1) length_be_bytes [of k "of_nat n :: u64"] by (metis list.size(3) not_one_le_zero)
    ultimately show ?thesis
      unfolding der_length_def by (auto simp del: of_nat_add)
  qed
  ultimately show ?thesis
    using length_octets_minimal [OF n k] by auto
qed

text \<open>The element reader behind the tag and the first byte of the length.\<close>

lemma ber_reader:
  assumes "parse_asn1_tag cbs = (Some t, lb # h2)"
  shows "CBS_get_any_ber_asn1_element cbs =
    (let hl = CBS_len cbs - CBS_len h2; nb = ucast (lb AND 0x7f) :: size_t;
         element = (\<lambda>len hl b i. map_reader (\<lambda>out. \<lparr>el_bytes = out, el_tag = t, el_header_len = hl, el_ber_found = b, el_indefinite = i\<rparr>)
           (cbs_get len) cbs)
     in if lb AND 0x80 = 0 then element (ucast lb + hl) hl False False
        else if t AND CBS_ASN1_CONSTRUCTED \<noteq> 0 \<and> nb = 0 then element hl hl True True
        else if nb = 0 \<or> nb > 4 then (None, cbs)
        else (case cbs_get_u nb h2 of
                (None, _) \<Rightarrow> (None, cbs)
              | (Some v, _) \<Rightarrow>
                  if v + hl + nb < v then (None, cbs)
                  else element (v + (hl + nb)) (hl + nb) (v < 128 \<or> drop_bit (unat ((nb - 1) * 8)) v = 0) False))"
  by (simp add: CBS_get_any_ber_asn1_element_def cbs_get_any_asn1_element_def assms CBS_get_bytes_def Let_def split: option.splits prod.splits)

lemma ber_element_definite:
  assumes t: "tag_valid t" and lc: "ber_length (length body) lc"
  shows "CBS_get_any_ber_asn1_element (tag_code t @ lc @ body @ rest) = (Some (definite t lc body), rest)"
proof -
  let ?n = "length body" and ?cbs = "tag_code t @ lc @ body @ rest"
  have tag: "parse_asn1_tag ?cbs = (Some t, lc @ body @ rest)"
    using tag.dec_enc [OF t] by simp
  note L = ber_length_props [OF lc]
  have T: "length (tag_code t) \<le> 11"
    by (rule length_tag_code)
  have un: "unat (of_nat ?n :: u64) = ?n"
    using L(1) by (intro unat_of_nat_u64) simp
  have got: "cbs_get (of_nat (length (tag_code t) + length lc + ?n)) ?cbs = (Some (tag_code t @ lc @ body), rest)"
    unfolding cbs_get_Some_iff unat_small_sum [OF T L(3,1)] by simp
  from lc show ?thesis
    unfolding ber_length_def
  proof (elim disjE exE conjE)
    assume n: "?n < 128" and lc: "lc = [of_nat ?n]"
    have tag': "parse_asn1_tag ?cbs = (Some t, of_nat ?n # (body @ rest))"
      using tag by (simp add: lc)
    have ub: "unat (of_nat ?n :: byte) = ?n"
      using n by (rule base128_byte(2))
    have hl: "CBS_len ?cbs - CBS_len (body @ rest) = of_nat (length (tag_code t) + length lc)"
      using header_len_diff [of "tag_code t @ lc" "body @ rest"] by simp
    have "ucast (of_nat ?n :: byte) + CBS_len ?cbs - CBS_len (body @ rest) = of_nat (length (tag_code t) + length lc + ?n)"
      using ub un hl by (simp add: word_unat_eq_iff [of "ucast (of_nat ?n :: byte)" "of_nat ?n"] add_diff_eq [symmetric])
    then have "ucast (of_nat ?n :: byte) + (CBS_len ?cbs - CBS_len (body @ rest)) = of_nat (length (tag_code t) + length lc + ?n)"
      by (simp only: add_diff_eq)
    moreover have "(of_nat ?n :: byte) AND 0x80 = 0" "der_length ?n = lc"
      using n lc ub by (simp_all add: der_length_def byte_high_iff)
    ultimately show ?thesis
      unfolding ber_reader [OF tag'] Let_def
      using got hl by (simp only: if_True) (simp add: map_reader_def bind_reader_def succeed_def definite_def)
  next
    fix k
    assume k: "1 \<le> k" "k \<le> 4" "?n < 2 ^ (8 * k)" and lc: "lc = of_nat (128 + k) # be_bytes k (of_nat ?n :: u64)"
    have tag': "parse_asn1_tag ?cbs = (Some t, of_nat (128 + k) # (be_bytes k (of_nat ?n :: u64) @ body @ rest))"
      using tag by (simp add: lc del: of_nat_add)
    have uk: "unat (of_nat k :: u64) = k"
      using k(2) by (intro unat_of_nat_u64) simp
    have u: "cbs_get_u (of_nat k) (be_bytes k (of_nat ?n :: u64) @ body @ rest) = (Some (of_nat ?n), body @ rest)"
      using codec.dec_enc [OF codec_u [OF _ uk], of "of_nat ?n"] k un by simp
    have hl: "CBS_len ?cbs - CBS_len (be_bytes k (of_nat ?n :: u64) @ body @ rest) = of_nat (length (tag_code t) + 1)"
      using header_len_diff [of "tag_code t @ [of_nat (128 + k)]" "be_bytes k (of_nat ?n :: u64) @ body @ rest"] by (simp add: lc)
    have e: "of_nat (Suc (length (tag_code t))) + of_nat k = (of_nat (Suc (length (tag_code t) + k)) :: u64)"
      "of_nat ?n + of_nat (Suc (length (tag_code t) + k)) = (of_nat (Suc (length (tag_code t) + k + ?n)) :: u64)"
      by simp_all
    have "\<not> (of_nat ?n :: u64) + of_nat (length (tag_code t) + 1) + of_nat k < of_nat ?n"
      using unat_small_sum [OF T L(3,1)] un lc by (simp add: word_less_nat_alt ac_simps)
    moreover have "(of_nat k :: u64) \<noteq> 0" "\<not> (of_nat k :: u64) > 4"
      using uk k by (auto simp: word_less_nat_alt)
    moreover have "(of_nat (128 + k) :: byte) AND 0x80 \<noteq> 0" "ucast ((of_nat (128 + k) :: byte) AND 0x7f) = (of_nat k :: u64)"
      using length_byte_long [of k] k by simp_all
    ultimately show ?thesis
      unfolding ber_reader [OF tag'] Let_def
      using got u minimal_test [OF k] unfolding hl
      by (simp add: map_reader_def bind_reader_def succeed_def definite_def lc e del: of_nat_add of_nat_Suc)
  qed
qed

lemma ber_element_indefinite:
  assumes t: "tag_valid t" and c: "t AND CBS_ASN1_CONSTRUCTED \<noteq> 0"
  shows "CBS_get_any_ber_asn1_element (tag_code t @ 0x80 # rest) = (Some (indefinite t), rest)"
proof -
  let ?cbs = "tag_code t @ 0x80 # rest"
  have tag: "parse_asn1_tag ?cbs = (Some t, 0x80 # rest)"
    using tag.dec_enc [OF t] by simp
  have hl: "CBS_len ?cbs - CBS_len rest = of_nat (length (tag_code t) + 1)"
    using header_len_diff [of "tag_code t @ [0x80]" rest] by simp
  have "unat (of_nat (length (tag_code t) + 1) :: u64) = length (tag_code t) + 1"
    using length_tag_code(2) [of t] by (intro unat_of_nat_u64) simp
  then have "cbs_get (of_nat (length (tag_code t) + 1)) ?cbs = (Some (tag_code t @ [0x80]), rest)"
    unfolding cbs_get_Some_iff by simp
  then show ?thesis
    unfolding ber_reader [OF tag] Let_def hl
    using c by (simp add: map_reader_def bind_reader_def succeed_def indefinite_def)
qed

lemma split_header:
  assumes "length out = length hdr + n" "hdr @ h3 = out @ rest"
  obtains body where "h3 = body @ rest" "length body = n"
  using assms by (intro that [of "drop (length hdr) out"]) (auto simp: append_eq_append_conv2 append_eq_conv_conj)

text \<open>The element reader accepts nothing else.\<close>

lemma ber_elementE:
  assumes "CBS_get_any_ber_asn1_element cbs = (Some e, rest)"
  obtains (def) t lc body where "tag_valid t" "ber_length (length body) lc" "cbs = tag_code t @ lc @ body @ rest" "e = definite t lc body"
  | (indef) t where "tag_valid t" "t AND CBS_ASN1_CONSTRUCTED \<noteq> 0" "cbs = tag_code t @ 0x80 # rest" "e = indefinite t"
proof -
  obtain t h1 where tag: "parse_asn1_tag cbs = (Some t, h1)"
    using assms by (auto simp: CBS_get_any_ber_asn1_element_def cbs_get_any_asn1_element_def split: option.splits prod.splits)
  then have t: "tag_valid t" "cbs = tag_code t @ h1"
    using tag.enc_dec by blast+
  have T: "length (tag_code t) \<le> 11"
    by (rule length_tag_code)
  obtain lb h2 where h1: "h1 = lb # h2"
    using assms tag by (cases h1) (auto simp: CBS_get_any_ber_asn1_element_def cbs_get_any_asn1_element_def)
  have hl: "CBS_len cbs - CBS_len h2 = of_nat (length (tag_code t) + 1)"
    using header_len_diff [of "tag_code t @ [lb]" h2] by (simp add: t h1)
  have definite: thesis if lc: "ber_length (length body) lc" and cbs: "cbs = tag_code t @ lc @ body @ rest" for lc body
  proof -
    have "e = definite t lc body"
      using ber_element_definite [OF t(1) lc, of rest] assms cbs by simp
    then show thesis
      using def t(1) lc cbs by blast
  qed
  note R = assms [unfolded ber_reader [OF tag [unfolded h1]] Let_def hl]
  show thesis
  proof (cases "lb AND 0x80 = 0")
    case True
    then have lb: "unat lb < 128"
      by (simp add: byte_high_iff)
    from R True obtain out where out: "cbs_get (ucast lb + of_nat (length (tag_code t) + 1)) cbs = (Some out, rest)"
      by (auto simp: map_reader_Some_iff)
    have "ucast lb + of_nat (length (tag_code t) + 1) = (of_nat (length (tag_code t) + 1 + unat lb) :: u64)"
      by (simp add: ac_simps)
    moreover have "unat (of_nat (length (tag_code t) + 1 + unat lb) :: u64) = length (tag_code t) + 1 + unat lb"
      using unat_small_sum [OF T, of 1 "unat lb"] lb by simp
    ultimately have "length out = length (tag_code t @ [lb]) + unat lb" "(tag_code t @ [lb]) @ h2 = out @ rest"
      using out unfolding cbs_get_Some_iff by (metis length_append_singleton Suc_eq_plus1, simp add: t h1)
    then obtain body where "h2 = body @ rest" "length body = unat lb"
      by (rule split_header)
    then show thesis
      using lb by (intro definite [of body "[lb]"]) (simp_all add: ber_length_def t h1)
  next
    case high: False
    let ?k = "unat (lb AND 0x7f)"
    let ?nb = "ucast (lb AND 0x7f) :: u64"
    show thesis
    proof (cases "t AND CBS_ASN1_CONSTRUCTED \<noteq> 0 \<and> ?nb = 0")
      case True
      from R high True obtain out where out: "cbs_get (of_nat (length (tag_code t) + 1)) cbs = (Some out, rest)"
        by (auto simp: map_reader_Some_iff)
      then have "length out = length (tag_code t @ [lb]) + 0" "(tag_code t @ [lb]) @ h2 = out @ rest"
        using unat_small_sum [OF T, of 1 0] unfolding cbs_get_Some_iff by (simp_all add: t h1)
      then obtain body where "h2 = body @ rest" "length body = 0"
        by (rule split_header)
      moreover have "?k = 0"
        using True by (simp add: word_unat_eq_iff unat_ucast_wide)
      then have "lb = 0x80"
        using length_byte_split [OF high] by simp
      ultimately have cbs: "cbs = tag_code t @ 0x80 # rest"
        by (simp add: t h1)
      then have "e = indefinite t"
        using ber_element_indefinite [OF t(1), of rest] True assms by simp
      with cbs True t(1) show thesis
        by (intro indef) simp_all
    next
      case False
      from R high False obtain v h3 out where nb: "?nb \<noteq> 0" "\<not> ?nb > 4" and v: "cbs_get_u ?nb h2 = (Some v, h3)"
          "cbs_get (v + (of_nat (length (tag_code t) + 1) + ?nb)) cbs = (Some out, rest)"
        by (auto simp: map_reader_Some_iff split: if_splits option.splits prod.splits)
      have k: "1 \<le> ?k" "?k \<le> 4" "unat ?nb = ?k"
        using nb by (auto simp: word_less_nat_alt word_unat_eq_iff)
      have enc: "unat v < 2 ^ (8 * ?k)" "h2 = be_bytes ?k v @ h3"
        using codec.enc_dec [OF codec_u [of ?k ?nb], of h2 v h3] k v by auto
      then have "unat v < 2 ^ 32"
        using k(2) power_increasing [of "8 * ?k" 32 "2 :: nat"] by simp
      then have "unat (of_nat (length (tag_code t) + (1 + ?k) + unat v) :: u64) = length (tag_code t) + (1 + ?k) + unat v"
        using unat_small_sum [OF T, of "1 + ?k" "unat v"] k(2) by simp
      moreover have "v + (of_nat (length (tag_code t) + 1) + ?nb) = of_nat (length (tag_code t) + (1 + ?k) + unat v)"
        by (simp add: ac_simps)
      ultimately have "length out = length (tag_code t) + (1 + ?k) + unat v" "cbs = out @ rest"
        using v(2) unfolding cbs_get_Some_iff by metis+
      then have "length out = length (tag_code t @ lb # be_bytes ?k v) + unat v" "(tag_code t @ lb # be_bytes ?k v) @ h3 = out @ rest"
        by (simp_all add: t h1 enc(2))
      then obtain body where body: "h3 = body @ rest" "length body = unat v"
        by (rule split_header)
      show thesis
      proof (rule definite)
        show "ber_length (length body) (lb # be_bytes ?k v)"
          using k enc(1) body(2) length_byte_split [OF high] unfolding ber_length_def by auto
        show "cbs = tag_code t @ (lb # be_bytes ?k v) @ body @ rest"
          by (simp add: t h1 enc(2) body(1))
      qed
    qed
  qed
qed

lemma skip_definite: "ber_length (length body) lc \<Longrightarrow> CBS_skip (el_header_len (definite t lc body)) (el_bytes (definite t lc body)) = (Some (), body)"
proof -
  assume "ber_length (length body) lc"
  then have "unat (of_nat (length (tag_code t) + length lc) :: u64) = length (tag_code t) + length lc"
    using unat_small_sum [of "length (tag_code t)" "length lc" 0] length_tag_code(2) [of t] ber_length_props(3) by simp
  then show ?thesis
    by (simp add: definite_def CBS_skip_def map_reader_Some_iff cbs_get_Some_iff del: of_nat_add)
qed

lemma ber_element_shorter:
  assumes "CBS_get_any_ber_asn1_element cbs = (Some e, rest)"
  shows "length rest < length cbs \<and>
    (\<forall>u inner. CBS_skip (el_header_len e) (el_bytes e) = (Some u, inner) \<longrightarrow> \<not> el_indefinite e \<longrightarrow> length inner < length cbs)"
  using assms
proof (cases rule: ber_elementE)
  case (def t lc body)
  have "tag_code t \<noteq> []"
    using length_tag_code(1) [of t] by auto
  then show ?thesis
    by (simp add: def(3,4) skip_definite [OF def(2)])
qed (auto simp: indefinite_def)

section \<open>The code\<close>

definition kMaxDepth :: u32 where "kMaxDepth = 128"

definition is_string_type :: "CBS_ASN1_TAG \<Rightarrow> bool" where
  "is_string_type t \<longleftrightarrow> t AND NOT CBS_ASN1_CONSTRUCTED \<in> {4, 12, 18, 19, 20, 21, 22, 25, 26, 27, 28, 30}"

text \<open>\<^verbatim>\<open>None\<close> is an error; otherwise the result says whether BER was found.\<close>

function cbs_find_ber :: "cbs \<Rightarrow> u32 \<Rightarrow> bool option" where
  "cbs_find_ber inp depth =
     (if depth > kMaxDepth then None
      else if inp = [] then Some False
      else
        (case CBS_get_any_ber_asn1_element inp of
           (None, _) \<Rightarrow> None
         | (Some el, inp1) \<Rightarrow>
             if el_ber_found el then Some True
             else if el_tag el AND CBS_ASN1_CONSTRUCTED \<noteq> 0 then
               (if is_string_type (el_tag el) then Some True
                else
                  (case CBS_skip (el_header_len el) (el_bytes el) of
                     (None, _) \<Rightarrow> None
                   | (Some _, inner) \<Rightarrow>
                       (case cbs_find_ber inner (depth + 1) of
                          None \<Rightarrow> None
                        | Some True \<Rightarrow> Some True
                        | Some False \<Rightarrow> cbs_find_ber inp1 depth)))
             else cbs_find_ber inp1 depth))"
  by pat_completeness auto

lemma indefinite_is_ber: "CBS_get_any_ber_asn1_element cbs = (Some e, rest) \<Longrightarrow> el_indefinite e \<Longrightarrow> el_ber_found e"
  by (erule ber_elementE) (auto simp: definite_def indefinite_def)

termination cbs_find_ber
  apply (relation "measure (\<lambda>(inp, depth). length inp)")
     apply simp
    apply (simp, metis ber_element_shorter indefinite_is_ber)
   apply (simp, metis ber_element_shorter)
  apply (simp, metis ber_element_shorter)
  done

fun cbs_get_eoc :: "cbs \<Rightarrow> cbs option" where
  "cbs_get_eoc (a # b # rest) = (if a = 0 \<and> b = 0 then Some rest else None)"
| "cbs_get_eoc _ = None"

text \<open>
  Where the contents of an element go: to \<^verbatim>\<open>out\<close> itself for a fragment of a constructed string, otherwise to a new child, the
  \<^verbatim>\<open>CBB\<close> on the stack. The result says whether the tag is right, the string tag for the children of the element and
  the \<^verbatim>\<open>CBB\<close> to write to.
\<close>

definition open_contents :: "CBS_ASN1_TAG \<Rightarrow> CBS_ASN1_TAG \<Rightarrow> nat \<Rightarrow> builder \<Rightarrow> (bool \<times> CBS_ASN1_TAG \<times> nat \<times> builder) option" where
  "open_contents string_tag t out st =
     (let k = next_local st; st1 = st\<lparr>next_local := Suc k\<rparr> in
      if string_tag \<noteq> 0 then Some (t AND NOT CBS_ASN1_CONSTRUCTED = string_tag, string_tag, out, st1)
      else
        (let (out_tag, child_string_tag) =
               (if t AND CBS_ASN1_CONSTRUCTED \<noteq> 0 \<and> is_string_type t
                then (t AND NOT CBS_ASN1_CONSTRUCTED, t AND NOT CBS_ASN1_CONSTRUCTED) else (t, string_tag))
         in map_option (\<lambda>(ok, st2). (ok, child_string_tag, k, st2)) (CBB_add_asn1 out k out_tag st1)))"

text \<open>The result is the return value, what is left of \<^verbatim>\<open>inp\<close> and the builder.\<close>

partial_function (option) cbs_convert_ber ::
  "CBS_ASN1_TAG \<Rightarrow> bool \<Rightarrow> u32 \<Rightarrow> nat \<Rightarrow> cbs \<Rightarrow> builder \<Rightarrow> (bool \<times> cbs \<times> builder) option" where
  "cbs_convert_ber string_tag looking_for_eoc depth out inp st =
     (if string_tag AND CBS_ASN1_CONSTRUCTED \<noteq> 0 then None
      else if depth > kMaxDepth then Some (False, inp, st)
      else if inp = [] then Some (\<not> looking_for_eoc, inp, st)
      else
        (case (if looking_for_eoc then cbs_get_eoc inp else None) of
           Some rest \<Rightarrow> Some (True, rest, st)
         | None \<Rightarrow>
             (case CBS_get_any_ber_asn1_element inp of
                (None, inp1) \<Rightarrow> Some (False, inp1, st)
              | (Some el, inp1) \<Rightarrow>
                  Option.bind (open_contents string_tag (el_tag el) out st) (\<lambda>(ok, child_string_tag, out_contents, st1).
                    if \<not> ok then Some (False, inp1, st1)
                    else
                      Option.bind
                        (if el_indefinite el then cbs_convert_ber child_string_tag True (depth + 1) out_contents inp1 st1
                         else
                           (case CBS_skip (el_header_len el) (el_bytes el) of
                              (None, _) \<Rightarrow> Some (False, inp1, st1)
                            | (Some _, inner) \<Rightarrow>
                                Option.bind
                                  (if el_tag el AND CBS_ASN1_CONSTRUCTED \<noteq> 0
                                   then Option.bind (cbs_convert_ber child_string_tag False (depth + 1) out_contents inner st1)
                                     (\<lambda>(ok, _, st2). Some (ok, st2))
                                   else CBB_add_bytes out_contents inner st1)
                                  (\<lambda>(ok, st2). Some (ok, inp1, st2))))
                        (\<lambda>(ok, inp2, st2).
                          if \<not> ok then Some (False, inp2, st2)
                          else
                            Option.bind (CBB_flush out st2) (\<lambda>(ok, st3).
                              if \<not> ok then Some (False, inp2, st3)
                              else cbs_convert_ber string_tag looking_for_eoc depth out inp2 st3))))))"

text \<open>
  The result: nothing on failure, otherwise \<^verbatim>\<open>out\<close> and whether it is in \<^verbatim>\<open>out_storage\<close>; and what is left of the input. The
  argument \<^verbatim>\<open>alloc\<close> gives the answers of the allocator.
\<close>

type_synonym asn1_result = "((cbs \<times> bool) option \<times> cbs) option"

definition CBS_asn1_ber_to_der :: "(nat \<Rightarrow> byte list option) \<Rightarrow> cbs \<Rightarrow> asn1_result" where
  "CBS_asn1_ber_to_der alloc inp =
     (case cbs_find_ber inp 0 of
        None \<Rightarrow> Some (None, inp)
      | Some False \<Rightarrow>
          (case CBS_get_any_asn1_element inp of
             (None, inp1) \<Rightarrow> Some (None, inp1)
           | (Some el, inp1) \<Rightarrow> Some (Some (el_bytes el, False), inp1))
      | Some True \<Rightarrow>
          (case CBB_init 0 (CBS_len inp) (no_builder alloc) of
             (False, _) \<Rightarrow> Some (None, inp)
           | (True, st) \<Rightarrow>
               Option.bind (cbs_convert_ber 0 False 0 0 inp st) (\<lambda>(ok, inp1, st1).
                 if \<not> ok then Some (None, inp1)
                 else map_option (\<lambda>(out, _). (map_option (\<lambda>bs. (bs, True)) out, inp1)) (CBB_finish 0 st1))))"

text \<open>The loop over the fragments of an implicitly tagged string.\<close>

function add_chunks :: "CBS_ASN1_TAG \<Rightarrow> cbs \<Rightarrow> builder \<Rightarrow> cbb_result" where
  "add_chunks inner_tag inner st =
     (if inner = [] then Some (True, st)
      else
        (case CBS_get_asn1 inner_tag inner of
           (None, _) \<Rightarrow> Some (False, st)
         | (Some chunk, rest) \<Rightarrow> and_then (CBB_add_bytes 0 chunk st) (add_chunks inner_tag rest)))"
  by pat_completeness auto

lemma asn1_shorter: "CBS_get_asn1 t cbs = (Some body, rest) \<Longrightarrow> length rest < length cbs"
  using asn1.enc_dec [of t cbs body rest] der_header_len_small(2) [of "(t, body)"] by (auto simp: length_der)

termination add_chunks
  by (relation "measure (\<lambda>(t, inner, st). length inner)") (simp_all, metis asn1_shorter)

definition CBS_get_asn1_implicit_string ::
  "(nat \<Rightarrow> byte list option) \<Rightarrow> cbs \<Rightarrow> CBS_ASN1_TAG \<Rightarrow> CBS_ASN1_TAG \<Rightarrow> asn1_result" where
  "CBS_get_asn1_implicit_string alloc inp outer_tag inner_tag =
     (if outer_tag AND CBS_ASN1_CONSTRUCTED \<noteq> 0 \<or> inner_tag AND CBS_ASN1_CONSTRUCTED \<noteq> 0 \<or> \<not> is_string_type inner_tag then None
      else if CBS_peek_asn1_tag inp outer_tag then
        (case CBS_get_asn1 outer_tag inp of
           (None, inp1) \<Rightarrow> Some (None, inp1)
         | (Some out, inp1) \<Rightarrow> Some (Some (out, False), inp1))
      else
        (case CBB_init 0 (CBS_len inp) (no_builder alloc) of
           (False, _) \<Rightarrow> Some (None, inp)
         | (True, st) \<Rightarrow>
             (case CBS_get_asn1 (outer_tag OR CBS_ASN1_CONSTRUCTED) inp of
                (None, inp1) \<Rightarrow> Some (None, inp1)
              | (Some fragments, inp1) \<Rightarrow>
                  Option.bind (add_chunks inner_tag fragments st) (\<lambda>(ok, st1).
                    if \<not> ok then Some (None, inp1)
                    else map_option (\<lambda>(out, _). (map_option (\<lambda>bs. (bs, True)) out, inp1)) (CBB_finish 0 st1)))))"

end
