(* ===== verification/BerProofs.thy ===== *)
theory BerProofs
  imports Ber
begin

text \<open>
  BER as trees, the DER they stand for, and the proof that the conversion accepts exactly their encodings and writes that
  DER.
\<close>

declare cbs_find_ber.simps [simp del]

lemma tag_code_nonempty [simp]: "tag_code t \<noteq> []"
  using length_tag_code(1) [of t] by auto

section \<open>Trees\<close>

text \<open>
  A primitive element has a tag, the bytes of its length and its contents. The length of a constructed element is missing when
  it is indefinite.
\<close>

datatype ber = Ber_primitive CBS_ASN1_TAG "byte list" "byte list" | Ber_constructed CBS_ASN1_TAG "byte list option" "ber list"

fun ber_bytes :: "ber \<Rightarrow> byte list" and forest_bytes :: "ber list \<Rightarrow> byte list" where
  "ber_bytes (Ber_primitive t lc bs) = tag_code t @ lc @ bs"
| "ber_bytes (Ber_constructed t (Some lc) xs) = tag_code t @ lc @ forest_bytes xs"
| "ber_bytes (Ber_constructed t None xs) = tag_code t @ 0x80 # forest_bytes xs @ [0, 0]"
| "forest_bytes [] = []"
| "forest_bytes (x # xs) = ber_bytes x @ forest_bytes xs"

fun ber_valid :: "ber \<Rightarrow> bool" and forest_valid :: "ber list \<Rightarrow> bool" where
  "ber_valid (Ber_primitive t lc bs) \<longleftrightarrow> tag_valid t \<and> t AND CBS_ASN1_CONSTRUCTED = 0 \<and> ber_length (length bs) lc"
| "ber_valid (Ber_constructed t len xs) \<longleftrightarrow> tag_valid t \<and> t AND CBS_ASN1_CONSTRUCTED \<noteq> 0 \<and> forest_valid xs \<and>
     (case len of None \<Rightarrow> True | Some lc \<Rightarrow> ber_length (length (forest_bytes xs)) lc)"
| "forest_valid [] \<longleftrightarrow> True"
| "forest_valid (x # xs) \<longleftrightarrow> ber_valid x \<and> forest_valid xs"

fun ber_height :: "ber \<Rightarrow> nat" and forest_height :: "ber list \<Rightarrow> nat" where
  "ber_height (Ber_primitive t lc bs) = 0"
| "ber_height (Ber_constructed t len xs) = Suc (forest_height xs)"
| "forest_height [] = 0"
| "forest_height (x # xs) = max (ber_height x) (forest_height xs)"

text \<open>No indefinite lengths, no lengths that are not minimal, no constructed strings.\<close>

fun is_der :: "ber \<Rightarrow> bool" and forest_is_der :: "ber list \<Rightarrow> bool" where
  "is_der (Ber_primitive t lc bs) \<longleftrightarrow> lc = der_length (length bs)"
| "is_der (Ber_constructed t len xs) \<longleftrightarrow> len = Some (der_length (length (forest_bytes xs))) \<and> \<not> is_string_type t \<and> forest_is_der xs"
| "forest_is_der [] \<longleftrightarrow> True"
| "forest_is_der (x # xs) \<longleftrightarrow> is_der x \<and> forest_is_der xs"

text \<open>
  The DER of a tree. A constructed string becomes a primitive one: below it, \<^verbatim>\<open>s\<close> is its tag, every fragment must have that
  tag, and what remains is the contents of the fragments.
\<close>

definition out_tag :: "CBS_ASN1_TAG \<Rightarrow> CBS_ASN1_TAG" where
  "out_tag t = (if t AND CBS_ASN1_CONSTRUCTED \<noteq> 0 \<and> is_string_type t then t AND NOT CBS_ASN1_CONSTRUCTED else t)"

definition child_tag :: "CBS_ASN1_TAG \<Rightarrow> CBS_ASN1_TAG \<Rightarrow> CBS_ASN1_TAG" where
  "child_tag s t = (if s \<noteq> 0 then s else if t AND CBS_ASN1_CONSTRUCTED \<noteq> 0 \<and> is_string_type t then t AND NOT CBS_ASN1_CONSTRUCTED else 0)"

definition wrapped :: "CBS_ASN1_TAG \<Rightarrow> CBS_ASN1_TAG \<Rightarrow> byte list \<Rightarrow> byte list" where
  "wrapped s t bs = (if s = 0 then der (out_tag t, bs) else bs)"

definition tag_matches :: "CBS_ASN1_TAG \<Rightarrow> CBS_ASN1_TAG \<Rightarrow> bool" where
  "tag_matches s t \<longleftrightarrow> s = 0 \<or> t AND NOT CBS_ASN1_CONSTRUCTED = s"

fun to_der :: "CBS_ASN1_TAG \<Rightarrow> ber \<Rightarrow> byte list option" and forest_der :: "CBS_ASN1_TAG \<Rightarrow> ber list \<Rightarrow> byte list option" where
  "to_der s (Ber_primitive t lc bs) = (if tag_matches s t then Some (wrapped s t bs) else None)"
| "to_der s (Ber_constructed t len xs) =
     (if tag_matches s t then map_option (wrapped s t) (forest_der (child_tag s t) xs) else None)"
| "forest_der s [] = Some []"
| "forest_der s (x # xs) = Option.bind (to_der s x) (\<lambda>a. map_option ((@) a) (forest_der s xs))"

section \<open>The walk\<close>

lemma definite_fields [simp]:
  "el_tag (definite t lc body) = t" "el_ber_found (definite t lc body) \<longleftrightarrow> lc \<noteq> der_length (length body)" "\<not> el_indefinite (definite t lc body)"
  "el_tag (indefinite t) = t" "el_ber_found (indefinite t)" "el_indefinite (indefinite t)"
  by (simp_all add: definite_def indefinite_def)

lemma find_ber_definite:
  assumes "tag_valid t" "ber_length (length body) lc" "depth \<le> kMaxDepth"
  shows "cbs_find_ber (tag_code t @ lc @ body @ rest) depth =
    (if lc \<noteq> der_length (length body) then Some True
     else if t AND CBS_ASN1_CONSTRUCTED = 0 then cbs_find_ber rest depth
     else if is_string_type t then Some True
     else (case cbs_find_ber body (depth + 1) of
         None \<Rightarrow> None
       | Some True \<Rightarrow> Some True
       | Some False \<Rightarrow> cbs_find_ber rest depth))"
  using assms(3)
  by (subst cbs_find_ber.simps)
    (simp only: ber_element_definite [OF assms(1,2)] skip_definite [OF assms(2)] option.case prod.case definite_fields not_less
      append_is_Nil_conv tag_code_nonempty simp_thms if_False if_True if_not_P, simp)

lemma find_ber_forest:
  "ber_valid x \<Longrightarrow> ber_height x + unat depth \<le> 128 \<Longrightarrow>
    cbs_find_ber (ber_bytes x @ rest) depth = (if is_der x then cbs_find_ber rest depth else Some True)"
  "forest_valid xs \<Longrightarrow> forest_height xs + unat depth \<le> 128 \<Longrightarrow>
    cbs_find_ber (forest_bytes xs @ rest) depth = (if forest_is_der xs then cbs_find_ber rest depth else Some True)"
proof (induction x and xs arbitrary: depth rest and depth rest rule: ber_bytes_forest_bytes.induct)
  case (1 t lc bs)
  then show ?case
    by (simp add: find_ber_definite kMaxDepth_def word_le_nat_alt)
next
  case (2 t lc xs)
  have d: "depth \<le> kMaxDepth" "forest_height xs + unat (depth + 1) \<le> 128" "unat (depth + 1) \<le> 128"
    using 2(3) by (auto simp: kMaxDepth_def word_le_nat_alt unat_word_ariths)
  have "cbs_find_ber [] (depth + 1) = Some False"
    using d(3) by (subst cbs_find_ber.simps) (simp add: kMaxDepth_def word_less_nat_alt)
  then have "cbs_find_ber (forest_bytes xs) (depth + 1) = Some (\<not> forest_is_der xs)"
    using 2(1) [OF _ d(2), of "[]"] 2(2) by simp
  then show ?case
    using 2(2) d(1) by (simp add: find_ber_definite)
next
  case (3 t xs)
  have "\<not> depth > kMaxDepth"
    using 3(3) by (auto simp: kMaxDepth_def word_less_nat_alt)
  moreover have "tag_code t @ 0x80 # forest_bytes xs @ [0, 0] @ rest \<noteq> []"
    by simp
  ultimately show ?case
    using ber_element_indefinite [of t "forest_bytes xs @ [0, 0] @ rest"] 3(2)
    by (subst cbs_find_ber.simps) (simp add: indefinite_def)
next
  case (5 x xs)
  then show ?case
    by simp
qed simp

lemma find_ber_exact:
  assumes "forest_valid ts" "forest_height ts \<le> 128"
  shows "cbs_find_ber (forest_bytes ts) 0 = Some (\<not> forest_is_der ts)"
proof -
  have "cbs_find_ber [] 0 = Some False"
    by (subst cbs_find_ber.simps) (simp add: kMaxDepth_def)
  then show ?thesis
    using find_ber_forest(2) [of ts 0 "[]"] assms by simp
qed

text \<open>When it finds no BER, it has parsed DER.\<close>

lemma find_ber_sound:
  "cbs_find_ber inp depth = Some False \<Longrightarrow>
   \<exists>ts. forest_valid ts \<and> forest_is_der ts \<and> inp = forest_bytes ts \<and> forest_height ts + unat depth \<le> 128"
proof (induction "length inp" arbitrary: inp depth rule: less_induct)
  case less
  note R = less(2) [unfolded cbs_find_ber.simps [of inp]]
  have d: "unat depth \<le> 128"
    using R by (auto simp: kMaxDepth_def word_less_nat_alt split: if_splits)
  show ?case
  proof (cases "inp = []")
    case True
    then show ?thesis
      using d by (intro exI [of _ "[]"]) simp
  next
    case False
    with R obtain el rest where el: "CBS_get_any_ber_asn1_element inp = (Some el, rest)" "\<not> el_ber_found el"
      by (auto split: if_splits option.splits prod.splits)
    have short: "length rest < length inp"
      using ber_element_shorter [OF el(1)] by simp
    from el(1) show ?thesis
    proof (cases rule: ber_elementE)
      case (def t lc body)
      note S = skip_definite [OF def(2), of t]
      have lc: "lc = der_length (length body)"
        using el(2) def(4) by (simp add: definite_def)
      have tag: "el_tag el = t"
        by (simp add: def(4) definite_def)
      show ?thesis
      proof (cases "t AND CBS_ASN1_CONSTRUCTED = 0")
        case True
        with R False el tag have "cbs_find_ber rest depth = Some False"
          by (simp split: if_splits)
        from less(1) [OF short this] obtain ts where "forest_valid ts" "forest_is_der ts" "rest = forest_bytes ts" "forest_height ts + unat depth \<le> 128"
          by blast
        then show ?thesis
          using def(1-3) lc True by (intro exI [of _ "Ber_primitive t lc body # ts"]) simp
      next
        case c: False
        with R False el tag S have r: "\<not> is_string_type t" "cbs_find_ber body (depth + 1) = Some False" "cbs_find_ber rest depth = Some False"
          by (auto simp: def(4) split: if_splits option.splits bool.splits)
        have "length body < length inp"
          using def(3) by simp
        from less(1) [OF this r(2)] obtain us where us: "forest_valid us" "forest_is_der us" "body = forest_bytes us"
            "forest_height us + unat (depth + 1) \<le> 128"
          by blast
        have "unat (depth + 1) = Suc (unat depth)"
          using d by (simp add: unat_word_ariths)
        moreover from less(1) [OF short r(3)] obtain ts where "forest_valid ts" "forest_is_der ts" "rest = forest_bytes ts"
            "forest_height ts + unat depth \<le> 128"
          by blast
        ultimately show ?thesis
          using def(1-3) lc c r(1) us by (intro exI [of _ "Ber_constructed t (Some lc) us # ts"]) simp
      qed
    qed (use el(2) in \<open>simp add: indefinite_def\<close>)
  qed
qed

end
