(* ===== verification/BerConvert.thy ===== *)
theory BerConvert
  imports BerProofs
begin

text \<open>The conversion: what it writes, what it accepts, and that it does not fail otherwise.\<close>

section \<open>One element\<close>

text \<open>The builder after \<^verbatim>\<open>new\<close> was appended to \<^verbatim>\<open>h\<close>, with all children closed.\<close>

definition appended :: "nat \<Rightarrow> byte list \<Rightarrow> byte list \<Rightarrow> builder \<Rightarrow> builder \<Rightarrow> bool" where
  "appended h pre new st st' \<longleftrightarrow> owns st' h (pre @ new) [] \<and> (\<exists>x. cells st' h = (cells st h)\<lparr>child := x\<rparr>) \<and> cbb_frame {h} st st'"

lemma appended_refl: "owns st h pre [] \<Longrightarrow> appended h pre [] st st"
  by (auto simp: appended_def intro!: exI [of _ "child (cells st h)"])

lemma appended_trans: "appended h pre a st st1 \<Longrightarrow> appended h (pre @ a) b st1 st2 \<Longrightarrow> appended h pre (a @ b) st st2"
  unfolding appended_def by (auto intro: cbb_frame_trans)

lemma appended_room: "appended h pre a st st1 \<Longrightarrow> room st n \<Longrightarrow> room st1 n"
  by (simp add: appended_def cbb_frame_def)

text \<open>A fresh \<^verbatim>\<open>CBB\<close> on the stack.\<close>

definition with_fresh :: "builder \<Rightarrow> builder" where
  "with_fresh st = st\<lparr>next_local := Suc (next_local st)\<rparr>"

lemma fresh_owns:
  assumes "owns st h pre []"
  shows "owns (with_fresh st) h pre []" "cbb_frame S st (with_fresh st)" "cells (with_fresh st) = cells st"
    "next_local st < next_local (with_fresh st)" "room (with_fresh st) n = room st n"
  using assms by (auto simp: with_fresh_def owns_def buffer_ok_def written_def cbb_get_base_def cbb_frame_def room_def)

lemma idle_flush: "owns st h pre [] \<Longrightarrow> CBB_flush h st = Some (True, st)"
  by (subst CBB_flush.simps) (simp add: owns_def buffer_ok_def)

text \<open>
  Opening the contents of an element: either the tag does not match or there is no room, or there is a \<^verbatim>\<open>CBB\<close> to write the
  contents to, and flushing \<^verbatim>\<open>h\<close> afterwards closes the element.
\<close>

lemma open_contents_cases:
  assumes st: "owns st h pre []"
  obtains (fail) c k st1 where "open_contents s t h st = Some (False, c, k, st1)"
      "\<not> (tag_matches s t \<and> room st (length (pre @ wrapped s t bs)))"
  | (ok) k st1 pre1 where "open_contents s t h st = Some (True, child_tag s t, k, st1)" "tag_matches s t" "owns st1 k pre1 []"
      "\<And>b. room st (length (pre @ wrapped s t b)) \<Longrightarrow> room st1 (length (pre1 @ b))"
      "\<And>b st2. appended k pre1 b st1 st2 \<Longrightarrow> \<exists>done st3. CBB_flush h st2 = Some (done, st3) \<and>
         (done \<longrightarrow> appended h pre (wrapped s t b) st st3) \<and>
         (room st (length (pre @ wrapped s t b)) \<and> length b < 2 ^ 32 - 1 \<longrightarrow> done)"
proof (cases "s = 0")
  case False
  have o: "open_contents s t h st = Some (t AND NOT CBS_ASN1_CONSTRUCTED = s, s, h, with_fresh st)"
    using False by (simp add: open_contents_def Let_def with_fresh_def)
  show thesis
  proof (cases "tag_matches s t")
    case True
    show thesis
    proof (rule ok)
      show "open_contents s t h st = Some (True, child_tag s t, h, with_fresh st)"
        using o True False by (simp add: child_tag_def tag_matches_def)
      show "owns (with_fresh st) h pre []"
        by (rule fresh_owns(1) [OF st])
      show "\<exists>done st3. CBB_flush h st2 = Some (done, st3) \<and> (done \<longrightarrow> appended h pre (wrapped s t b) st st3) \<and>
          (room st (length (pre @ wrapped s t b)) \<and> length b < 2 ^ 32 - 1 \<longrightarrow> done)" if a: "appended h pre b (with_fresh st) st2" for b st2
      proof -
        have "owns st2 h (pre @ b) []"
          using a by (simp add: appended_def)
        then have "CBB_flush h st2 = Some (True, st2)"
          by (rule idle_flush)
        moreover have "appended h pre b st st2"
          using a fresh_owns(2,3) [OF st] unfolding appended_def by (auto intro: cbb_frame_trans)
        ultimately show ?thesis
          using False by (intro exI [of _ True] exI [of _ st2]) (simp add: wrapped_def)
      qed
    qed (use True False in \<open>simp_all add: fresh_owns(5) [OF st] wrapped_def\<close>)
  qed (use o False in \<open>auto simp: tag_matches_def intro!: fail\<close>)
next
  case True
  let ?k = "next_local st" and ?t = "out_tag t"
  have k: "?k \<noteq> h"
    using fresh_local(1) [OF st] .
  have o: "open_contents s t h st = map_option (\<lambda>(ok, st2). (ok, child_tag s t, ?k, st2)) (CBB_add_asn1 h ?k ?t (with_fresh st))"
    using True by (auto simp: open_contents_def Let_def with_fresh_def child_tag_def out_tag_def)
  have m: "tag_matches s t" "\<And>b. wrapped s t b = der (?t, b)"
    using True by (simp_all add: tag_matches_def wrapped_def)
  have "appends h (pre @ tag_code ?t) [Pending ?k Asn1 []] {?k} True (with_fresh st) (CBB_add_asn1 h ?k ?t (with_fresh st))"
    using CBB_add_asn1_appends [OF fresh_owns(1) [OF st] k fresh_owns(4) [OF st], of ?t] by simp
  then show thesis
  proof (cases rule: appendsD [case_names fail ok])
    case f: (fail st1 x)
    have "length ((pre @ tag_code ?t) @ layout [Pending ?k Asn1 []]) \<le> length (pre @ der (?t, bs))"
      using length_der_length [of "length bs"] by (simp add: der_def)
    then have "\<not> room st (length (pre @ der (?t, bs)))"
      using f(3) room_le [of st] fresh_owns(5) [OF st] by blast
    with o f(1) m show thesis
      by (intro fail) simp_all
  next
    case g: (ok st1 x)
    have own1: "owns st1 ?k (pre @ tag_code ?t @ [0]) []"
      using owns_child [OF g(3)] by simp
    have frame1: "cbb_frame {h} st st1"
      by (rule cbb_frame_trans [OF fresh_owns(2) [OF st, where S = "{}"] g(5)]) auto
    show thesis
    proof (rule ok)
      show "open_contents s t h st = Some (True, child_tag s t, ?k, st1)"
        using o g(1) by simp
      show "room st1 (length ((pre @ tag_code ?t @ [0]) @ b))" if "room st (length (pre @ wrapped s t b))" for b
      proof -
        have "length ((pre @ tag_code ?t @ [0]) @ b) \<le> length (pre @ der (?t, b))"
          using length_der_length [of "length b"] by (simp add: der_def)
        then show ?thesis
          using that room_le frame1 unfolding m(2) cbb_frame_def by blast
      qed
      show "\<exists>done st3. CBB_flush h st2 = Some (done, st3) \<and> (done \<longrightarrow> appended h pre (wrapped s t b) st st3) \<and>
          (room st (length (pre @ wrapped s t b)) \<and> length b < 2 ^ 32 - 1 \<longrightarrow> done)"
        if a: "appended ?k (pre @ tag_code ?t @ [0]) b st1 st2" for b st2
      proof -
        have h1: "h < next_local st1" "h < next_local st"
          using owns_linked(1) [OF g(3)] owns_linked(1) [OF st] by auto
        have a': "owns st2 ?k ((pre @ tag_code ?t @ [0]) @ b) []" "\<exists>y. cells st2 ?k = (cells st1 ?k)\<lparr>child := y\<rparr>" "cbb_frame {?k} st1 st2"
          using a by (simp_all add: appended_def)
        then have h2: "cells st2 h = cells st1 h" "h < next_local st2"
          using h1 k by (auto simp: cbb_frame_def)
        obtain y where y: "cells st2 ?k = (cells st1 ?k)\<lparr>child := y\<rparr>"
          using a'(2) by blast
        have "owns st2 h (pre @ tag_code ?t) [Pending ?k Asn1 b]"
          using owns_parent [OF g(3), of st2 b "[]" y] a'(1) y h2 by simp
        from flush_appends [OF this] have fl: "appends h (pre @ der (?t, b)) [] {?k} (length b < 2 ^ 32 - 1) st2 (CBB_flush h st2)"
          by (simp add: der_def)
        have frame2: "cbb_frame {h} st st2"
          by (rule cbb_frame_trans [OF frame1 a'(3)]) auto
        from fl show ?thesis
        proof (cases rule: appendsD [case_names fail ok])
          case (fail st3 z)
          then show ?thesis
            using frame2 m(2) by (auto simp: cbb_frame_def)
        next
          case (ok st3 z)
          have "cbb_frame {h} st st3"
            by (rule cbb_frame_trans [OF frame2 ok(5)]) auto
          then have "appended h pre (der (?t, b)) st st3"
            using ok(3,4) h2 g(4) fresh_owns(3) [OF st] by (auto simp: appended_def)
          then show ?thesis
            using ok(1,2) m(2) by (intro exI [of _ True] exI [of _ st3]) simp
        qed
      qed
    qed (use m own1 in simp_all)
  qed
qed

section \<open>What the conversion accepts\<close>

text \<open>A successful call has read the encodings of trees and appended their DER.\<close>

definition converted ::
  "CBS_ASN1_TAG \<Rightarrow> bool \<Rightarrow> u32 \<Rightarrow> nat \<Rightarrow> byte list \<Rightarrow> cbs \<Rightarrow> cbs \<Rightarrow> builder \<Rightarrow> builder \<Rightarrow> bool" where
  "converted s eoc depth h pre inp inp' st st' \<longleftrightarrow>
     (\<exists>ts bs. forest_valid ts \<and> forest_height ts + unat depth \<le> 128 \<and> inp = forest_bytes ts @ (if eoc then [0, 0] else []) @ inp' \<and>
       (eoc \<or> inp' = []) \<and> forest_der s ts = Some bs \<and> appended h pre bs st st')"

lemma convertedI:
  "forest_valid ts \<Longrightarrow> forest_height ts + unat depth \<le> 128 \<Longrightarrow> inp = forest_bytes ts @ (if eoc then [0, 0] else []) @ inp' \<Longrightarrow>
   eoc \<or> inp' = [] \<Longrightarrow> forest_der s ts = Some bs \<Longrightarrow> appended h pre bs st st' \<Longrightarrow> converted s eoc depth h pre inp inp' st st'"
  unfolding converted_def by blast

definition returns :: "(cbs \<Rightarrow> builder \<Rightarrow> bool) \<Rightarrow> (bool \<times> cbs \<times> builder) option \<Rightarrow> bool" where
  "returns P r \<longleftrightarrow> (\<exists>ok inp st. r = Some (ok, inp, st) \<and> (ok \<longrightarrow> P inp st))"

lemma returns_Some [simp]: "returns P (Some (ok, inp, st)) \<longleftrightarrow> (ok \<longrightarrow> P inp st)"
  by (simp add: returns_def)

lemma ber_bytes_nonempty: "ber_bytes x \<noteq> []"
proof (cases x)
  case (Ber_constructed t len xs)
  then show ?thesis
    by (cases len) simp_all
qed simp

lemma eoc_some: "cbs_get_eoc cbs = Some rest \<longleftrightarrow> cbs = 0 # 0 # rest"
  by (cases cbs rule: cbs_get_eoc.cases) auto

lemma child_tag_primitive: "s AND CBS_ASN1_CONSTRUCTED = 0 \<Longrightarrow> child_tag s t AND CBS_ASN1_CONSTRUCTED = 0"
  by (simp add: child_tag_def and.assoc)

lemma depth_succ: "unat (d :: u32) \<le> 128 \<Longrightarrow> unat (d + 1) = Suc (unat d)"
  by (simp add: unat_word_ariths)

text \<open>The contents of an element, as the code writes them to \<^verbatim>\<open>k\<close>.\<close>

definition contents_step :: "asn1_element \<Rightarrow> CBS_ASN1_TAG \<Rightarrow> u32 \<Rightarrow> nat \<Rightarrow> cbs \<Rightarrow> builder \<Rightarrow> (bool \<times> cbs \<times> builder) option" where
  "contents_step el c depth k inp1 st1 =
     (if el_indefinite el then cbs_convert_ber c True (depth + 1) k inp1 st1
      else
        (case CBS_skip (el_header_len el) (el_bytes el) of
           (None, _) \<Rightarrow> Some (False, inp1, st1)
         | (Some _, inner) \<Rightarrow>
             Option.bind
               (if el_tag el AND CBS_ASN1_CONSTRUCTED \<noteq> 0
                then Option.bind (cbs_convert_ber c False (depth + 1) k inner st1) (\<lambda>(ok, _, st2). Some (ok, st2))
                else CBB_add_bytes k inner st1)
               (\<lambda>(ok, st2). Some (ok, inp1, st2))))"

lemma convert_step:
  assumes "s AND CBS_ASN1_CONSTRUCTED = 0" "depth \<le> kMaxDepth" "inp \<noteq> []" "\<not> (eoc \<and> cbs_get_eoc inp \<noteq> None)"
    "CBS_get_any_ber_asn1_element inp = (Some el, inp1)"
  shows "cbs_convert_ber s eoc depth h inp st =
    Option.bind (open_contents s (el_tag el) h st) (\<lambda>(ok, c, k, st1).
      if \<not> ok then Some (False, inp1, st1)
      else
        Option.bind (contents_step el c depth k inp1 st1) (\<lambda>(ok, inp2, st2).
          if \<not> ok then Some (False, inp2, st2)
          else
            Option.bind (CBB_flush h st2) (\<lambda>(ok, st3).
              if \<not> ok then Some (False, inp2, st3) else cbs_convert_ber s eoc depth h inp2 st3)))"
proof -
  have "(if eoc then cbs_get_eoc inp else None) = None" "(depth > kMaxDepth) = False" "(s AND CBS_ASN1_CONSTRUCTED \<noteq> 0) = False"
      "(inp = []) = False"
    using assms(1-4) by auto
  then show ?thesis
    unfolding contents_step_def by (subst cbs_convert_ber.simps) (simp only: assms(5) if_False option.case prod.case)
qed

lemma add_bytes_appended:
  assumes "owns st k pre []" "length bs < 2 ^ 64"
  obtains (fail) st' where "CBB_add_bytes k bs st = Some (False, st')" "\<not> room st (length (pre @ bs))"
  | (ok) st' where "CBB_add_bytes k bs st = Some (True, st')" "appended k pre bs st st'"
proof -
  have "appends k (pre @ bs) [] {} True st (CBB_add_bytes k bs st)"
    using CBB_add_bytes_appends [OF assms] by simp
  then show thesis
  proof (cases rule: appendsD [case_names fail ok])
    case (fail st' c)
    then show thesis
      by (intro that(1)) simp_all
  next
    case (ok st' c)
    then show thesis
      by (intro that(2)) (auto simp: appended_def)
  qed
qed

lemma convert_sound:
  "owns st h pre [] \<Longrightarrow> s AND CBS_ASN1_CONSTRUCTED = 0 \<Longrightarrow>
   returns (\<lambda>inp' st'. converted s eoc depth h pre inp inp' st st') (cbs_convert_ber s eoc depth h inp st)"
proof (induction "length inp" arbitrary: s eoc depth h inp st pre rule: less_induct)
  case less
  note IH = less(1) and own = less(2) and s = less(3)
  show ?case
  proof (cases "depth > kMaxDepth \<or> inp = [] \<or> (eoc \<and> cbs_get_eoc inp \<noteq> None)")
    case True
    then consider "depth > kMaxDepth" | "\<not> depth > kMaxDepth" "inp = []" | "\<not> depth > kMaxDepth" "inp \<noteq> []" "eoc \<and> cbs_get_eoc inp \<noteq> None"
      by blast
    then show ?thesis
    proof cases
      case 1
      then show ?thesis
        using s by (subst cbs_convert_ber.simps) simp
    next
      case 2
      then have "converted s False depth h pre [] [] st st"
        by (intro convertedI [where ts = "[]" and bs = "[]"]) (simp_all add: appended_refl [OF own] kMaxDepth_def word_less_nat_alt)
      with 2 show ?thesis
        using s by (subst cbs_convert_ber.simps) auto
    next
      case 3
      then obtain rest where rest: "cbs_get_eoc inp = Some rest" "inp = 0 # 0 # rest"
        using eoc_some by blast
      with 3 have "converted s True depth h pre inp rest st st"
        by (intro convertedI [where ts = "[]" and bs = "[]"]) (simp_all add: appended_refl [OF own] kMaxDepth_def word_less_nat_alt)
      with 3 rest(1) show ?thesis
        using s by (subst cbs_convert_ber.simps) auto
    qed
  next
    case False
    then have go: "depth \<le> kMaxDepth" "inp \<noteq> []" "\<not> (eoc \<and> cbs_get_eoc inp \<noteq> None)"
      by (auto simp: not_less)
    then have d: "unat depth \<le> 128"
      by (simp add: kMaxDepth_def word_le_nat_alt)
    obtain r inp1 where el0: "CBS_get_any_ber_asn1_element inp = (r, inp1)"
      by (cases "CBS_get_any_ber_asn1_element inp")
    show ?thesis
    proof (cases r)
      case None
      then have "cbs_convert_ber s eoc depth h inp st = Some (False, inp1, st)"
        using s go el0 by (subst cbs_convert_ber.simps) (auto simp: not_less split: option.split)
      then show ?thesis
        by simp
    next
      case (Some el)
      with el0 have el: "CBS_get_any_ber_asn1_element inp = (Some el, inp1)"
        by simp
      note step = convert_step [OF s go el, of h st]
      have short: "length inp1 < length inp"
        using ber_element_shorter [OF el] by simp
      show ?thesis
      proof (cases rule: open_contents_cases [OF own, of s "el_tag el" "[]", case_names fail ok])
        case (fail c k st1)
        then show ?thesis
          by (simp add: step)
      next
        case (ok k st1 pre1)
        let ?c = "child_tag s (el_tag el)"
        note c = child_tag_primitive [OF s, of "el_tag el"]
        let ?P = "\<lambda>inp2 st2. \<exists>x bs. ber_valid x \<and> ber_height x + unat depth \<le> 128 \<and> inp = ber_bytes x @ inp2 \<and>
            to_der s x = Some (wrapped s (el_tag el) bs) \<and> appended k pre1 bs st1 st2"
        have body: "returns ?P (contents_step el ?c depth k inp1 st1)"
          using el
        proof (cases rule: ber_elementE)
          case (def t lc inner)
          note S = skip_definite [OF def(2), of t]
          have tag: "el_tag el = t"
            by (simp add: def(4))
          show ?thesis
          proof (cases "t AND CBS_ASN1_CONSTRUCTED = 0")
            case True
            have "length inner < 2 ^ 64"
              using ber_length_props(1) [OF def(2)] by simp
            from ok(3) this show ?thesis
            proof (cases rule: add_bytes_appended [case_names fail ok])
              case (fail st2)
              then show ?thesis
                using True by (simp add: contents_step_def def(4) S)
            next
              case ok': (ok st2)
              have "to_der s (Ber_primitive t lc inner) = Some (wrapped s t inner)"
                using ok(2) tag by simp
              then have "?P inp1 st2"
                using ok'(2) True def(1-3) d tag by (intro exI [of _ "Ber_primitive t lc inner"] exI [of _ inner]) simp
              then show ?thesis
                using ok'(1) True by (simp add: contents_step_def def(4) S)
            qed
          next
            case con: False
            have "length inner < length inp"
              using def(3) by simp
            from IH [OF this ok(3) c, of False "depth + 1", unfolded returns_def] obtain dn rest st2
              where r: "cbs_convert_ber ?c False (depth + 1) k inner st1 = Some (dn, rest, st2)"
                "dn \<longrightarrow> converted ?c False (depth + 1) k pre1 inner rest st1 st2"
              by blast
            have eq: "contents_step el ?c depth k inp1 st1 = Some (dn, inp1, st2)"
              using r(1) con by (simp add: contents_step_def def(4) S tag)
            show ?thesis
            proof (cases dn)
              case True
              then obtain ts bs where ts: "forest_valid ts" "forest_height ts + unat (depth + 1) \<le> 128" "inner = forest_bytes ts"
                  "forest_der ?c ts = Some bs" "appended k pre1 bs st1 st2"
                using r(2) by (auto simp: converted_def)
              let ?x = "Ber_constructed t (Some lc) ts"
              have "ber_valid ?x" "ber_height ?x + unat depth \<le> 128" "inp = ber_bytes ?x @ inp1" "to_der s ?x = Some (wrapped s t bs)"
                using def(1-3) con ts depth_succ [OF d] ok(2) by (simp_all add: tag)
              then have "?P inp1 st2"
                using ts(5) tag by blast
              then show ?thesis
                by (simp add: eq)
            qed (simp add: eq)
          qed
        next
          case (indef t)
          have tag: "el_tag el = t"
            by (simp add: indef(4))
          from IH [OF short ok(3) c, of True "depth + 1", unfolded returns_def] obtain dn inp2 st2
            where r: "cbs_convert_ber ?c True (depth + 1) k inp1 st1 = Some (dn, inp2, st2)"
              "dn \<longrightarrow> converted ?c True (depth + 1) k pre1 inp1 inp2 st1 st2"
            by blast
          have eq: "contents_step el ?c depth k inp1 st1 = Some (dn, inp2, st2)"
            using r(1) by (simp add: contents_step_def indef(4))
          show ?thesis
          proof (cases dn)
            case True
            then obtain ts bs where ts: "forest_valid ts" "forest_height ts + unat (depth + 1) \<le> 128" "inp1 = forest_bytes ts @ [0, 0] @ inp2"
                "forest_der ?c ts = Some bs" "appended k pre1 bs st1 st2"
              using r(2) by (auto simp: converted_def)
            let ?x = "Ber_constructed t None ts"
            have "ber_valid ?x" "ber_height ?x + unat depth \<le> 128" "inp = ber_bytes ?x @ inp2" "to_der s ?x = Some (wrapped s t bs)"
              using indef(1-3) ts depth_succ [OF d] ok(2) by (simp_all add: tag)
            then have "?P inp2 st2"
              using ts(5) tag by blast
            then show ?thesis
              by (simp add: eq)
          qed (simp add: eq)
        qed
        then obtain dn inp2 st2 where cs: "contents_step el ?c depth k inp1 st1 = Some (dn, inp2, st2)"
          and x: "dn \<Longrightarrow> \<exists>x bs. ber_valid x \<and> ber_height x + unat depth \<le> 128 \<and> inp = ber_bytes x @ inp2 \<and>
            to_der s x = Some (wrapped s (el_tag el) bs) \<and> appended k pre1 bs st1 st2"
          unfolding returns_def by blast
        show ?thesis
        proof (cases dn)
          case False
          then show ?thesis
            using ok(1) cs by (simp add: step)
        next
          case True
          from x [OF this] obtain x bs where x: "ber_valid x" "ber_height x + unat depth \<le> 128" "inp = ber_bytes x @ inp2"
              "to_der s x = Some (wrapped s (el_tag el) bs)" "appended k pre1 bs st1 st2"
            by blast
          from ok(5) [OF x(5)] obtain fl st3 where fl: "CBB_flush h st2 = Some (fl, st3)"
              "fl \<longrightarrow> appended h pre (wrapped s (el_tag el) bs) st st3"
            by blast
          have run: "cbs_convert_ber s eoc depth h inp st = (if \<not> fl then Some (False, inp2, st3) else cbs_convert_ber s eoc depth h inp2 st3)"
            using ok(1) cs True fl(1) by (simp add: step)
          show ?thesis
          proof (cases fl)
            case True
            then have adv: "appended h pre (wrapped s (el_tag el) bs) st st3"
              using fl(2) by simp
            then have own3: "owns st3 h (pre @ wrapped s (el_tag el) bs) []"
              by (simp add: appended_def)
            have "length inp2 < length inp"
              by (simp add: x(3) ber_bytes_nonempty)
            from IH [OF this own3 s, of eoc depth, unfolded returns_def] obtain fin inp' st'
              where l: "cbs_convert_ber s eoc depth h inp2 st3 = Some (fin, inp', st')"
                "fin \<longrightarrow> converted s eoc depth h (pre @ wrapped s (el_tag el) bs) inp2 inp' st3 st'"
              by blast
            have "converted s eoc depth h pre inp inp' st st'" if fin: fin
            proof -
              obtain ts cs where "forest_valid ts" "forest_height ts + unat depth \<le> 128"
                  "inp2 = forest_bytes ts @ (if eoc then [0, 0] else []) @ inp'" "eoc \<or> inp' = []" "forest_der s ts = Some cs"
                  "appended h (pre @ wrapped s (el_tag el) bs) cs st3 st'"
                using l(2) fin unfolding converted_def by blast
              then show ?thesis
                using x appended_trans [OF adv]
                by (intro convertedI [where ts = "x # ts" and bs = "wrapped s (el_tag el) bs @ cs"]) simp_all
            qed
            then show ?thesis
              using True l(1) by (simp add: run)
          qed (simp add: run)
        qed
      qed
    qed
  qed
qed

section \<open>The length of the result\<close>

lemma length_tag_code_out: "length (tag_code (out_tag t)) = length (tag_code t)"
proof -
  have "NOT CBS_ASN1_CONSTRUCTED AND CBS_ASN1_TAG_NUMBER_MASK = CBS_ASN1_TAG_NUMBER_MASK"
    by (simp add: CBS_ASN1_CONSTRUCTED_def CBS_ASN1_TAG_NUMBER_MASK_def push_bit_eq_mult)
  then have "tag_number (t AND NOT CBS_ASN1_CONSTRUCTED) = tag_number t"
    by (simp add: tag_number_def and.assoc)
  then show ?thesis
    by (simp add: out_tag_def tag_code_def)
qed

lemma length_der_length_le: "length (der_length n) \<le> 5" "n < 256 \<Longrightarrow> length (der_length n) \<le> 2"
  using length_octets_range(2) [of n] by (auto simp: length_der_length length_octets_def)

lemma ber_length_long: "ber_length n lc \<Longrightarrow> 128 \<le> n \<Longrightarrow> 2 \<le> length lc"
  by (auto simp: ber_length_def)

lemma wrapped_length:
  assumes lc: "ber_length n lc" and b: "length b \<le> 2 * n"
  shows "length (wrapped s t b) \<le> 2 * (length (tag_code t) + length lc + n)"
proof (cases "length b < 256")
  case True
  then show ?thesis
    using b ber_length_props(2) [OF lc] length_der_length_le(2) [of "length b"] length_tag_code(1) [of t]
    by (simp add: wrapped_def der_def length_tag_code_out)
next
  case False
  then have "2 \<le> length lc"
    using b ber_length_long [OF lc] by simp
  then show ?thesis
    using b length_der_length_le(1) [of "length b"] length_tag_code(1) [of t]
    by (simp add: wrapped_def der_def length_tag_code_out)
qed

lemma to_der_length:
  "ber_valid x \<Longrightarrow> to_der s x = Some bs \<Longrightarrow> length bs \<le> 2 * length (ber_bytes x)"
  "forest_valid xs \<Longrightarrow> forest_der s xs = Some bs \<Longrightarrow> length bs \<le> 2 * length (forest_bytes xs)"
proof (induction x and xs arbitrary: s bs and s bs rule: ber_bytes_forest_bytes.induct)
  case (1 t lc c)
  then show ?case
    using wrapped_length [of "length c" lc c s t] by (auto split: if_splits)
next
  case (2 t lc xs)
  then obtain b where b: "forest_der (child_tag s t) xs = Some b" "bs = wrapped s t b"
    by (auto split: if_splits)
  have "length b \<le> 2 * length (forest_bytes xs)"
    using 2(1) [OF _ b(1)] 2(2) by simp
  then show ?case
    using 2(2) wrapped_length [of "length (forest_bytes xs)" lc b s t] by (simp add: b(2))
next
  case (3 t xs)
  then obtain b where b: "forest_der (child_tag s t) xs = Some b" "bs = wrapped s t b"
    by (auto split: if_splits)
  have "length b \<le> 2 * length (forest_bytes xs)"
    using 3(1) [OF _ b(1)] 3(2) by simp
  then show ?case
    using length_der_length_le(1) [of "length b"] length_tag_code(1) [of t]
    by (simp add: b(2) wrapped_def der_def length_tag_code_out)
next
  case (5 x xs)
  then obtain a c where "to_der s x = Some a" "forest_der s xs = Some c" "bs = a @ c"
    by (auto simp: Option.bind_eq_Some_conv)
  with 5 have "length a \<le> 2 * length (ber_bytes x)" "length c \<le> 2 * length (forest_bytes xs)"
    by auto
  then show ?case
    using \<open>bs = a @ c\<close> by simp
qed simp

section \<open>What the conversion writes\<close>

lemma tag_code_not_eoc:
  assumes "tag_valid t"
  shows "cbs_get_eoc (tag_code t @ rest) = None"
proof (rule ccontr)
  assume "cbs_get_eoc (tag_code t @ rest) \<noteq> None"
  then obtain r where "tag_code t @ rest = 0 # 0 # r"
    using eoc_some by blast
  then obtain r' where "tag_code t = 0 # r'"
    by (cases "tag_code t") auto
  then have "parse_asn1_tag (0 # r') = (Some t, [])"
    using tag.dec_enc [OF assms, of "[]"] by simp
  moreover have "fst (parse_asn1_tag (0 # r')) = None"
    by (simp add: parse_asn1_tag_def Let_def reject_def)
  ultimately show False
    by simp
qed

text \<open>One element whose contents are written as expected.\<close>

lemma convert_element:
  assumes own: "owns st h pre []" and s: "s AND CBS_ASN1_CONSTRUCTED = 0" and depth: "unat depth \<le> 128"
    and t: "tag_valid t" "tag_matches s t" and inp: "inp = tag_code t @ rest"
    and el: "CBS_get_any_ber_asn1_element inp = (Some el, inp1)" "el_tag el = t"
    and room: "room st (length (pre @ wrapped s t bs))" "length bs < 2 ^ 32 - 1"
    and body: "\<And>k st1 pre1. owns st1 k pre1 [] \<Longrightarrow> room st1 (length (pre1 @ bs)) \<Longrightarrow>
      \<exists>st2. contents_step el (child_tag s t) depth k inp1 st1 = Some (True, tail, st2) \<and> appended k pre1 bs st1 st2"
  shows "\<exists>st'. cbs_convert_ber s eoc depth h inp st = cbs_convert_ber s eoc depth h tail st' \<and> appended h pre (wrapped s t bs) st st'"
proof -
  have "depth \<le> kMaxDepth" "inp \<noteq> []" "\<not> (eoc \<and> cbs_get_eoc inp \<noteq> None)"
    using depth tag_code_not_eoc [OF t(1), of rest] by (auto simp: inp kMaxDepth_def word_le_nat_alt)
  note step = convert_step [OF s this el(1), of h st]
  show ?thesis
  proof (cases rule: open_contents_cases [OF own, of s t bs, case_names fail ok])
    case (fail c k st1)
    then show ?thesis
      using t(2) room(1) by simp
  next
    case (ok k st1 pre1)
    obtain st2 where st2: "contents_step el (child_tag s t) depth k inp1 st1 = Some (True, tail, st2)" "appended k pre1 bs st1 st2"
      using body [OF ok(3) ok(4) [OF room(1)]] by blast
    obtain fl st3 where fl: "CBB_flush h st2 = Some (fl, st3)" "fl \<longrightarrow> appended h pre (wrapped s t bs) st st3" fl
      using ok(5) [OF st2(2)] room by blast
    then show ?thesis
      using ok(1) st2(1) by (intro exI [of _ st3]) (simp add: step el(2))
  qed
qed

lemma convert_nil: "s AND CBS_ASN1_CONSTRUCTED = 0 \<Longrightarrow> unat depth \<le> 128 \<Longrightarrow> cbs_convert_ber s False depth h [] st = Some (True, [], st)"
  by (subst cbs_convert_ber.simps) (simp add: kMaxDepth_def word_less_nat_alt)

lemma convert_eoc:
  "s AND CBS_ASN1_CONSTRUCTED = 0 \<Longrightarrow> unat depth \<le> 128 \<Longrightarrow> cbs_convert_ber s True depth h (0 # 0 # rest) st = Some (True, rest, st)"
  by (subst cbs_convert_ber.simps) (simp add: kMaxDepth_def word_less_nat_alt)

lemma convert_complete:
  "ber_valid x \<Longrightarrow> ber_height x + unat depth \<le> 128 \<Longrightarrow> to_der s x = Some bs \<Longrightarrow> length (ber_bytes x) < 2 ^ 30 \<Longrightarrow>
    s AND CBS_ASN1_CONSTRUCTED = 0 \<Longrightarrow> owns st h pre [] \<Longrightarrow> room st (length (pre @ bs)) \<Longrightarrow>
    \<exists>st'. cbs_convert_ber s eoc depth h (ber_bytes x @ tail) st = cbs_convert_ber s eoc depth h tail st' \<and> appended h pre bs st st'"
  "forest_valid xs \<Longrightarrow> forest_height xs + unat depth \<le> 128 \<Longrightarrow> forest_der s xs = Some bs \<Longrightarrow> length (forest_bytes xs) < 2 ^ 30 \<Longrightarrow>
    s AND CBS_ASN1_CONSTRUCTED = 0 \<Longrightarrow> owns st h pre [] \<Longrightarrow> room st (length (pre @ bs)) \<Longrightarrow>
    \<exists>st'. cbs_convert_ber s eoc depth h (forest_bytes xs @ tail) st = cbs_convert_ber s eoc depth h tail st' \<and> appended h pre bs st st'"
proof (induction x and xs arbitrary: s depth h pre bs st eoc tail and s depth h pre bs st eoc tail rule: ber_bytes_forest_bytes.induct)
  case (1 t lc c)
  have t: "tag_valid t" "ber_length (length c) lc" "tag_matches s t" "bs = wrapped s t c" and prim: "t AND CBS_ASN1_CONSTRUCTED = 0"
    using 1(1,3) by (auto split: if_splits)
  have "\<exists>st2. contents_step (definite t lc c) (child_tag s t) depth k tail st1 = Some (True, tail, st2) \<and> appended k pre1 c st1 st2"
    if own: "owns st1 k pre1 []" and room: "room st1 (length (pre1 @ c))" for k st1 pre1
  proof -
    have "length c < 2 ^ 64"
      using 1(4) by simp
    from own this show ?thesis
    proof (cases rule: add_bytes_appended [case_names fail ok])
      case (ok st2)
      then show ?thesis
        using prim skip_definite [OF t(2), of t] by (intro exI [of _ st2]) (simp add: contents_step_def)
    qed (use room in simp)
  qed
  from convert_element [OF 1(6,5) _ t(1,3) refl ber_element_definite [OF t(1,2)] _ _ _ this] show ?case
    using 1(2,4,7) t(4) by simp
next
  case (2 t lc xs)
  then obtain b where b: "forest_der (child_tag s t) xs = Some b" "bs = wrapped s t b" "tag_matches s t"
    by (auto split: if_splits)
  have t: "tag_valid t" "ber_length (length (forest_bytes xs)) lc" "forest_valid xs" and con: "t AND CBS_ASN1_CONSTRUCTED \<noteq> 0"
    using 2(2) by auto
  have d: "unat depth \<le> 128" "forest_height xs + unat (depth + 1) \<le> 128"
    using 2(3) by (auto simp: depth_succ)
  have "\<exists>st2. contents_step (definite t lc (forest_bytes xs)) (child_tag s t) depth k tail st1 = Some (True, tail, st2) \<and> appended k pre1 b st1 st2"
    if own: "owns st1 k pre1 []" and room: "room st1 (length (pre1 @ b))" for k st1 pre1
  proof -
    obtain st2 where "cbs_convert_ber (child_tag s t) False (depth + 1) k (forest_bytes xs @ []) st1 =
        cbs_convert_ber (child_tag s t) False (depth + 1) k [] st2" "appended k pre1 b st1 st2"
      using 2(1) [OF t(3) d(2) b(1) _ child_tag_primitive [OF 2(6)] own room] 2(5) by fastforce
    then show ?thesis
      using con d(2) skip_definite [OF t(2), of t] child_tag_primitive [OF 2(6), of t]
      by (intro exI [of _ st2]) (simp add: contents_step_def convert_nil)
  qed
  moreover have "length b < 2 ^ 32 - 1"
    using to_der_length(2) [OF t(3) b(1)] 2(5) by simp
  ultimately show ?case
    using convert_element [OF 2(7,6) d(1) t(1) b(3) refl ber_element_definite [OF t(1,2)]] 2(8) b(2) by simp
next
  case (3 t xs)
  then obtain b where b: "forest_der (child_tag s t) xs = Some b" "bs = wrapped s t b" "tag_matches s t"
    by (auto split: if_splits)
  have t: "tag_valid t" "forest_valid xs" and con: "t AND CBS_ASN1_CONSTRUCTED \<noteq> 0"
    using 3(2) by auto
  have d: "unat depth \<le> 128" "forest_height xs + unat (depth + 1) \<le> 128"
    using 3(3) by (auto simp: depth_succ)
  have "\<exists>st2. contents_step (indefinite t) (child_tag s t) depth k (forest_bytes xs @ 0 # 0 # tail) st1 = Some (True, tail, st2) \<and>
      appended k pre1 b st1 st2"
    if own: "owns st1 k pre1 []" and room: "room st1 (length (pre1 @ b))" for k st1 pre1
  proof -
    obtain st2 where "cbs_convert_ber (child_tag s t) True (depth + 1) k (forest_bytes xs @ 0 # 0 # tail) st1 =
        cbs_convert_ber (child_tag s t) True (depth + 1) k (0 # 0 # tail) st2" "appended k pre1 b st1 st2"
      using 3(1) [OF t(2) d(2) b(1) _ child_tag_primitive [OF 3(6)] own room] 3(5) by fastforce
    then show ?thesis
      using d(2) child_tag_primitive [OF 3(6), of t]
      by (intro exI [of _ st2]) (simp add: contents_step_def convert_eoc)
  qed
  moreover have "length b < 2 ^ 32 - 1"
    using to_der_length(2) [OF t(2) b(1)] 3(5) by simp
  ultimately show ?case
    using convert_element [OF 3(7,6) d(1) t(1) b(3) refl ber_element_indefinite [OF t(1) con]] 3(8) b(2) by simp
next
  case (4 s)
  then show ?case
    using appended_refl by fastforce
next
  case (5 x xs)
  then obtain a c where ac: "to_der s x = Some a" "forest_der s xs = Some c" "bs = a @ c"
    by (auto simp: Option.bind_eq_Some_conv)
  have len: "length (ber_bytes x) < 2 ^ 30" "length (forest_bytes xs) < 2 ^ 30" and h: "ber_height x + unat depth \<le> 128" "forest_height xs + unat depth \<le> 128"
    using 5(4,6) by auto
  have ok: "ber_valid x" "forest_valid xs"
    using 5(3) by simp_all
  have "room st (length (pre @ a))"
    using 5(9) room_le ac(3) by fastforce
  from 5(1) [OF ok(1) h(1) ac(1) len(1) 5(7,8) this, of eoc "forest_bytes xs @ tail"] obtain st1 where
    st1: "cbs_convert_ber s eoc depth h (ber_bytes x @ forest_bytes xs @ tail) st = cbs_convert_ber s eoc depth h (forest_bytes xs @ tail) st1"
      "appended h pre a st st1"
    by blast
  have "owns st1 h (pre @ a) []"
    using st1(2) by (simp add: appended_def)
  moreover have "room st1 (length ((pre @ a) @ c))"
    using appended_room [OF st1(2)] 5(9) ac(3) by simp
  ultimately obtain st2 where "cbs_convert_ber s eoc depth h (forest_bytes xs @ tail) st1 = cbs_convert_ber s eoc depth h tail st2"
      "appended h (pre @ a) c st1 st2"
    using 5(2) [OF ok(2) h(2) ac(2) len(2) 5(7)] by blast
  then show ?case
    using st1 appended_trans ac(3) by fastforce
qed

end
