(* ===== verification/BerResults.thy ===== *)
theory BerResults
  imports BerConvert
begin

text \<open>
  \<^verbatim>\<open>CBS_asn1_ber_to_der\<close> succeeds exactly on the encodings of trees that are not too deep, and its result is DER.
  \<^verbatim>\<open>CBS_get_asn1_implicit_string\<close> joins the fragments of a string.
\<close>

section \<open>The result is DER\<close>

lemma out_tag_valid: "tag_valid t \<Longrightarrow> tag_valid (out_tag t)"
  by (simp add: out_tag_def tag_valid_def and.assoc)

lemma to_der_is_der:
  "ber_valid x \<Longrightarrow> to_der 0 x = Some bs \<Longrightarrow> length (ber_bytes x) < 2 ^ 30 \<Longrightarrow>
    \<exists>u. ber_valid u \<and> is_der u \<and> ber_height u \<le> ber_height x \<and> bs = ber_bytes u"
  "forest_valid xs \<Longrightarrow> forest_der 0 xs = Some bs \<Longrightarrow> length (forest_bytes xs) < 2 ^ 30 \<Longrightarrow>
    \<exists>us. forest_valid us \<and> forest_is_der us \<and> forest_height us \<le> forest_height xs \<and> bs = forest_bytes us"
proof -
  have constructed: "\<exists>u. ber_valid u \<and> is_der u \<and> ber_height u \<le> Suc (forest_height xs) \<and> wrapped 0 t b = ber_bytes u"
    if t: "tag_valid t" "t AND CBS_ASN1_CONSTRUCTED \<noteq> 0" and len: "length b < 2 ^ 32"
      and IH: "\<not> is_string_type t \<Longrightarrow> \<exists>us. forest_valid us \<and> forest_is_der us \<and> forest_height us \<le> forest_height xs \<and> b = forest_bytes us"
    for t b xs
  proof (cases "is_string_type t")
    case True
    then show ?thesis
      using t out_tag_valid [OF t(1)] der_ber_length [OF len]
      by (intro exI [of _ "Ber_primitive (out_tag t) (der_length (length b)) b"]) (simp add: wrapped_def der_def out_tag_def and.assoc)
  next
    case False
    then obtain us where "forest_valid us" "forest_is_der us" "forest_height us \<le> forest_height xs" "b = forest_bytes us"
      using IH by blast
    then show ?thesis
      using t False der_ber_length [OF len]
      by (intro exI [of _ "Ber_constructed t (Some (der_length (length b))) us"]) (simp add: wrapped_def der_def out_tag_def)
  qed
  show "ber_valid x \<Longrightarrow> to_der 0 x = Some bs \<Longrightarrow> length (ber_bytes x) < 2 ^ 30 \<Longrightarrow>
    \<exists>u. ber_valid u \<and> is_der u \<and> ber_height u \<le> ber_height x \<and> bs = ber_bytes u"
  "forest_valid xs \<Longrightarrow> forest_der 0 xs = Some bs \<Longrightarrow> length (forest_bytes xs) < 2 ^ 30 \<Longrightarrow>
    \<exists>us. forest_valid us \<and> forest_is_der us \<and> forest_height us \<le> forest_height xs \<and> bs = forest_bytes us"
  proof (induction x and xs arbitrary: bs and bs rule: ber_bytes_forest_bytes.induct)
    case (1 t lc c)
    then show ?case
      using der_ber_length [of "length c"]
      by (intro exI [of _ "Ber_primitive t (der_length (length c)) c"]) (auto simp: tag_matches_def wrapped_def der_def out_tag_def)
  next
    case (2 t lc xs)
    then obtain b where b: "forest_der (child_tag 0 t) xs = Some b" "bs = wrapped 0 t b"
      by (auto split: if_splits)
    have "length b < 2 ^ 32"
      using to_der_length(2) [OF _ b(1)] 2(2,4) by fastforce
    moreover have "\<exists>us. forest_valid us \<and> forest_is_der us \<and> forest_height us \<le> forest_height xs \<and> b = forest_bytes us"
      if "\<not> is_string_type t"
      using 2(1) [of b] 2(2,4) b(1) that by (simp add: child_tag_def)
    ultimately show ?case
      using constructed [of t b xs] 2(2) b(2) by simp
  next
    case (3 t xs)
    then obtain b where b: "forest_der (child_tag 0 t) xs = Some b" "bs = wrapped 0 t b"
      by (auto split: if_splits)
    have "length b < 2 ^ 32"
      using to_der_length(2) [OF _ b(1)] 3(2,4) by fastforce
    moreover have "\<exists>us. forest_valid us \<and> forest_is_der us \<and> forest_height us \<le> forest_height xs \<and> b = forest_bytes us"
      if "\<not> is_string_type t"
      using 3(1) [of b] 3(2,4) b(1) that by (simp add: child_tag_def)
    ultimately show ?case
      using constructed [of t b xs] 3(2) b(2) by simp
  next
    case 4
    then show ?case
      by (intro exI [of _ "[]"]) simp
  next
    case (5 x xs)
    then obtain a c where ac: "to_der 0 x = Some a" "forest_der 0 xs = Some c" "bs = a @ c"
      by (auto simp: Option.bind_eq_Some_conv)
    obtain u where "ber_valid u" "is_der u" "ber_height u \<le> ber_height x" "a = ber_bytes u"
      using 5(1) [OF _ ac(1)] 5(3,5) by fastforce
    moreover obtain us where "forest_valid us" "forest_is_der us" "forest_height us \<le> forest_height xs" "c = forest_bytes us"
      using 5(2) [OF _ ac(2)] 5(3,5) by fastforce
    ultimately show ?case
      using ac(3) by (intro exI [of _ "u # us"]) auto
  qed
qed

section \<open>The conversion\<close>

text \<open>An element of a DER tree, as the element reader for DER sees it.\<close>

lemma der_tree_element:
  assumes "ber_valid x" "is_der x"
  shows "\<exists>el. CBS_get_any_asn1_element (ber_bytes x @ rest) = (Some el, rest) \<and> el_bytes el = ber_bytes x"
proof -
  have "\<exists>el. der_valid el \<and> ber_bytes x = der el"
  proof (cases x)
    case (Ber_primitive t lc c)
    then show ?thesis
      using assms ber_length_props(1) [of "length c" lc] by (intro exI [of _ "(t, c)"]) (simp add: der_valid_def der_def)
  next
    case (Ber_constructed t len xs)
    then show ?thesis
      using assms ber_length_props(1) [of "length (forest_bytes xs)" "the len"]
      by (intro exI [of _ "(t, forest_bytes xs)"]) (auto simp: der_valid_def der_def)
  qed
  then obtain el where "der_valid el" "ber_bytes x = der el"
    by blast
  moreover from this have "CBS_get_any_asn1_element (ber_bytes x @ rest) = (Some (der_element el), rest)"
    by (intro element_iff [THEN iffD2] exI [of _ el]) simp
  ultimately show ?thesis
    by (intro exI [of _ "der_element el"]) (simp add: der_element_def)
qed

lemma init_succeeds:
  assumes "\<forall>i. alloc i \<noteq> None"
  obtains st where "CBB_init 0 n (no_builder alloc) = (True, st)"
  using init_fails [of n alloc] assms by (cases "CBB_init 0 n (no_builder alloc)") (metis (full_types))

text \<open>What finishing the builder hands out.\<close>

lemma finish_appended:
  assumes init: "CBB_init 0 n (no_builder alloc) = (True, st)" and adv: "appended 0 [] bs st st1"
  shows "\<exists>r st'. CBB_finish 0 st1 = Some (r, st') \<and> (r = None \<or> r = Some bs) \<and> ((\<forall>i. alloc i \<noteq> None) \<and> length bs < 2 ^ 64 \<longrightarrow> r \<noteq> None)"
proof -
  note I = init_owns [OF init]
  have own: "owns st1 0 bs []" and top: "\<not> is_child (cells st1 0)"
    using adv I(2) by (auto simp: appended_def)
  obtain r st' where r: "CBB_finish 0 st1 = Some (r, st')" "r = None \<or> r = Some bs" "room st1 (length bs) \<longrightarrow> r \<noteq> None"
    using CBB_finish_appends [OF own top] by auto
  moreover have "room st1 (length bs)" if "\<forall>i. alloc i \<noteq> None" "length bs < 2 ^ 64"
    using appended_room [OF adv] I(3) that by blast
  ultimately show ?thesis
    by blast
qed

text \<open>The trees that the input encodes, and the result.\<close>

definition ber_result :: "ber list \<Rightarrow> cbs \<Rightarrow> bool \<Rightarrow> cbs \<Rightarrow> bool" where
  "ber_result ts out stored rest \<longleftrightarrow>
     (if forest_is_der ts then \<not> stored \<and> (\<exists>x xs. ts = x # xs \<and> out = ber_bytes x \<and> rest = forest_bytes xs)
      else stored \<and> forest_der 0 ts = Some out \<and> rest = [])"

lemma ber_to_der_sound:
  "\<exists>r rest. CBS_asn1_ber_to_der alloc inp = Some (r, rest) \<and>
    (\<forall>out stored. r = Some (out, stored) \<longrightarrow>
      (\<exists>ts. forest_valid ts \<and> forest_height ts \<le> 128 \<and> inp = forest_bytes ts \<and> ber_result ts out stored rest))"
proof (cases "cbs_find_ber inp 0")
  case None
  then show ?thesis
    by (simp add: CBS_asn1_ber_to_der_def)
next
  case (Some found)
  show ?thesis
  proof (cases found)
    case False
    with Some obtain ts where ts: "forest_valid ts" "forest_is_der ts" "inp = forest_bytes ts" "forest_height ts \<le> 128"
      using find_ber_sound [of inp 0] by auto
    show ?thesis
    proof (cases ts)
      case Nil
      then show ?thesis
        using Some False ts by (simp add: CBS_asn1_ber_to_der_def element_eq split: prod.split)
          (simp add: parse_asn1_tag_def bind_reader_def)
    next
      case (Cons x xs)
      obtain el where "CBS_get_any_asn1_element (ber_bytes x @ forest_bytes xs) = (Some el, forest_bytes xs)" "el_bytes el = ber_bytes x"
        using der_tree_element [of x "forest_bytes xs"] ts Cons by auto
      then have "CBS_asn1_ber_to_der alloc inp = Some (Some (ber_bytes x, False), forest_bytes xs)"
        using Some False ts Cons by (simp add: CBS_asn1_ber_to_der_def)
      moreover have "ber_result ts (ber_bytes x) False (forest_bytes xs)"
        using ts(2) Cons by (simp add: ber_result_def)
      ultimately show ?thesis
        using ts by auto
    qed
  next
    case True
    show ?thesis
    proof (cases "CBB_init 0 (CBS_len inp) (no_builder alloc)")
      case (Pair ok st)
      show ?thesis
      proof (cases ok)
        case False
        then show ?thesis
          using Some True Pair by (simp add: CBS_asn1_ber_to_der_def)
      next
        case init: True
        have st: "CBB_init 0 (CBS_len inp) (no_builder alloc) = (True, st)"
          using Pair init by simp
        note I = init_owns [OF st]
        obtain fin rest st1 where c: "cbs_convert_ber 0 False 0 0 inp st = Some (fin, rest, st1)"
            "fin \<longrightarrow> converted 0 False 0 0 [] inp rest st st1"
          using convert_sound [OF I(1), of 0 False 0 inp, unfolded returns_def] by auto
        show ?thesis
        proof (cases fin)
          case False
          then show ?thesis
            using Some True st c(1) by (simp add: CBS_asn1_ber_to_der_def)
        next
          case fin: True
          then obtain ts bs where ts: "forest_valid ts" "forest_height ts \<le> 128" "inp = forest_bytes ts" "rest = []"
              "forest_der 0 ts = Some bs" "appended 0 [] bs st st1"
            using c(2) by (auto simp: converted_def)
          obtain r st' where r: "CBB_finish 0 st1 = Some (r, st')" "r = None \<or> r = Some bs"
            using finish_appended [OF st ts(6)] by blast
          have "\<not> forest_is_der ts"
            using find_ber_exact [OF ts(1,2)] Some True ts(3) by simp
          then have "ber_result ts bs True []"
            using ts(5) by (simp add: ber_result_def)
          then show ?thesis
            using Some True st c(1) fin r ts(1-4) by (auto simp: CBS_asn1_ber_to_der_def)
        qed
      qed
    qed
  qed
qed

lemma ber_to_der_complete:
  assumes alloc: "\<forall>i. alloc i \<noteq> None" and ts: "forest_valid ts" "forest_height ts \<le> 128" "length (forest_bytes ts) < 2 ^ 30"
    and r: "ber_result ts out stored rest"
  shows "CBS_asn1_ber_to_der alloc (forest_bytes ts) = Some (Some (out, stored), rest)"
proof (cases "forest_is_der ts")
  case True
  then obtain x xs where x: "ts = x # xs" "out = ber_bytes x" "rest = forest_bytes xs" "\<not> stored"
    using r by (auto simp: ber_result_def)
  then show ?thesis
    using der_tree_element [of x "forest_bytes xs"] True ts find_ber_exact [OF ts(1,2)]
    by (auto simp: CBS_asn1_ber_to_der_def)
next
  case False
  then have r: "stored" "forest_der 0 ts = Some out" "rest = []"
    using r by (simp_all add: ber_result_def)
  obtain st where st: "CBB_init 0 (CBS_len (forest_bytes ts)) (no_builder alloc) = (True, st)"
    using init_succeeds [OF alloc] by blast
  note I = init_owns [OF st]
  have len: "length out < 2 ^ 64"
    using to_der_length(2) [OF ts(1) r(2)] ts(3) by simp
  then have room: "room st (length ([] @ out))"
    using I(3) alloc by simp
  obtain st1 where c: "cbs_convert_ber 0 False 0 0 (forest_bytes ts @ []) st = cbs_convert_ber 0 False 0 0 [] st1" "appended 0 [] out st st1"
    using convert_complete(2) [OF ts(1) _ r(2) ts(3) _ I(1) room, of 0 False "[]"] ts(2) by auto
  obtain q st' where "CBB_finish 0 st1 = Some (q, st')" "q = Some out"
    using finish_appended [OF st c(2)] alloc len by auto
  then show ?thesis
    using c(1) st r False find_ber_exact [OF ts(1,2)] by (simp add: CBS_asn1_ber_to_der_def convert_nil)
qed

lemma ber_result_der:
  assumes "forest_valid ts" "ber_result ts out stored rest" "forest_height ts \<le> 128" "length (forest_bytes ts) < 2 ^ 30"
  shows "\<exists>us. forest_valid us \<and> forest_is_der us \<and> forest_height us \<le> 128 \<and> out = forest_bytes us"
proof (cases "forest_is_der ts")
  case True
  then obtain x xs where "ts = x # xs" "out = ber_bytes x"
    using assms(2) by (auto simp: ber_result_def)
  then show ?thesis
    using assms(1,3) True by (intro exI [of _ "[x]"]) simp
next
  case False
  then have "forest_der 0 ts = Some out"
    using assms(2) by (simp add: ber_result_def)
  then obtain us where "forest_valid us" "forest_is_der us" "forest_height us \<le> forest_height ts" "out = forest_bytes us"
    using to_der_is_der(2) assms(1,4) by blast
  then show ?thesis
    using assms(3) by (intro exI [of _ us]) simp
qed

section \<open>Implicitly tagged strings\<close>

definition fragments :: "CBS_ASN1_TAG \<Rightarrow> cbs list \<Rightarrow> byte list" where
  "fragments t cs = concat (map (\<lambda>c. der (t, c)) cs)"

lemma fragments_simps [simp]: "fragments t [] = []" "fragments t (c # cs) = der (t, c) @ fragments t cs"
  by (simp_all add: fragments_def)

lemma length_fragments: "length (concat cs) \<le> length (fragments t cs)"
  by (induction cs) (simp_all add: length_der)

declare add_chunks.simps [simp del]

lemma add_chunks_sound:
  "owns st 0 pre [] \<Longrightarrow>
   \<exists>ok st'. add_chunks t inner st = Some (ok, st') \<and>
     (ok \<longrightarrow> (\<exists>cs. (\<forall>c \<in> set cs. der_valid (t, c)) \<and> inner = fragments t cs \<and> appended 0 pre (concat cs) st st'))"
proof (induction "length inner" arbitrary: inner st pre rule: less_induct)
  case less
  note IH = less(1) and own = less(2)
  show ?case
  proof (cases "inner = []")
    case True
    then show ?thesis
      using appended_refl [OF own]
      by (intro exI [of _ True] exI [of _ st] conjI impI exI [of _ "[]"]) (simp_all add: add_chunks.simps)
  next
    case ne: False
    show ?thesis
    proof (cases "CBS_get_asn1 t inner")
      case (Pair r rest)
      show ?thesis
      proof (cases r)
        case None
        then show ?thesis
          using ne Pair by (subst add_chunks.simps) auto
      next
        case (Some c)
        have c: "der_valid (t, c)" "inner = der (t, c) @ rest"
          using asn1.enc_dec Pair Some by blast+
        have step: "add_chunks t inner st = and_then (CBB_add_bytes 0 c st) (add_chunks t rest)"
          using ne Pair Some by (subst add_chunks.simps) simp
        have "length c < 2 ^ 64"
          using c(1) by (simp add: der_valid_def)
        from own this show ?thesis
        proof (cases rule: add_bytes_appended [case_names fail ok])
          case (fail st1)
          then show ?thesis
            by (auto simp: step and_then_def)
        next
          case (ok st1)
          have "owns st1 0 (pre @ c) []"
            using ok(2) by (simp add: appended_def)
          from IH [OF asn1_shorter [OF Pair [unfolded Some]] this] obtain fin st2 where r: "add_chunks t rest st1 = Some (fin, st2)"
              "fin \<longrightarrow> (\<exists>cs. (\<forall>c \<in> set cs. der_valid (t, c)) \<and> rest = fragments t cs \<and> appended 0 (pre @ c) (concat cs) st1 st2)"
            by blast
          have "\<exists>cs. (\<forall>c \<in> set cs. der_valid (t, c)) \<and> inner = fragments t cs \<and> appended 0 pre (concat cs) st st2" if fin
          proof -
            obtain cs where "\<forall>c \<in> set cs. der_valid (t, c)" "rest = fragments t cs" "appended 0 (pre @ c) (concat cs) st1 st2"
              using r(2) \<open>fin\<close> by blast
            then show ?thesis
              using c appended_trans [OF ok(2)] by (intro exI [of _ "c # cs"]) simp
          qed
          then show ?thesis
            using ok(1) r(1) by (simp add: step and_then_def)
        qed
      qed
    qed
  qed
qed

lemma add_chunks_complete:
  "\<forall>c \<in> set cs. der_valid (t, c) \<Longrightarrow> owns st 0 pre [] \<Longrightarrow> room st (length (pre @ concat cs)) \<Longrightarrow>
   \<exists>st'. add_chunks t (fragments t cs) st = Some (True, st') \<and> appended 0 pre (concat cs) st st'"
proof (induction cs arbitrary: st pre)
  case Nil
  then show ?case
    using appended_refl [OF Nil(2)] by (intro exI [of _ st]) (simp add: add_chunks.simps)
next
  case (Cons c cs)
  have v: "der_valid (t, c)"
    using Cons(2) by simp
  have "der (t, c) \<noteq> []"
    by (simp add: der_def)
  then have step: "add_chunks t (der (t, c) @ fragments t cs) st = and_then (CBB_add_bytes 0 c st) (add_chunks t (fragments t cs))"
    using asn1.dec_enc [OF v, of "fragments t cs"] by (subst add_chunks.simps) simp
  have "length c < 2 ^ 64"
    using v by (simp add: der_valid_def)
  from Cons(3) this show ?case
  proof (cases rule: add_bytes_appended [case_names fail ok])
    case (fail st1)
    then show ?thesis
      using Cons(4) room_le [of st "length (pre @ concat (c # cs))" "length (pre @ c)"] by simp
  next
    case (ok st1)
    have "owns st1 0 (pre @ c) []" "room st1 (length ((pre @ c) @ concat cs))"
      using ok(2) appended_room [OF ok(2)] Cons(4) by (simp_all add: appended_def)
    then obtain st2 where "add_chunks t (fragments t cs) st1 = Some (True, st2)" "appended 0 (pre @ c) (concat cs) st1 st2"
      using Cons(1) [of st1 "pre @ c"] Cons(2) by auto
    then show ?thesis
      using ok appended_trans [OF ok(2)] by (simp add: step and_then_def)
  qed
qed

lemma implicit_string_tags: "t AND CBS_ASN1_CONSTRUCTED = 0 \<Longrightarrow> t OR CBS_ASN1_CONSTRUCTED \<noteq> t"
proof
  assume t: "t AND CBS_ASN1_CONSTRUCTED = 0" and eq: "t OR CBS_ASN1_CONSTRUCTED = t"
  have "(t OR CBS_ASN1_CONSTRUCTED) AND CBS_ASN1_CONSTRUCTED = CBS_ASN1_CONSTRUCTED"
    by (rule bit_word_eqI) (auto simp: bit_simps)
  then have "CBS_ASN1_CONSTRUCTED = 0"
    unfolding eq t by (rule sym)
  then show False
    by (simp add: CBS_ASN1_CONSTRUCTED_def)
qed

lemma implicit_string_sound:
  assumes "is_string_type i" "i AND CBS_ASN1_CONSTRUCTED = 0" "t AND CBS_ASN1_CONSTRUCTED = 0"
  shows "\<exists>r rest. CBS_get_asn1_implicit_string alloc inp t i = Some (r, rest) \<and>
    (\<forall>out stored. r = Some (out, stored) \<longrightarrow>
      (if stored then \<exists>cs. (\<forall>c \<in> set cs. der_valid (i, c)) \<and> der_valid (t OR CBS_ASN1_CONSTRUCTED, fragments i cs) \<and>
          inp = der (t OR CBS_ASN1_CONSTRUCTED, fragments i cs) @ rest \<and> out = concat cs
       else der_valid (t, out) \<and> inp = der (t, out) @ rest))"
proof (cases "CBS_peek_asn1_tag inp t")
  case True
  obtain r rest where r: "CBS_get_asn1 t inp = (r, rest)"
    by (cases "CBS_get_asn1 t inp")
  then show ?thesis
    using assms True asn1.enc_dec [of t inp _ rest] by (cases r) (auto simp: CBS_get_asn1_implicit_string_def)
next
  case False
  obtain ok st where init: "CBB_init 0 (CBS_len inp) (no_builder alloc) = (ok, st)"
    by (cases "CBB_init 0 (CBS_len inp) (no_builder alloc)")
  obtain r rest where r: "CBS_get_asn1 (t OR CBS_ASN1_CONSTRUCTED) inp = (r, rest)"
    by (cases "CBS_get_asn1 (t OR CBS_ASN1_CONSTRUCTED) inp")
  show ?thesis
  proof (cases "ok \<and> r \<noteq> None")
    case f: False
    then show ?thesis
      using assms False init r by (cases ok; cases r) (simp_all add: CBS_get_asn1_implicit_string_def)
  next
    case True
    then obtain body where ok: ok and body: "r = Some body"
      by blast
    have st: "CBB_init 0 (CBS_len inp) (no_builder alloc) = (True, st)"
      using init ok by simp
    have in_body: "der_valid (t OR CBS_ASN1_CONSTRUCTED, body)" "inp = der (t OR CBS_ASN1_CONSTRUCTED, body) @ rest"
      using r body asn1.enc_dec by blast+
    obtain fin st1 where c: "add_chunks i body st = Some (fin, st1)"
        "fin \<longrightarrow> (\<exists>cs. (\<forall>c \<in> set cs. der_valid (i, c)) \<and> body = fragments i cs \<and> appended 0 [] (concat cs) st st1)"
      using add_chunks_sound [OF init_owns(1) [OF st]] by blast
    show ?thesis
    proof (cases fin)
      case f: False
      then show ?thesis
        using assms False st r body c(1) by (simp add: CBS_get_asn1_implicit_string_def)
    next
      case fin: True
      then obtain cs where cs: "\<forall>c \<in> set cs. der_valid (i, c)" "body = fragments i cs" "appended 0 [] (concat cs) st st1"
        using c(2) by blast
      obtain q st' where q: "CBB_finish 0 st1 = Some (q, st')" "q = None \<or> q = Some (concat cs)"
        using finish_appended [OF st cs(3)] by blast
      have "CBS_get_asn1_implicit_string alloc inp t i = Some (map_option (\<lambda>bs. (bs, True)) q, rest)"
        using assms False st r body c(1) fin q(1) by (simp add: CBS_get_asn1_implicit_string_def)
      then show ?thesis
        using q(2) cs in_body by auto
    qed
  qed
qed

lemma implicit_string_complete:
  assumes alloc: "\<forall>j. alloc j \<noteq> None" and i: "is_string_type i" "i AND CBS_ASN1_CONSTRUCTED = 0" and t: "t AND CBS_ASN1_CONSTRUCTED = 0"
  shows "der_valid (t, out) \<Longrightarrow> CBS_get_asn1_implicit_string alloc (der (t, out) @ rest) t i = Some (Some (out, False), rest)"
    and "(\<forall>c \<in> set cs. der_valid (i, c)) \<Longrightarrow> der_valid (t OR CBS_ASN1_CONSTRUCTED, fragments i cs) \<Longrightarrow>
      CBS_get_asn1_implicit_string alloc (der (t OR CBS_ASN1_CONSTRUCTED, fragments i cs) @ rest) t i = Some (Some (concat cs, True), rest)"
proof -
  show "CBS_get_asn1_implicit_string alloc (der (t, out) @ rest) t i = Some (Some (out, False), rest)" if v: "der_valid (t, out)"
  proof -
    have "CBS_peek_asn1_tag (der (t, out) @ rest) t"
      using v unfolding peek_asn1_tag by (simp add: der_def der_valid_def)
    then show ?thesis
      using i t asn1.dec_enc [OF v, of rest] by (simp add: CBS_get_asn1_implicit_string_def)
  qed
  assume cs: "\<forall>c \<in> set cs. der_valid (i, c)" and v: "der_valid (t OR CBS_ASN1_CONSTRUCTED, fragments i cs)"
  let ?u = "t OR CBS_ASN1_CONSTRUCTED"
  let ?inp = "der (?u, fragments i cs) @ rest"
  have "fst (parse_asn1_tag ?inp) = Some ?u"
    using tag.dec_enc [of ?u] v by (simp add: der_def der_valid_def)
  then have peek: "\<not> CBS_peek_asn1_tag ?inp t"
    using implicit_string_tags [OF t] by (simp add: CBS_peek_asn1_tag_def)
  obtain st where st: "CBB_init 0 (CBS_len ?inp) (no_builder alloc) = (True, st)"
    using init_succeeds [OF alloc] by blast
  have len: "length (concat cs) < 2 ^ 64"
    using length_fragments [of cs i] v by (simp add: der_valid_def)
  then have "room st (length ([] @ concat cs))"
    using init_owns(3) [OF st] alloc by simp
  then obtain st1 where c: "add_chunks i (fragments i cs) st = Some (True, st1)" "appended 0 [] (concat cs) st st1"
    using add_chunks_complete [OF cs init_owns(1) [OF st]] by blast
  obtain q st' where "CBB_finish 0 st1 = Some (q, st')" "q = Some (concat cs)"
    using finish_appended [OF st c(2)] alloc len by auto
  then show "CBS_get_asn1_implicit_string alloc ?inp t i = Some (Some (concat cs, True), rest)"
    using i t peek st c(1) asn1.dec_enc [OF v, of rest] by (simp add: CBS_get_asn1_implicit_string_def)
qed

end
