(* ===== verification/Spec2Isabelle.thy ===== *)
theory Spec2Isabelle
  imports PbStatic Base64 Asn1Oid Asn1Time Unicode StackOps SetOf LhashVisit BerResults
begin

text \<open>
  Verification of the byte codecs and containers in the native libraries of the application, all in C under
  \<^verbatim>\<open>src/ios/Pods/\<close>: nanopb (\<^verbatim>\<open>nanopb/\<close>), the protocol-buffer codec of the Firebase libraries, and the byte-string,
  base64, time, stack and hash table code of BoringSSL (\<^verbatim>\<open>BoringSSL-GRPC/src/crypto/\<close>), on which its X.509 and
  TLS code rests. The codecs are the code that reads what comes from the network.

  The theories and the code they model:

  \<^item> \<^verbatim>\<open>Prelude\<close>, \<^verbatim>\<open>CMemory\<close>: words, memory as a function from 64-bit addresses to bytes, little-endian loads
    and stores, the heap with its allocator, the state \<^verbatim>\<open>cstate\<close>. Addresses are 64 bits wide, as \<^verbatim>\<open>size_t\<close> is.
  \<^item> \<^verbatim>\<open>PbTypes\<close> (\<^verbatim>\<open>pb.h\<close>), \<^verbatim>\<open>PbStreams\<close>, \<^verbatim>\<open>PbWire\<close> (streams and scalar formats of \<^verbatim>\<open>pb_encode.c\<close> and \<^verbatim>\<open>pb_decode.c\<close>),
    \<^verbatim>\<open>PbFields\<close> (\<^verbatim>\<open>pb_common.c\<close>), \<^verbatim>\<open>PbEncode\<close> (the rest of \<^verbatim>\<open>pb_encode.c\<close>), \<^verbatim>\<open>PbMessage\<close> and \<^verbatim>\<open>PbDecode\<close> (the rest of
    \<^verbatim>\<open>pb_decode.c\<close>). Options are those of the build: \<^verbatim>\<open>PB_FIELD_32BIT\<close>, \<^verbatim>\<open>PB_NO_PACKED_STRUCTS\<close>, \<^verbatim>\<open>PB_ENABLE_MALLOC\<close>.
    An operation returns \<^verbatim>\<open>None\<close> where the C code would be undefined or not return; message descriptors
    and application callbacks are arguments (\<^verbatim>\<open>pb_env\<close>). \<^verbatim>\<open>PbSafe\<close> and \<^verbatim>\<open>PbStatic\<close> hold the proof that decoding
    stays inside the structure.
  \<^item> \<^verbatim>\<open>ConstTime\<close> (branch-free primitives of \<^verbatim>\<open>internal.h\<close>) and \<^verbatim>\<open>Base64\<close> (\<^verbatim>\<open>base64.c\<close>).
  \<^item> \<^verbatim>\<open>Cbs\<close> (\<^verbatim>\<open>cbs.c\<close>): a reader maps the bytes of a \<^verbatim>\<open>CBS\<close> to a result and the bytes left. \<^verbatim>\<open>Der\<close>: DER as a
    specification, and the readers as interpretations of the locale \<^verbatim>\<open>codec\<close>.
  \<^item> \<^verbatim>\<open>Cbb\<close> (\<^verbatim>\<open>cbb.c\<close>), \<^verbatim>\<open>CbbContract\<close>, \<^verbatim>\<open>CbbProofs\<close>, \<^verbatim>\<open>CbbBuild\<close>: the builder, the contract of its operations, and its
    clients; \<^verbatim>\<open>wire_format\<close> joins a reader and the operation that writes what it reads.
  \<^item> \<^verbatim>\<open>Unicode\<close> (\<^verbatim>\<open>unicode.c\<close>): the character encodings, readers and writers. \<^verbatim>\<open>SetOf\<close>: \<^verbatim>\<open>CBB_flush_asn1_set_of\<close>, which
    sorts the elements of a \<^verbatim>\<open>SET OF\<close>.
  \<^item> \<^verbatim>\<open>Ber\<close> (\<^verbatim>\<open>ber.c\<close>), \<^verbatim>\<open>BerProofs\<close> (BER as trees, and the walk that looks for BER), \<^verbatim>\<open>BerConvert\<close> and \<^verbatim>\<open>BerResults\<close>
    (the conversion to DER reads exactly the encodings of trees and writes their DER): the reader and the builder
    together.
  \<^item> \<^verbatim>\<open>Asn1Oid\<close>: object identifiers in dotted decimal notation. \<^verbatim>\<open>PosixTime\<close> (\<^verbatim>\<open>posix_time.c\<close>) and \<^verbatim>\<open>Calendar\<close> (its proofs
    against a day count of the Gregorian calendar), \<^verbatim>\<open>Asn1Time\<close> (the time parsers of \<^verbatim>\<open>cbs.c\<close>).
  \<^item> \<^verbatim>\<open>HeapSort\<close>: the theory of heaps in an array, for any comparison that is a total preorder (\<^verbatim>\<open>comparator\<close>). \<^verbatim>\<open>Stack\<close>
    (\<^verbatim>\<open>stack.c\<close>), \<^verbatim>\<open>StackProofs\<close> (its operations refine lists), \<^verbatim>\<open>StackSort\<close> (its heap sort and binary search),
    \<^verbatim>\<open>StackOps\<close> (sequences of operations, copies and their ownership).
  \<^item> \<^verbatim>\<open>Lhash\<close> (\<^verbatim>\<open>lhash.c\<close>), \<^verbatim>\<open>LhashProofs\<close> (the table is a set of elements, whatever it is resized to) and
    \<^verbatim>\<open>LhashVisit\<close> (traversal while the callback deletes).

  The interfaces are locales: \<^verbatim>\<open>pb_sink\<close> and \<^verbatim>\<open>pb_source\<close> (what nanopb asks of a stream callback),
  \<^verbatim>\<open>pb_callbacks\<close> and \<^verbatim>\<open>pb_encoding\<close> (what the encoder asks of field callbacks), \<^verbatim>\<open>codec\<close>, \<^verbatim>\<open>wire_format\<close> and
  \<^verbatim>\<open>comparator\<close>. Each is interpreted on the definitions that model the code.

  Fuel: the nanopb decoder and encoder take the nesting depth of messages as a number. A descriptor
  table without cycles needs its depth, and the theorems hold for every amount that is enough for the
  message at hand (\<^verbatim>\<open>message_bytes\<close>, \<^verbatim>\<open>static_msg\<close>). Loops that consume input take its length as fuel, or
  recurse on the bytes. \<^verbatim>\<open>CBB_flush\<close>, the conversion of BER, the heap sort and the traversal of a hash table are partial functions: that
  they return is part of their theorems. As in nanopb, the result \<^verbatim>\<open>None\<close> of a builder, stack or hash table operation is
  an access outside an object, a failed assertion or a computation that does not return, and every property states
  that it does not happen; comparison, hash, copy and callback functions and the answers of the allocator are arguments.

  Not modelled: error strings and queues beyond the first message, the allocator beyond its results,
  and the rest of the repository (the Dart application, generated code, and the other native
  libraries).
\<close>

unbundle bit_operations_syntax

section \<open>An example\<close>

definition point_desc :: "pb_field list" where
  "point_desc =
     [\<lparr>tag = 1, ftype = 0x02, data_offset = 0, size_offset = 0, data_size = 4, array_size = 0, ptr = 0\<rparr>,
      \<lparr>tag = 2, ftype = 0x22, data_offset = 4, size_offset = - 4, data_size = 4, array_size = 2, ptr = 0\<rparr>]"

definition line_desc :: "pb_field list" where
  "line_desc =
     [\<lparr>tag = 1, ftype = 0x11, data_offset = 4, size_offset = - 4, data_size = 4, array_size = 0, ptr = 0\<rparr>,
      \<lparr>tag = 2, ftype = 0x08, data_offset = 0, size_offset = 0, data_size = 16, array_size = 0, ptr = 0x100\<rparr>]"

definition example_env :: "unit pb_env" where
  "example_env = \<lparr>descs = (\<lambda>a. if a = 0x100 then point_desc else if a = 0x200 then line_desc else []),
     user_write = (\<lambda>_ _ s st. (False, s, st)), user_read = (\<lambda>_ _ s st. (False, s, [], st)),
     field_encode = (\<lambda>_ _ _ s st. (False, s, st)), field_decode = (\<lambda>_ _ _ s st. (False, s, st)),
     ext_encode = (\<lambda>_ _ s st. (False, s, st)), ext_decode = (\<lambda>_ _ _ _ s st. (False, s, st))\<rparr>"

definition example_memory :: memory where
  "example_memory = (\<lambda>_. 0)(0x1000 := 1, 0x1004 := 5, 0x1008 := 150, 0x100C := 2, 0x1010 := 3, 0x1014 := 0xAC, 0x1015 := 2)"

definition example_state :: "byte list \<Rightarrow> unit cstate" where
  "example_state bs = \<lparr>mem = example_memory, io = store_bytes (\<lambda>_. 0) 0x2000 bs, blocks = (\<lambda>_. None), allocs = [],
     sp = 0x8000, usr = ()\<rparr>"

definition example_tm :: tm where
  "example_tm = \<lparr>tm_sec = 0, tm_min = 0, tm_hour = 0, tm_mday = 0, tm_mon = 0, tm_year = 0, tm_wday = 0, tm_yday = 0, tm_isdst = 0\<rparr>"

definition example_stack :: stack_st where
  "example_stack = \<lparr>st_num = 3, st_data = [7, 9, 7, 5], st_sorted = False, st_num_alloc = 4, st_comp = 0\<rparr>"

definition word_order :: cmp_func where
  "word_order c x y = (if c = 0 then 0 else uint x - uint y)"

text \<open>Copies are a hundred above the original; the element 9 has no copy.\<close>

definition example_copy :: "addr \<Rightarrow> addr set \<Rightarrow> addr \<times> addr set" where
  "example_copy x u = (let y = x + 100 in if x = 9 \<or> y = 0 \<or> y \<in> u then (0, u) else (y, insert y u))"

text \<open>Elements of a hash table with the same low byte are equal; two of them share a chain.\<close>

definition low_hash :: hash_helper where
  "low_hash h x = ucast (x AND 0x0F)"

definition low_cmp :: cmp_helper where
  "low_cmp c x y = uint (x AND 0xFF) - uint (y AND 0xFF)"

definition example_table :: lhash where
  "example_table = \<lparr>num_items = 2, buckets = (replicate 16 [])[1 := [\<lparr>it_data = 0x101, it_hash = 1, it_addr = 0\<rparr>,
     \<lparr>it_data = 0x111, it_hash = 1, it_addr = 1\<rparr>]], num_buckets = 16, callback_depth = 0, lh_comp = 0, lh_hash = 0, next_item = 2\<rparr>"

definition collect_and_drop :: "addr \<Rightarrow> addr list \<Rightarrow> bool \<times> addr list" where
  "collect_and_drop x seen = (x = 0x101, seen @ [x])"
lemma low_laws: "hash_laws low_hash low_cmp"
proof -
  have zero: "low_cmp c x y = 0 \<longleftrightarrow> x AND 0xFF = y AND 0xFF" for c x y
    unfolding low_cmp_def by (metis eq_iff_diff_eq_0 word_uint_eq_iff)
  have "low_hash h x = ucast ((x AND 0xFF) AND 0x0F)" for h x
    by (simp add: low_hash_def and.assoc)
  then show ?thesis
    unfolding hash_laws_def zero by metis
qed

lemma wf_example_table: "wf_lhash low_hash low_cmp example_table"
  by code_simp

text \<open>
  An indefinite sequence of a constructed octet string in two fragments, the second with a length that is not minimal.
\<close>

definition example_ber :: "ber list" where
  "example_ber = [Ber_constructed 0x20000010 None
     [Ber_constructed 0x20000004 None [Ber_primitive 4 [1] [0xAA], Ber_primitive 4 [0x81, 2] [0xBB, 0xCC]]]]"

definition example_ber_bytes :: "byte list" where
  "example_ber_bytes = [0x30, 0x80, 0x24, 0x80, 4, 1, 0xAA, 4, 0x81, 2, 0xBB, 0xCC, 0, 0, 0, 0]"





text \<open>
  C3: The builder serialises any message. For a tree of bytes, length-prefixed parts and ASN.1 elements
  whose contents fit their length prefixes, writing it part by part and finishing the builder never
  fails an assertion, and yields exactly the encoding of the tree or reports a failure. When no
  allocation fails it yields the encoding, and so does a builder on a buffer of fixed size in which the
  message fits, whatever the buffer held before.
\<close>

theorem build_message:
  assumes "items_fit is"
  shows "(build n (write_items 0 is) alloc = Some None \<or> build n (write_items 0 is) alloc = Some (Some (items_bytes is))) \<and>
    ((\<forall>i. alloc i \<noteq> None) \<and> length (items_bytes is) < 2 ^ 64 \<longrightarrow>
      build n (write_items 0 is) alloc = Some (Some (items_bytes is))) \<and>
    (\<forall>bs. length (items_bytes is) \<le> length bs \<and> length bs < 2 ^ 64 \<longrightarrow>
      build_fixed bs (write_items 0 is) = Some (Some (items_bytes is)))"
  using build_items [OF assms] by blast

theorem build_message_witness:
  "build 1 (write_items 0 [Element 0x20000010 [Element 2 [Bytes [5]], Prefixed 2 [Bytes [1, 2, 3]]]]) (\<lambda>_. Some []) =
     Some (Some [0x30, 8, 2, 1, 5, 0, 3, 1, 2, 3]) \<and>
   build_fixed (replicate 12 9) (write_items 0 [Element 0x20000010 [Element 2 [Bytes [5]], Prefixed 2 [Bytes [1, 2, 3]]]]) =
     Some (Some [0x30, 8, 2, 1, 5, 0, 3, 1, 2, 3])"
proof -
  let ?is = "[Element 0x20000010 [Element 2 [Bytes [5]], Prefixed 2 [Bytes [1, 2, 3]]]]"
  have b: "items_bytes ?is = [0x30, 8, 2, 1, 5, 0, 3, 1, 2, 3]"
    by (simp add: Let_def der_def tag_code_def tag_number_def tag_class_def der_length_def be_bytes_def CBS_ASN1_TAG_NUMBER_MASK_def) code_simp
  have "items_fit ?is"
    by (simp add: Let_def der_def tag_code_def tag_number_def tag_class_def der_length_def be_bytes_def CBS_ASN1_TAG_NUMBER_MASK_def)
  from build_message [OF this(1), of 1 "\<lambda>_. Some []"] show ?thesis
    unfolding b by simp
qed

text \<open>
  C4: The reader of ASN.1 elements accepts DER and nothing else: \<^verbatim>\<open>CBS_get_any_asn1\<close> returns a tag and a
  body exactly when the input starts with the one DER encoding of them (identifier and length octets
  of minimal size, a body shorter than 4 GiB), and leaves the rest.
\<close>

theorem der_exact:
  "CBS_get_any_asn1 cbs = (Some (body, t), rest) \<longleftrightarrow> tag_valid t \<and> length body < 2 ^ 32 \<and> cbs = der (t, body) @ rest"
  by (simp add: any_asn1.dec_iff der_valid_def)

text \<open>
  C5: \<^verbatim>\<open>pb_get_encoded_size\<close> is exact: it yields the length of the encoding and changes nothing.
\<close>

theorem encoded_size:
  assumes "message_bytes n env (mem st) desc src = Some bs" and "length bs < 2 ^ 64"
  shows "pb_get_encoded_size n env desc src st = Some (Some (of_nat (length bs)), st)"
  using assms by (rule message_size)

theorem encoded_size_witness:
  "pb_get_encoded_size 3 example_env 0x200 0x1000 (example_state []) = Some (Some 12, example_state [])"
proof -
  have "message_bytes 3 example_env (mem (example_state [])) 0x200 0x1000 = Some [8, 5, 18, 8, 8, 150, 1, 18, 3, 3, 172, 5]"
    by code_simp
  from encoded_size [OF this] show ?thesis by simp
qed

text \<open>
  C6: \<^verbatim>\<open>pb_encode_delimited\<close> writes the length of the message as a varint followed by the message, where
  the length comes from a first encoding pass on a sizing stream.
\<close>

theorem encode_delimited_message:
  assumes "message_bytes n env (mem st) desc src = Some bs" and "length (delimited bs) \<le> unat buf_size"
  shows "pb_encode_delimited n env desc src (pb_ostream_from_buffer a buf_size) st =
      Some (True, (pb_ostream_from_buffer a buf_size)\<lparr>o_state := a + of_nat (length (delimited bs)),
          bytes_written := of_nat (length (delimited bs))\<rparr>,
        upd_io (\<lambda>m. store_bytes m a (delimited bs)) st)"
  using emits_o_buffer(1) [OF message_emits_delimited [OF assms(1)] _ assms(2)] assms(2) unat_u64_less [of buf_size]
  by simp

theorem encode_delimited_message_witness:
  "pb_encode_delimited 3 example_env 0x200 0x1000 (pb_ostream_from_buffer 0x3000 16) (example_state []) =
     Some (True, (pb_ostream_from_buffer 0x3000 16)\<lparr>o_state := 0x300D, bytes_written := 13\<rparr>,
       upd_io (\<lambda>m. store_bytes m 0x3000 [12, 8, 5, 18, 8, 8, 150, 1, 18, 3, 3, 172, 5]) (example_state []))"
proof -
  have m: "message_bytes 3 example_env (mem (example_state [])) 0x200 0x1000 = Some [8, 5, 18, 8, 8, 150, 1, 18, 3, 3, 172, 5]"
    by code_simp
  have d: "delimited [8, 5, 18, 8, 8, 150, 1, 18, 3, 3, 172, 5] = [12, 8, 5, 18, 8, 8, 150, 1, 18, 3, 3, 172, 5]"
    by code_simp
  show ?thesis
    using encode_delimited_message [OF m, where buf_size = 16 and a = "0x3000", unfolded d] by simp
qed

text \<open>
  C7: What \<^verbatim>\<open>pb_encode_varint\<close> writes into a buffer of at least ten bytes, \<^verbatim>\<open>pb_decode_varint\<close> reads back
  as the same 64-bit value, consuming exactly what was written.
\<close>

theorem varint_roundtrip:
  assumes "10 \<le> unat buf_size" and "pb_encode_varint env v (pb_ostream_from_buffer a buf_size) st = (ok, s, st')"
  shows "ok \<and> unat (bytes_written s) \<le> 10 \<and>
    pb_decode_varint env (pb_istream_from_buffer a (bytes_written s)) st' =
      (True, (pb_istream_from_buffer a (bytes_written s))\<lparr>i_state := o_state s, bytes_left := 0\<rparr>, v, st')"
proof -
  have len: "length (varint v) \<le> unat buf_size" "length (varint v) \<le> 10"
    using length_varint_le_10 [of v] assms(1) by linarith+
  then have small: "length (varint v) < 2 ^ 64"
    by simp
  have "emits_o WR_buf_write buf_next buf_put in_buffer (mem st) (wro (pb_encode_varint env v)) (varint v)"
    by (intro buffer.emits_wro buffer.emits_varint)
  from emits_o_buffer(1) [OF this small len(1), of a] assms(2)
  have r: "ok" "s = (pb_ostream_from_buffer a buf_size)\<lparr>o_state := a + of_nat (length (varint v)),
      bytes_written := of_nat (length (varint v))\<rparr>" "st' = upd_io (\<lambda>m. store_bytes m a (varint v)) st"
    by (simp_all add: wro_def)
  let ?i = "pb_istream_from_buffer a (of_nat (length (varint v)))"
  have "i_callback ?i = RD_buf_read" "buf_content ?i st' = varint v @ []"
    using small by (simp_all add: pb_istream_from_buffer_def buf_content_def r(3) unat_of_nat_u64)
  from buffer_source.decode_varint(1) [OF this rd_adv_behind]
  show ?thesis
    using r len by (simp add: behind_def pb_istream_from_buffer_def pb_ostream_from_buffer_def unat_of_nat)
qed

theorem varint_roundtrip_witness:
  "\<exists>s st'. pb_encode_varint example_env 300 (pb_ostream_from_buffer 0x3000 10) (example_state []) = (True, s, st') \<and>
    fst (snd (snd (pb_decode_varint example_env (pb_istream_from_buffer 0x3000 (bytes_written s)) st'))) = 300"
proof -
  obtain ok s st' where e: "pb_encode_varint example_env 300 (pb_ostream_from_buffer 0x3000 10) (example_state []) = (ok, s, st')"
    by (metis prod_cases3)
  show ?thesis
    using varint_roundtrip [OF _ e] e by auto
qed



text \<open>
  C9: \<^verbatim>\<open>pb_skip_field\<close> consumes exactly one value of its wire type, for each of the four wire types.
\<close>

theorem skip_field_exact:
  assumes "i_callback s = RD_buf_read" and "buf_content s st = bs @ rest" and "wire_value wt bs"
  shows "pb_skip_field env wt s st = Some (True, behind (length bs) s, st)"
  using assms rd_adv_behind by (rule buffer_source.skip_field)

theorem skip_field_exact_witness:
  "pb_skip_field example_env PB_WT_STRING (pb_istream_from_buffer 0x2000 5) (example_state [3, 1, 2, 3, 9]) =
     Some (True, behind 4 (pb_istream_from_buffer 0x2000 5), example_state [3, 1, 2, 3, 9])"
proof -
  let ?s = "pb_istream_from_buffer 0x2000 5" and ?st = "example_state [3, 1, 2, 3, 9]"
  have s: "i_callback ?s = RD_buf_read" and v: "varint 3 = [3]" "varint32_accepts 3"
    by (simp_all add: pb_istream_from_buffer_def varint32_accepts_def varint_small)
  have c: "buf_content ?s ?st = [3, 1, 2, 3] @ [9]"
    by code_simp
  have "wire_value PB_WT_STRING [3, 1, 2, 3]"
    using v by (auto simp: wire_value_def wt_defs intro!: exI [of _ 3])
  from skip_field_exact [OF s c this] show ?thesis
    by (simp add: behind_def)
qed

text \<open>
  C10: \<^verbatim>\<open>pb_field_iter_find\<close> finds the first field with the tag in cyclic order from the current
  one, with the pointers of that field, and otherwise comes back to where it started.
\<close>

theorem field_search:
  assumes "wf_desc (descs env desc)" and "dest \<noteq> 0" and "i < length (descs env desc)"
  shows "pb_field_iter_find env t (iter_at env desc dest i) =
    (case find (\<lambda>j. matches t (descs env desc ! j)) ([i..<length (descs env desc)] @ [0..<i]) of
       Some j \<Rightarrow> (True, iter_at env desc dest j) | None \<Rightarrow> (False, iter_at env desc dest i))"
  using assms by (rule iter_find)

theorem field_search_witness:
  "pb_field_iter_find example_env 1 (iter_at example_env 0x100 0x1008 1) = (True, iter_at example_env 0x100 0x1008 0)"
proof -
  have "wf_desc (descs example_env 0x100)" "1 < length (descs example_env 0x100)"
    by code_simp+
  from field_search [OF this(1) _ this(2), of "0x1008" 1] show ?thesis
    by (simp add: example_env_def point_desc_def matches_def ltype_defs PB_LTYPE_def upt_rec)
qed

text \<open>
  C11: The check for missing required fields, which counts the required fields by walking to the end of
  the descriptor and compares whole words of the bit set, accepts exactly the sets that contain every
  required field, up to the 64 it tracks.
\<close>

theorem required_fields_check:
  assumes "wf_desc (descs env desc)" and "dest \<noteq> 0" and "i < length (descs env desc)" and "length (descs env desc) < 2 ^ 32"
    and "\<And>j. min 64 (length (filter is_required (descs env desc))) \<le> j \<Longrightarrow> j < 64 \<Longrightarrow> \<not> seen_bit w0 w1 j"
  shows "required_seen (required_count env (iter_at env desc dest i)) w0 w1 \<longleftrightarrow>
    (\<forall>j < min 64 (length (filter is_required (descs env desc))). seen_bit w0 w1 j)"
  using required_seen_iff [of "required_count env (iter_at env desc dest i)" w0 w1] required_count_at [OF assms(1-4)] assms(5)
  by simp

theorem required_fields_check_witness:
  "required_seen (required_count example_env (iter_at example_env 0x200 0x1000 0)) 1 0"
proof -
  have d: "wf_desc (descs example_env 0x200)" "0 < length (descs example_env 0x200)" "length (descs example_env 0x200) < 2 ^ 32"
    and r: "min 64 (length (filter is_required (descs example_env 0x200))) = 1"
    by (simp_all add: example_env_def line_desc_def wf_desc_def is_required_def PB_HTYPE_def htype_defs)
  show ?thesis
    using required_fields_check [OF d(1) _ d(2,3), of "0x1000" 1 0] unfolding r by (simp add: seen_bit_def bit_1_iff)
qed

text \<open>
  C12: \<^verbatim>\<open>allocate_field\<close> refuses every request whose size in bytes does not fit \<^verbatim>\<open>size_t\<close>, before it
  calls \<^verbatim>\<open>realloc\<close>.
\<close>

theorem allocation_overflow:
  assumes "size' \<noteq> 0" and "n_items \<noteq> 0" and "2 ^ 64 \<le> unat size' * unat n_items"
  shows "allocate_field data size' n_items s st = Some (False, set_ierr ''size too large'' s, st)"
  using allocate_check [OF assms(1,2)] assms by (simp add: allocate_field_def Let_def)

theorem allocation_overflow_witness:
  "allocate_field 0x1000 0x1000000000 0x10000000 (pb_istream_from_buffer 0x2000 5) (example_state []) =
     Some (False, set_ierr ''size too large'' (pb_istream_from_buffer 0x2000 5), example_state [])"
  by (rule allocation_overflow) simp_all

text \<open>
  The ASN.1 integer readers accept exactly the minimal encodings of the integers that fit. For
  the signed reader: two's complement with no redundant leading octet.
\<close>

lemma asn1_int64_exact:
  "CBS_get_asn1_int64 cbs = (Some v, rest) \<longleftrightarrow>
     (\<exists>bs. minimal_integer bs \<and> be_signed bs = sint v \<and> cbs = der (CBS_ASN1_INTEGER, bs) @ rest)"
  by (metis asn1_int64.dec_iff der_int64_def integer_bytes_unique integer_bytes_value)

text \<open>
  The unsigned reader accepts exactly the minimal encodings of the numbers below 2^64.
\<close>

lemma asn1_uint64_exact:
  "CBS_get_asn1_uint64 cbs = (Some v, rest) \<longleftrightarrow>
     (\<exists>bs. minimal_integer bs \<and> be_signed bs = uint v \<and> cbs = der (CBS_ASN1_INTEGER, bs) @ rest)"
proof -
  have "CBS_get_asn1_uint64 cbs = (Some v, rest) \<longleftrightarrow> cbs = der (CBS_ASN1_INTEGER, integer_bytes (uint v)) @ rest"
    by (simp add: asn1_uint64.dec_iff der_uint64_def)
  then show ?thesis
    by (metis integer_bytes_unique integer_bytes_value)
qed

text \<open>
  C13: The readers of ASN.1 integers accept exactly the minimal encodings (two's complement with no redundant
  leading octet) of the integers of their type: the signed reader those of 64-bit integers, the unsigned
  reader those of the numbers from 0 to 2^64 - 1.
\<close>

theorem asn1_integers_exact:
  "(CBS_get_asn1_int64 cbs = (Some v, rest) \<longleftrightarrow>
     (\<exists>bs. minimal_integer bs \<and> be_signed bs = sint v \<and> cbs = der (CBS_ASN1_INTEGER, bs) @ rest)) \<and>
   (CBS_get_asn1_uint64 cbs = (Some w, rest) \<longleftrightarrow>
     (\<exists>bs. minimal_integer bs \<and> be_signed bs = uint w \<and> cbs = der (CBS_ASN1_INTEGER, bs) @ rest))"
  by (intro conjI asn1_int64_exact asn1_uint64_exact)

text \<open>
  What a sequence of \<^verbatim>\<open>CBB_add_asn1_uint64\<close> writes, the same number of calls of \<^verbatim>\<open>CBS_get_asn1_uint64\<close>
  read back, and nothing is left.
\<close>

lemma asn1_uint64_roundtrip:
  assumes "build n (add_all CBB_add_asn1_uint64 0 vs) alloc = Some (Some bs)"
  shows "get_all CBS_get_asn1_uint64 (length vs) bs = (Some vs, [])"
  using w_uint64.build_get_all [OF _ assms, of "[]"] by (simp add: list_all_iff)

lemma asn1_uint64_roundtrip_example:
  "get_all CBS_get_asn1_uint64 2 [2, 1, 5, 2, 2, 0, 0x80] = (Some [5, 0x80], [])"
proof -
  have "concat (map der_uint64 [5, 0x80]) = [2, 1, 5, 2, 2, 0, 0x80]"
    by code_simp
  then have "build 8 (add_all CBB_add_asn1_uint64 0 [5, 0x80]) (\<lambda>_. Some []) = Some (Some [2, 1, 5, 2, 2, 0, 0x80])"
    using w_uint64.build_succeeds [of "[5, 0x80]" "\<lambda>_. Some []" 8] by simp
  from asn1_uint64_roundtrip [OF this] show ?thesis
    by (simp add: numeral_eq_Suc)
qed

text \<open>
  What a sequence of \<^verbatim>\<open>CBB_add_asn1_int64\<close> writes, the same number of calls of
  \<^verbatim>\<open>CBS_get_asn1_int64\<close> read back, and nothing is left.
\<close>

lemma asn1_int64_roundtrip:
  assumes "build n (add_all CBB_add_asn1_int64 0 vs) alloc = Some (Some bs)"
  shows "get_all CBS_get_asn1_int64 (length vs) bs = (Some vs, [])"
  using w_int64.build_get_all [OF _ assms, of "[]"] by (simp add: list_all_iff)

lemma asn1_int64_roundtrip_witness:
  "get_all CBS_get_asn1_int64 2 [2, 1, 0x80, 2, 2, 0xff, 0x7f] = (Some [- 0x80, - 0x81], [])"
proof -
  have "concat (map der_int64 [- 0x80, - 0x81]) = [2, 1, 0x80, 2, 2, 0xff, 0x7f]"
    by code_simp
  then have "build 8 (add_all CBB_add_asn1_int64 0 [- 0x80, - 0x81]) (\<lambda>_. Some []) = Some (Some [2, 1, 0x80, 2, 2, 0xff, 0x7f])"
    using w_int64.build_succeeds [of "[- 0x80, - 0x81]" "\<lambda>_. Some []" 8] by simp
  from asn1_int64_roundtrip [OF this] show ?thesis
    by (simp add: numeral_eq_Suc)
qed


text \<open>
  C15: Errors are sticky. Once an operation has set the error flag, no sequence of operations on any
  \<^verbatim>\<open>CBB\<close> of the tree clears it, and \<^verbatim>\<open>CBB_finish\<close> returns no message: a client may check the result of
  the last call only.
\<close>

theorem errors_are_sticky:
  assumes "cbb_error (base st)" and "builder_step\<^sup>*\<^sup>* st st'"
  shows "CBB_finish h st' = Some (None, st')"
  using error_finish [OF error_steps [OF assms(2,1)]] .

theorem errors_are_sticky_witness:
  "CBB_finish 0 (set_error (no_builder (\<lambda>_. None))) = Some (None, set_error (no_builder (\<lambda>_. None)))"
  by (rule errors_are_sticky [of "set_error (no_builder (\<lambda>_. None))"]) (simp_all add: set_error_def)

text \<open>
  C16: \<^verbatim>\<open>EVP_EncodeBlock\<close> writes exactly the base64 text of its input (RFC 4648, with padding) and a NUL, and
  \<^verbatim>\<open>EVP_EncodedLength\<close> is the exact size of that.
\<close>

theorem base64_encode_exact:
  assumes "4 * ((length src + 2) div 3) + 1 < 2 ^ 64"
  shows "EVP_EncodeBlock m out src = (of_nat (length (b64 src)), store_bytes m out (b64 src @ [0])) \<and>
    EVP_EncodedLength (of_nat (length src)) = Some (of_nat (length (b64 src @ [0])))"
proof -
  have "length src < 2 ^ 64"
    using assms by simp
  then show ?thesis
    using assms EVP_EncodeBlock_eq EVP_EncodedLength_eq [of "of_nat (length src)"] length_b64 [of src] by (simp add: unat_of_nat)
qed

theorem base64_encode_exact_witness:
  "EVP_EncodeBlock (\<lambda>_. 0) 0x1000 [0x4D, 0x61] = (4, store_bytes (\<lambda>_. 0) 0x1000 [0x54, 0x57, 0x45, 0x3D, 0]) \<and> EVP_EncodedLength 2 = Some 5"
proof -
  have "b64 [0x4D, 0x61] = [0x54, 0x57, 0x45, 0x3D]"
    by code_simp
  then show ?thesis
    using base64_encode_exact [of "[0x4D, 0x61]" "\<lambda>_. 0" "0x1000"] by simp
qed

text \<open>
  C17: \<^verbatim>\<open>EVP_DecodeBase64\<close> inverts the encoding, given enough room for its worst-case estimate.
\<close>

theorem base64_roundtrip:
  assumes "length (b64 bs) < 2 ^ 64" and "length (b64 bs) div 4 * 3 \<le> unat max_out"
  shows "EVP_DecodeBase64 m out max_out (b64 bs) = (Some (of_nat (length bs)), store_bytes m out bs)"
  using EVP_DecodeBase64_value(1) [OF _ assms, of m out] EVP_DecodeBase64_value(2) [OF _ assms, of bs m out]
    length_b64 [of bs] b64_value_b64 [of bs]
  by (simp add: prod_eq_iff)

theorem base64_roundtrip_witness:
  "EVP_DecodeBase64 (\<lambda>_. 0) 0x1000 3 [0x54, 0x57, 0x45, 0x3D] = (Some 2, store_bytes (\<lambda>_. 0) 0x1000 [0x4D, 0x61])"
proof -
  have b: "b64 [0x4D, 0x61] = [0x54, 0x57, 0x45, 0x3D]"
    by code_simp
  show ?thesis
    using base64_roundtrip [of "[0x4D, 0x61]" 3 "\<lambda>_. 0" "0x1000"] unfolding b by simp
qed



text \<open>
  C19: The streaming encoder does not depend on how its input is cut: any sequence of \<^verbatim>\<open>EVP_EncodeUpdate\<close>
  and \<^verbatim>\<open>EVP_EncodeFinal\<close> write the text of the concatenation, in lines of 64 characters.
\<close>

theorem base64_encode_stream:
  assumes "length (concat srcs) < 2 ^ 30"
  shows "encode_stream m out srcs =
    Some (out + of_nat (length (pem_text (concat srcs))), put_text m out (pem_text (concat srcs)))"
  using encode_stream_eq [OF assms] .

theorem base64_encode_stream_witness:
  "encode_stream (\<lambda>_. 0) 0x1000 [[0x4D], [], [0x61]] = Some (0x1005, store_bytes (\<lambda>_. 0) 0x1000 [0x54, 0x57, 0x45, 0x3D, 0x0A, 0])"
proof -
  have "pem_text [0x4D, 0x61] = [0x54, 0x57, 0x45, 0x3D, 0x0A]"
    by (simp add: pem_text_def pem_rest_def pem_lines.simps) code_simp
  then show ?thesis
    using base64_encode_stream [of "[[0x4D], [], [0x61]]" "\<lambda>_. 0" "0x1000"] by (simp add: put_text_def)
qed

text \<open>
  The streaming decoder inverts the streaming encoder, however the text is cut.
\<close>

lemma base64_stream_roundtrip:
  assumes "concat pieces = pem_text bs" and "length (concat pieces) < 2 ^ 29"
  shows "decode_stream m out pieces = Some (out + of_nat (length bs), store_bytes m out bs)"
  using decode_stream_value [OF _ assms(2)] pem_text_chars [of bs] b64_value_b64 [of bs] unfolding assms(1) by simp

lemma base64_stream_roundtrip_example:
  "decode_stream (\<lambda>_. 0) 0x1000 [[0x54], [0x57, 0x45], [0x3D, 0x0A]] = Some (0x1002, store_bytes (\<lambda>_. 0) 0x1000 [0x4D, 0x61])"
proof -
  have "concat [[0x54], [0x57, 0x45], [0x3D, 0x0A]] = pem_text [0x4D, 0x61]"
    by (simp add: pem_text_def pem_rest_def pem_lines.simps) code_simp
  from base64_stream_roundtrip [OF this, of "\<lambda>_. 0" "0x1000"] show ?thesis
    by simp
qed

text \<open>
  C20: The result of the streaming decoder depends only on the concatenation of its input, on malformed
  input too.
\<close>

theorem base64_decode_chunks:
  assumes "concat srcs = concat srcs'" and "length (concat srcs) < 2 ^ 29"
  shows "decode_stream m out srcs = decode_stream m out srcs'"
proof -
  have "\<not> error_encountered EVP_DecodeInit"
    by (simp add: EVP_DecodeInit_def)
  then show ?thesis
    using decode_updates_eq [of EVP_DecodeInit srcs m out] decode_updates_eq [of EVP_DecodeInit srcs' m out] assms
    by (simp add: decode_stream_def)
qed

theorem base64_decode_chunks_witness:
  "decode_stream (\<lambda>_. 0) 0x1000 [[0x54, 0x57], [0x3D]] = decode_stream (\<lambda>_. 0) 0x1000 [[0x54], [0x57, 0x3D]]"
  by (rule base64_decode_chunks) simp_all

text \<open>
  C21: The branch-free conversions of a character are the table look-up: they are inverse to each other on
  the alphabet, and every other character but the padding is rejected.
\<close>

theorem base64_alphabet:
  "conv_bin2ascii a = alphabet ! unat (a AND 63) \<and> base64_ascii_to_bin (conv_bin2ascii a) = a AND 63 \<and>
   (base64_ascii_to_bin c \<noteq> 0xff \<longleftrightarrow> c = 0x3D \<or> (\<exists>s. c = conv_bin2ascii s))"
proof (intro conjI)
  show "conv_bin2ascii a = alphabet ! unat (a AND 63)" for a
    by (simp add: conv_bin2ascii b64_char_def)
  show inv: "base64_ascii_to_bin (conv_bin2ascii a) = a AND 63" for a
    by (simp add: conv_bin2ascii ascii_to_bin)
  show "base64_ascii_to_bin c \<noteq> 0xff \<longleftrightarrow> c = 0x3D \<or> (\<exists>s. c = conv_bin2ascii s)"
  proof
    assume "base64_ascii_to_bin c \<noteq> 0xff"
    then show "c = 0x3D \<or> (\<exists>s. c = conv_bin2ascii s)"
      using char_of_bin [of c] by metis
  next
    assume "c = 0x3D \<or> (\<exists>s. c = conv_bin2ascii s)"
    then show "base64_ascii_to_bin c \<noteq> 0xff"
      using ascii_to_bin_pad inv sextet_not_ff by auto
  qed
qed

text \<open>
  The 32-bit varint decoder has no bound on the number of continuation bytes: its bit position
  is an 8-bit counter that wraps after 37 bytes, so that an encoding of 38 bytes is accepted and yields
  8.
\<close>

lemma varint32_unbounded:
  "case pb_decode_varint32 example_env (pb_istream_from_buffer 0x2000 38) (example_state (replicate 37 0x80 @ [1])) of
     None \<Rightarrow> False
   | Some (ok, s', v, st') \<Rightarrow> ok \<and> v = 8"
  by code_simp


text \<open>
  C23: A child \<^verbatim>\<open>CBB\<close> whose parent was used again rejects bytes, but the ASN.1 operations do not: their
  error path writes through the null base pointer (\<^verbatim>\<open>None\<close> in the model).
\<close>

theorem stale_child_null_dereference:
  assumes "\<not> cbb_get_base h st"
  shows "CBB_add_u8 h b st = Some (False, st) \<and> CBB_add_bytes h bs st = Some (False, st) \<and>
    CBB_add_asn1_bool h v st = None \<and> CBB_add_asn1_octet_string h bs st = None \<and>
    CBB_add_asn1_uint64 h n st = None \<and> CBB_add_asn1_int64 h n st = None"
  using stale_child [OF assms] by simp

theorem stale_child_null_dereference_witness:
  "CBB_add_u8 1 5 stale_builder = Some (False, stale_builder) \<and> CBB_add_asn1_bool 1 True stale_builder = None"
proof -
  have "\<not> cbb_get_base 1 stale_builder"
    by code_simp
  from stale_child_null_dereference [OF this, of 5 "[]" True 0] show ?thesis
    by simp
qed

text \<open>
  C24: The conversions between calendar times and POSIX time are the proleptic Gregorian calendar: the
  forward one counts the days of the years and months before (\<^verbatim>\<open>day_number\<close>), and the inverse one
  yields the only valid calendar time with that count; both are defined exactly for the years 0 to 9999.
\<close>

theorem calendar_exact:
  "OPENSSL_tm_to_posix t = (if tm_valid t then Some (tm_seconds t) else None) \<and>
   (OPENSSL_posix_to_tm s = Some t \<longleftrightarrow> tm_valid t \<and> tm_clean t = t \<and> tm_seconds t = s) \<and>
   (OPENSSL_posix_to_tm s = None \<longleftrightarrow> \<not> is_valid_posix_time s)"
proof (intro conjI)
  show "OPENSSL_posix_to_tm s = Some t \<longleftrightarrow> tm_valid t \<and> tm_clean t = t \<and> tm_seconds t = s"
    using posix_to_tm_Some [of s t] posix_to_tm_seconds [of t] by auto
qed (rule tm_to_posix_eq, rule posix_to_tm_None)

text \<open>
  C25: \<^verbatim>\<open>OPENSSL_gmtime_adj\<close> is exact for every offset of its parameter types: the sum of the 64-bit values
  never overflows, and the result is the calendar time that is shifted by the offsets, or a failure when
  there is none.
\<close>

theorem gmtime_adj_exact:
  assumes "INT_MIN32 \<le> offset_day" and "offset_day \<le> INT_MAX32" and "INT64_MIN \<le> offset_sec" and "offset_sec \<le> INT64_MAX"
  shows "OPENSSL_gmtime_adj t offset_day offset_sec =
    Some (if tm_valid t then OPENSSL_posix_to_tm (tm_seconds t + offset_day * 86400 + offset_sec) else None)"
  using gmtime_adj_eq [OF assms] .

theorem gmtime_adj_exact_witness:
  "OPENSSL_gmtime_adj \<lparr>tm_sec = 59, tm_min = 59, tm_hour = 23, tm_mday = 28, tm_mon = 1, tm_year = 100, tm_wday = 0, tm_yday = 0, tm_isdst = 0\<rparr> 0 1 =
     Some (Some \<lparr>tm_sec = 0, tm_min = 0, tm_hour = 0, tm_mday = 29, tm_mon = 1, tm_year = 100, tm_wday = 0, tm_yday = 0, tm_isdst = 0\<rparr>)"
proof -
  let ?t = "\<lparr>tm_sec = 59, tm_min = 59, tm_hour = 23, tm_mday = 28, tm_mon = 1, tm_year = 100, tm_wday = 0, tm_yday = 0, tm_isdst = 0\<rparr>"
  have v: "tm_valid ?t"
    by code_simp
  have "OPENSSL_tm_to_posix ?t = Some 951782399"
    by code_simp
  then have sec: "tm_seconds ?t = 951782399"
    using v tm_to_posix_eq [of ?t] by (simp del: One_nat_def)
  have "OPENSSL_posix_to_tm 951782400 =
     Some \<lparr>tm_sec = 0, tm_min = 0, tm_hour = 0, tm_mday = 29, tm_mon = 1, tm_year = 100, tm_wday = 0, tm_yday = 0, tm_isdst = 0\<rparr>"
    by code_simp
  then show ?thesis
    using gmtime_adj_exact [of 0 1 ?t] v sec by (simp add: INT_MIN32_def INT_MAX32_def INT64_MIN_def INT64_MAX_def)
qed

text \<open>
  \<^verbatim>\<open>OPENSSL_gmtime_diff\<close> splits the difference into days and a rest of less than a day with the same
  sign, and these are the only such numbers.
\<close>

lemma gmtime_diff_exact:
  "OPENSSL_gmtime_diff t u = Some (d, s) \<longleftrightarrow> tm_valid t \<and> tm_valid u \<and> tm_seconds u - tm_seconds t = d * 86400 + s \<and>
   \<bar>s\<bar> < 86400 \<and> (0 \<le> d \<and> 0 \<le> s \<or> d \<le> 0 \<and> s \<le> 0)"
  by (rule gmtime_diff_iff)

text \<open>
  C26: Without time zone offsets, the parsers of GeneralizedTime and UTCTime accept exactly the texts of valid
  dates and times of day (a UTCTime is in the years 1950 to 2049), and return their fields.
\<close>

theorem time_parsers_exact:
  assumes "length cbs < 2 ^ 64"
  shows "(CBS_parse_generalized_time cbs (Some t) False = Some (True, Some u) \<longleftrightarrow>
      (\<exists>y m d hour mins sec. is_valid_date y m d \<and> is_valid_time hour mins sec \<and>
        cbs = time_text True y m d hour mins sec None \<and> u = tm_of t y m d hour mins sec)) \<and>
    (CBS_parse_utc_time cbs (Some t) False = Some (True, Some u) \<longleftrightarrow>
      (\<exists>y m d hour mins sec. 1950 \<le> y \<and> y \<le> 2049 \<and> is_valid_date y m d \<and> is_valid_time hour mins sec \<and>
        cbs = time_text False y m d hour mins sec None \<and> u = tm_of t y m d hour mins sec))"
  using parse_time_iff [OF assms, of True t u] parse_time_iff [OF assms, of False t u]
  unfolding CBS_parse_generalized_time_def CBS_parse_utc_time_def utc_year using date_year by blast

theorem time_parsers_exact_witness:
  "CBS_parse_utc_time (time_text False 2026 2 28 23 59 1 None) (Some example_tm) False = Some (True, Some (tm_of example_tm 2026 2 28 23 59 1))"
proof -
  have v: "is_valid_date 2026 2 28" "is_valid_time 23 59 1"
    by code_simp+
  have len: "length (time_text False 2026 2 28 23 59 1 None) < 2 ^ 64"
    using length_time_text [of False 2026 2 28 23 59 1 None] by simp
  show ?thesis
    by (rule time_parsers_exact [OF len, THEN conjunct2, THEN iffD2], rule exI [of _ 2026], rule exI [of _ 2], rule exI [of _ 28],
      rule exI [of _ 23], rule exI [of _ 59], rule exI [of _ 1]) (simp add: v)
qed

text \<open>
  C27: With a time zone offset the result is the local time plus the offset for zones east of Greenwich, and
  minus the offset for zones to the west. X.680 defines the time in UTC the other way round, and
  \<^verbatim>\<open>bytestring.h\<close> promises UTC.
\<close>

theorem time_zone_sign:
  assumes "is_valid_date y m d" and "is_valid_time hour mins sec" and "0 \<le> zh" and "zh \<le> 23" and "0 \<le> zm" and "zm \<le> 59"
    and "CBS_parse_generalized_time (time_text True y m d hour mins sec (Some (east, zh, zm))) (Some t) True = Some (True, Some u)"
  shows "tm_seconds u = posix_seconds y m d hour mins sec + (if east then 1 else - 1) * (zh * 3600 + zm * 60)"
proof -
  have "zone_valid True (Some (east, zh, zm))"
    using assms(3-6) by simp
  from parse_time_text [OF date_year [OF assms(1)] assms(1,2) this, of t] assms(7) show ?thesis
    using posix_to_tm_Some(2) tm_of_valid(2)
    by (auto simp: CBS_parse_generalized_time_def simp del: zone_seconds.simps split: if_splits option.splits) auto
qed

theorem time_zone_sign_witness:
  "\<exists>u. CBS_parse_generalized_time (time_text True 2026 1 1 12 0 0 (Some (True, 1, 30))) (Some example_tm) True = Some (True, Some u) \<and>
     tm_hour u = 13 \<and> tm_min u = 30 \<and> tm_seconds u = posix_seconds 2026 1 1 12 0 0 + 5400"
proof -
  let ?u = "\<lparr>tm_sec = 0, tm_min = 30, tm_hour = 13, tm_mday = 1, tm_mon = 0, tm_year = 126, tm_wday = 0, tm_yday = 0, tm_isdst = 0\<rparr>"
  have p: "CBS_parse_generalized_time (time_text True 2026 1 1 12 0 0 (Some (True, 1, 30))) (Some example_tm) True = Some (True, Some ?u)"
    by code_simp
  have "is_valid_date 2026 1 1" "is_valid_time 12 0 0"
    by code_simp+
  from time_zone_sign [OF this _ _ _ _ p] show ?thesis
    using p by auto
qed



text \<open>
  C29: The two conversions of object identifiers are inverse to each other: the text of an encoding made from
  a text is that text (with its NUL), and the encoding of a text made from an encoding is that encoding.
\<close>

theorem oid_roundtrip:
  assumes "length cs < 2 ^ 60" and "\<forall>i. alloc i \<noteq> None" and "length bs < 2 ^ 64"
  shows "build n (CBB_add_asn1_oid_from_text 0 cs) alloc = Some (Some bs) \<longleftrightarrow>
    CBS_asn1_oid_to_text bs alloc = Some (Some (cs @ [0]))"
proof
  assume "build n (CBB_add_asn1_oid_from_text 0 cs) alloc = Some (Some bs)"
  then show "CBS_asn1_oid_to_text bs alloc = Some (Some (cs @ [0]))"
    using oid_text_der_text(2) [of n cs alloc bs alloc] assms by simp
next
  assume "CBS_asn1_oid_to_text bs alloc = Some (Some (cs @ [0]))"
  then show "build n (CBB_add_asn1_oid_from_text 0 cs) alloc = Some (Some bs)"
    using oid_der_text_der(2) [of bs alloc cs alloc n] assms by simp
qed

theorem oid_roundtrip_witness:
  "CBS_asn1_oid_to_text [0x88, 0x37, 3] (\<lambda>_. Some []) = Some (Some [0x32, 0x2E, 0x39, 0x39, 0x39, 0x2E, 0x33, 0])"
proof -
  have "oid_ok [2, 999, 3]" "dotted [2, 999, 3] = [0x32, 0x2E, 0x39, 0x39, 0x39, 0x2E, 0x33]" "oid_der [2, 999, 3] = [0x88, 0x37, 3]"
    by code_simp+
  then have "build 8 (CBB_add_asn1_oid_from_text 0 [0x32, 0x2E, 0x39, 0x39, 0x39, 0x2E, 0x33]) (\<lambda>_. Some []) = Some (Some [0x88, 0x37, 3])"
    using oid_from_text_iff [of "[0x32, 0x2E, 0x39, 0x39, 0x39, 0x2E, 0x33]" "\<lambda>_. Some []" 8 "[0x88, 0x37, 3]"] by fastforce
  then show ?thesis
    using oid_roundtrip [of "[0x32, 0x2E, 0x39, 0x39, 0x39, 0x2E, 0x33]" "\<lambda>_. Some []" "[0x88, 0x37, 3]" 8] by simp
qed

text \<open>
  C30: The conversion from BER to DER, exactly. With memory, \<^verbatim>\<open>CBS_asn1_ber_to_der\<close> returns, and it succeeds exactly
  when the input is a sequence of encodings of BER trees nested at most 128 deep. If they are DER already, the result is the first
  of them and the rest of the input remains; otherwise it is the DER of all of them (\<^verbatim>\<open>forest_der\<close>: definite minimal
  lengths, and the fragments of constructed strings joined), in a new buffer, and no input remains. It fails when a fragment of a
  constructed string has another tag than the string.
\<close>

theorem ber_to_der_exact:
  assumes "\<forall>i. alloc i \<noteq> None" and "length inp < 2 ^ 30"
  shows "(\<exists>r. CBS_asn1_ber_to_der alloc inp = Some r) \<and>
    (CBS_asn1_ber_to_der alloc inp = Some (Some (out, stored), rest) \<longleftrightarrow>
     (\<exists>ts. forest_valid ts \<and> forest_height ts \<le> 128 \<and> inp = forest_bytes ts \<and> ber_result ts out stored rest))"
proof (intro conjI iffI)
  show "\<exists>r. CBS_asn1_ber_to_der alloc inp = Some r"
    using ber_to_der_sound [of alloc inp] by blast
  show "\<exists>ts. forest_valid ts \<and> forest_height ts \<le> 128 \<and> inp = forest_bytes ts \<and> ber_result ts out stored rest"
    if "CBS_asn1_ber_to_der alloc inp = Some (Some (out, stored), rest)"
    using ber_to_der_sound [of alloc inp] that by auto
  show "CBS_asn1_ber_to_der alloc inp = Some (Some (out, stored), rest)"
    if "\<exists>ts. forest_valid ts \<and> forest_height ts \<le> 128 \<and> inp = forest_bytes ts \<and> ber_result ts out stored rest"
    using that ber_to_der_complete [OF assms(1)] assms(2) by blast
qed

theorem ber_to_der_exact_witness:
  "CBS_asn1_ber_to_der (\<lambda>_. Some []) example_ber_bytes = Some (Some ([0x30, 5, 4, 3, 0xAA, 0xBB, 0xCC], True), [])"
proof -
  have "forest_valid example_ber"
    by (auto simp: example_ber_def ber_length_def tag_valid_def CBS_ASN1_CONSTRUCTED_def be_bytes_def intro!: exI [of _ 1])
  moreover have "forest_height example_ber \<le> 128 \<and> forest_bytes example_ber = example_ber_bytes"
    by code_simp
  moreover have "\<not> forest_is_der example_ber \<and> forest_der 0 example_ber = Some [0x30, 5, 4, 3, 0xAA, 0xBB, 0xCC]"
    by code_simp
  then have "ber_result example_ber [0x30, 5, 4, 3, 0xAA, 0xBB, 0xCC] True []"
    by (simp add: ber_result_def)
  ultimately have "\<exists>ts. forest_valid ts \<and> forest_height ts \<le> 128 \<and> example_ber_bytes = forest_bytes ts \<and>
      ber_result ts [0x30, 5, 4, 3, 0xAA, 0xBB, 0xCC] True []"
    by metis
  moreover have "length example_ber_bytes < 2 ^ 30" "\<forall>i::nat. Some [] \<noteq> (None :: byte list option)"
    by (simp_all add: example_ber_bytes_def)
  ultimately show ?thesis
    using ber_to_der_exact [of "\<lambda>_. Some []" example_ber_bytes "[0x30, 5, 4, 3, 0xAA, 0xBB, 0xCC]" True "[]"] by simp
qed



text \<open>
  C32: Implicitly tagged strings, exactly. For a tag \<^verbatim>\<open>t\<close> and a string type \<^verbatim>\<open>i\<close>, \<^verbatim>\<open>CBS_get_asn1_implicit_string\<close> returns
  without a failed assertion; it succeeds with its own buffer exactly when the input begins with a constructed element \<^verbatim>\<open>t\<close> of
  elements \<^verbatim>\<open>i\<close>, whose contents it joins, and without one exactly when it begins with a primitive element \<^verbatim>\<open>t\<close>, whose
  contents it returns.
\<close>

theorem implicit_string_exact:
  assumes "\<forall>j. alloc j \<noteq> None" and "is_string_type i" and "i AND CBS_ASN1_CONSTRUCTED = 0" and "t AND CBS_ASN1_CONSTRUCTED = 0"
  shows "(\<exists>r. CBS_get_asn1_implicit_string alloc inp t i = Some r) \<and>
    (CBS_get_asn1_implicit_string alloc inp t i = Some (Some (out, False), rest) \<longleftrightarrow> der_valid (t, out) \<and> inp = der (t, out) @ rest) \<and>
    (CBS_get_asn1_implicit_string alloc inp t i = Some (Some (out, True), rest) \<longleftrightarrow>
     (\<exists>cs. (\<forall>c \<in> set cs. der_valid (i, c)) \<and> der_valid (t OR CBS_ASN1_CONSTRUCTED, fragments i cs) \<and>
       inp = der (t OR CBS_ASN1_CONSTRUCTED, fragments i cs) @ rest \<and> out = concat cs))"
  using implicit_string_sound [OF assms(2-4), of alloc inp] implicit_string_complete [OF assms] by fastforce

theorem implicit_string_exact_witness:
  "CBS_get_asn1_implicit_string (\<lambda>_. Some []) [0xA0, 7, 4, 1, 0xAA, 4, 2, 0xBB, 0xCC, 9] 0x80000000 4 =
   Some (Some ([0xAA, 0xBB, 0xCC], True), [9])"
proof -
  have "\<forall>j::nat. Some [] \<noteq> (None :: byte list option)" "is_string_type 4" "(4 :: u32) AND CBS_ASN1_CONSTRUCTED = 0"
      "(0x80000000 :: u32) AND CBS_ASN1_CONSTRUCTED = 0"
    by (simp_all add: is_string_type_def CBS_ASN1_CONSTRUCTED_def)
  note exact = implicit_string_exact [OF this, of "[0xA0, 7, 4, 1, 0xAA, 4, 2, 0xBB, 0xCC, 9]" "[0xAA, 0xBB, 0xCC]" "[9]"]
  let ?cs = "[[0xAA], [0xBB, 0xCC]] :: byte list list"
  have "[0xA0, 7, 4, 1, 0xAA, 4, 2, 0xBB, 0xCC, 9] = der (0x80000000 OR CBS_ASN1_CONSTRUCTED, fragments 4 ?cs) @ [9]"
    by code_simp
  moreover have "\<forall>c \<in> set ?cs. der_valid (4, c)" "der_valid (0x80000000 OR CBS_ASN1_CONSTRUCTED, fragments 4 ?cs)"
    by (simp_all add: der_valid_def tag_valid_def CBS_ASN1_CONSTRUCTED_def length_der der_header_len_def der_length_def tag_code_def
        tag_number_def CBS_ASN1_TAG_NUMBER_MASK_def)
  ultimately have "\<exists>cs. (\<forall>c \<in> set cs. der_valid (4, c)) \<and> der_valid (0x80000000 OR CBS_ASN1_CONSTRUCTED, fragments 4 cs) \<and>
      [0xA0, 7, 4, 1, 0xAA, 4, 2, 0xBB, 0xCC, 9] = der (0x80000000 OR CBS_ASN1_CONSTRUCTED, fragments 4 cs) @ [9] \<and>
      [0xAA, 0xBB, 0xCC] = concat cs"
    by (intro exI [of _ ?cs]) simp
  then show ?thesis
    using exact by simp
qed

text \<open>
  C33: UTF-8 is exact. The bytes written for a sequence of valid code points (no surrogates and no
  noncharacters) are their UTF-8 encodings, an invalid one is refused without a change, and the reader accepts
  the encoding of a valid code point and nothing else: no overlong form, no stray or missing continuation byte.
\<close>

theorem utf8_exact:
  assumes "list_all is_valid_code_point us" and "\<forall>i. alloc i \<noteq> None" and "length (concat (map utf8 us)) < 2 ^ 64"
  shows "build n (add_all CBB_add_utf8 0 us) alloc = Some (Some (concat (map utf8 us))) \<and>
    get_all CBS_get_utf8 (length us) (concat (map utf8 us)) = (Some us, []) \<and>
    (\<not> is_valid_code_point u \<longrightarrow> CBB_add_utf8 h u st = Some (False, st)) \<and>
    (CBS_get_utf8 cbs = (Some u, rest) \<longleftrightarrow> is_valid_code_point u \<and> cbs = utf8 u @ rest)"
proof -
  have b: "build n (add_all CBB_add_utf8 0 us) alloc = Some (Some (concat (map utf8 us)))"
    using assms by (intro w_utf8.build_succeeds) auto
  then have "get_all CBS_get_utf8 (length us) (concat (map utf8 us)) = (Some us, [])"
    using w_utf8.build_get_all [OF assms(1) b, of "[]"] by simp
  moreover have "\<not> is_valid_code_point u \<Longrightarrow> CBB_add_utf8 h u st = Some (False, st)"
    by (simp add: CBB_add_utf8_def)
  ultimately show ?thesis
    using b by (simp add: get_utf8_iff)
qed

theorem utf8_exact_witness:
  "build 4 (add_all CBB_add_utf8 0 [0x41, 0xE9, 0x20AC, 0x1F600]) (\<lambda>_. Some []) =
     Some (Some [0x41, 0xC3, 0xA9, 0xE2, 0x82, 0xAC, 0xF0, 0x9F, 0x98, 0x80]) \<and>
   get_all CBS_get_utf8 4 [0x41, 0xC3, 0xA9, 0xE2, 0x82, 0xAC, 0xF0, 0x9F, 0x98, 0x80] = (Some [0x41, 0xE9, 0x20AC, 0x1F600], [])"
proof -
  have e: "concat (map utf8 [0x41, 0xE9, 0x20AC, 0x1F600]) = [0x41, 0xC3, 0xA9, 0xE2, 0x82, 0xAC, 0xF0, 0x9F, 0x98, 0x80]"
    by (simp add: utf8_def conts_short)
  have v: "list_all is_valid_code_point [0x41, 0xE9, 0x20AC, 0x1F600]"
    by code_simp
  have l: "length [0x41, 0xE9, 0x20AC, 0x1F600 :: u32] = 4"
    by simp
  show ?thesis
    using utf8_exact [OF v, of "\<lambda>_. Some []" 4] unfolding e l by simp
qed

text \<open>
  C34: Stacks are memory safe and well formed. Whatever sequence of operations is applied to a new stack, with
  any comparison function (even one that is no order), any callback and any failures of the allocator: no
  access is outside the array, no assertion of the sort and the search fails, and the stack has fewer elements
  than its capacity and at most \<^verbatim>\<open>INT_MAX\<close>.
\<close>

theorem stack_safe:
  "\<exists>s. run_ops call xs (OPENSSL_sk_new True True cmp) = Some (Some s) \<and> wf_stack s \<and>
    OPENSSL_sk_find call (Some s) p \<noteq> None \<and> OPENSSL_sk_value (Some s) i \<noteq> None"
proof -
  obtain s where "run_ops call xs (OPENSSL_sk_new True True cmp) = Some (Some s)" "wf_stack s"
    using new_contract [of cmp] run_ops_wf [of _ call xs] by metis
  then show ?thesis
    using find_safe [of s call p] value_contract [of s i] by simp
qed

text \<open>
  C35: A stack refines a list: seen through its elements, each operation is the operation on lists. An
  insertion fails exactly when the stack is full or needs to grow and the allocation fails, and then leaves the
  stack as it was.
\<close>

theorem stack_refines_lists:
  assumes "wf_stack s"
  defines "xs \<equiv> elems s"
  shows "view (OPENSSL_sk_insert realloc (Some s) p i) =
      Some (if can_insert realloc s then (st_num s + 1, Some (take (unat i) xs @ p # drop (unat i) xs)) else (0, Some xs)) \<and>
    view (OPENSSL_sk_push realloc (Some s) p) =
      Some (if can_insert realloc s then (st_num s + 1, Some (xs @ [p])) else (0, Some xs)) \<and>
    view (OPENSSL_sk_delete (Some s) i) =
      Some (if unat i < length xs then (xs ! unat i, Some (take (unat i) xs @ drop (unat i + 1) xs)) else (0, Some xs)) \<and>
    view (OPENSSL_sk_delete_ptr (Some s) p) = Some (if p \<in> set xs then p else 0, Some (remove1 p xs)) \<and>
    view (OPENSSL_sk_shift (Some s)) = Some (case xs of [] \<Rightarrow> (0, Some []) | y # ys \<Rightarrow> (y, Some ys)) \<and>
    view (OPENSSL_sk_pop (Some s)) = Some (if xs = [] then (0, Some []) else (last xs, Some (butlast xs))) \<and>
    view (OPENSSL_sk_set (Some s) i p) = Some (if unat i < length xs then (p, Some (xs[unat i := p])) else (0, Some xs)) \<and>
    OPENSSL_sk_value (Some s) i = Some (if unat i < length xs then xs ! unat i else 0)"
  unfolding xs_def using assms(1)
  by (simp add: view_insert view_push view_delete view_delete_ptr view_shift view_pop view_set value_contract)

theorem stack_refines_lists_witness:
  "view (OPENSSL_sk_insert (Some []) (Some example_stack) 8 1) = Some (4, Some [7, 8, 9, 7]) \<and>
   view (OPENSSL_sk_delete_ptr (Some example_stack) 7) = Some (7, Some [9, 7])"
proof -
  have wf: "wf_stack example_stack"
    by (simp add: wf_stack_def example_stack_def)
  have e: "elems example_stack = [7, 9, 7]"
    by (simp add: elems_def example_stack_def)
  have "can_insert (Some []) example_stack" "st_num example_stack + 1 = 4"
    by (simp_all add: can_insert_def example_stack_def INT_MAX_def)
  then show ?thesis
    using stack_refines_lists [OF wf, of "Some []" 8 1] stack_refines_lists [OF wf, of None 7 0] unfolding e
    by simp
qed

text \<open>
  C36: Sorting and searching. When the comparison functions are total preorders, then after any sequence of
  operations other than \<^verbatim>\<open>OPENSSL_sk_set\<close> the flag \<^verbatim>\<open>sorted\<close> is the truth; \<^verbatim>\<open>OPENSSL_sk_sort\<close> returns and permutes the
  elements into ascending order; and \<^verbatim>\<open>OPENSSL_sk_find\<close>, by binary search or not, finds the first match.
\<close>

theorem stack_sort_find:
  assumes "\<And>c x y. c \<noteq> 0 \<Longrightarrow> call c x y < 0 \<longleftrightarrow> 0 < call c y x"
    and "\<And>c x y z. c \<noteq> 0 \<Longrightarrow> call c x y \<le> 0 \<Longrightarrow> call c y z \<le> 0 \<Longrightarrow> call c x z \<le> 0"
    and "\<forall>x \<in> set ops. \<not> overwrites x" and "run_ops call ops (OPENSSL_sk_new True True cmp) = Some (Some s)"
  shows "(st_sorted s \<longrightarrow> ascending (call (st_comp s)) (elems s)) \<and>
    OPENSSL_sk_find call (Some s) p = Some (map_option of_nat (first_index (is_match call s p) (elems s))) \<and>
    (\<exists>s'. OPENSSL_sk_sort call (Some s) = Some (Some s') \<and> mset (elems s') = mset (elems s) \<and>
      (st_comp s \<noteq> 0 \<longrightarrow> ascending (call (st_comp s)) (elems s')))"
proof -
  have cmp: "c \<noteq> 0 \<Longrightarrow> comparator (call c)" for c
    using assms(1,2) by unfold_locales
  obtain s0 where s0: "OPENSSL_sk_new True True cmp = Some s0" "wf_stack s0" "flag_true call s0"
    using new_contract [of cmp] flag_true_unsorted by blast
  then have s: "wf_stack s" "flag_true call s"
    using run_ops_flag [of call, OF cmp s0(2,3) assms(3)] assms(4) by simp_all
  then have truth: "st_sorted s \<Longrightarrow> ascending (call (st_comp s)) (elems s)"
    by (simp add: flag_true_def)
  then show ?thesis
    using find_contract [of s call, OF s(1) cmp truth] sort_contract [of s call, OF s(1) cmp truth] by blast
qed

theorem stack_sort_find_witness:
  "\<exists>s. run_ops word_order [Push 30 None, Push 10 None, Push 20 None, Sort] (OPENSSL_sk_new True True 1) = Some (Some s) \<and>
    OPENSSL_sk_find word_order (Some s) 20 = Some (Some 1) \<and> elems s = [10, 20, 30]"
proof -
  let ?ops = "[Push 30 None, Push 10 None, Push 20 None, Sort]"
  obtain s where s: "run_ops word_order ?ops (OPENSSL_sk_new True True 1) = Some (Some s)"
    using stack_safe by blast
  have "run_ops word_order ?ops (OPENSSL_sk_new True True 1) =
      Some (Some \<lparr>st_num = 3, st_data = [10, 20, 30, 0], st_sorted = True, st_num_alloc = 4, st_comp = 1\<rparr>)"
    by code_simp
  then have "s = \<lparr>st_num = 3, st_data = [10, 20, 30, 0], st_sorted = True, st_num_alloc = 4, st_comp = 1\<rparr>"
    unfolding s by (simp only: option.inject)
  then have e: "elems s = [10, 20, 30]" "st_comp s = 1"
    by (simp_all add: elems_def)
  have "OPENSSL_sk_find word_order (Some s) 20 = Some (map_option of_nat (first_index (is_match word_order s 20) (elems s)))"
    using stack_sort_find [of word_order ?ops 1 s 20] s by (simp add: word_order_def)
  then show ?thesis
    using s e by (simp add: is_match_def word_order_def)
qed

text \<open>
  C37: A SET OF comes out in DER order. A client that writes the elements in any order and then calls
  \<^verbatim>\<open>CBB_flush_asn1_set_of\<close> gets the element whose contents are the encodings in ascending order, the same for
  every order of writing and every sorting algorithm, or no message at all; it gets the message when no
  allocation fails.
\<close>

theorem set_of_canonical:
  assumes "items_fit is" and "items_bytes is = concat (map der els)" and "list_all der_valid els"
    and "length (items_bytes is) < 2 ^ 32 - 1"
    and "mset es = mset (map der els)" and "ascending compare_set_of_element es"
  shows "(build n (write_set_of 0 t is) alloc = Some None \<or> build n (write_set_of 0 t is) alloc = Some (Some (der (t, concat es)))) \<and>
    ((\<forall>i. alloc i \<noteq> None) \<longrightarrow> build n (write_set_of 0 t is) alloc = Some (Some (der (t, concat es))))"
proof -
  have es: "set_of_contents els = concat es"
    using qsort_unique [OF assms(6,5)] by (simp add: set_of_contents_def)
  show ?thesis
    using build_set_of [OF assms(1,2,4,3), of n t alloc] unfolding es by blast
qed

theorem set_of_canonical_witness:
  "build 1 (write_set_of 0 0x20000011 [Element 2 [Bytes [5]], Element 1 [Bytes [0xff]], Element 2 [Bytes [3]]]) (\<lambda>_. Some []) =
     Some (Some [0x31, 9, 1, 1, 0xff, 2, 1, 3, 2, 1, 5])"
proof -
  let ?is = "[Element 2 [Bytes [5]], Element 1 [Bytes [0xff]], Element 2 [Bytes [3]]]" and ?els = "[(2, [5]), (1, [0xff]), (2, [3])]"
  let ?es = "[[1, 1, 0xff], [2, 1, 3], [2, 1, 5]] :: byte list list"
  have d: "der (2, [5]) = [2, 1, 5]" "der (1, [0xff]) = [1, 1, 0xff]" "der (2, [3]) = [2, 1, 3]"
    "der (0x20000011, concat ?es) = [0x31, 9, 1, 1, 0xff, 2, 1, 3, 2, 1, 5]"
    by code_simp+
  have "items_fit ?is" "items_bytes ?is = concat (map der ?els)" "length (items_bytes ?is) < 2 ^ 32 - 1"
    by (simp_all add: d)
  moreover have "list_all der_valid ?els"
    by (simp add: der_valid_def) code_simp
  moreover have "mset ?es = mset (map der ?els)"
    by (simp add: d)
  moreover have "ascending compare_set_of_element ?es"
    by simp
  ultimately show ?thesis
    using set_of_canonical [of ?is ?els ?es 1 "0x20000011" "\<lambda>_. Some []"] unfolding d by simp
qed

text \<open>
  C38: A deep copy leaks nothing. With a copy function that returns a fresh copy or fails, and a free function
  that gives a copy back, \<^verbatim>\<open>OPENSSL_sk_deep_copy\<close> either fails and every copy it made is free again, or returns a
  stack whose elements are exactly the new copies, with \<^verbatim>\<open>NULL\<close> where the original has \<^verbatim>\<open>NULL\<close>.
\<close>

theorem deep_copy_no_leak:
  assumes "fresh_copies copy" and "wf_stack s"
  shows "\<exists>r live'. OPENSSL_sk_deep_copy zalloc memdup (Some s) copy (\<lambda>p u. u - {p}) live = Some (r, live') \<and>
    (case r of
       None \<Rightarrow> live' = live
     | Some s' \<Rightarrow> wf_stack s' \<and> live' = live \<union> (set (elems s') - {0}) \<and> live \<inter> (set (elems s') - {0}) = {} \<and>
         list_all2 (\<lambda>x y. x = 0 \<longleftrightarrow> y = 0) (elems s) (elems s'))"
  by (rule deep_copy_contract [OF assms])

theorem deep_copy_no_leak_witness:
  "OPENSSL_sk_deep_copy True True (Some example_stack) example_copy (\<lambda>p u. u - {p}) {} = Some (None, {})"
proof -
  have "fresh_copies example_copy"
    by (auto simp: fresh_copies_def example_copy_def Let_def)
  moreover have "wf_stack example_stack"
    by (simp add: wf_stack_def example_stack_def)
  ultimately have "\<exists>r live'. OPENSSL_sk_deep_copy True True (Some example_stack) example_copy (\<lambda>p u. u - {p}) {} = Some (r, live') \<and>
    (r = None \<longrightarrow> live' = {})"
    using deep_copy_no_leak [of example_copy example_stack True True "{}"] by fastforce
  moreover have "fst (the (OPENSSL_sk_deep_copy True True (Some example_stack) example_copy (\<lambda>p u. u - {p}) {})) = None"
    by code_simp
  ultimately show ?thesis
    by auto
qed

text \<open>
  C39: The hash table is a set of elements that differ by the comparison function, whatever resizing does to its
  chains. For a table in good order, a comparison that is an equivalence and a hash that respects it, every
  operation returns with a table in good order: \<^verbatim>\<open>OPENSSL_lh_retrieve\<close> finds the element equal to \<^verbatim>\<open>p\<close>, or null when
  there is none; \<^verbatim>\<open>OPENSSL_lh_insert\<close> puts \<^verbatim>\<open>p\<close> in its place and returns it, or changes nothing when memory runs out;
  \<^verbatim>\<open>OPENSSL_lh_delete\<close> removes it and returns it; and the counter is the number of elements.
\<close>

theorem lhash_refines_set:
  assumes "wf_lhash H C lh" and "hash_laws H C" and "unat (num_items lh) + 1 < 2 ^ 64"
  shows "(\<exists>x. OPENSSL_lh_retrieve H C lh p = Some x \<and> found_or_null C lh p x) \<and>
    (\<exists>ok old lh'. OPENSSL_lh_insert malloc zalloc H C lh p = Some (ok, old, lh') \<and> wf_lhash H C lh' \<and> found_or_null C lh p old \<and>
      (ok \<longrightarrow> lh_members lh' = insert p {y \<in> lh_members lh. C (lh_comp lh) y p \<noteq> 0}) \<and>
      (\<not> ok \<longrightarrow> \<not> malloc \<and> lh' = lh \<and> (\<forall>y \<in> lh_members lh. C (lh_comp lh) y p \<noteq> 0))) \<and>
    (\<exists>old lh'. OPENSSL_lh_delete zalloc H C lh p = Some (old, lh') \<and> wf_lhash H C lh' \<and> found_or_null C lh p old \<and>
      lh_members lh' = {y \<in> lh_members lh. C (lh_comp lh) y p \<noteq> 0}) \<and>
    unat (OPENSSL_lh_num_items lh) = card (lh_members lh)"
  using lh_retrieve_contract [OF assms(1,2), of p] lh_insert_contract [OF assms, of malloc zalloc p]
    lh_delete_contract [OF assms(1,2), of zalloc p] card_members [OF assms(1,2)]
  unfolding OPENSSL_lh_num_items_def by blast

theorem lhash_refines_set_witness:
  "\<exists>lh'. OPENSSL_lh_insert True True low_hash low_cmp example_table 0x201 = Some (True, 0x101, lh') \<and> lh_members lh' = {0x201, 0x111}"
proof -
  note wf = wf_example_table and laws = low_laws
  have m: "lh_members example_table = {0x101, 0x111}"
    by code_simp
  show ?thesis
    using lhash_refines_set [OF wf laws, of "0x201" True True] m
    by (auto simp: example_table_def found_or_null_def low_cmp_def)
qed

text \<open>
  C40: Traversal of a hash table returns and calls the callback on every element exactly once, also when the
  callback deletes from the table the elements it is called on: \<^verbatim>\<open>OPENSSL_lh_doall_arg\<close> ends with the state that calling
  the callback on the list of the elements leaves (\<^verbatim>\<open>run_steps\<close>), the table holds the elements it kept, and the nesting depth,
  a counter that saturates, is that of before unless it has saturated.
\<close>

theorem lhash_doall:
  assumes "wf_lhash H C lh" and "hash_laws H C"
  shows "\<exists>lh'. OPENSSL_lh_doall_arg zalloc (Some lh) (visitor H C zalloc step) u =
      Some (Some lh', snd (run_steps step (map it_data (lh_items lh)) u)) \<and>
    wf_lhash H C lh' \<and> lh_members lh' = set (fst (run_steps step (map it_data (lh_items lh)) u)) \<and>
    set (map it_data (lh_items lh)) = lh_members lh \<and> distinct (map it_data (lh_items lh)) \<and>
    callback_depth lh' = (if callback_depth lh < UINT_MAX - 1 then callback_depth lh else UINT_MAX)"
  using doall_contract [OF assms, of zalloc step u] distinct_members [OF assms] by (simp add: lh_members_def)

theorem lhash_doall_witness:
  "\<exists>lh'. OPENSSL_lh_doall_arg True (Some example_table) (visitor low_hash low_cmp True collect_and_drop) [] = Some (Some lh', [0x101, 0x111]) \<and>
    lh_members lh' = {0x111} \<and> callback_depth lh' = 0"
proof -
  note wf = wf_example_table and laws = low_laws
  have "run_steps collect_and_drop (map it_data (lh_items example_table)) [] = ([0x111], [0x101, 0x111])"
    by code_simp
  then show ?thesis
    using lhash_doall [OF wf laws, of True collect_and_drop "[]"] by (auto simp: example_table_def UINT_MAX_def)
qed

text \<open>
  \<^verbatim>\<open>OPENSSL_sk_set\<close> keeps the flag \<^verbatim>\<open>sorted\<close>: after it, the binary search misses an element that is there.
\<close>

lemma set_keeps_sorted_flag:
  "Option.bind (run_ops (\<lambda>c x y. uint x - uint y) [Push 10 None, Push 20 None, Sort, Set_value 1 5] (OPENSSL_sk_new True True 1))
     (\<lambda>sk. Option.bind (OPENSSL_sk_find (\<lambda>c x y. uint x - uint y) sk 5) (\<lambda>r. Some (r, map_option elems sk))) =
   Some (None, Some [10, 5])"
  by code_simp

end
